(* ===== verification/Prelude.thy ===== *)
theory Prelude
  imports Main "HOL-Library.Word"
begin

unbundle bit_operations_syntax

text \<open>
  Shared vocabulary of the development.

  \<^item> The machine integers of \<^verbatim>\<open>types.h\<close>: \<open>uchar\<close>, \<open>ushort\<close> and \<open>uint\<close> are words of
    8, 16 and 32 bits, so that additions wrap as they do in the C code.
  \<^item> The result of running a piece of kernel code: it returns a value (\<open>Ret\<close>), or it stops,
    because \<^verbatim>\<open>panic\<close> was called, because it spins on a lock another CPU holds, or because the
    process went to sleep. A stopped run keeps the state in which it stopped.
  \<^item> The combinators that thread the kernel state through a function body.
  \<^item> The search loops over arrays, and little-endian fields of byte blocks.
\<close>

section \<open>Machine integers\<close>

type_synonym uchar = "8 word"
type_synonym ushort = "16 word"
type_synonym uint = "32 word"

section \<open>Results of kernel code\<close>

datatype stop =
    Panic string
  | Spin
  | Sleeping

datatype ('a, 's) res =
    Ret 'a 's
  | Stop stop 's

type_synonym ('s, 'a) km = "'s \<Rightarrow> ('a, 's) res"

definition ret :: "'a \<Rightarrow> ('s, 'a) km" where
  "ret x s = Ret x s"

definition bnd :: "('s, 'a) km \<Rightarrow> ('a \<Rightarrow> ('s, 'b) km) \<Rightarrow> ('s, 'b) km" where
  "bnd m f s = (case m s of Ret a s' \<Rightarrow> f a s' | Stop e s' \<Rightarrow> Stop e s')"

definition thn :: "('s, 'a) km \<Rightarrow> ('s, 'b) km \<Rightarrow> ('s, 'b) km" where
  "thn m k = bnd m (\<lambda>_. k)"

definition gets :: "('s \<Rightarrow> 'a) \<Rightarrow> ('s, 'a) km" where
  "gets f s = Ret (f s) s"

definition upd :: "('s \<Rightarrow> 's) \<Rightarrow> ('s, unit) km" where
  "upd f s = Ret () (f s)"

definition panic :: "string \<Rightarrow> ('s, 'a) km" where
  "panic msg s = Stop (Panic msg) s"

definition stop :: "stop \<Rightarrow> ('s, 'a) km" where
  "stop e s = Stop e s"

text \<open>A \<^verbatim>\<open>for\<close> loop without early exit.\<close>

fun for_each :: "'x list \<Rightarrow> ('x \<Rightarrow> ('s, unit) km) \<Rightarrow> ('s, unit) km" where
  "for_each [] body = ret ()"
| "for_each (x # xs) body = thn (body x) (for_each xs body)"

text \<open>
  Symbolic execution: the rules that run a body one primitive at a time. Collected in
  \<open>exec\<close>, together with the laws of the operations that components prove.
\<close>

named_theorems exec

lemma ret_run [exec, simp]: "ret x s = Ret x s"
  by (simp add: ret_def)

lemma gets_run [exec, simp]: "gets f s = Ret (f s) s"
  by (simp add: gets_def)

lemma upd_run [exec, simp]: "upd f s = Ret () (f s)"
  by (simp add: upd_def)

lemma panic_run [exec, simp]: "panic m s = Stop (Panic m) s"
  by (simp add: panic_def)

lemma stop_run [exec, simp]: "stop e s = Stop e s"
  by (simp add: stop_def)

lemma bnd_Ret [exec]: "m s = Ret a t \<Longrightarrow> bnd m f s = f a t"
  by (simp add: bnd_def)

lemma bnd_Stop [exec]: "m s = Stop e t \<Longrightarrow> bnd m f s = Stop e t"
  by (simp add: bnd_def)

lemma thn_Ret [exec]: "m s = Ret a t \<Longrightarrow> thn m k s = k t"
  by (simp add: thn_def bnd_Ret)

lemma thn_Stop [exec]: "m s = Stop e t \<Longrightarrow> thn m k s = Stop e t"
  by (simp add: thn_def bnd_Stop)

lemma bnd_prim [exec, simp]:
  "bnd (ret x) f s = f x s"
  "bnd (gets g) f s = f (g s) s"
  "bnd (upd u) h s = h () (u s)"
  "bnd (panic m) f s = Stop (Panic m) s"
  "bnd (stop e) f s = Stop e s"
  "bnd (Ret x) f s = f x s"
  "bnd (Stop e) f s = Stop e s"
  by (simp_all add: bnd_def)

lemma thn_prim [exec, simp]:
  "thn (ret x) k s = k s"
  "thn (gets g) k s = k s"
  "thn (upd u) k s = k (u s)"
  "thn (panic m) k s = Stop (Panic m) s"
  "thn (stop e) k s = Stop e s"
  "thn (Ret x) k s = k s"
  "thn (Stop e) k s = Stop e s"
  by (simp_all add: thn_def)

lemma bnd_if [exec]: "bnd (if b then m else n) f s = (if b then bnd m f s else bnd n f s)"
  by simp

lemma thn_if [exec]: "thn (if b then m else n) k s = (if b then thn m k s else thn n k s)"
  by simp

lemma bnd_assoc [simp]: "bnd (bnd m f) g = bnd m (\<lambda>x. bnd (f x) g)"
  by (rule ext) (simp add: bnd_def split: res.splits)

lemma thn_assoc [simp]: "thn (thn m n) k = thn m (thn n k)"
  by (simp add: thn_def)

lemma bnd_thn [simp]: "bnd (thn m n) f = thn m (bnd n f)"
  by (simp add: thn_def)

lemma thn_bnd [simp]: "thn (bnd m f) k = bnd m (\<lambda>x. thn (f x) k)"
  by (simp add: thn_def)

lemma bnd_Ret_iff:
  "bnd m f s = Ret b u \<longleftrightarrow> (\<exists>a t. m s = Ret a t \<and> f a t = Ret b u)"
  by (auto simp: bnd_def split: res.splits)

lemma thn_Ret_iff:
  "thn m k s = Ret b u \<longleftrightarrow> (\<exists>a t. m s = Ret a t \<and> k t = Ret b u)"
  by (simp add: thn_def bnd_Ret_iff)

lemma bnd_RetE:
  assumes "bnd m f s = Ret b u"
  obtains a t where "m s = Ret a t" and "f a t = Ret b u"
  using assms by (auto simp: bnd_Ret_iff)

lemma thn_RetE:
  assumes "thn m k s = Ret b u"
  obtains a t where "m s = Ret a t" and "k t = Ret b u"
  using assms by (auto simp: thn_Ret_iff)

lemma for_each_append:
  "for_each (xs @ ys) body = thn (for_each xs body) (for_each ys body)"
proof (induction xs)
  case Nil
  show ?case by (rule ext) simp
next
  case (Cons x xs)
  then show ?case by (simp add: thn_assoc)
qed

text \<open>An invariant of a loop whose body always returns.\<close>

lemma for_each_inv:
  assumes "I s"
    and "\<And>x s. x \<in> set xs \<Longrightarrow> I s \<Longrightarrow> \<exists>s'. body x s = Ret () s' \<and> I s'"
  shows "\<exists>s'. for_each xs body s = Ret () s' \<and> I s'"
  using assms
proof (induction xs arbitrary: s)
  case Nil
  then show ?case by simp
next
  case (Cons x xs)
  from Cons.prems obtain t where t: "body x s = Ret () t" "I t"
    by (metis list.set_intros(1))
  from Cons.IH [OF t(2)] Cons.prems(2) obtain u where "for_each xs body t = Ret () u" "I u"
    by (metis list.set_intros(2))
  with t show ?case by (simp add: thn_Ret)
qed

section \<open>Invariants of kernel code\<close>

text \<open>
  \<open>preserves I m\<close>: a run of \<open>m\<close> that starts in \<open>I\<close> ends in \<open>I\<close>, whether it returns or stops. The rules
  follow the structure of a body; the collection \<open>pres\<close> has them, with what components prove of
  their operations.
\<close>

primrec fin :: "('a, 's) res \<Rightarrow> 's" where
  "fin (Ret a s) = s"
| "fin (Stop e s) = s"

definition preserves :: "('s \<Rightarrow> bool) \<Rightarrow> ('s, 'a) km \<Rightarrow> bool" where
  "preserves I m \<longleftrightarrow> (\<forall>s. I s \<longrightarrow> I (fin (m s)))"

definition keeps :: "('s \<Rightarrow> 'b) \<Rightarrow> ('s, 'a) km \<Rightarrow> bool" where
  "keeps f m \<longleftrightarrow> (\<forall>s. f (fin (m s)) = f s)"

named_theorems pres

lemma preservesD: "preserves I m \<Longrightarrow> I s \<Longrightarrow> I (fin (m s))"
  by (simp add: preserves_def)

lemma preserves_prim [pres]:
  "preserves I (ret x)" "preserves I (gets g)" "preserves I (panic e)" "preserves I (stop st)"
  by (simp_all add: preserves_def)

lemma preserves_upd: "(\<And>s. I s \<Longrightarrow> I (u s)) \<Longrightarrow> preserves I (upd u)"
  by (simp add: preserves_def)

lemma preserves_bnd [pres]:
  "preserves I m \<Longrightarrow> (\<And>a. preserves I (g a)) \<Longrightarrow> preserves I (bnd m g)"
  by (auto simp: preserves_def bnd_def split: res.splits)

lemma preserves_thn [pres]: "preserves I m \<Longrightarrow> preserves I k \<Longrightarrow> preserves I (thn m k)"
  by (simp add: thn_def preserves_bnd)

lemma preserves_if [pres]:
  "(b \<Longrightarrow> preserves I m) \<Longrightarrow> (\<not> b \<Longrightarrow> preserves I n) \<Longrightarrow> preserves I (if b then m else n)"
  by simp

lemma preserves_option [pres]:
  "preserves I m \<Longrightarrow> (\<And>a. preserves I (n a)) \<Longrightarrow> preserves I (case x of None \<Rightarrow> m | Some a \<Rightarrow> n a)"
  by (cases x) simp_all

lemma preserves_for_each [pres]:
  "(\<And>x. preserves I (body x)) \<Longrightarrow> preserves I (for_each xs body)"
  by (induction xs) (simp_all add: pres)

lemma keeps_iff: "keeps f m \<longleftrightarrow> (\<forall>c. preserves (\<lambda>s. f s = c) m)"
  by (auto simp: keeps_def preserves_def)

lemma keeps_prim [pres]:
  "keeps f (ret x)" "keeps f (gets g)" "keeps f (panic e)" "keeps f (stop st)"
  by (simp_all add: keeps_def)

lemma keeps_upd: "(\<And>s. f (u s) = f s) \<Longrightarrow> keeps f (upd u)"
  by (simp add: keeps_def)

lemma keeps_bnd [pres]: "keeps f m \<Longrightarrow> (\<And>a. keeps f (g a)) \<Longrightarrow> keeps f (bnd m g)"
  by (simp add: keeps_iff preserves_bnd)

lemma keeps_thn [pres]: "keeps f m \<Longrightarrow> keeps f k \<Longrightarrow> keeps f (thn m k)"
  by (simp add: keeps_iff preserves_thn)

lemma keeps_if [pres]:
  "(b \<Longrightarrow> keeps f m) \<Longrightarrow> (\<not> b \<Longrightarrow> keeps f n) \<Longrightarrow> keeps f (if b then m else n)"
  by simp

lemma keeps_option [pres]:
  "keeps f m \<Longrightarrow> (\<And>a. keeps f (n a)) \<Longrightarrow> keeps f (case x of None \<Rightarrow> m | Some a \<Rightarrow> n a)"
  by (cases x) simp_all

lemma keeps_for_each [pres]: "(\<And>x. keeps f (body x)) \<Longrightarrow> keeps f (for_each xs body)"
  by (induction xs) (simp_all add: pres)

lemma keeps_Ret: "keeps f m \<Longrightarrow> m s = Ret a t \<Longrightarrow> f t = f s"
  by (metis keeps_def fin.simps(1))

lemma keeps_preserves: "keeps f m \<Longrightarrow> preserves (\<lambda>s. P (f s)) m"
  by (simp add: keeps_def preserves_def)

section \<open>Search loops over arrays\<close>

text \<open>
  \<^verbatim>\<open>for(p = a; p < &a[N]; p++) if(cond(p)) goto found;\<close> as the index of the first element
  that satisfies the condition.
\<close>

fun first_idx :: "('a \<Rightarrow> bool) \<Rightarrow> 'a list \<Rightarrow> nat option" where
  "first_idx P [] = None"
| "first_idx P (x # xs) = (if P x then Some 0 else map_option Suc (first_idx P xs))"

lemma first_idx_None: "first_idx P xs = None \<longleftrightarrow> (\<forall>x \<in> set xs. \<not> P x)"
  by (induction xs) auto

lemma first_idx_Some:
  "first_idx P xs = Some i \<longleftrightarrow> i < length xs \<and> P (xs ! i) \<and> (\<forall>j < i. \<not> P (xs ! j))"
proof (induction xs arbitrary: i)
  case Nil
  then show ?case by simp
next
  case (Cons x xs)
  show ?case
  proof (cases i)
    case 0
    then show ?thesis by simp
  next
    case (Suc k)
    have "(\<forall>j < Suc k. \<not> P ((x # xs) ! j)) \<longleftrightarrow> \<not> P x \<and> (\<forall>j < k. \<not> P (xs ! j))"
      by (auto simp: less_Suc_eq_0_disj)
    with Suc show ?thesis
      by (auto simp: Cons.IH)
  qed
qed

lemma first_idx_bound: "first_idx P xs = Some i \<Longrightarrow> i < length xs"
  by (simp add: first_idx_Some)

lemma first_idx_sat: "first_idx P xs = Some i \<Longrightarrow> P (xs ! i)"
  by (simp add: first_idx_Some)

lemma nth_upd: "j < length xs \<Longrightarrow> xs[i := x] ! j = (if i = j then x else xs ! j)"
  by (simp add: nth_list_update)

lemma first_idx_cong:
  "(\<And>x. x \<in> set xs \<Longrightarrow> P x = Q x) \<Longrightarrow> first_idx P xs = first_idx Q xs"
  by (induction xs) auto

end
