(* ===== verification/Spinlock.thy ===== *)
theory Spinlock
  imports Prelude
begin

unbundle bit_operations_syntax

text \<open>
  Spin locks (\<^verbatim>\<open>spinlock.c\<close>) and the per-CPU bookkeeping they rest on
  (\<^verbatim>\<open>mycpu\<close>, \<^verbatim>\<open>cpuid\<close>, \<^verbatim>\<open>struct cpu\<close>).

  The first part is the code as it is written: every function runs on the processor whose local
  APIC id is \<open>me\<close>, reads and writes that processor's interrupt flag, and finds its
  \<^verbatim>\<open>struct cpu\<close> by scanning \<^verbatim>\<open>cpus\<close>.
  The second part is the abstract lock the rest of the kernel is modelled with: the list of locks
  the running CPU holds. The refinement lemmas show that the code implements it.
  The third part splits \<^verbatim>\<open>acquire\<close> and \<^verbatim>\<open>release\<close> into their atomic memory accesses and lets
  the CPUs interleave.
\<close>

section \<open>The code\<close>

text \<open>The spin locks of the kernel, by the global variable that holds them.\<close>

datatype lockid =
    PtableLock
  | KmemLock
  | BcacheLock
  | LogLock
  | IcacheLock
  | FtableLock
  | IdeLock
  | TicksLock
  | ConsLock
  | PipeLock nat
  | SleepSpin nat

record cpu =
  apicid :: uchar
  started :: bool
  ncli :: int
  intena :: bool
  cpu_proc :: "nat option"

record spinlock =
  locked :: uint
  lk_name :: string
  lk_cpu :: "nat option"
  lk_pcs :: "uint list"

record smp =
  cpus :: "cpu list"
  ncpu :: nat
  eflags_if :: "uchar \<Rightarrow> bool"
  spinlocks :: "lockid \<Rightarrow> spinlock"

definition cli :: "uchar \<Rightarrow> (smp, unit) km" where
  "cli me = upd (\<lambda>s. s\<lparr>eflags_if := (eflags_if s)(me := False)\<rparr>)"

definition sti :: "uchar \<Rightarrow> (smp, unit) km" where
  "sti me = upd (\<lambda>s. s\<lparr>eflags_if := (eflags_if s)(me := True)\<rparr>)"

definition mycpu :: "uchar \<Rightarrow> (smp, nat) km" where
  "mycpu me =
     bnd (gets (\<lambda>s. eflags_if s me)) (\<lambda>ifl.
     if ifl then panic ''mycpu called with interrupts enabled''
     else bnd (gets (\<lambda>s. first_idx (\<lambda>c. apicid c = me) (take (ncpu s) (cpus s)))) (\<lambda>r.
       case r of Some i \<Rightarrow> ret i | None \<Rightarrow> panic ''unknown apicid''))"

definition cpuid :: "uchar \<Rightarrow> (smp, nat) km" where
  "cpuid me = mycpu me"

definition upd_cpu :: "nat \<Rightarrow> (cpu \<Rightarrow> cpu) \<Rightarrow> (smp, unit) km" where
  "upd_cpu i f = upd (\<lambda>s. s\<lparr>cpus := (cpus s)[i := f (cpus s ! i)]\<rparr>)"

definition upd_lock :: "lockid \<Rightarrow> (spinlock \<Rightarrow> spinlock) \<Rightarrow> (smp, unit) km" where
  "upd_lock l f = upd (\<lambda>s. s\<lparr>spinlocks := (spinlocks s)(l := f (spinlocks s l))\<rparr>)"

definition initlock :: "lockid \<Rightarrow> string \<Rightarrow> (smp, unit) km" where
  "initlock l nm = upd_lock l (\<lambda>k. k\<lparr>lk_name := nm, locked := 0, lk_cpu := None\<rparr>)"

definition pushcli :: "uchar \<Rightarrow> (smp, unit) km" where
  "pushcli me =
     bnd (gets (\<lambda>s. eflags_if s me)) (\<lambda>eflags.
     thn (cli me) (
     bnd (mycpu me) (\<lambda>i.
     thn (upd_cpu i (\<lambda>c. if ncli c = 0 then c\<lparr>intena := eflags\<rparr> else c))
         (upd_cpu i (\<lambda>c. c\<lparr>ncli := ncli c + 1\<rparr>)))))"

definition popcli :: "uchar \<Rightarrow> (smp, unit) km" where
  "popcli me =
     bnd (gets (\<lambda>s. eflags_if s me)) (\<lambda>ifl.
     if ifl then panic ''popcli - interruptible''
     else bnd (mycpu me) (\<lambda>i.
     thn (upd_cpu i (\<lambda>c. c\<lparr>ncli := ncli c - 1\<rparr>)) (
     bnd (gets (\<lambda>s. cpus s ! i)) (\<lambda>c.
     if ncli c < 0 then panic ''popcli''
     else if ncli c = 0 \<and> intena c then sti me
     else ret ()))))"

definition holding :: "uchar \<Rightarrow> lockid \<Rightarrow> (smp, bool) km" where
  "holding me l =
     thn (pushcli me) (
     bnd (mycpu me) (\<lambda>i.
     bnd (gets (\<lambda>s. locked (spinlocks s l) \<noteq> 0 \<and> lk_cpu (spinlocks s l) = Some i)) (\<lambda>r.
     thn (popcli me) (ret r))))"

text \<open>
  \<^verbatim>\<open>getcallerpcs\<close> walks the chain of saved frame pointers: \<open>stk\<close> reads a word of memory, and
  \<open>n\<close> counts the slots of \<^verbatim>\<open>pcs[10]\<close> still to fill.
\<close>

fun pcs_from :: "(uint \<Rightarrow> uint) \<Rightarrow> nat \<Rightarrow> uint \<Rightarrow> uint list" where
  "pcs_from stk 0 ebp = []"
| "pcs_from stk (Suc n) ebp =
     (if ebp = 0 \<or> ebp < 0x80000000 \<or> ebp = 0xffffffff then replicate (Suc n) 0
      else stk (ebp + 4) # pcs_from stk n (stk ebp))"

definition getcallerpcs :: "(uint \<Rightarrow> uint) \<Rightarrow> uint \<Rightarrow> uint list" where
  "getcallerpcs stk v = pcs_from stk 10 (v - 8)"

text \<open>
  \<^verbatim>\<open>xchg(&lk->locked, 1)\<close> succeeds when it finds 0. Otherwise the word still holds 1 and the loop
  goes round until another CPU stores 0: the run of this CPU alone spins.
  The argument \<open>v\<close> is the address of the parameter, for \<^verbatim>\<open>getcallerpcs(&lk, lk->pcs)\<close>.
\<close>

definition acquire :: "uchar \<Rightarrow> (uint \<Rightarrow> uint) \<Rightarrow> uint \<Rightarrow> lockid \<Rightarrow> (smp, unit) km" where
  "acquire me stk v l =
     thn (pushcli me) (
     bnd (holding me l) (\<lambda>h.
     if h then panic ''acquire''
     else bnd (gets (\<lambda>s. locked (spinlocks s l))) (\<lambda>old.
     thn (upd_lock l (\<lambda>k. k\<lparr>locked := 1\<rparr>)) (
     if old \<noteq> 0 then stop Spin
     else bnd (mycpu me) (\<lambda>i.
     thn (upd_lock l (\<lambda>k. k\<lparr>lk_cpu := Some i\<rparr>))
         (upd_lock l (\<lambda>k. k\<lparr>lk_pcs := getcallerpcs stk v\<rparr>)))))))"

definition release :: "uchar \<Rightarrow> lockid \<Rightarrow> (smp, unit) km" where
  "release me l =
     bnd (holding me l) (\<lambda>h.
     if \<not> h then panic ''release''
     else thn (upd_lock l (\<lambda>k. k\<lparr>lk_pcs := (lk_pcs k)[0 := 0]\<rparr>)) (
     thn (upd_lock l (\<lambda>k. k\<lparr>lk_cpu := None\<rparr>)) (
     thn (upd_lock l (\<lambda>k. k\<lparr>locked := 0\<rparr>)) (
     popcli me))))"

section \<open>Running one CPU\<close>

text \<open>
  The processor with APIC id \<open>me\<close> is \<^verbatim>\<open>cpus[i]\<close>: the scan in \<^verbatim>\<open>mycpu\<close> stops at \<open>i\<close>.
  \<open>cpu_ok\<close> adds what the lock code keeps true between its calls: nesting is never negative, and
  interrupts are off while any \<^verbatim>\<open>pushcli\<close> is outstanding.
\<close>

definition is_cpu :: "uchar \<Rightarrow> nat \<Rightarrow> smp \<Rightarrow> bool" where
  "is_cpu me i s \<longleftrightarrow>
     first_idx (\<lambda>c. apicid c = me) (take (ncpu s) (cpus s)) = Some i"

definition cpu_ok :: "uchar \<Rightarrow> nat \<Rightarrow> smp \<Rightarrow> bool" where
  "cpu_ok me i s \<longleftrightarrow> is_cpu me i s \<and> 0 \<le> ncli (cpus s ! i)
     \<and> (0 < ncli (cpus s ! i) \<longrightarrow> \<not> eflags_if s me)"

lemma is_cpu_bound: "is_cpu me i s \<Longrightarrow> i < length (cpus s)"
  by (auto simp: is_cpu_def dest: first_idx_bound)

text \<open>Rewriting one field of \<^verbatim>\<open>cpus[i]\<close> does not change which entry the scan finds.\<close>

lemma first_idx_update:
  assumes "P y = P (xs ! i)"
  shows "first_idx P (take n (xs[i := y])) = first_idx P (take n xs)"
  using assms
proof (induction xs arbitrary: n i)
  case Nil
  then show ?case by simp
next
  case (Cons x xs)
  show ?case
  proof (cases n)
    case 0
    then show ?thesis by simp
  next
    case (Suc m)
    with Cons show ?thesis by (cases i) simp_all
  qed
qed

lemma is_cpu_frame [simp]:
  "is_cpu me i (s\<lparr>eflags_if := e\<rparr>) = is_cpu me i s"
  "is_cpu me i (s\<lparr>spinlocks := l\<rparr>) = is_cpu me i s"
  by (simp_all add: is_cpu_def)

lemma mycpu_run: "is_cpu me i s \<Longrightarrow> \<not> eflags_if s me \<Longrightarrow> mycpu me s = Ret i s"
  by (simp add: mycpu_def is_cpu_def)

text \<open>The state after a \<^verbatim>\<open>pushcli\<close> and after a \<^verbatim>\<open>popcli\<close>, as updates of the entry.\<close>

definition pushed :: "uchar \<Rightarrow> nat \<Rightarrow> smp \<Rightarrow> smp" where
  "pushed me i s = s\<lparr>eflags_if := (eflags_if s)(me := False),
     cpus := (cpus s)[i := (cpus s ! i)\<lparr>
       intena := (if ncli (cpus s ! i) = 0 then eflags_if s me else intena (cpus s ! i)),
       ncli := ncli (cpus s ! i) + 1\<rparr>]\<rparr>"

definition popped :: "uchar \<Rightarrow> nat \<Rightarrow> smp \<Rightarrow> smp" where
  "popped me i s = s\<lparr>eflags_if := (eflags_if s)(me := ncli (cpus s ! i) = 1 \<and> intena (cpus s ! i)),
     cpus := (cpus s)[i := (cpus s ! i)\<lparr>ncli := ncli (cpus s ! i) - 1\<rparr>]\<rparr>"

lemma pushcli_run:
  assumes "is_cpu me i s"
  shows "pushcli me s = Ret () (pushed me i s)"
proof -
  have i: "i < length (cpus s)" using assms by (rule is_cpu_bound)
  have "mycpu me (s\<lparr>eflags_if := (eflags_if s)(me := False)\<rparr>)
      = Ret i (s\<lparr>eflags_if := (eflags_if s)(me := False)\<rparr>)"
    using assms by (intro mycpu_run) simp_all
  with i show ?thesis
    by (simp add: pushcli_def cli_def upd_cpu_def bnd_Ret pushed_def)
qed

lemma popcli_run:
  assumes "is_cpu me i s" and "\<not> eflags_if s me" and "0 < ncli (cpus s ! i)"
  shows "popcli me s = Ret () (popped me i s)"
proof -
  have i: "i < length (cpus s)" using assms(1) by (rule is_cpu_bound)
  have e: "(eflags_if s)(me := False) = eflags_if s" using assms(2) by (simp add: fun_upd_idem)
  show ?thesis
    using assms i e
    by (auto simp: popcli_def mycpu_run bnd_Ret upd_cpu_def sti_def popped_def)
qed

lemma popped_pushed:
  assumes "is_cpu me i s" and "\<not> eflags_if s me" and "0 < ncli (cpus s ! i)"
  shows "popped me i (pushed me i s) = s"
proof -
  have i: "i < length (cpus s)" using assms(1) by (rule is_cpu_bound)
  have e: "(eflags_if s)(me := False) = eflags_if s" using assms(2) by (simp add: fun_upd_idem)
  show ?thesis using assms i e by (simp add: popped_def pushed_def)
qed

lemma pushed_sel [simp]:
  "spinlocks (pushed me i s) = spinlocks s"
  "ncpu (pushed me i s) = ncpu s"
  "\<not> eflags_if (pushed me i s) me"
  "is_cpu me j (pushed me i s) = is_cpu me j s"
  by (simp_all add: pushed_def is_cpu_def first_idx_update)

lemma popped_sel [simp]:
  "spinlocks (popped me i s) = spinlocks s"
  "is_cpu me j (popped me i s) = is_cpu me j s"
  by (simp_all add: popped_def is_cpu_def first_idx_update)

lemma pushed_ncli:
  "i < length (cpus s) \<Longrightarrow> ncli (cpus (pushed me i s) ! i) = ncli (cpus s ! i) + 1"
  by (simp add: pushed_def)

lemma popped_ncli:
  "i < length (cpus s) \<Longrightarrow> ncli (cpus (popped me i s) ! i) = ncli (cpus s ! i) - 1"
  by (simp add: popped_def)

lemma popped_if:
  "eflags_if (popped me i s) me \<longleftrightarrow> ncli (cpus s ! i) = 1 \<and> intena (cpus s ! i)"
  by (simp add: popped_def)

text \<open>Inside a critical section \<^verbatim>\<open>holding\<close> reads the lock and leaves the machine as it was.\<close>

lemma holding_run:
  assumes "is_cpu me i s" and "\<not> eflags_if s me" and "0 < ncli (cpus s ! i)"
  shows "holding me l s
    = Ret (locked (spinlocks s l) \<noteq> 0 \<and> lk_cpu (spinlocks s l) = Some i) s"
proof -
  have i: "i < length (cpus s)" using assms(1) by (rule is_cpu_bound)
  have "popcli me (pushed me i s) = Ret () (popped me i (pushed me i s))"
    using assms i by (intro popcli_run) (simp_all add: pushed_ncli)
  with assms show ?thesis
    by (simp add: holding_def pushcli_run thn_Ret bnd_Ret mycpu_run popped_pushed)
qed

definition taken :: "nat \<Rightarrow> uint list \<Rightarrow> spinlock \<Rightarrow> spinlock" where
  "taken i p k = k\<lparr>locked := 1, lk_cpu := Some i, lk_pcs := p\<rparr>"

definition freed :: "spinlock \<Rightarrow> spinlock" where
  "freed k = k\<lparr>lk_pcs := (lk_pcs k)[0 := 0], lk_cpu := None, locked := 0\<rparr>"

lemma acquire_run:
  assumes "is_cpu me i s" and "0 \<le> ncli (cpus s ! i)"
  shows "acquire me stk v l s =
    (if locked (spinlocks s l) \<noteq> 0
     then if lk_cpu (spinlocks s l) = Some i then Stop (Panic ''acquire'') (pushed me i s)
          else Stop Spin ((pushed me i s)\<lparr>spinlocks :=
                 (spinlocks s)(l := (spinlocks s l)\<lparr>locked := 1\<rparr>)\<rparr>)
     else Ret () ((pushed me i s)\<lparr>spinlocks :=
            (spinlocks s)(l := taken i (getcallerpcs stk v) (spinlocks s l))\<rparr>))"
proof -
  have i: "i < length (cpus s)" using assms(1) by (rule is_cpu_bound)
  have h: "holding me l (pushed me i s)
    = Ret (locked (spinlocks s l) \<noteq> 0 \<and> lk_cpu (spinlocks s l) = Some i) (pushed me i s)"
    using assms i by (subst holding_run [where i = i]) (simp_all add: pushed_ncli)
  have m: "mycpu me ((pushed me i s)\<lparr>spinlocks := x\<rparr>) = Ret i ((pushed me i s)\<lparr>spinlocks := x\<rparr>)"
    for x using assms by (intro mycpu_run) simp_all
  show ?thesis
    using assms by (simp add: acquire_def pushcli_run thn_Ret bnd_Ret h m upd_lock_def taken_def)
qed

lemma release_run:
  assumes "is_cpu me i s" and "\<not> eflags_if s me" and "0 < ncli (cpus s ! i)"
  shows "release me l s =
    (if locked (spinlocks s l) \<noteq> 0 \<and> lk_cpu (spinlocks s l) = Some i
     then Ret () (popped me i (s\<lparr>spinlocks := (spinlocks s)(l := freed (spinlocks s l))\<rparr>))
     else Stop (Panic ''release'') s)"
proof -
  have p: "popcli me (s\<lparr>spinlocks := x\<rparr>) = Ret () (popped me i (s\<lparr>spinlocks := x\<rparr>))" for x
    using assms by (intro popcli_run) simp_all
  show ?thesis
    using assms by (simp add: release_def holding_run bnd_Ret upd_lock_def p freed_def)
qed

section \<open>The abstract lock\<close>

text \<open>
  What the rest of the kernel sees of the locks: the list of locks this CPU holds, most recent
  first, and the set of locks some other CPU holds.
\<close>

record mach =
  held :: "lockid list"
  others :: "lockid set"

definition lock_init :: "lockid \<Rightarrow> ('e mach_scheme, unit) km" where
  "lock_init l = upd (\<lambda>s. s\<lparr>held := removeAll l (held s), others := others s - {l}\<rparr>)"

definition lock_acquire :: "lockid \<Rightarrow> ('e mach_scheme, unit) km" where
  "lock_acquire l =
     bnd (gets held) (\<lambda>h.
     if l \<in> set h then panic ''acquire''
     else bnd (gets others) (\<lambda>ot.
     if l \<in> ot then stop Spin else upd (\<lambda>s. s\<lparr>held := l # h\<rparr>)))"

definition lock_release :: "lockid \<Rightarrow> ('e mach_scheme, unit) km" where
  "lock_release l =
     bnd (gets held) (\<lambda>h.
     if l \<in> set h then upd (\<lambda>s. s\<lparr>held := remove1 l h\<rparr>) else panic ''release'')"

definition lock_holding :: "lockid \<Rightarrow> ('e mach_scheme, bool) km" where
  "lock_holding l = gets (\<lambda>s. l \<in> set (held s))"

text \<open>A lock is free for this CPU when neither it nor another CPU holds it.\<close>

definition lock_free :: "lockid \<Rightarrow> 'e mach_scheme \<Rightarrow> bool" where
  "lock_free l s \<longleftrightarrow> l \<notin> set (held s) \<and> l \<notin> others s"

lemma lock_acquire_run [exec]:
  "lock_free l s \<Longrightarrow> lock_acquire l s = Ret () (s\<lparr>held := l # held s\<rparr>)"
  by (simp add: lock_acquire_def lock_free_def)

lemma lock_release_run [exec]:
  "l \<in> set (held s) \<Longrightarrow> lock_release l s = Ret () (s\<lparr>held := remove1 l (held s)\<rparr>)"
  by (simp add: lock_release_def)

lemma thn_acquire [exec]:
  "lock_free l s \<Longrightarrow> thn (lock_acquire l) k s = k (s\<lparr>held := l # held s\<rparr>)"
  by (simp add: thn_Ret lock_acquire_run)

lemma thn_release [exec]:
  "l \<in> set (held s) \<Longrightarrow> thn (lock_release l) k s = k (s\<lparr>held := remove1 l (held s)\<rparr>)"
  by (simp add: thn_Ret lock_release_run)

text \<open>How a state of the machine represents an abstract one, on \<^verbatim>\<open>cpus[i]\<close>.\<close>

definition lk_rel :: "uchar \<Rightarrow> nat \<Rightarrow> smp \<Rightarrow> 'e mach_scheme \<Rightarrow> bool" where
  "lk_rel me i s a \<longleftrightarrow> cpu_ok me i s \<and> distinct (held a)
     \<and> ncli (cpus s ! i) = int (length (held a))
     \<and> (\<forall>l. l \<in> set (held a) \<longleftrightarrow> locked (spinlocks s l) \<noteq> 0 \<and> lk_cpu (spinlocks s l) = Some i)
     \<and> (\<forall>l. l \<in> others a \<longleftrightarrow> locked (spinlocks s l) \<noteq> 0 \<and> lk_cpu (spinlocks s l) \<noteq> Some i)"

lemma lk_relI:
  assumes "cpu_ok me i s" and "distinct (held a)" and "ncli (cpus s ! i) = int (length (held a))"
    and "\<And>l. (l \<in> set (held a)) = (locked (spinlocks s l) \<noteq> 0 \<and> lk_cpu (spinlocks s l) = Some i)"
    and "\<And>l. (l \<in> others a) = (locked (spinlocks s l) \<noteq> 0 \<and> lk_cpu (spinlocks s l) \<noteq> Some i)"
  shows "lk_rel me i s a"
  unfolding lk_rel_def using assms by blast

lemma cpu_ok_pushed: "cpu_ok me i s \<Longrightarrow> cpu_ok me i (pushed me i s)"
  by (auto simp: cpu_ok_def pushed_ncli is_cpu_bound)

lemma cpu_ok_popped:
  "is_cpu me i s \<Longrightarrow> 0 < ncli (cpus s ! i) \<Longrightarrow> cpu_ok me i (popped me i s)"
  by (auto simp: cpu_ok_def popped_ncli is_cpu_bound popped_if)

lemma cpu_ok_spinlocks [simp]: "cpu_ok me i (s\<lparr>spinlocks := x\<rparr>) = cpu_ok me i s"
  by (simp add: cpu_ok_def)

text \<open>
  The code of \<^verbatim>\<open>acquire\<close> implements the abstract lock in every case: it returns, panics and spins
  exactly when the abstract operation does.
\<close>

lemma acquire_simulates:
  assumes "lk_rel me i s a"
  shows "case lock_acquire l a of
      Ret _ a' \<Rightarrow> \<exists>s'. acquire me stk v l s = Ret () s' \<and> lk_rel me i s' a'
    | Stop e _ \<Rightarrow> \<exists>s'. acquire me stk v l s = Stop e s'"
proof -
  from assms have ok: "cpu_ok me i s" and c: "is_cpu me i s" "0 \<le> ncli (cpus s ! i)"
    by (auto simp: lk_rel_def cpu_ok_def)
  let ?k = "spinlocks s l"
  consider (mine) "locked ?k \<noteq> 0" "lk_cpu ?k = Some i" | (other) "locked ?k \<noteq> 0" "lk_cpu ?k \<noteq> Some i"
    | (free) "locked ?k = 0" by blast
  then show ?thesis
  proof cases
    case mine
    with assms have "l \<in> set (held a)" by (simp add: lk_rel_def)
    with mine c show ?thesis by (simp add: lock_acquire_def acquire_run)
  next
    case other
    with assms have "l \<notin> set (held a)" "l \<in> others a" by (simp_all add: lk_rel_def)
    with other c show ?thesis by (simp add: lock_acquire_def acquire_run)
  next
    case free
    with assms have h: "l \<notin> set (held a)" "l \<notin> others a" by (simp_all add: lk_rel_def)
    let ?s' = "(pushed me i s)\<lparr>spinlocks := (spinlocks s)(l := taken i (getcallerpcs stk v) ?k)\<rparr>"
    have "lk_rel me i ?s' (a\<lparr>held := l # held a\<rparr>)"
    proof (rule lk_relI)
      show "cpu_ok me i ?s'" using ok by (simp add: cpu_ok_pushed)
      show "distinct (held (a\<lparr>held := l # held a\<rparr>))"
        using assms h by (simp add: lk_rel_def)
      show "ncli (cpus ?s' ! i) = int (length (held (a\<lparr>held := l # held a\<rparr>)))"
        using assms c by (simp add: lk_rel_def pushed_ncli is_cpu_bound)
    qed (use assms h in \<open>simp_all add: lk_rel_def taken_def\<close>)
    with free h c show ?thesis
      by (simp add: lock_acquire_def acquire_run)
  qed
qed

text \<open>A CPU that does not hold the lock, whether or not it holds another one, panics in \<^verbatim>\<open>release\<close>.\<close>

lemma release_not_mine:
  assumes "cpu_ok me i s" and k: "\<not> (locked (spinlocks s l) \<noteq> 0 \<and> lk_cpu (spinlocks s l) = Some i)"
  shows "\<exists>s'. release me l s = Stop (Panic ''release'') s'"
proof -
  from assms(1) have c: "is_cpu me i s" "0 \<le> ncli (cpus s ! i)" by (simp_all add: cpu_ok_def)
  have i: "i < length (cpus s)" using c(1) by (rule is_cpu_bound)
  have "popcli me (pushed me i s) = Ret () (popped me i (pushed me i s))"
    using c i by (intro popcli_run) (simp_all add: pushed_ncli)
  with c k have "holding me l s = Ret False (popped me i (pushed me i s))"
    by (auto simp add: holding_def pushcli_run thn_Ret bnd_Ret mycpu_run)
  then show ?thesis by (simp add: release_def bnd_def)
qed

lemma release_simulates:
  assumes "lk_rel me i s a"
  shows "case lock_release l a of
      Ret _ a' \<Rightarrow> \<exists>s'. release me l s = Ret () s' \<and> lk_rel me i s' a'
    | Stop e _ \<Rightarrow> \<exists>s'. release me l s = Stop e s'"
proof -
  show ?thesis
  proof (cases "l \<in> set (held a)")
    case True
    then have "0 < length (held a)" by (cases "held a") simp_all
    with assms have c: "is_cpu me i s" "\<not> eflags_if s me" "0 < ncli (cpus s ! i)"
      by (simp_all add: lk_rel_def cpu_ok_def)
    from True assms have k: "locked (spinlocks s l) \<noteq> 0 \<and> lk_cpu (spinlocks s l) = Some i"
      by (simp add: lk_rel_def)
    let ?s' = "popped me i (s\<lparr>spinlocks := (spinlocks s)(l := freed (spinlocks s l))\<rparr>)"
    have n: "ncli (cpus ?s' ! i) = ncli (cpus s ! i) - 1"
      using c by (simp add: popped_ncli is_cpu_bound)
    have "lk_rel me i ?s' (a\<lparr>held := remove1 l (held a)\<rparr>)"
    proof (rule lk_relI)
      show "cpu_ok me i ?s'" using c by (intro cpu_ok_popped) simp_all
      show "distinct (held (a\<lparr>held := remove1 l (held a)\<rparr>))"
        using assms by (simp add: lk_rel_def)
      have "ncli (cpus s ! i) = int (length (held a))" using assms by (simp add: lk_rel_def)
      moreover have "length (held a) = Suc (length (remove1 l (held a)))"
        using True \<open>0 < length (held a)\<close> by (simp add: length_remove1)
      ultimately show "ncli (cpus ?s' ! i) = int (length (held (a\<lparr>held := remove1 l (held a)\<rparr>)))"
        unfolding n by simp
    qed (use assms True in \<open>simp_all add: lk_rel_def freed_def\<close>)
    with True k c show ?thesis by (simp add: lock_release_def release_run)
  next
    case False
    with assms have "cpu_ok me i s" "\<not> (locked (spinlocks s l) \<noteq> 0 \<and> lk_cpu (spinlocks s l) = Some i)"
      by (simp_all add: lk_rel_def)
    from release_not_mine [OF this] False show ?thesis by (simp add: lock_release_def)
  qed
qed

section \<open>The contract of a lock\<close>

text \<open>
  What a client of a lock relies on, and the critical section it builds from it: a body that
  keeps the lock runs to the end between \<open>acq\<close> and \<open>rel\<close>, and the lock is available again.
\<close>

locale spin_contract =
  fixes acq :: "'l \<Rightarrow> ('s, unit) km"
    and rel :: "'l \<Rightarrow> ('s, unit) km"
    and owned :: "'l \<Rightarrow> 's \<Rightarrow> bool"
    and avail :: "'l \<Rightarrow> 's \<Rightarrow> bool"
  assumes acq_ok: "avail l s \<Longrightarrow> \<exists>s'. acq l s = Ret () s' \<and> owned l s'"
    and rel_ok: "owned l s \<Longrightarrow> \<exists>s'. rel l s = Ret () s' \<and> avail l s'"
    and acq_again: "owned l s \<Longrightarrow> \<exists>s'. acq l s = Stop (Panic ''acquire'') s'"
    and rel_free: "avail l s \<Longrightarrow> \<exists>s'. rel l s = Stop (Panic ''release'') s'"
begin

lemma critical_section:
  assumes "avail l s"
    and "\<And>t. owned l t \<Longrightarrow> \<exists>a t'. body t = Ret a t' \<and> owned l t' \<and> Q a"
  shows "\<exists>a s'. thn (acq l) (bnd body (\<lambda>a. thn (rel l) (ret a))) s = Ret a s' \<and> avail l s' \<and> Q a"
proof -
  from acq_ok [OF assms(1)] obtain t where t: "acq l s = Ret () t" "owned l t" by blast
  from assms(2) [OF t(2)] obtain a u where u: "body t = Ret a u" "owned l u" "Q a" by blast
  from rel_ok [OF u(2)] obtain w where "rel l u = Ret () w" "avail l w" by blast
  with t u show ?thesis by (simp add: thn_Ret bnd_Ret)
qed

lemma reacquire_panics:
  assumes "avail l s"
  shows "\<exists>s'. thn (acq l) (acq l) s = Stop (Panic ''acquire'') s'"
proof -
  from acq_ok [OF assms] obtain t where "acq l s = Ret () t" "owned l t" by blast
  with acq_again [of l t] show ?thesis by (auto simp: thn_Ret)
qed

lemma rerelease_panics:
  assumes "owned l s"
  shows "\<exists>s'. thn (rel l) (rel l) s = Stop (Panic ''release'') s'"
proof -
  from rel_ok [OF assms] obtain t where "rel l s = Ret () t" "avail l t" by blast
  with rel_free [of l t] show ?thesis by (auto simp: thn_Ret)
qed

end

definition abs_owned :: "lockid \<Rightarrow> 'e mach_scheme \<Rightarrow> bool" where
  "abs_owned l s \<longleftrightarrow> distinct (held s) \<and> l \<in> set (held s) \<and> l \<notin> others s"

definition abs_avail :: "lockid \<Rightarrow> 'e mach_scheme \<Rightarrow> bool" where
  "abs_avail l s \<longleftrightarrow> distinct (held s) \<and> lock_free l s"

interpretation abs_lock: spin_contract lock_acquire lock_release abs_owned abs_avail
proof
  fix l :: lockid and s :: "'e mach_scheme"
  show "abs_avail l s \<Longrightarrow> \<exists>s'. lock_acquire l s = Ret () s' \<and> abs_owned l s'"
    by (auto simp: abs_avail_def abs_owned_def lock_free_def lock_acquire_run)
  show "abs_owned l s \<Longrightarrow> \<exists>s'. lock_release l s = Ret () s' \<and> abs_avail l s'"
    by (auto simp: abs_avail_def abs_owned_def lock_free_def lock_release_run)
  show "abs_owned l s \<Longrightarrow> \<exists>s'. lock_acquire l s = Stop (Panic ''acquire'') s'"
    by (simp add: abs_owned_def lock_acquire_def)
  show "abs_avail l s \<Longrightarrow> \<exists>s'. lock_release l s = Stop (Panic ''release'') s'"
    by (simp add: abs_avail_def lock_free_def lock_release_def)
qed

text \<open>The same contract for the code, on \<^verbatim>\<open>cpus[i]\<close>, inside another critical section or not.\<close>

definition code_owned :: "uchar \<Rightarrow> nat \<Rightarrow> lockid \<Rightarrow> smp \<Rightarrow> bool" where
  "code_owned me i l s \<longleftrightarrow> cpu_ok me i s \<and> 0 < ncli (cpus s ! i)
     \<and> locked (spinlocks s l) \<noteq> 0 \<and> lk_cpu (spinlocks s l) = Some i"

definition code_avail :: "uchar \<Rightarrow> nat \<Rightarrow> lockid \<Rightarrow> smp \<Rightarrow> bool" where
  "code_avail me i l s \<longleftrightarrow> cpu_ok me i s \<and> locked (spinlocks s l) = 0"

lemma release_free_panics: "code_avail me i l s \<Longrightarrow> \<exists>s'. release me l s = Stop (Panic ''release'') s'"
  by (rule release_not_mine [where i = i]) (simp_all add: code_avail_def)

interpretation code_lock: spin_contract "acquire me stk v" "release me"
  "code_owned me i" "code_avail me i" for me stk v i
proof
  fix l s
  show "code_avail me i l s \<Longrightarrow> \<exists>s'. acquire me stk v l s = Ret () s' \<and> code_owned me i l s'"
    by (auto simp: code_avail_def code_owned_def cpu_ok_def acquire_run taken_def pushed_ncli
          is_cpu_bound)
  show "code_owned me i l s \<Longrightarrow> \<exists>s'. release me l s = Ret () s' \<and> code_avail me i l s'"
    by (auto simp: code_avail_def code_owned_def cpu_ok_def [of me i s] release_run freed_def
          intro!: cpu_ok_popped)
  show "code_owned me i l s \<Longrightarrow> \<exists>s'. acquire me stk v l s = Stop (Panic ''acquire'') s'"
    by (auto simp: code_owned_def cpu_ok_def acquire_run)
  show "code_avail me i l s \<Longrightarrow> \<exists>s'. release me l s = Stop (Panic ''release'') s'"
    by (rule release_free_panics)
qed

section \<open>Many CPUs\<close>

text \<open>
  One lock and any number of CPUs, at the granularity of the memory accesses: the
  \<^verbatim>\<open>xchg\<close> of \<^verbatim>\<open>acquire\<close> (failing or succeeding), the store to \<^verbatim>\<open>lk->cpu\<close>, the two stores of
  \<^verbatim>\<open>release\<close>. A CPU enters \<^verbatim>\<open>acquire\<close> only after \<^verbatim>\<open>holding\<close> answered no, and leaves the
  critical section only after \<^verbatim>\<open>holding\<close> answered yes.
\<close>

datatype lk_pc = Outside | Spinning | Taken | Critical | Leaving

record spinsys =
  lkword :: uint
  lkowner :: "nat option"
  lkpc :: "nat \<Rightarrow> lk_pc"

definition says_holding :: "spinsys \<Rightarrow> nat \<Rightarrow> bool" where
  "says_holding s i \<longleftrightarrow> lkword s \<noteq> 0 \<and> lkowner s = Some i"

inductive spin_step :: "spinsys \<Rightarrow> spinsys \<Rightarrow> bool" where
  enter: "lkpc s i = Outside \<Longrightarrow> \<not> says_holding s i \<Longrightarrow>
    spin_step s (s\<lparr>lkpc := (lkpc s)(i := Spinning)\<rparr>)"
| xchg_fails: "lkpc s i = Spinning \<Longrightarrow> lkword s \<noteq> 0 \<Longrightarrow> spin_step s (s\<lparr>lkword := 1\<rparr>)"
| xchg_takes: "lkpc s i = Spinning \<Longrightarrow> lkword s = 0 \<Longrightarrow>
    spin_step s (s\<lparr>lkword := 1, lkpc := (lkpc s)(i := Taken)\<rparr>)"
| set_cpu: "lkpc s i = Taken \<Longrightarrow>
    spin_step s (s\<lparr>lkowner := Some i, lkpc := (lkpc s)(i := Critical)\<rparr>)"
| clear_cpu: "lkpc s i = Critical \<Longrightarrow> says_holding s i \<Longrightarrow>
    spin_step s (s\<lparr>lkowner := None, lkpc := (lkpc s)(i := Leaving)\<rparr>)"
| store_zero: "lkpc s i = Leaving \<Longrightarrow>
    spin_step s (s\<lparr>lkword := 0, lkpc := (lkpc s)(i := Outside)\<rparr>)"

definition spin_init :: spinsys where
  "spin_init = \<lparr>lkword = 0, lkowner = None, lkpc = (\<lambda>_. Outside)\<rparr>"

inductive spin_reach :: "spinsys \<Rightarrow> bool" where
  init: "spin_reach spin_init"
| step: "spin_reach s \<Longrightarrow> spin_step s t \<Longrightarrow> spin_reach t"

definition inside :: "spinsys \<Rightarrow> nat \<Rightarrow> bool" where
  "inside s i \<longleftrightarrow> lkpc s i = Taken \<or> lkpc s i = Critical \<or> lkpc s i = Leaving"

text \<open>
  The inductive invariant: the word is non-zero exactly while some CPU is inside, at most one is,
  and \<^verbatim>\<open>lk->cpu\<close> names a CPU exactly while that CPU is in its critical section.
\<close>

definition spin_inv :: "spinsys \<Rightarrow> bool" where
  "spin_inv s \<longleftrightarrow> (lkword s \<noteq> 0 \<longleftrightarrow> (\<exists>i. inside s i))
     \<and> (\<forall>i j. inside s i \<longrightarrow> inside s j \<longrightarrow> i = j)
     \<and> (\<forall>i. lkowner s = Some i \<longleftrightarrow> lkpc s i = Critical)"

lemma inside_upd [simp]:
  "inside (s\<lparr>lkpc := (lkpc s)(i := p)\<rparr>) j
     = (if j = i then p = Taken \<or> p = Critical \<or> p = Leaving else inside s j)"
  "inside (s\<lparr>lkword := w\<rparr>) j = inside s j"
  "inside (s\<lparr>lkowner := ow\<rparr>) j = inside s j"
  "inside (s\<lparr>lkword := w, lkpc := (lkpc s)(i := p)\<rparr>) j
     = (if j = i then p = Taken \<or> p = Critical \<or> p = Leaving else inside s j)"
  "inside (s\<lparr>lkowner := ow, lkpc := (lkpc s)(i := p)\<rparr>) j
     = (if j = i then p = Taken \<or> p = Critical \<or> p = Leaving else inside s j)"
  by (simp_all add: inside_def)

lemma inv_unique:
  assumes "spin_inv s" and "inside s i"
  shows "inside s j \<longleftrightarrow> j = i" and "lkword s \<noteq> 0" and "j \<noteq> i \<Longrightarrow> lkpc s j \<noteq> Critical"
proof -
  show u: "inside s j \<longleftrightarrow> j = i" for j using assms unfolding spin_inv_def by blast
  show "lkword s \<noteq> 0" using assms unfolding spin_inv_def by blast
  show "j \<noteq> i \<Longrightarrow> lkpc s j \<noteq> Critical" using u [of j] by (auto simp: inside_def)
qed

lemma spin_step_inv: "spin_step s t \<Longrightarrow> spin_inv s \<Longrightarrow> spin_inv t"
proof (induction rule: spin_step.induct)
  case (enter s i)
  then have "\<not> inside s i" by (simp add: inside_def)
  with enter show ?case by (auto simp: spin_inv_def)
next
  case (xchg_fails s i)
  then show ?case by (auto simp: spin_inv_def)
next
  case (xchg_takes s i)
  then have "\<not> inside s j" for j by (auto simp: spin_inv_def)
  moreover from this have "lkpc s j \<noteq> Critical" for j by (auto simp: inside_def)
  ultimately show ?case using xchg_takes by (auto simp: spin_inv_def)
next
  case (set_cpu s i)
  then have "inside s i" by (simp add: inside_def)
  note u = inv_unique [OF set_cpu.prems this]
  from u(3) show ?case unfolding spin_inv_def by (auto simp: u(1,2))
next
  case (clear_cpu s i)
  then have "inside s i" by (simp add: inside_def)
  note u = inv_unique [OF clear_cpu.prems this]
  from u(3) show ?case unfolding spin_inv_def by (auto simp: u(1,2))
next
  case (store_zero s i)
  then have "inside s i" by (simp add: inside_def)
  note u = inv_unique [OF store_zero.prems this]
  from store_zero u(3) show ?case unfolding spin_inv_def by (auto simp: u(1,2))
qed

lemma spin_init_inv: "spin_inv spin_init"
  by (simp add: spin_inv_def spin_init_def inside_def)

lemma spin_reach_inv: "spin_reach s \<Longrightarrow> spin_inv s"
  by (induction rule: spin_reach.induct) (blast intro: spin_step_inv spin_init_inv)+

section \<open>Properties\<close>

text \<open>
  The machine the witnesses run on: one CPU with interrupts on, and every lock free.
\<close>

definition boot_smp :: smp where
  "boot_smp = \<lparr>cpus = [\<lparr>apicid = 0, started = True, ncli = 0, intena = False, cpu_proc = None\<rparr>],
     ncpu = 1, eflags_if = (\<lambda>_. True),
     spinlocks = (\<lambda>_. \<lparr>locked = 0, lk_name = [], lk_cpu = None, lk_pcs = replicate 10 0\<rparr>)\<rparr>"

definition boot_mach :: mach where
  "boot_mach = \<lparr>held = [], others = {}\<rparr>"

lemma boot_rel: "lk_rel 0 0 boot_smp boot_mach"
  by (simp add: lk_rel_def boot_smp_def boot_mach_def cpu_ok_def is_cpu_def)

text \<open>C15: the lock code refines the abstract lock, in every case. From related states \<^verbatim>\<open>acquire\<close> returns, panics
  or spins exactly when the abstract acquire does, and \<^verbatim>\<open>release\<close> returns or panics exactly when the abstract
  release does, on a CPU that holds no lock too; where they return the states stay related.\<close>

theorem spinlock_refines:
  assumes "lk_rel me i s a"
  shows "(case lock_acquire l a of
      Ret _ a' \<Rightarrow> \<exists>s'. acquire me stk v l s = Ret () s' \<and> lk_rel me i s' a'
    | Stop e _ \<Rightarrow> \<exists>s'. acquire me stk v l s = Stop e s')
   \<and> (case lock_release l a of
      Ret _ a' \<Rightarrow> \<exists>s'. release me l s = Ret () s' \<and> lk_rel me i s' a'
    | Stop e _ \<Rightarrow> \<exists>s'. release me l s = Stop e s')"
  using acquire_simulates [OF assms] release_simulates [OF assms] by blast

theorem spinlock_refines_witness:
  "(\<exists>s'. acquire 0 (\<lambda>_. 0) 0 KmemLock boot_smp = Ret () s'
     \<and> lk_rel 0 0 s' (boot_mach\<lparr>held := [KmemLock]\<rparr>))
   \<and> (\<exists>s'. release 0 KmemLock boot_smp = Stop (Panic ''release'') s')"
  using spinlock_refines [OF boot_rel, where l = KmemLock and stk = "\<lambda>_. 0" and v = 0]
  by (simp add: lock_acquire_def lock_release_def boot_mach_def)

text \<open>C16: mutual exclusion on any number of CPUs. In every state the interleaved
  atomic steps of \<^verbatim>\<open>acquire\<close> and \<^verbatim>\<open>release\<close> reach, two CPUs between the successful \<^verbatim>\<open>xchg\<close> and the
  store that frees the lock are the same CPU, and \<^verbatim>\<open>holding\<close> answers yes on exactly the CPU in
  its critical section.\<close>

theorem spin_mutual_exclusion:
  assumes "spin_reach s"
  shows "(inside s i \<longrightarrow> inside s j \<longrightarrow> i = j) \<and> (says_holding s i \<longleftrightarrow> lkpc s i = Critical)"
proof -
  have inv: "spin_inv s" using assms by (rule spin_reach_inv)
  moreover have "lkpc s i = Critical \<Longrightarrow> inside s i" by (simp add: inside_def)
  ultimately show ?thesis unfolding spin_inv_def says_holding_def by blast
qed

theorem spin_mutual_exclusion_witness:
  "says_holding \<lparr>lkword = 1, lkowner = Some 2, lkpc = (\<lambda>_. Outside)(2 := Critical)\<rparr> 2"
proof -
  let ?a = "spin_init\<lparr>lkpc := (lkpc spin_init)(2 := Spinning)\<rparr>"
  let ?b = "?a\<lparr>lkword := 1, lkpc := (lkpc ?a)(2 := Taken)\<rparr>"
  let ?c = "?b\<lparr>lkowner := Some 2, lkpc := (lkpc ?b)(2 := Critical)\<rparr>"
  have "spin_step spin_init ?a" by (rule spin_step.enter) (simp_all add: spin_init_def says_holding_def)
  moreover have "spin_step ?a ?b" by (rule spin_step.xchg_takes) (simp_all add: spin_init_def)
  moreover have "spin_step ?b ?c" by (rule spin_step.set_cpu) simp
  ultimately have "spin_reach ?c" by (blast intro: spin_reach.intros)
  from spin_mutual_exclusion [OF this, of 2 2] show ?thesis
    by (simp add: says_holding_def spin_init_def)
qed

text \<open>A critical section leaves the CPU as it found it. Acquiring a free lock and releasing it
  returns, with the interrupt flags and the \<^verbatim>\<open>pushcli\<close> depth restored, that lock free and
  ownerless, and every other lock untouched.\<close>

theorem acquire_release_restores:
  assumes "cpu_ok me i s" and "locked (spinlocks s l) = 0"
  shows "\<exists>s'. thn (acquire me stk v l) (release me l) s = Ret () s' \<and> eflags_if s' = eflags_if s
    \<and> ncli (cpus s' ! i) = ncli (cpus s ! i) \<and> locked (spinlocks s' l) = 0
    \<and> lk_cpu (spinlocks s' l) = None \<and> (\<forall>k. k \<noteq> l \<longrightarrow> spinlocks s' k = spinlocks s k)"
proof -
  from assms have c: "is_cpu me i s" "0 \<le> ncli (cpus s ! i)" by (auto simp: cpu_ok_def)
  note b = is_cpu_bound [OF c(1)]
  let ?t = "(pushed me i s)\<lparr>spinlocks :=
    (spinlocks s)(l := taken i (getcallerpcs stk v) (spinlocks s l))\<rparr>"
  let ?u = "popped me i (?t\<lparr>spinlocks := (spinlocks s)(l := freed (spinlocks ?t l))\<rparr>)"
  have "release me l ?t = Ret () ?u"
    using c b by (subst release_run [where i = i]) (simp_all add: pushed_ncli taken_def)
  moreover have "eflags_if ?u = eflags_if s"
    using assms(1) b
    by (auto simp: popped_def pushed_def cpu_ok_def fun_upd_idem)
  moreover have "ncli (cpus ?u ! i) = ncli (cpus s ! i)"
    using b by (simp add: popped_def pushed_def)
  ultimately show ?thesis
    using c assms(2) by (simp add: acquire_run thn_Ret freed_def)
qed

theorem acquire_release_restores_witness:
  "\<exists>s'. thn (acquire 0 (\<lambda>_. 0) 0 KmemLock) (release 0 KmemLock) boot_smp = Ret () s'
     \<and> eflags_if s' = eflags_if boot_smp \<and> ncli (cpus s' ! 0) = 0"
proof -
  have "cpu_ok 0 0 boot_smp" "locked (spinlocks boot_smp KmemLock) = 0" "ncli (cpus boot_smp ! 0) = 0"
    by (simp_all add: boot_smp_def cpu_ok_def is_cpu_def)
  with acquire_release_restores [of 0 0 boot_smp KmemLock "\<lambda>_. 0" 0] show ?thesis by auto
qed

end
