(* ===== verification/Phys.thy ===== *)
theory Phys
  imports Spinlock
begin

unbundle bit_operations_syntax

text \<open>
  Physical memory, the address macros of \<^verbatim>\<open>mmu.h\<close> and \<^verbatim>\<open>memlayout.h\<close>, and the loads and stores
  the kernel makes through its direct map.

  Memory is an array of 32-bit words indexed by physical word number (physical address divided
  by four); a kernel pointer \<open>v\<close> reaches it through \<^verbatim>\<open>V2P(v)\<close>, as the kernel's own page table
  maps it. Bytes are the little-endian parts of a word.
\<close>

section \<open>Constants and macros\<close>

abbreviation PGSIZE :: uint where "PGSIZE \<equiv> 0x1000"
abbreviation KERNBASE :: uint where "KERNBASE \<equiv> 0x80000000"
abbreviation EXTMEM :: uint where "EXTMEM \<equiv> 0x100000"
abbreviation KERNLINK :: uint where "KERNLINK \<equiv> 0x80100000"
abbreviation PHYSTOP :: uint where "PHYSTOP \<equiv> 0xE000000"
abbreviation DEVSPACE :: uint where "DEVSPACE \<equiv> 0xFE000000"

definition V2P :: "uint \<Rightarrow> uint" where
  "V2P a = a - KERNBASE"

definition P2V :: "uint \<Rightarrow> uint" where
  "P2V a = a + KERNBASE"

definition PGROUNDUP :: "uint \<Rightarrow> uint" where
  "PGROUNDUP sz = (sz + PGSIZE - 1) AND NOT (PGSIZE - 1)"

definition PGROUNDDOWN :: "uint \<Rightarrow> uint" where
  "PGROUNDDOWN a = a AND NOT (PGSIZE - 1)"

definition PDX :: "uint \<Rightarrow> uint" where
  "PDX va = drop_bit 22 va AND 0x3FF"

definition PTX :: "uint \<Rightarrow> uint" where
  "PTX va = drop_bit 12 va AND 0x3FF"

definition PGADDR :: "uint \<Rightarrow> uint \<Rightarrow> uint \<Rightarrow> uint" where
  "PGADDR d t off = (push_bit 22 d OR push_bit 12 t) OR off"

abbreviation PTE_P :: uint where "PTE_P \<equiv> 0x001"
abbreviation PTE_W :: uint where "PTE_W \<equiv> 0x002"
abbreviation PTE_U :: uint where "PTE_U \<equiv> 0x004"

definition PTE_ADDR :: "uint \<Rightarrow> uint" where
  "PTE_ADDR pte = pte AND NOT 0xFFF"

definition PTE_FLAGS :: "uint \<Rightarrow> uint" where
  "PTE_FLAGS pte = pte AND 0xFFF"

lemma P2V_V2P [simp]: "P2V (V2P a) = a" "V2P (P2V a) = a"
  by (simp_all add: V2P_def P2V_def)

section \<open>The macros as arithmetic\<close>

lemma unat_and_mask12: "unat ((a :: uint) AND 0xFFF) = unat a mod 4096"
proof -
  have "(a AND 0xFFF) = take_bit 12 a"
    by (simp add: take_bit_eq_mask mask_eq_exp_minus_1)
  then show ?thesis by (simp only: unsigned_take_bit_eq) (simp add: take_bit_eq_mod)
qed

lemma and_not_mask12: "(a :: uint) AND NOT 0xFFF = a - (a AND 0xFFF)"
proof -
  have "a = (a AND NOT 0xFFF) + (a AND 0xFFF)"
    by (subst disjunctive_add) (auto simp: bit_eq_iff bit_simps)
  then show ?thesis by (metis add_diff_cancel_right')
qed

lemma unat_and_not_mask12: "unat ((a :: uint) AND - 0x1000) = unat a div 4096 * 4096"
proof -
  have le: "a AND 0xFFF \<le> a" by (rule word_and_le2)
  have "unat (a AND - 0x1000) = unat (a - (a AND 0xFFF))"
    using and_not_mask12 [of a] by simp
  also have "\<dots> = unat a - unat a mod 4096"
    using le by (simp add: unat_sub unat_and_mask12)
  also have "\<dots> = unat a div 4096 * 4096" by (simp add: minus_mod_eq_div_mult)
  finally show ?thesis .
qed

lemma unat_PGROUNDDOWN: "unat (PGROUNDDOWN a) = unat a div 4096 * 4096"
  by (simp add: PGROUNDDOWN_def unat_and_not_mask12)

lemma unat_PGROUNDUP:
  assumes "unat sz + 4095 < 2 ^ 32"
  shows "unat (PGROUNDUP sz) = (unat sz + 4095) div 4096 * 4096"
proof -
  have e: "sz + PGSIZE - 1 = sz + 0xFFF" by simp
  have "unat (sz + 0xFFF) = unat sz + unat (0xFFF :: uint)"
    using assms by (subst unat_add_lem [symmetric]) simp
  then have "unat (sz + 0xFFF) = unat sz + 4095" by simp
  then show ?thesis
    unfolding PGROUNDUP_def e by (simp add: unat_and_not_mask12)
qed

lemma unat_PTE_ADDR: "unat (PTE_ADDR p) = unat p div 4096 * 4096"
  by (simp add: PTE_ADDR_def unat_and_not_mask12)

lemma unat_PTE_FLAGS: "unat (PTE_FLAGS p) = unat p mod 4096"
  by (simp add: PTE_FLAGS_def unat_and_mask12)

lemma unat_and_mask10: "unat ((a :: uint) AND 0x3FF) = unat a mod 1024"
proof -
  have "(a AND 0x3FF) = take_bit 10 a"
    by (simp add: take_bit_eq_mask mask_eq_exp_minus_1)
  then show ?thesis by (simp only: unsigned_take_bit_eq) (simp add: take_bit_eq_mod)
qed

lemma unat_PTX: "unat (PTX va) = unat va div 4096 mod 1024"
  unfolding PTX_def unat_and_mask10 unat_drop_bit_eq by (simp add: drop_bit_eq_div)

lemma unat_PDX: "unat (PDX va) = unat va div 4194304"
proof -
  have "unat va < 2 ^ 32" using unsigned_less [of va] by simp
  then have "unat va div 4194304 < 1024" by simp
  then show ?thesis
    unfolding PDX_def unat_and_mask10 unat_drop_bit_eq by (simp add: drop_bit_eq_div)
qed

section \<open>State\<close>

text \<open>
  \<^verbatim>\<open>kmem\<close> of \<^verbatim>\<open>kalloc.c\<close> and the memory it manages. \<open>kend\<close> is the linker's \<^verbatim>\<open>end\<close>, the first
  address after the kernel, and \<open>kdata\<close> its \<^verbatim>\<open>data\<close>: constants of the running kernel.
\<close>

record phys = mach +
  mem :: "nat \<Rightarrow> uint"
  kend :: uint
  kdata :: uint
  freelist :: uint
  use_lock :: bool

definition kw :: "uint \<Rightarrow> nat" where
  "kw v = unat (V2P v) div 4"

definition ld32 :: "uint \<Rightarrow> ('e phys_scheme, uint) km" where
  "ld32 v = gets (\<lambda>s. mem s (kw v))"

definition st32 :: "uint \<Rightarrow> uint \<Rightarrow> ('e phys_scheme, unit) km" where
  "st32 v x = upd (\<lambda>s. s\<lparr>mem := (mem s)(kw v := x)\<rparr>)"

text \<open>
  \<^verbatim>\<open>memset\<close> and \<^verbatim>\<open>memmove\<close> of \<^verbatim>\<open>string.c\<close> on word-aligned kernel memory, the only way the page
  allocator and the page tables use them: \<^verbatim>\<open>memset\<close> takes its \<^verbatim>\<open>stosl\<close> branch and stores the byte
  \<open>c\<close> replicated into each word.
\<close>

definition rep4 :: "uint \<Rightarrow> uint" where
  "rep4 c = (let b = c AND 0xFF in push_bit 24 b OR push_bit 16 b OR push_bit 8 b OR b)"

definition memset_words :: "uint \<Rightarrow> uint \<Rightarrow> nat \<Rightarrow> ('e phys_scheme, unit) km" where
  "memset_words dst c n =
     upd (\<lambda>s. s\<lparr>mem := (\<lambda>w. if kw dst \<le> w \<and> w < kw dst + n div 4 then rep4 c else mem s w)\<rparr>)"

definition memmove_words :: "uint \<Rightarrow> uint \<Rightarrow> nat \<Rightarrow> ('e phys_scheme, unit) km" where
  "memmove_words dst src n =
     upd (\<lambda>s. s\<lparr>mem := (\<lambda>w. if kw dst \<le> w \<and> w < kw dst + n div 4
                            then mem s (kw src + (w - kw dst)) else mem s w)\<rparr>)"

text \<open>Single bytes.\<close>

definition byte_of :: "nat \<Rightarrow> uint \<Rightarrow> uchar" where
  "byte_of k w = ucast (drop_bit (8 * k) w)"

definition set_byte :: "nat \<Rightarrow> uchar \<Rightarrow> uint \<Rightarrow> uint" where
  "set_byte k b w = (w AND NOT (push_bit (8 * k) 0xFF)) OR push_bit (8 * k) (ucast b)"

definition ld8 :: "uint \<Rightarrow> ('e phys_scheme, uchar) km" where
  "ld8 v = gets (\<lambda>s. byte_of (unat (V2P v) mod 4) (mem s (kw v)))"

definition st8 :: "uint \<Rightarrow> uchar \<Rightarrow> ('e phys_scheme, unit) km" where
  "st8 v b = upd (\<lambda>s. s\<lparr>mem := (mem s)(kw v := set_byte (unat (V2P v) mod 4) b (mem s (kw v)))\<rparr>)"

lemma rep4_1: "rep4 1 = 0x01010101"
  by (simp add: rep4_def)

lemma rep4_0 [simp]: "rep4 0 = 0"
  by (simp add: rep4_def)

lemma byte_set_byte:
  assumes "j < 4" and "k < 4"
  shows "byte_of j (set_byte k b w) = (if j = k then b else byte_of j w)"
proof (rule bit_word_eqI)
  fix n assume n: "n < LENGTH(8)"
  have m: "(0xFF :: uint) = mask 8" by (simp add: mask_eq_exp_minus_1)
  have b: "bit b i \<Longrightarrow> i < 8" for i using bit_imp_le_length [of b i] by simp
  show "bit (byte_of j (set_byte k b w)) n = bit (if j = k then b else byte_of j w) n"
  proof (cases "j = k")
    case True
    with n assms show ?thesis unfolding byte_of_def set_byte_def m by (simp add: bit_simps)
  next
    case False
    then have "\<not> (8 * k \<le> 8 * j + n \<and> 8 * j + n - 8 * k < 8)" using n by auto
    with False n assms b show ?thesis
      unfolding byte_of_def set_byte_def m by (auto simp: bit_simps)
  qed
qed

section \<open>Pages\<close>

text \<open>The words of the page at kernel address \<open>v\<close> are those with \<open>w div 1024 = kpg v\<close>.\<close>

definition kpg :: "uint \<Rightarrow> nat" where
  "kpg v = unat (V2P v) div 4096"

definition aligned :: "uint \<Rightarrow> bool" where
  "aligned v \<longleftrightarrow> unat v mod 4096 = 0"

lemma unat_V2P: "KERNBASE \<le> v \<Longrightarrow> unat (V2P v) = unat v - 0x80000000"
  by (simp add: V2P_def unat_sub)

lemma kw_div: "kw v div 1024 = kpg v"
  by (simp add: kw_def kpg_def div_mult2_eq [symmetric])
end
