(* ===== verification/Kalloc.thy ===== *)
theory Kalloc
  imports Phys
begin

unbundle bit_operations_syntax

text \<open>
  The physical page allocator (\<^verbatim>\<open>kalloc.c\<close>). The free list is threaded through the free pages
  themselves: the first word of a free page is the address of the next one. \<open>flist\<close> reads that
  chain back as a list of page addresses, and the operations are shown to be push and pop on it.
\<close>

section \<open>The code\<close>

definition kfree :: "uint \<Rightarrow> ('e phys_scheme, unit) km" where
  "kfree v =
     bnd (gets kend) (\<lambda>end.
     if v mod PGSIZE \<noteq> 0 \<or> v < end \<or> PHYSTOP \<le> V2P v then panic ''kfree''
     else thn (memset_words v 1 4096) (
     bnd (gets use_lock) (\<lambda>ul.
     thn (if ul then lock_acquire KmemLock else ret ()) (
     bnd (gets freelist) (\<lambda>h.
     thn (st32 v h) (
     thn (upd (\<lambda>s. s\<lparr>freelist := v\<rparr>)) (
     if ul then lock_release KmemLock else ret ())))))))"

definition kalloc :: "('e phys_scheme, uint) km" where
  "kalloc =
     bnd (gets use_lock) (\<lambda>ul.
     thn (if ul then lock_acquire KmemLock else ret ()) (
     bnd (gets freelist) (\<lambda>r.
     thn (if r \<noteq> 0 then bnd (ld32 r) (\<lambda>nx. upd (\<lambda>s. s\<lparr>freelist := nx\<rparr>)) else ret ()) (
     thn (if ul then lock_release KmemLock else ret ()) (
     ret r)))))"

text \<open>
  \<^verbatim>\<open>freerange\<close>: the address space has \<open>2 ^ 20\<close> pages, so that many iterations cover every range
  that does not wrap; a range that wraps makes \<^verbatim>\<open>kfree\<close> panic first.
\<close>

fun freerange_loop :: "nat \<Rightarrow> uint \<Rightarrow> uint \<Rightarrow> ('e phys_scheme, unit) km" where
  "freerange_loop 0 p vend = stop Spin"
| "freerange_loop (Suc n) p vend =
     (if p + PGSIZE \<le> vend then thn (kfree p) (freerange_loop n (p + PGSIZE) vend) else ret ())"

definition freerange :: "uint \<Rightarrow> uint \<Rightarrow> ('e phys_scheme, unit) km" where
  "freerange vstart vend = freerange_loop (2 ^ 20) (PGROUNDUP vstart) vend"

definition kinit1 :: "uint \<Rightarrow> uint \<Rightarrow> ('e phys_scheme, unit) km" where
  "kinit1 vstart vend =
     thn (lock_init KmemLock) (
     thn (upd (\<lambda>s. s\<lparr>use_lock := False\<rparr>)) (
     freerange vstart vend))"

definition kinit2 :: "uint \<Rightarrow> uint \<Rightarrow> ('e phys_scheme, unit) km" where
  "kinit2 vstart vend =
     thn (freerange vstart vend) (upd (\<lambda>s. s\<lparr>use_lock := True\<rparr>))"

section \<open>What one call does\<close>

definition page_ok :: "uint \<Rightarrow> uint \<Rightarrow> bool" where
  "page_ok e v \<longleftrightarrow> v mod PGSIZE = 0 \<and> e \<le> v \<and> V2P v < PHYSTOP"

definition kmem_ready :: "'e phys_scheme \<Rightarrow> bool" where
  "kmem_ready s \<longleftrightarrow> (use_lock s \<longrightarrow> lock_free KmemLock s)"

definition junked :: "uint \<Rightarrow> uint \<Rightarrow> (nat \<Rightarrow> uint) \<Rightarrow> nat \<Rightarrow> uint" where
  "junked v h m = (\<lambda>w. if kw v \<le> w \<and> w < kw v + 1024 then rep4 1 else m w)(kw v := h)"

lemma kfree_run:
  assumes "kmem_ready s"
  shows "kfree v s = (if page_ok (kend s) v
    then Ret () (s\<lparr>mem := junked v (freelist s) (mem s), freelist := v\<rparr>)
    else Stop (Panic ''kfree'') s)"
proof (cases "use_lock s")
  case True
  with assms have "lock_free KmemLock (s\<lparr>mem := x\<rparr>)" for x
    by (simp add: kmem_ready_def lock_free_def)
  with True show ?thesis
    by (auto simp: kfree_def page_ok_def memset_words_def st32_def thn_acquire lock_release_run junked_def not_less not_le)
next
  case False
  then show ?thesis
    by (auto simp: kfree_def page_ok_def memset_words_def st32_def junked_def not_less not_le)
qed

lemma kalloc_run:
  assumes "kmem_ready s"
  shows "kalloc s = (if freelist s = 0 then Ret 0 s
    else Ret (freelist s) (s\<lparr>freelist := mem s (kw (freelist s))\<rparr>))"
proof (cases "use_lock s")
  case True
  with assms have "lock_free KmemLock s" by (simp add: kmem_ready_def)
  with True show ?thesis
    by (simp add: kalloc_def thn_acquire thn_release ld32_def)
next
  case False
  then show ?thesis by (simp add: kalloc_def ld32_def)
qed

lemma kmem_ready_upd [simp]:
  "kmem_ready (s\<lparr>mem := m\<rparr>) = kmem_ready s"
  "kmem_ready (s\<lparr>freelist := f\<rparr>) = kmem_ready s"
  by (simp_all add: kmem_ready_def lock_free_def)

section \<open>The free list\<close>

primrec flist :: "(nat \<Rightarrow> uint) \<Rightarrow> uint \<Rightarrow> uint list \<Rightarrow> bool" where
  "flist m p [] \<longleftrightarrow> p = 0"
| "flist m p (q # qs) \<longleftrightarrow> p = q \<and> q \<noteq> 0 \<and> flist m (m (kw q)) qs"

lemma flist_cong:
  "(\<And>q. q \<in> set ps \<Longrightarrow> m' (kw q) = m (kw q)) \<Longrightarrow> flist m' p ps = flist m p ps"
  by (induction ps arbitrary: p) auto

lemma flist_det: "flist m p ps \<Longrightarrow> flist m p qs \<Longrightarrow> ps = qs"
proof (induction ps arbitrary: p qs)
  case Nil
  then show ?case by (cases qs) auto
next
  case (Cons a ps)
  then show ?case by (cases qs) auto
qed

text \<open>
  \<open>frees s ps\<close>: the allocator is in order and its free pages are \<open>ps\<close>, next to be handed out
  first. The kernel is linked above \<^verbatim>\<open>KERNBASE\<close>.
\<close>

definition frees :: "'e phys_scheme \<Rightarrow> uint list \<Rightarrow> bool" where
  "frees s ps \<longleftrightarrow> kmem_ready s \<and> KERNBASE < kend s \<and> flist (mem s) (freelist s) ps
     \<and> distinct ps \<and> (\<forall>p \<in> set ps. page_ok (kend s) p)"

lemma mod_PGSIZE: "(v :: uint) mod PGSIZE = 0 \<longleftrightarrow> unat v mod 4096 = 0"
proof -
  have "unat (v mod PGSIZE) = unat v mod 4096" by (simp add: unat_mod)
  then show ?thesis by (metis unat_0_iff)
qed

lemma page_ok_unat:
  assumes "page_ok e v" and "KERNBASE < e"
  shows "v \<noteq> 0" and "unat v = 4096 * kpg v + 0x80000000" and "kw v = 1024 * kpg v"
    and "kpg v < 0xE000"
proof -
  from assms have ge: "KERNBASE < v" and md: "unat v mod 4096 = 0" and ph: "V2P v < PHYSTOP"
    by (auto simp: page_ok_def mod_PGSIZE)
  from ge have g: "0x80000000 < unat v" by (simp add: word_less_nat_alt)
  from ge have u: "unat (V2P v) = unat v - 0x80000000" by (intro unat_V2P) simp
  from ph u have p: "unat v - 0x80000000 < 0xE000000" by (simp add: word_less_nat_alt)
  have d: "4096 dvd unat v - 0x80000000" using md g by (auto simp: mod_eq_0_iff_dvd intro: dvd_diff_nat)
  show "v \<noteq> 0" using g by auto
  have k: "4096 * kpg v = unat v - 0x80000000" using d u by (simp add: kpg_def dvd_mult_div_cancel)
  then show "unat v = 4096 * kpg v + 0x80000000" using g by simp
  have "kw v = 4096 * kpg v div 4" using u k by (simp add: kw_def)
  then show "kw v = 1024 * kpg v" by simp
  show "kpg v < 0xE000" using k p by simp
qed

lemma page_ok_inj:
  assumes "page_ok e v" "page_ok e q" "KERNBASE < e" "kpg v = kpg q"
  shows "v = q"
proof -
  from assms have "unat v = unat q"
    using page_ok_unat(2) [OF assms(1,3)] page_ok_unat(2) [OF assms(2,3)] by simp
  then show ?thesis by (rule unsigned_word_eqI)
qed

lemma junked_other:
  assumes "page_ok e v" "page_ok e q" "KERNBASE < e" "q \<noteq> v"
  shows "junked v h m (kw q) = m (kw q)"
proof -
  have "kpg q \<noteq> kpg v" using page_ok_inj assms by blast
  then show ?thesis
    using page_ok_unat(3) [OF assms(1,3)] page_ok_unat(3) [OF assms(2,3)]
    by (auto simp: junked_def)
qed

lemma junked_frame:
  assumes "page_ok e v" "KERNBASE < e" "w div 1024 \<noteq> kpg v"
  shows "junked v h m w = m w"
  using page_ok_unat(3) [OF assms(1,2)] assms(3) by (auto simp: junked_def)

lemma junked_first [simp]: "junked v h m (kw v) = h"
  by (simp add: junked_def)

lemma frees_kfree:
  assumes "frees s ps" and "page_ok (kend s) v" and "v \<notin> set ps"
  shows "kfree v s = Ret () (s\<lparr>mem := junked v (freelist s) (mem s), freelist := v\<rparr>)"
    and "frees (s\<lparr>mem := junked v (freelist s) (mem s), freelist := v\<rparr>) (v # ps)"
proof -
  from assms have r: "kmem_ready s" and e: "KERNBASE < kend s" by (auto simp: frees_def)
  show "kfree v s = Ret () (s\<lparr>mem := junked v (freelist s) (mem s), freelist := v\<rparr>)"
    using r assms(2) by (simp add: kfree_run)
  have "flist (junked v (freelist s) (mem s)) (freelist s) ps = flist (mem s) (freelist s) ps"
    using assms e by (intro flist_cong junked_other) (auto simp: frees_def)
  then show "frees (s\<lparr>mem := junked v (freelist s) (mem s), freelist := v\<rparr>) (v # ps)"
    using assms page_ok_unat(1) [OF assms(2) e] by (auto simp: frees_def)
qed

lemma frees_kalloc_nil: "frees s [] \<Longrightarrow> kalloc s = Ret 0 s"
  by (auto simp: frees_def kalloc_run)

lemma frees_kalloc_cons:
  assumes "frees s (p # ps)"
  shows "kalloc s = Ret p (s\<lparr>freelist := mem s (kw p)\<rparr>)"
    and "frees (s\<lparr>freelist := mem s (kw p)\<rparr>) ps"
  using assms by (auto simp: frees_def kalloc_run)

section \<open>The contract of a page allocator\<close>

fun repeat_km :: "nat \<Rightarrow> ('s, 'a) km \<Rightarrow> ('s, 'a list) km" where
  "repeat_km 0 m = ret []"
| "repeat_km (Suc n) m = bnd m (\<lambda>x. bnd (repeat_km n m) (\<lambda>xs. ret (x # xs)))"

locale page_allocator =
  fixes alloc :: "('s, uint) km"
    and dealloc :: "uint \<Rightarrow> ('s, unit) km"
    and fl :: "'s \<Rightarrow> uint list \<Rightarrow> bool"
    and usable :: "'s \<Rightarrow> uint \<Rightarrow> bool"
  assumes alloc_nil: "fl s [] \<Longrightarrow> alloc s = Ret 0 s"
    and alloc_cons: "fl s (p # ps) \<Longrightarrow> \<exists>s'. alloc s = Ret p s' \<and> fl s' ps \<and> usable s' = usable s"
    and dealloc_ok: "fl s ps \<Longrightarrow> usable s p \<Longrightarrow> p \<notin> set ps \<Longrightarrow>
      \<exists>s'. dealloc p s = Ret () s' \<and> fl s' (p # ps) \<and> usable s' = usable s"
    and fl_distinct: "fl s ps \<Longrightarrow> distinct ps"
    and fl_usable: "fl s ps \<Longrightarrow> p \<in> set ps \<Longrightarrow> usable s p \<and> p \<noteq> 0"
begin

lemma alloc_many:
  "fl s ps \<Longrightarrow> n \<le> length ps \<Longrightarrow>
    \<exists>s'. repeat_km n alloc s = Ret (take n ps) s' \<and> fl s' (drop n ps) \<and> usable s' = usable s"
proof (induction n arbitrary: s ps)
  case 0
  then show ?case by simp
next
  case (Suc n)
  then obtain p qs where ps: "ps = p # qs" by (cases ps) auto
  with Suc.prems alloc_cons obtain t where t: "alloc s = Ret p t" "fl t qs" "usable t = usable s"
    by blast
  from Suc.IH [OF t(2)] Suc.prems ps obtain u where
    "repeat_km n alloc t = Ret (take n qs) u" "fl u (drop n qs)" "usable u = usable t" by auto
  with t ps show ?case by (simp add: bnd_Ret)
qed

lemma dealloc_alloc:
  assumes "fl s ps" "usable s p" "p \<notin> set ps"
  shows "\<exists>s'. thn (dealloc p) alloc s = Ret p s' \<and> fl s' ps"
proof -
  from dealloc_ok [OF assms] obtain t where t: "dealloc p s = Ret () t" "fl t (p # ps)" by blast
  from alloc_cons [OF t(2)] obtain u where "alloc t = Ret p u" "fl u ps" by blast
  with t show ?thesis by (simp add: thn_Ret)
qed

text \<open>Pages handed out by successive calls are pairwise distinct and none is still free.\<close>

lemma alloc_many_fresh:
  assumes "fl s ps" "n \<le> length ps"
  shows "\<exists>xs s'. repeat_km n alloc s = Ret xs s' \<and> length xs = n \<and> distinct xs
    \<and> fl s' (drop n ps) \<and> set xs \<inter> set (drop n ps) = {} \<and> (\<forall>x \<in> set xs. usable s x \<and> x \<noteq> 0)"
proof -
  from alloc_many [OF assms] obtain s' where
    s': "repeat_km n alloc s = Ret (take n ps) s'" "fl s' (drop n ps)" by blast
  have "distinct ps" using assms(1) by (rule fl_distinct)
  then have "distinct (take n ps)" "set (take n ps) \<inter> set (drop n ps) = {}"
    by (simp_all add: set_take_disj_set_drop_if_distinct)
  moreover have "\<forall>x \<in> set (take n ps). usable s x \<and> x \<noteq> 0"
    using fl_usable [OF assms(1)] by (auto dest: in_set_takeD)
  ultimately show ?thesis using s' assms(2) by auto
qed

end

interpretation kmem: page_allocator kalloc kfree frees "\<lambda>s. page_ok (kend s)"
proof
  fix s :: "'e phys_scheme" and p ps
  show "frees s [] \<Longrightarrow> kalloc s = Ret 0 s" by (rule frees_kalloc_nil)
  show "frees s (p # ps) \<Longrightarrow>
      \<exists>s'. kalloc s = Ret p s' \<and> frees s' ps \<and> page_ok (kend s') = page_ok (kend s)"
    using frees_kalloc_cons [of s p ps] by auto
  show "frees s ps \<Longrightarrow> page_ok (kend s) p \<Longrightarrow> p \<notin> set ps \<Longrightarrow>
      \<exists>s'. kfree p s = Ret () s' \<and> frees s' (p # ps) \<and> page_ok (kend s') = page_ok (kend s)"
    using frees_kfree [of s ps p] by auto
  show "frees s ps \<Longrightarrow> distinct ps" by (simp add: frees_def)
  show "frees s ps \<Longrightarrow> p \<in> set ps \<Longrightarrow> page_ok (kend s) p \<and> p \<noteq> 0"
    using page_ok_unat(1) [of "kend s" p] by (auto simp: frees_def)
qed

section \<open>Handing a range of memory to the allocator\<close>

definition page_run :: "uint \<Rightarrow> nat \<Rightarrow> uint list" where
  "page_run p k = map (\<lambda>i. p + of_nat i * PGSIZE) [0..<k]"

lemma page_run_0 [simp]: "page_run p 0 = []"
  by (simp add: page_run_def)

lemma page_run_Suc: "page_run p (Suc k) = p # page_run (p + PGSIZE) k"
proof -
  have "[0..<Suc k] = 0 # map Suc [0..<k]" by (simp only: map_Suc_upt upt_conv_Cons zero_less_Suc)
  then show ?thesis by (simp add: page_run_def comp_def algebra_simps)
qed

lemma unat_page_run:
  assumes "unat p + i * 4096 < 2 ^ 32"
  shows "unat (p + of_nat i * PGSIZE) = unat p + i * 4096"
proof -
  have "of_nat i * PGSIZE = (of_nat (i * 4096) :: uint)" by simp
  moreover have "unat (of_nat (i * 4096) :: uint) = i * 4096"
    using assms by (simp add: unsigned_of_nat take_bit_nat_eq_self del: of_nat_mult)
  ultimately show ?thesis using assms by (simp add: unat_add_lem [THEN iffD1])
qed

lemma freerange_loop_frees:
  assumes "frees s ps" and "k < n"
    and "unat p + k * 4096 \<le> unat vend \<or> k = 0" and "unat vend < unat p + (k + 1) * 4096"
    and "unat p + (k + 1) * 4096 < 2 ^ 32"
    and "\<forall>q \<in> set (page_run p k). page_ok (kend s) q \<and> q \<notin> set ps"
  shows "\<exists>s'. freerange_loop n p vend s = Ret () s' \<and> frees s' (rev (page_run p k) @ ps)
    \<and> kend s' = kend s \<and> use_lock s' = use_lock s"
  using assms
proof (induction k arbitrary: n p s ps)
  case 0
  then obtain n' where n: "n = Suc n'" by (cases n) auto
  have "unat (p + PGSIZE) = unat p + 4096" using 0 unat_page_run [of p 1] by simp
  then have "\<not> p + PGSIZE \<le> vend" using 0 by (simp add: word_le_nat_alt)
  with n 0 show ?case by simp
next
  case (Suc k)
  then obtain n' where n: "n = Suc n'" by (cases n) auto
  have u: "unat (p + PGSIZE) = unat p + 4096" using Suc.prems unat_page_run [of p 1] by simp
  then have le: "p + PGSIZE \<le> vend" using Suc.prems by (simp add: word_le_nat_alt)
  let ?t = "s\<lparr>mem := junked p (freelist s) (mem s), freelist := p\<rparr>"
  from Suc.prems(6) have p: "page_ok (kend s) p" "p \<notin> set ps" by (simp_all add: page_run_Suc)
  note kf = frees_kfree [OF Suc.prems(1) p]
  have "p \<notin> set (page_run (p + PGSIZE) k)"
  proof
    assume "p \<in> set (page_run (p + PGSIZE) k)"
    then obtain i where i: "i < k" "p = p + PGSIZE + of_nat i * PGSIZE" by (auto simp: page_run_def)
    moreover have "unat (p + PGSIZE + of_nat i * PGSIZE) = unat p + 4096 + i * 4096"
      using i(1) unat_page_run [of "p + PGSIZE" i] Suc.prems(5) u by simp
    ultimately have "unat p = unat p + 4096 + i * 4096" by argo
    then show False by simp
  qed
  with Suc.prems have "\<exists>s'. freerange_loop n' (p + PGSIZE) vend ?t = Ret () s'
      \<and> frees s' (rev (page_run (p + PGSIZE) k) @ p # ps) \<and> kend s' = kend ?t
      \<and> use_lock s' = use_lock ?t"
    by (intro Suc.IH kf(2)) (auto simp: n u page_run_Suc)
  with n le kf(1) show ?case by (auto simp: thn_Ret page_run_Suc)
qed

definition range_pages :: "uint \<Rightarrow> uint \<Rightarrow> nat" where
  "range_pages vstart vend = (unat vend - unat (PGROUNDUP vstart)) div 4096"

lemma in_page_run:
  assumes "unat p mod 4096 = 0" and "unat p + k * 4096 < 2 ^ 32"
  shows "q \<in> set (page_run p k) \<longleftrightarrow> unat q mod 4096 = 0 \<and> p \<le> q \<and> unat q < unat p + k * 4096"
    (is "?l = ?r")
proof
  assume ?l
  then obtain i where i: "i < k" "q = p + of_nat i * PGSIZE" by (auto simp: page_run_def)
  then have "unat q = unat p + i * 4096" using unat_page_run [of p i] assms(2) by simp
  with i assms show ?r by (simp add: word_le_nat_alt mod_add_right_eq)
next
  assume r: ?r
  define i where "i = (unat q - unat p) div 4096"
  from r have le: "unat p \<le> unat q" by (simp add: word_le_nat_alt)
  have "4096 dvd unat q - unat p" using r assms(1) by (auto simp: mod_eq_0_iff_dvd intro: dvd_diff_nat)
  then have "i * 4096 = unat q - unat p" by (simp add: i_def)
  with le r have i: "unat q = unat p + i * 4096" "i < k" by auto
  then have "q = p + of_nat i * PGSIZE"
    using unat_page_run [of p i] assms(2) by (simp add: word_unat_eq_iff)
  with i show ?l by (auto simp: page_run_def)
qed

lemma whole_pages:
  fixes a v q :: nat
  assumes "q mod 4096 = 0"
  defines "P \<equiv> (a + 4095) div 4096 * 4096"
  shows "P \<le> q \<and> q < P + (v - P) div 4096 * 4096 \<longleftrightarrow> a \<le> q \<and> q + 4096 \<le> v"
proof -
  define d where "d = (a + 4095) div 4096"
  from assms(1) obtain c where c: "q = 4096 * c" by auto
  have "(v - d * 4096) div 4096 = v div 4096 - d" by (simp add: div_diff)
  then have "P \<le> q \<and> q < P + (v - P) div 4096 * 4096 \<longleftrightarrow> d \<le> c \<and> c < d + (v div 4096 - d)"
    unfolding P_def d_def [symmetric] c by (auto simp: algebra_simps)
  also have "\<dots> \<longleftrightarrow> d \<le> c \<and> c < v div 4096" by auto
  also have "\<dots> \<longleftrightarrow> a \<le> q \<and> q + 4096 \<le> v" unfolding c d_def by auto
  finally show ?thesis .
qed

text \<open>The pages that lie entirely in a range.\<close>

definition page_in :: "uint \<Rightarrow> uint \<Rightarrow> uint \<Rightarrow> bool" where
  "page_in vstart vend q \<longleftrightarrow>
     q mod PGSIZE = 0 \<and> vstart \<le> q \<and> unat q + 4096 \<le> unat vend"

lemma freerange_frees:
  assumes fr: "frees s ps" and lo: "kend s \<le> vstart"
    and hi: "vstart \<le> P2V PHYSTOP" "vend \<le> P2V PHYSTOP"
    and new: "\<forall>q \<in> set ps. \<not> page_in vstart vend q"
  shows "\<exists>s' qs. freerange vstart vend s = Ret () s' \<and> frees s' (qs @ ps)
    \<and> set qs = {q. page_in vstart vend q} \<and> kend s' = kend s \<and> use_lock s' = use_lock s"
proof -
  let ?p = "PGROUNDUP vstart" and ?k = "range_pages vstart vend"
  have top: "unat (P2V PHYSTOP) = 0x8E000000" by (simp add: P2V_def)
  from hi have h: "unat vstart \<le> 0x8E000000" "unat vend \<le> 0x8E000000"
    using top by (simp_all add: word_le_nat_alt)
  have up: "unat ?p = (unat vstart + 4095) div 4096 * 4096" using h by (intro unat_PGROUNDUP) simp
  then have al: "unat ?p mod 4096 = 0" by simp
  have b: "unat ?p + ?k * 4096 \<le> unat vend \<or> ?k = 0" "unat vend < unat ?p + (?k + 1) * 4096"
    "unat ?p + (?k + 1) * 4096 < 2 ^ 32" "?k < 2 ^ 20"
    using h up by (auto simp: range_pages_def)
  have eq: "q \<in> set (page_run ?p ?k) \<longleftrightarrow> page_in vstart vend q" for q
  proof -
    have "q \<in> set (page_run ?p ?k)
        \<longleftrightarrow> unat q mod 4096 = 0 \<and> unat ?p \<le> unat q \<and> unat q < unat ?p + ?k * 4096"
      using b al by (subst in_page_run) (auto simp: word_le_nat_alt)
    also have "\<dots> \<longleftrightarrow> unat q mod 4096 = 0 \<and> unat vstart \<le> unat q \<and> unat q + 4096 \<le> unat vend"
      unfolding up range_pages_def by (rule conj_cong [OF refl whole_pages])
    finally show ?thesis by (simp add: page_in_def mod_PGSIZE word_le_nat_alt)
  qed
  have e: "KERNBASE < kend s" using fr by (simp add: frees_def)
  have "page_ok (kend s) q" if "page_in vstart vend q" for q
  proof -
    from that lo e have q: "kend s \<le> q" "KERNBASE \<le> q" by (auto simp: page_in_def)
    from that h have "unat q < 0x8E000000" by (auto simp: page_in_def)
    then have "V2P q < PHYSTOP" using q by (simp add: word_less_nat_alt unat_V2P word_le_nat_alt)
    with that q show ?thesis by (simp add: page_ok_def page_in_def)
  qed
  with eq new have ok: "\<forall>q \<in> set (page_run ?p ?k). page_ok (kend s) q \<and> q \<notin> set ps" by blast
  have "set (rev (page_run ?p ?k)) = {q. page_in vstart vend q}" using eq by auto
  with freerange_loop_frees [OF fr b(4,1,2,3) ok] show ?thesis unfolding freerange_def by blast
qed

section \<open>Properties\<close>

text \<open>C13: the free list threaded through the pages is a stack. \<^verbatim>\<open>kfree\<close> of a valid page that is not
  free returns and puts it in front; \<^verbatim>\<open>kalloc\<close> returns the front page and removes it, or returns 0
  and changes nothing when no page is free.\<close>

theorem kalloc_kfree_stack:
  assumes "frees s ps"
  shows "(page_ok (kend s) v \<and> v \<notin> set ps \<longrightarrow> (\<exists>s'. kfree v s = Ret () s' \<and> frees s' (v # ps)))
    \<and> (case ps of [] \<Rightarrow> kalloc s = Ret 0 s
       | p # qs \<Rightarrow> \<exists>s'. kalloc s = Ret p s' \<and> frees s' qs \<and> mem s' = mem s)"
proof -
  have "\<exists>s'. kfree v s = Ret () s' \<and> frees s' (v # ps)" if "page_ok (kend s) v" "v \<notin> set ps"
    using kmem.dealloc_ok [OF assms that] by blast
  moreover have "case ps of [] \<Rightarrow> kalloc s = Ret 0 s
      | p # qs \<Rightarrow> \<exists>s'. kalloc s = Ret p s' \<and> frees s' qs \<and> mem s' = mem s"
  proof (cases ps)
    case Nil
    with assms kmem.alloc_nil show ?thesis by simp
  next
    case (Cons p qs)
    with assms frees_kalloc_cons [of s p qs] show ?thesis by simp
  qed
  ultimately show ?thesis by blast
qed

text \<open>The memory the witnesses run on: no page free, the kernel image ending at 1 MB.\<close>

definition boot_phys :: phys where
  "boot_phys = \<lparr>held = [], others = {}, mem = (\<lambda>_. 0), kend = 0x80100000, kdata = 0x80100000,
     freelist = 0, use_lock = False\<rparr>"

lemma boot_frees: "frees boot_phys []"
  by (simp add: frees_def boot_phys_def kmem_ready_def)

lemma boot_page_ok: "page_ok (kend boot_phys) 0x80400000"
  by (simp add: page_ok_def boot_phys_def V2P_def)

theorem kalloc_kfree_stack_witness:
  "\<exists>s'. kfree 0x80400000 boot_phys = Ret () s' \<and> frees s' [0x80400000]"
  using kalloc_kfree_stack [OF boot_frees, where v = "0x80400000"] boot_page_ok by simp

text \<open>C14: the boot sequence \<^verbatim>\<open>kinit1(end, P2V(4MB)); kinit2(P2V(4MB), P2V(PHYSTOP))\<close> returns, and
  afterwards the free pages are, each once, exactly the whole pages between the end of the kernel
  and \<^verbatim>\<open>PHYSTOP\<close>; from then on the allocator uses its lock.\<close>

theorem kinit_frees_all_memory:
  assumes "KERNBASE < kend s" and "kend s \<le> P2V (4 * 1024 * 1024)" and "freelist s = 0"
  shows "\<exists>s' ps. thn (kinit1 (kend s) (P2V (4 * 1024 * 1024)))
      (kinit2 (P2V (4 * 1024 * 1024)) (P2V PHYSTOP)) s = Ret () s'
    \<and> flist (mem s') (freelist s') ps \<and> distinct ps \<and> use_lock s'
    \<and> set ps = {q. page_in (kend s) (P2V PHYSTOP) q}"
proof -
  let ?m = "P2V (4 * 1024 * 1024)"
  let ?s = "s\<lparr>held := removeAll KmemLock (held s), others := others s - {KmemLock},
    use_lock := False\<rparr>"
  have m: "?m = 0x80400000" and e: "P2V PHYSTOP = 0x8E000000" by (simp_all add: P2V_def)
  have f0: "frees ?s []" using assms by (simp add: frees_def kmem_ready_def)
  have me: "?m \<le> P2V PHYSTOP" unfolding m e by simp
  with assms(2) have "kend s \<le> P2V PHYSTOP" by (rule order_trans)
  with freerange_frees [OF f0, of "kend s" ?m] me obtain t qs where
    t: "freerange (kend s) ?m ?s = Ret () t" "frees t qs" "set qs = {q. page_in (kend s) ?m q}"
      "kend t = kend s" "use_lock t = False"
    by auto
  have lohi: "page_in (kend s) ?m q \<Longrightarrow> \<not> page_in ?m (P2V PHYSTOP) q" for q
    unfolding m e by (auto simp: page_in_def word_le_nat_alt)
  from freerange_frees [OF t(2), of ?m "P2V PHYSTOP"] t(3,4) assms lohi obtain u ps where
    u: "freerange ?m (P2V PHYSTOP) t = Ret () u" "frees u (ps @ qs)"
      "set ps = {q. page_in ?m (P2V PHYSTOP) q}"
    using me by auto
  have "page_in (kend s) (P2V PHYSTOP) q
      \<longleftrightarrow> page_in (kend s) ?m q \<or> page_in ?m (P2V PHYSTOP) q" for q
    using assms(2) unfolding m e page_in_def mod_PGSIZE word_le_nat_alt by (auto; presburger)
  with t(3) u(3) have "set (ps @ qs) = {q. page_in (kend s) (P2V PHYSTOP) q}" by auto
  moreover have "thn (kinit1 (kend s) ?m) (kinit2 ?m (P2V PHYSTOP)) s
      = Ret () (u\<lparr>use_lock := True\<rparr>)"
    using t(1) u(1) by (simp add: kinit1_def kinit2_def lock_init_def thn_Ret)
  ultimately show ?thesis using u(2) unfolding frees_def by fastforce
qed

theorem kinit_frees_all_memory_witness:
  "\<exists>s' ps. thn (kinit1 0x80100000 (P2V (4 * 1024 * 1024)))
      (kinit2 (P2V (4 * 1024 * 1024)) (P2V PHYSTOP)) boot_phys = Ret () s'
    \<and> flist (mem s') (freelist s') ps \<and> set ps = {q. page_in 0x80100000 (P2V PHYSTOP) q}"
proof -
  have "KERNBASE < kend boot_phys" "kend boot_phys \<le> P2V (4 * 1024 * 1024)"
    "freelist boot_phys = 0" "kend boot_phys = 0x80100000"
    by (simp_all add: boot_phys_def P2V_def)
  with kinit_frees_all_memory [of boot_phys] show ?thesis by auto
qed

text \<open>C17: successive allocations never hand out the same page twice. As long as pages are free,
  \<open>n\<close> calls of \<^verbatim>\<open>kalloc\<close> return \<open>n\<close> distinct valid pages, none of which is still on the free list.\<close>

theorem kalloc_fresh_pages:
  assumes "frees s ps" and "n \<le> length ps"
  shows "\<exists>xs s'. repeat_km n kalloc s = Ret xs s' \<and> length xs = n \<and> distinct xs
    \<and> frees s' (drop n ps) \<and> set xs \<inter> set (drop n ps) = {}
    \<and> (\<forall>x \<in> set xs. page_ok (kend s) x \<and> x \<noteq> 0)"
  using assms by (rule kmem.alloc_many_fresh)

theorem kalloc_fresh_pages_witness:
  "\<exists>t xs s'. kfree 0x80400000 boot_phys = Ret () t \<and> repeat_km 1 kalloc t = Ret xs s' \<and> distinct xs"
proof -
  let ?t = "boot_phys\<lparr>mem := junked 0x80400000 (freelist boot_phys) (mem boot_phys),
    freelist := 0x80400000\<rparr>"
  from frees_kfree [OF boot_frees boot_page_ok] have
    "kfree 0x80400000 boot_phys = Ret () ?t" "frees ?t [0x80400000]" by simp_all
  with kalloc_fresh_pages [of ?t "[0x80400000]" 1] show ?thesis by auto
qed

end
