(* ===== verification/Vm.thy ===== *)
theory Vm
  imports Kalloc
begin

unbundle bit_operations_syntax

text \<open>
  Page tables and address spaces (\<^verbatim>\<open>vm.c\<close>). The two-level tables live in physical memory as the
  code builds them; \<open>entry m pgdir n\<close> reads the table entry of virtual page \<open>n\<close> back, and the
  operations are specified by what they do to it.
\<close>

section \<open>The code\<close>

definition walkpgdir :: "uint \<Rightarrow> uint \<Rightarrow> bool \<Rightarrow> ('e phys_scheme, uint) km" where
  "walkpgdir pgdir va alloc =
     (let pde = pgdir + 4 * PDX va in
      bnd (ld32 pde) (\<lambda>e.
      if e AND PTE_P \<noteq> 0 then ret (P2V (PTE_ADDR e) + 4 * PTX va)
      else if \<not> alloc then ret 0
      else bnd kalloc (\<lambda>pgtab.
        if pgtab = 0 then ret 0
        else thn (memset_words pgtab 0 4096) (
        thn (st32 pde (V2P pgtab OR PTE_P OR PTE_W OR PTE_U)) (
        ret (pgtab + 4 * PTX va))))))"

text \<open>
  The loops of this file step through the address space page by page; \<open>2 ^ 20\<close> iterations visit
  every page, and a loop that would go on longer is reported as \<open>Spin\<close>.
\<close>

fun mappages_loop :: "nat \<Rightarrow> uint \<Rightarrow> uint \<Rightarrow> uint \<Rightarrow> uint \<Rightarrow> uint \<Rightarrow> ('e phys_scheme, int) km" where
  "mappages_loop 0 pgdir a lst pa perm = stop Spin"
| "mappages_loop (Suc n) pgdir a lst pa perm =
     bnd (walkpgdir pgdir a True) (\<lambda>pte.
     if pte = 0 then ret (-1)
     else bnd (ld32 pte) (\<lambda>e.
       if e AND PTE_P \<noteq> 0 then panic ''remap''
       else thn (st32 pte (pa OR perm OR PTE_P)) (
         if a = lst then ret 0
         else mappages_loop n pgdir (a + PGSIZE) lst (pa + PGSIZE) perm)))"

definition mappages :: "uint \<Rightarrow> uint \<Rightarrow> uint \<Rightarrow> uint \<Rightarrow> uint \<Rightarrow> ('e phys_scheme, int) km" where
  "mappages pgdir va sz pa perm =
     mappages_loop (2 ^ 20) pgdir (PGROUNDDOWN va) (PGROUNDDOWN (va + sz - 1)) pa perm"

fun dealloc_loop :: "nat \<Rightarrow> uint \<Rightarrow> uint \<Rightarrow> uint \<Rightarrow> ('e phys_scheme, unit) km" where
  "dealloc_loop 0 pgdir a oldsz = stop Spin"
| "dealloc_loop (Suc n) pgdir a oldsz =
     (if a < oldsz then
        bnd (walkpgdir pgdir a False) (\<lambda>pte.
        if pte = 0 then dealloc_loop n pgdir (PGADDR (PDX a + 1) 0 0 - PGSIZE + PGSIZE) oldsz
        else bnd (ld32 pte) (\<lambda>e.
          if e AND PTE_P \<noteq> 0 then
            let pa = PTE_ADDR e in
            if pa = 0 then panic ''kfree''
            else thn (kfree (P2V pa)) (thn (st32 pte 0) (dealloc_loop n pgdir (a + PGSIZE) oldsz))
          else dealloc_loop n pgdir (a + PGSIZE) oldsz))
      else ret ())"

definition deallocuvm :: "uint \<Rightarrow> uint \<Rightarrow> uint \<Rightarrow> ('e phys_scheme, uint) km" where
  "deallocuvm pgdir oldsz newsz =
     (if oldsz \<le> newsz then ret oldsz
      else thn (dealloc_loop (2 ^ 20 + 1) pgdir (PGROUNDUP newsz) oldsz) (ret newsz))"

definition NPDENTRIES :: nat where
  "NPDENTRIES = 1024"

definition free_table :: "uint \<Rightarrow> nat \<Rightarrow> ('e phys_scheme, unit) km" where
  "free_table pgdir i =
     bnd (ld32 (pgdir + 4 * of_nat i)) (\<lambda>e.
     if e AND PTE_P \<noteq> 0 then kfree (P2V (PTE_ADDR e)) else ret ())"

definition freevm :: "uint \<Rightarrow> ('e phys_scheme, unit) km" where
  "freevm pgdir =
     (if pgdir = 0 then panic ''freevm: no pgdir''
      else thn (deallocuvm pgdir KERNBASE 0) (
      thn (for_each [0..<NPDENTRIES] (free_table pgdir)) (
      kfree pgdir)))"

record kmap_entry =
  virt :: uint
  phys_start :: uint
  phys_end :: uint
  kperm :: uint

definition kmap :: "uint \<Rightarrow> kmap_entry list" where
  "kmap data =
     [\<lparr>virt = KERNBASE, phys_start = 0, phys_end = EXTMEM, kperm = PTE_W\<rparr>,
      \<lparr>virt = KERNLINK, phys_start = V2P KERNLINK, phys_end = V2P data, kperm = 0\<rparr>,
      \<lparr>virt = data, phys_start = V2P data, phys_end = PHYSTOP, kperm = PTE_W\<rparr>,
      \<lparr>virt = DEVSPACE, phys_start = DEVSPACE, phys_end = 0, kperm = PTE_W\<rparr>]"

fun map_kernel :: "uint \<Rightarrow> kmap_entry list \<Rightarrow> ('e phys_scheme, uint) km" where
  "map_kernel pgdir [] = ret pgdir"
| "map_kernel pgdir (k # ks) =
     bnd (mappages pgdir (virt k) (phys_end k - phys_start k) (phys_start k) (kperm k)) (\<lambda>r.
     if r < 0 then thn (freevm pgdir) (ret 0) else map_kernel pgdir ks)"

definition setupkvm :: "('e phys_scheme, uint) km" where
  "setupkvm =
     bnd kalloc (\<lambda>pgdir.
     if pgdir = 0 then ret 0
     else thn (memset_words pgdir 0 4096) (
     if DEVSPACE < P2V PHYSTOP then panic ''PHYSTOP too high''
     else bnd (gets kdata) (\<lambda>data. map_kernel pgdir (kmap data))))"

text \<open>\<^verbatim>\<open>memmove\<close> from a buffer given by its bytes.\<close>

fun put_bytes :: "uint \<Rightarrow> uchar list \<Rightarrow> ('e phys_scheme, unit) km" where
  "put_bytes v [] = ret ()"
| "put_bytes v (b # bs) = thn (st8 v b) (put_bytes (v + 1) bs)"

definition inituvm :: "uint \<Rightarrow> uchar list \<Rightarrow> ('e phys_scheme, unit) km" where
  "inituvm pgdir init =
     (if 4096 \<le> length init then panic ''inituvm: more than a page''
      else bnd kalloc (\<lambda>mem.
      thn (memset_words mem 0 4096) (
      thn (mappages pgdir 0 PGSIZE (V2P mem) (PTE_W OR PTE_U)) (
      put_bytes mem init))))"

text \<open>
  The loop of \<^verbatim>\<open>allocuvm\<close>. Before it undoes its work it prints a message with \<^verbatim>\<open>cprintf\<close>, which is left out: the state of the
  console is not part of the state here.
\<close>

fun alloc_loop :: "nat \<Rightarrow> uint \<Rightarrow> uint \<Rightarrow> uint \<Rightarrow> uint \<Rightarrow> ('e phys_scheme, uint) km" where
  "alloc_loop 0 pgdir a oldsz newsz = stop Spin"
| "alloc_loop (Suc n) pgdir a oldsz newsz =
     (if a < newsz then
        bnd kalloc (\<lambda>mem.
        if mem = 0 then thn (deallocuvm pgdir newsz oldsz) (ret 0)
        else thn (memset_words mem 0 4096) (
        bnd (mappages pgdir a PGSIZE (V2P mem) (PTE_W OR PTE_U)) (\<lambda>r.
        if r < 0 then thn (deallocuvm pgdir newsz oldsz) (thn (kfree mem) (ret 0))
        else alloc_loop n pgdir (a + PGSIZE) oldsz newsz)))
      else ret newsz)"

definition allocuvm :: "uint \<Rightarrow> uint \<Rightarrow> uint \<Rightarrow> ('e phys_scheme, uint) km" where
  "allocuvm pgdir oldsz newsz =
     (if KERNBASE \<le> newsz then ret 0
      else if newsz < oldsz then ret oldsz
      else alloc_loop (2 ^ 20) pgdir (PGROUNDUP oldsz) oldsz newsz)"

definition clearpteu :: "uint \<Rightarrow> uint \<Rightarrow> ('e phys_scheme, unit) km" where
  "clearpteu pgdir uva =
     bnd (walkpgdir pgdir uva False) (\<lambda>pte.
     if pte = 0 then panic ''clearpteu''
     else bnd (ld32 pte) (\<lambda>e. st32 pte (e AND NOT PTE_U)))"

fun copy_loop :: "nat \<Rightarrow> uint \<Rightarrow> uint \<Rightarrow> uint \<Rightarrow> uint \<Rightarrow> ('e phys_scheme, uint) km" where
  "copy_loop 0 pgdir d i sz = stop Spin"
| "copy_loop (Suc n) pgdir d i sz =
     (if i < sz then
        bnd (walkpgdir pgdir i False) (\<lambda>pte.
        if pte = 0 then panic ''copyuvm: pte should exist''
        else bnd (ld32 pte) (\<lambda>e.
        if e AND PTE_P = 0 then panic ''copyuvm: page not present''
        else bnd kalloc (\<lambda>mem.
        if mem = 0 then thn (freevm d) (ret 0)
        else thn (memmove_words mem (P2V (PTE_ADDR e)) 4096) (
        bnd (mappages d i PGSIZE (V2P mem) (PTE_FLAGS e)) (\<lambda>r.
        if r < 0 then thn (kfree mem) (thn (freevm d) (ret 0))
        else copy_loop n pgdir d (i + PGSIZE) sz)))))
      else ret d)"

definition copyuvm :: "uint \<Rightarrow> uint \<Rightarrow> ('e phys_scheme, uint) km" where
  "copyuvm pgdir sz =
     bnd setupkvm (\<lambda>d.
     if d = 0 then ret 0 else copy_loop (2 ^ 20 + 1) pgdir d 0 sz)"

text \<open>
  \<^verbatim>\<open>uva2ka\<close> dereferences the entry without testing the pointer: with no page table for the
  address the code reads through a null pointer, that is the word \<open>w0\<close> at virtual address 0 of the
  address space the CPU runs in.
\<close>

definition uva2ka :: "uint \<Rightarrow> uint \<Rightarrow> uint \<Rightarrow> ('e phys_scheme, uint) km" where
  "uva2ka w0 pgdir uva =
     bnd (walkpgdir pgdir uva False) (\<lambda>pte.
     bnd (if pte = 0 then ret w0 else ld32 pte) (\<lambda>e.
     if e AND PTE_P = 0 then ret 0
     else if e AND PTE_U = 0 then ret 0
     else ret (P2V (PTE_ADDR e))))"

function (sequential) copyout :: "uint \<Rightarrow> uint \<Rightarrow> uint \<Rightarrow> uchar list \<Rightarrow> ('e phys_scheme, int) km" where
  "copyout w0 pgdir va [] = ret 0"
| "copyout w0 pgdir va (b # bs) =
     (let va0 = PGROUNDDOWN va;
          n = min (4096 - unat (va - va0)) (length (b # bs)) in
      bnd (uva2ka w0 pgdir va0) (\<lambda>pa0.
      if pa0 = 0 then ret (-1)
      else thn (put_bytes (pa0 + (va - va0)) (take n (b # bs)))
               (copyout w0 pgdir (va0 + PGSIZE) (drop n (b # bs)))))"
  by pat_completeness auto

lemma page_offset: "unat (va - PGROUNDDOWN va) = unat va mod 4096"
proof -
  have "PGROUNDDOWN va \<le> va" by (simp add: word_le_nat_alt unat_PGROUNDDOWN)
  then show ?thesis
    by (simp add: unat_sub unat_PGROUNDDOWN minus_div_mult_eq_mod)
qed

termination copyout
  by (relation "measure (\<lambda>(w0, pgdir, va, bs). length bs)") (auto simp: page_offset)

section \<open>Reading a page table back\<close>

abbreviation present :: "uint \<Rightarrow> bool" where
  "present e \<equiv> e AND PTE_P \<noteq> 0"

definition vpn :: "uint \<Rightarrow> nat" where
  "vpn va = unat va div 4096"

definition frm :: "uint \<Rightarrow> nat" where
  "frm e = unat e div 4096"

definition pde :: "(nat \<Rightarrow> uint) \<Rightarrow> uint \<Rightarrow> nat \<Rightarrow> uint" where
  "pde m d i = m (kw d + i)"

definition slot :: "(nat \<Rightarrow> uint) \<Rightarrow> uint \<Rightarrow> nat \<Rightarrow> nat" where
  "slot m d n = frm (pde m d (n div 1024)) * 1024 + n mod 1024"

definition entry :: "(nat \<Rightarrow> uint) \<Rightarrow> uint \<Rightarrow> nat \<Rightarrow> uint" where
  "entry m d n = (if present (pde m d (n div 1024)) then m (slot m d n) else 0)"

text \<open>The physical pages a page table occupies, and a table that is a tree of distinct pages.\<close>

definition ptpgs :: "(nat \<Rightarrow> uint) \<Rightarrow> uint \<Rightarrow> nat set" where
  "ptpgs m d = insert (kpg d) {frm (pde m d i) |i. i < 1024 \<and> present (pde m d i)}"

definition pt_wf :: "uint \<Rightarrow> (nat \<Rightarrow> uint) \<Rightarrow> uint \<Rightarrow> bool" where
  "pt_wf e m d \<longleftrightarrow> page_ok e d
     \<and> (\<forall>i < 1024. present (pde m d i) \<longrightarrow>
          page_ok e (P2V (PTE_ADDR (pde m d i))) \<and> frm (pde m d i) \<noteq> kpg d)
     \<and> (\<forall>i < 1024. \<forall>j < 1024. present (pde m d i) \<longrightarrow> present (pde m d j) \<longrightarrow>
          frm (pde m d i) = frm (pde m d j) \<longrightarrow> i = j)"

lemma vpn_less: "vpn va < 2 ^ 20" "vpn va div 1024 < 1024"
proof -
  have "unat va < 2 ^ 32" using unsigned_less [of va] by simp
  then show "vpn va < 2 ^ 20" "vpn va div 1024 < 1024" by (simp_all add: vpn_def)
qed

lemma PDX_vpn: "unat (PDX va) = vpn va div 1024"
  by (simp add: unat_PDX vpn_def div_mult2_eq [symmetric])

lemma PTX_vpn: "unat (PTX va) = vpn va mod 1024"
  by (simp add: unat_PTX vpn_def)

lemma unat_add_index:
  fixes b x :: uint
  assumes "unat b mod 4096 = 0" and "unat x < 1024"
  shows "unat (b + 4 * x) = unat b + 4 * unat x"
proof -
  have "unat b < 2 ^ 32" using unsigned_less [of b] by simp
  moreover from assms(1) obtain c where "unat b = 4096 * c" by auto
  ultimately have lt: "unat b + 4 * unat x < 2 ^ 32" using assms(2) by simp
  have x4: "unat (4 * x) = 4 * unat x"
    using assms(2) by (subst unat_mult_lem [THEN iffD1]) simp_all
  then show ?thesis using lt by (subst unat_add_lem [THEN iffD1]) simp_all
qed

lemma V2P_add: "V2P (v + x) = V2P v + x"
  by (simp add: V2P_def)

lemma kw_index:
  assumes "unat (V2P v) mod 4096 = 0" and "unat x < 1024"
  shows "kw (v + 4 * x) = kw v + unat x"
  using assms by (simp add: kw_def V2P_add unat_add_index)

lemma page_ok_V2P: "page_ok e d \<Longrightarrow> KERNBASE < e \<Longrightarrow> unat (V2P d) mod 4096 = 0"
  using page_ok_unat [of e d] by (simp add: unat_V2P word_le_nat_alt)

lemma kw_pde:
  assumes "page_ok e d" "KERNBASE < e"
  shows "kw (d + 4 * PDX va) = kw d + vpn va div 1024"
  using kw_index [OF page_ok_V2P [OF assms], of "PDX va"] vpn_less(2) [of va] by (simp add: PDX_vpn)

lemma kw_frame: "kw (P2V (PTE_ADDR x)) = frm x * 1024" "kpg (P2V (PTE_ADDR x)) = frm x"
  by (simp_all add: kw_def kpg_def frm_def unat_PTE_ADDR)

lemma kw_slot: "kw (P2V (PTE_ADDR x) + 4 * PTX va) = frm x * 1024 + vpn va mod 1024"
  using kw_index [of "P2V (PTE_ADDR x)" "PTX va"]
  by (simp add: kw_frame unat_PTE_ADDR PTX_vpn)

lemma page_ok_index_nz:
  assumes "page_ok e v" "KERNBASE < e" "unat x < 1024"
  shows "v + 4 * x \<noteq> 0"
proof -
  have "unat v mod 4096 = 0" using assms(1) by (simp add: page_ok_def mod_PGSIZE)
  then have "unat (v + 4 * x) = unat v + 4 * unat x" using assms(3) by (rule unat_add_index)
  with page_ok_unat(1) [OF assms(1,2)] show ?thesis by (metis add_is_0 unat_0 unat_eq_zero)
qed

lemma walk_read:
  assumes "pt_wf (kend s) (mem s) d" and "KERNBASE < kend s"
  shows "\<exists>p. walkpgdir d va False s = Ret p s
    \<and> (p = 0 \<longleftrightarrow> \<not> present (pde (mem s) d (vpn va div 1024)))
    \<and> (p \<noteq> 0 \<longrightarrow> kw p = slot (mem s) d (vpn va))"
proof -
  from assms have d: "page_ok (kend s) d" by (simp add: pt_wf_def)
  let ?e = "pde (mem s) d (vpn va div 1024)"
  have l: "mem s (kw (d + 4 * PDX va)) = ?e" using kw_pde [OF d assms(2)] by (simp add: pde_def)
  show ?thesis
  proof (cases "present ?e")
    case True
    with assms vpn_less(2) have "page_ok (kend s) (P2V (PTE_ADDR ?e))" by (simp add: pt_wf_def)
    then have "P2V (PTE_ADDR ?e) + 4 * PTX va \<noteq> 0"
      using assms(2) by (rule page_ok_index_nz) (simp add: PTX_vpn)
    with True l show ?thesis
      by (simp add: walkpgdir_def ld32_def Let_def kw_slot slot_def)
  next
    case False
    with l show ?thesis by (simp add: walkpgdir_def ld32_def Let_def)
  qed
qed

section \<open>Entries\<close>

lemma present_bit: "present e \<longleftrightarrow> bit e 0"
  by (simp add: and_one_eq bit_0 odd_iff_mod_2_eq_one)

lemma unat_or_flags:
  fixes x f :: uint
  assumes "unat x mod 4096 = 0" and "unat f < 4096"
  shows "unat (x OR f) = unat x + unat f"
proof -
  have "unat (x AND 0xFFF) = 0" using assms(1) by (simp add: unat_and_mask12)
  then have x: "x AND 0xFFF = 0" by (simp only: unat_eq_zero)
  have "unat (f AND 0xFFF) = unat f" using assms(2) by (simp add: unat_and_mask12)
  then have f: "f AND 0xFFF = f" by (simp add: word_unat_eq_iff)
  have "x AND f = (x AND 0xFFF) AND f" by (subst (1) f [symmetric]) (simp add: ac_simps)
  with x have "x AND f = 0" by simp
  then have "x OR f = x + f" by (simp add: disjunctive_add_eq_or)
  moreover have "unat x + unat f < 2 ^ 32"
  proof -
    have "unat x < 2 ^ 32" using unsigned_less [of x] by simp
    moreover from assms(1) obtain c where "unat x = 4096 * c" by auto
    ultimately show ?thesis using assms(2) by simp
  qed
  ultimately show ?thesis by (simp add: unat_add_lem [THEN iffD1])
qed

lemma entry_fields:
  assumes "unat x mod 4096 = 0" and "unat f < 4096"
  shows "PTE_ADDR (x OR f) = x" and "PTE_FLAGS (x OR f) = f" and "frm (x OR f) = unat x div 4096"
proof -
  note u = unat_or_flags [OF assms]
  from assms(1) obtain c where c: "unat x = 4096 * c" by auto
  show "PTE_ADDR (x OR f) = x" "PTE_FLAGS (x OR f) = f" "frm (x OR f) = unat x div 4096"
    using assms by (simp_all add: word_unat_eq_iff unat_PTE_ADDR unat_PTE_FLAGS frm_def u c)
qed

definition tab_pde :: "uint \<Rightarrow> uint" where
  "tab_pde t = V2P t OR PTE_P OR PTE_W OR PTE_U"

lemma new_pde:
  assumes "page_ok e t" "KERNBASE < e"
  shows "present (tab_pde t)" and "frm (tab_pde t) = kpg t" and "P2V (PTE_ADDR (tab_pde t)) = t"
proof -
  have x: "tab_pde t = V2P t OR 7" by (simp add: tab_pde_def or.assoc)
  note f = entry_fields [OF page_ok_V2P [OF assms], of 7]
  show "present (tab_pde t)" unfolding x present_bit by (simp add: bit_simps)
  show "frm (tab_pde t) = kpg t" using f(3) by (simp add: x kpg_def)
  show "P2V (PTE_ADDR (tab_pde t)) = t" using f(1) by (simp add: x)
qed

section \<open>Changing a page table\<close>

lemma pde_page: "page_ok e d \<Longrightarrow> KERNBASE < e \<Longrightarrow> i < 1024 \<Longrightarrow> (kw d + i) div 1024 = kpg d"
  using page_ok_unat(3) [of e d] by simp

lemma slot_page: "slot m d n div 1024 = frm (pde m d (n div 1024))"
  by (simp add: slot_def)

lemma slot_mod: "slot m d n mod 1024 = n mod 1024"
  by (simp add: slot_def)

lemma vpn_div: "n < 2 ^ 20 \<Longrightarrow> n div 1024 < (1024 :: nat)"
  by simp

lemma slot_not_dir:
  assumes "pt_wf e m d" "KERNBASE < e" "n < 2 ^ 20" "present (pde m d (n div 1024))" "i < 1024"
  shows "kw d + i \<noteq> slot m d n"
proof
  assume "kw d + i = slot m d n"
  then have "(kw d + i) div 1024 = frm (pde m d (n div 1024))" by (simp add: slot_page)
  moreover have "(kw d + i) div 1024 = kpg d" using assms by (intro pde_page) (auto simp: pt_wf_def)
  moreover have "frm (pde m d (n div 1024)) \<noteq> kpg d"
    using assms vpn_div [OF assms(3)] unfolding pt_wf_def by blast
  ultimately show False by simp
qed

lemma in_ptpgs:
  "x \<in> ptpgs m d \<longleftrightarrow> x = kpg d \<or> (\<exists>i < 1024. present (pde m d i) \<and> frm (pde m d i) = x)"
  by (auto simp: ptpgs_def)

lemma ptpgs_cong:
  assumes "\<And>i. i < 1024 \<Longrightarrow> pde m' d i = pde m d i"
  shows "ptpgs m' d = ptpgs m d"
proof -
  have "{frm (pde m' d i) |i. i < 1024 \<and> present (pde m' d i)}
      = {frm (pde m d i) |i. i < 1024 \<and> present (pde m d i)}"
    by (rule Collect_cong, rule ex_cong1) (use assms in auto)
  then show ?thesis by (simp add: ptpgs_def)
qed

text \<open>Memory that agrees on the pages of a table holds the same table.\<close>

lemma pt_cong:
  assumes "page_ok e d" "KERNBASE < e" and same: "\<And>w. w div 1024 \<in> ptpgs m d \<Longrightarrow> m' w = m w"
  shows "i < 1024 \<Longrightarrow> pde m' d i = pde m d i" and "ptpgs m' d = ptpgs m d"
    and "pt_wf e m' d = pt_wf e m d" and "n < 2 ^ 20 \<Longrightarrow> slot m' d n = slot m d n"
    and "n < 2 ^ 20 \<Longrightarrow> entry m' d n = entry m d n"
proof -
  show p: "i < 1024 \<Longrightarrow> pde m' d i = pde m d i" for i
    using same pde_page [OF assms(1,2)] by (simp add: pde_def ptpgs_def)
  then show "ptpgs m' d = ptpgs m d" by (rule ptpgs_cong)
  show "pt_wf e m' d = pt_wf e m d" unfolding pt_wf_def using p by simp
  show s: "n < 2 ^ 20 \<Longrightarrow> slot m' d n = slot m d n" using p by (simp add: slot_def)
  show "n < 2 ^ 20 \<Longrightarrow> entry m' d n = entry m d n"
  proof -
    assume n: "n < 2 ^ 20"
    have "present (pde m d (n div 1024)) \<Longrightarrow> m' (slot m d n) = m (slot m d n)"
      by (rule same) (use n in \<open>auto simp: slot_page ptpgs_def\<close>)
    with n p s show ?thesis by (simp add: entry_def)
  qed
qed

text \<open>Writing one entry of an existing table changes that entry only.\<close>

lemma slot_write:
  fixes x :: uint
  assumes wf: "pt_wf e m d" and e: "KERNBASE < e" and n: "n < 2 ^ 20"
    and pr: "present (pde m d (n div 1024))"
  defines "m' \<equiv> m(slot m d n := x)"
  shows "pt_wf e m' d" and "ptpgs m' d = ptpgs m d"
    and "k < 2 ^ 20 \<Longrightarrow> entry m' d k = (if k = n then x else entry m d k)"
proof -
  from wf have d: "page_ok e d" by (simp add: pt_wf_def)
  have p: "pde m' d i = pde m d i" if "i < 1024" for i
  proof -
    have "kw d + i \<noteq> slot m d n" using wf e n pr that by (rule slot_not_dir)
    then show ?thesis by (simp add: pde_def m'_def)
  qed
  then show "pt_wf e m' d" using wf unfolding pt_wf_def by simp
  show "ptpgs m' d = ptpgs m d" using p by (rule ptpgs_cong)
  assume k: "k < 2 ^ 20"
  have s: "slot m' d j = slot m d j" if "j < 2 ^ 20" for j using p that by (simp add: slot_def)
  have "slot m d k \<noteq> slot m d n" if "k \<noteq> n" "present (pde m d (k div 1024))"
  proof
    assume "slot m d k = slot m d n"
    then have "k mod 1024 = n mod 1024" "frm (pde m d (k div 1024)) = frm (pde m d (n div 1024))"
      using slot_mod slot_page by metis+
    with wf that pr n k have "k div 1024 = n div 1024" by (simp add: pt_wf_def)
    with \<open>k mod 1024 = n mod 1024\<close> have "k = n" by (metis div_mult_mod_eq)
    with that show False by simp
  qed
  moreover have "m' w = (if w = slot m d n then x else m w)" for w by (simp add: m'_def)
  ultimately show "entry m' d k = (if k = n then x else entry m d k)"
    using p k pr by (auto simp: entry_def s)
qed

text \<open>Installing a fresh, zeroed table leaves every entry as it was.\<close>

definition new_table :: "(nat \<Rightarrow> uint) \<Rightarrow> uint \<Rightarrow> nat \<Rightarrow> uint \<Rightarrow> nat \<Rightarrow> uint" where
  "new_table m d i t =
     (\<lambda>w. if kw t \<le> w \<and> w < kw t + 1024 then 0 else m w)
       (kw d + i := tab_pde t)"

lemma new_table_ok:
  assumes wf: "pt_wf e m d" and e: "KERNBASE < e" and i: "i < 1024" and ab: "\<not> present (pde m d i)"
    and t: "page_ok e t" "kpg t \<notin> ptpgs m d"
  defines "m' \<equiv> new_table m d i t"
  shows "j < 1024 \<Longrightarrow> pde m' d j = (if j = i then tab_pde t else pde m d j)"
    and "pt_wf e m' d" and "ptpgs m' d = insert (kpg t) (ptpgs m d)"
    and "n < 2 ^ 20 \<Longrightarrow> entry m' d n = entry m d n"
    and "w div 1024 \<notin> ptpgs m' d \<Longrightarrow> m' w = m w"
proof -
  from wf have d: "page_ok e d" by (simp add: pt_wf_def)
  note kt = page_ok_unat(3) [OF t(1) e] and np = new_pde [OF t(1) e]
  have td: "kpg t \<noteq> kpg d" using t(2) by (auto simp: ptpgs_def)
  have pg: "w div 1024 = kpg t \<longleftrightarrow> kw t \<le> w \<and> w < kw t + 1024" for w by (auto simp: kt)
  show p: "j < 1024 \<Longrightarrow> pde m' d j = (if j = i then tab_pde t else pde m d j)"
    for j
    using pg [of "kw d + j"] pde_page [OF d e, of j] td
    by (auto simp: m'_def new_table_def pde_def)
  have fresh: "frm (pde m d j) \<noteq> kpg t" if "j < 1024" "present (pde m d j)" for j
    using t(2) that by (auto simp: ptpgs_def)
  show "pt_wf e m' d"
  proof (unfold pt_wf_def, intro conjI allI impI)
    show "page_ok e d" by (rule d)
    fix j k assume j: "j < 1024" "present (pde m' d j)"
    show "page_ok e (P2V (PTE_ADDR (pde m' d j)))" "frm (pde m' d j) \<noteq> kpg d"
      using j p [of j] wf np t(1) td by (auto simp: pt_wf_def split: if_splits)
    assume k: "k < 1024" "present (pde m' d k)" "frm (pde m' d j) = frm (pde m' d k)"
    have eq: "l = i \<longleftrightarrow> frm (pde m' d l) = kpg t" if "l < 1024" "present (pde m' d l)" for l
      using p [OF that(1)] fresh [OF that(1)] np(2) that(2) by metis
    from eq [OF j] eq [OF k(1,2)] k(3) have jk: "j = i \<longleftrightarrow> k = i" by simp
    show "j = k"
    proof (cases "j = i")
      case True
      with jk show ?thesis by simp
    next
      case False
      with jk have "pde m' d j = pde m d j" "pde m' d k = pde m d k" using p j(1) k(1) by simp_all
      with j k wf show ?thesis unfolding pt_wf_def by metis
    qed
  qed
  show pp: "ptpgs m' d = insert (kpg t) (ptpgs m d)"
  proof (rule set_eqI)
    fix x
    let ?in = "\<lambda>m. \<exists>j < 1024. present (pde m d j) \<and> frm (pde m d j) = x"
    have "?in m'" if "x = kpg t" using p [OF i] np i that by auto
    moreover have "?in m'" if "?in m" using that p ab by metis
    moreover have "x = kpg t \<or> ?in m" if "?in m'" using that p np(2) by metis
    ultimately show "x \<in> ptpgs m' d \<longleftrightarrow> x \<in> insert (kpg t) (ptpgs m d)"
      unfolding insert_iff in_ptpgs by blast
  qed
  show "n < 2 ^ 20 \<Longrightarrow> entry m' d n = entry m d n"
  proof -
    assume n: "n < 2 ^ 20"
    show ?thesis
    proof (cases "n div 1024 = i")
      case True
      then have "slot m' d n = kw t + n mod 1024" using p [of i] np i by (simp add: slot_def kt)
      moreover have "kw t + n mod 1024 \<noteq> kw d + i"
        using pde_page [OF d e i] td pg [of "kw t + n mod 1024"] by auto
      ultimately show ?thesis using True p [of i] np i ab by (simp add: entry_def m'_def new_table_def)
    next
      case False
      then have "slot m' d n = slot m d n" "pde m' d (n div 1024) = pde m d (n div 1024)"
        using p n by (simp_all add: slot_def)
      moreover have "m' (slot m d n) = m (slot m d n)" if "present (pde m d (n div 1024))"
      proof -
        have "slot m d n div 1024 \<noteq> kpg t" using fresh that n by (simp add: slot_page)
        moreover have "kw d + i \<noteq> slot m d n" using wf e n that i by (rule slot_not_dir)
        ultimately show ?thesis using pg [of "slot m d n"] by (auto simp: m'_def new_table_def)
      qed
      ultimately show ?thesis by (simp add: entry_def)
    qed
  qed
  show "w div 1024 \<notin> ptpgs m' d \<Longrightarrow> m' w = m w"
    using pg [of w] pde_page [OF d e i] unfolding pp by (auto simp: m'_def new_table_def ptpgs_def)
qed

section \<open>A page table and the allocator\<close>

text \<open>
  \<open>vm_ok s fl d\<close>: the free pages are \<open>fl\<close>, \<open>d\<close> is a well-formed page table, and no page of the
  table is free. \<open>grew s s' us d\<close>: the table took the pages \<open>us\<close>, and only memory of the table
  changed.
\<close>

definition vm_ok :: "'e phys_scheme \<Rightarrow> uint list \<Rightarrow> uint \<Rightarrow> bool" where
  "vm_ok s fl d \<longleftrightarrow> frees s fl \<and> pt_wf (kend s) (mem s) d \<and> kpg ` set fl \<inter> ptpgs (mem s) d = {}"

definition pages_only :: "'e phys_scheme \<Rightarrow> 'e phys_scheme \<Rightarrow> bool" where
  "pages_only s s' \<longleftrightarrow> (\<exists>m f. s' = s\<lparr>mem := m, freelist := f\<rparr>)"

definition grew :: "'e phys_scheme \<Rightarrow> 'e phys_scheme \<Rightarrow> uint list \<Rightarrow> uint \<Rightarrow> bool" where
  "grew s s' us d \<longleftrightarrow> pages_only s s'
     \<and> ptpgs (mem s') d = ptpgs (mem s) d \<union> kpg ` set us
     \<and> (\<forall>w. w div 1024 \<notin> ptpgs (mem s') d \<longrightarrow> mem s' w = mem s w)"

lemma pages_only_refl [simp]: "pages_only s s"
  unfolding pages_only_def by (rule exI [of _ "mem s"], rule exI [of _ "freelist s"]) simp

lemma pages_only_upd [simp]:
  assumes "pages_only s t"
  shows "pages_only s (t\<lparr>mem := m\<rparr>)" and "pages_only s (t\<lparr>freelist := f\<rparr>)"
proof -
  from assms obtain m' f' where t: "t = s\<lparr>mem := m', freelist := f'\<rparr>" by (auto simp: pages_only_def)
  then have "t\<lparr>mem := m\<rparr> = s\<lparr>mem := m, freelist := f'\<rparr>" "t\<lparr>freelist := f\<rparr> = s\<lparr>mem := m', freelist := f\<rparr>"
    by simp_all
  then show "pages_only s (t\<lparr>mem := m\<rparr>)" "pages_only s (t\<lparr>freelist := f\<rparr>)"
    unfolding pages_only_def by blast+
qed

lemma pages_only_trans: "pages_only s t \<Longrightarrow> pages_only t u \<Longrightarrow> pages_only s u"
  by (clarsimp simp: pages_only_def) blast

lemma pages_only_sel:
  "pages_only s s' \<Longrightarrow> kend s' = kend s" "pages_only s s' \<Longrightarrow> kdata s' = kdata s"
  "pages_only s s' \<Longrightarrow> use_lock s' = use_lock s" "pages_only s s' \<Longrightarrow> held s' = held s"
  "pages_only s s' \<Longrightarrow> others s' = others s"
  by (auto simp: pages_only_def)

lemma grew_refl [simp]: "grew s s [] d"
  by (simp add: grew_def)

lemma grew_trans: "grew s t us d \<Longrightarrow> grew t u vs d \<Longrightarrow> grew s u (us @ vs) d"
  by (auto simp: grew_def intro: pages_only_trans)

lemma grew_kend: "grew s s' us d \<Longrightarrow> kend s' = kend s"
  by (simp add: grew_def pages_only_sel)

lemma vm_okD:
  assumes "vm_ok s fl d"
  shows "frees s fl" "pt_wf (kend s) (mem s) d" "KERNBASE < kend s" "page_ok (kend s) d"
  using assms by (auto simp: vm_ok_def frees_def pt_wf_def)

text \<open>Writing outside the free pages keeps the free list.\<close>

lemma frees_write:
  assumes "frees s fl" and "\<And>q. q \<in> set fl \<Longrightarrow> m (kw q) = mem s (kw q)"
  shows "frees (s\<lparr>mem := m\<rparr>) fl"
  using assms flist_cong [of fl m "mem s"] by (simp add: frees_def)

lemma kpg_of_kw: "page_ok e q \<Longrightarrow> KERNBASE < e \<Longrightarrow> kw q div 1024 = kpg q"
  by (simp add: kw_div)

lemma vm_ok_write:
  fixes x :: uint
  assumes ok: "vm_ok s fl d" and n: "n < 2 ^ 20" and pr: "present (pde (mem s) d (n div 1024))"
  defines "s' \<equiv> s\<lparr>mem := (mem s)(slot (mem s) d n := x)\<rparr>"
  shows "vm_ok s' fl d" and "grew s s' [] d"
    and "k < 2 ^ 20 \<Longrightarrow> entry (mem s') d k = (if k = n then x else entry (mem s) d k)"
proof -
  note D = vm_okD [OF ok] and W = slot_write [OF vm_okD(2,3) [OF ok] n pr]
  have pg: "slot (mem s) d n div 1024 \<in> ptpgs (mem s) d"
    using n pr by (auto simp: slot_page ptpgs_def)
  have "frees s' fl"
    unfolding s'_def
  proof (rule frees_write [OF D(1)])
    fix q assume "q \<in> set fl"
    then have "kw q div 1024 \<notin> ptpgs (mem s) d" using ok by (auto simp: vm_ok_def kw_div)
    with pg have "kw q \<noteq> slot (mem s) d n" by auto
    then show "((mem s)(slot (mem s) d n := x)) (kw q) = mem s (kw q)" by simp
  qed
  with ok W(1,2) show "vm_ok s' fl d" by (simp add: vm_ok_def s'_def)
  show "grew s s' [] d" using W(2) pg by (auto simp: grew_def s'_def)
  show "k < 2 ^ 20 \<Longrightarrow> entry (mem s') d k = (if k = n then x else entry (mem s) d k)"
    using W(3) by (simp add: s'_def)
qed

text \<open>
  \<^verbatim>\<open>walkpgdir\<close> with \<^verbatim>\<open>alloc\<close> set: it fails only when a table is missing and no page is free;
  otherwise it returns the address of the entry, in a table that reads as before.
\<close>

lemma walk_alloc:
  assumes ok: "vm_ok s fl d"
  shows "\<exists>p s' us fl'. walkpgdir d va True s = Ret p s' \<and> fl = us @ fl' \<and> vm_ok s' fl' d
    \<and> grew s s' us d \<and> (\<forall>n < 2 ^ 20. entry (mem s') d n = entry (mem s) d n)
    \<and> (if p = 0 then fl' = [] else present (pde (mem s') d (vpn va div 1024))
         \<and> kw p = slot (mem s') d (vpn va))"
proof -
  note D = vm_okD [OF ok]
  let ?i = "vpn va div 1024"
  let ?e = "pde (mem s) d ?i"
  have l: "mem s (kw (d + 4 * PDX va)) = ?e" using kw_pde [OF D(4,3)] by (simp add: pde_def)
  consider (pres) "present ?e" | (none) "\<not> present ?e" "fl = []"
    | (new) t fl' where "\<not> present ?e" "fl = t # fl'"
    by (cases fl) auto
  then show ?thesis
  proof cases
    case pres
    with D(2) vpn_less(2) have "page_ok (kend s) (P2V (PTE_ADDR ?e))" by (simp add: pt_wf_def)
    then have nz: "P2V (PTE_ADDR ?e) + 4 * PTX va \<noteq> 0"
      using D(3) by (rule page_ok_index_nz) (simp add: PTX_vpn)
    have "walkpgdir d va True s = Ret (P2V (PTE_ADDR ?e) + 4 * PTX va) s"
      using pres l by (simp add: walkpgdir_def ld32_def Let_def)
    moreover have "kw (P2V (PTE_ADDR ?e) + 4 * PTX va) = slot (mem s) d (vpn va)"
      by (simp add: kw_slot slot_def)
    ultimately show ?thesis using ok nz pres
      by (intro exI [of _ "P2V (PTE_ADDR ?e) + 4 * PTX va"] exI [of _ s] exI [of _ "[]"] exI [of _ fl]) simp
  next
    case none
    with l frees_kalloc_nil [of s] D(1) have "walkpgdir d va True s = Ret 0 s"
      by (simp add: walkpgdir_def ld32_def Let_def bnd_Ret)
    with ok none show ?thesis by (intro exI [of _ 0] exI [of _ s] exI [of _ "[]"] exI [of _ fl]) simp
  next
    case new
    note K = frees_kalloc_cons [of s t fl'] 
    let ?s = "s\<lparr>freelist := mem s (kw t)\<rparr>"
    let ?s' = "?s\<lparr>mem := new_table (mem s) d ?i t\<rparr>"
    from D(1) new have t: "page_ok (kend s) t" "t \<notin> set fl'" by (auto simp: frees_def)
    from ok new have tp: "kpg t \<notin> ptpgs (mem s) d" by (auto simp: vm_ok_def)
    note N = new_table_ok [OF D(2,3) vpn_less(2) new(1) t(1) tp] and np = new_pde [OF t(1) D(3)]
    have tz: "t + 4 * PTX va \<noteq> 0" using t(1) D(3) by (rule page_ok_index_nz) (simp add: PTX_vpn)
    have "t \<noteq> 0" using page_ok_unat(1) [OF t(1) D(3)] .
    then have run: "walkpgdir d va True s = Ret (t + 4 * PTX va) ?s'"
      using new l K D(1) kw_pde [OF D(4,3), of va]
      by (simp add: walkpgdir_def ld32_def Let_def bnd_Ret memset_words_def st32_def new_table_def
            tab_pde_def cong: if_cong)
    have fr: "frees ?s' fl'"
    proof (rule frees_write)
      show "frees ?s fl'" using K(2) D(1) new(2) by simp
      fix q assume q: "q \<in> set fl'"
      with D(1) new have qo: "page_ok (kend s) q" "q \<noteq> t" by (auto simp: frees_def)
      have "kpg q \<noteq> kpg t" using page_ok_inj [OF qo(1) t(1) D(3)] qo(2) by auto
      moreover have "kpg q \<notin> ptpgs (mem s) d" using ok new q by (auto simp: vm_ok_def)
      ultimately show "new_table (mem s) d ?i t (kw q) = mem ?s (kw q)"
        using N(5) N(3) by (simp add: kw_div)
    qed
    have "vm_ok ?s' fl' d"
    proof -
      have ok': "\<forall>q \<in> set fl'. page_ok (kend s) q" using D(1) new by (simp add: frees_def)
      have "kpg t \<notin> kpg ` set fl'"
      proof
        assume "kpg t \<in> kpg ` set fl'"
        then obtain q where q: "q \<in> set fl'" "kpg q = kpg t" by auto
        with ok' page_ok_inj [OF _ t(1) D(3)] t(2) show False by blast
      qed
      moreover have "kpg ` set fl' \<inter> ptpgs (mem s) d = {}" using ok new by (auto simp: vm_ok_def)
      ultimately show ?thesis using fr N(2,3) by (simp add: vm_ok_def)
    qed
    moreover have "grew s ?s' [t] d" using N(3,5) by (auto simp: grew_def)
    moreover have "kw (t + 4 * PTX va) = slot (mem ?s') d (vpn va)"
      using N(1) [OF vpn_less(2)] np kw_index [OF page_ok_V2P [OF t(1) D(3)], of "PTX va"]
        page_ok_unat(3) [OF t(1) D(3)] by (simp add: slot_def PTX_vpn)
    moreover have "present (pde (mem ?s') d ?i)" using N(1) [OF vpn_less(2)] np by simp
    ultimately show ?thesis using run tz new N(4)
      by (intro exI [of _ "t + 4 * PTX va"] exI [of _ ?s'] exI [of _ "[t]"] exI [of _ fl']) simp
  qed
qed

section \<open>Mapping a range of pages\<close>

definition with_range :: "(nat \<Rightarrow> uint) \<Rightarrow> nat \<Rightarrow> nat \<Rightarrow> uint \<Rightarrow> uint \<Rightarrow> nat \<Rightarrow> uint" where
  "with_range en b j pa perm n =
     (if b \<le> n \<and> n < b + j then (pa + of_nat (n - b) * PGSIZE) OR perm OR PTE_P else en n)"

lemma with_range_0 [simp]: "with_range en b 0 pa perm n = en n"
  by (auto simp: with_range_def)

lemma with_range_Suc:
  "with_range (\<lambda>n. if n = b then pa OR perm OR PTE_P else en n) (Suc b) j (pa + PGSIZE) perm n
     = with_range en b (Suc j) pa perm n"
proof (cases "Suc b \<le> n \<and> n < Suc b + j")
  case True
  then obtain i where "n = Suc b + i" by (auto simp: le_iff_add)
  with True show ?thesis by (simp add: with_range_def algebra_simps)
next
  case False
  then show ?thesis by (auto simp: with_range_def)
qed

lemma vpn_PGSIZE: "vpn a + 1 < 2 ^ 20 \<Longrightarrow> vpn (a + PGSIZE) = Suc (vpn a)"
  by (subst vpn_def, subst unat_add_lem [THEN iffD1]) (auto simp: vpn_def)

lemma aligned_PGSIZE: "unat a mod 4096 = 0 \<Longrightarrow> vpn a + 1 < 2 ^ 20 \<Longrightarrow> unat (a + PGSIZE) mod 4096 = 0"
  by (subst unat_add_lem [THEN iffD1]) (auto simp: vpn_def)

text \<open>One iteration: it fails for want of a page table, or sets the entry of \<open>a\<close> and no other.\<close>

definition map_one :: "uint \<Rightarrow> uint \<Rightarrow> uint \<Rightarrow> uint \<Rightarrow> ('e phys_scheme, bool) km" where
  "map_one pgdir a pa perm =
     bnd (walkpgdir pgdir a True) (\<lambda>pte.
     if pte = 0 then ret False
     else bnd (ld32 pte) (\<lambda>e.
       if present e then panic ''remap''
       else thn (st32 pte (pa OR perm OR PTE_P)) (ret True)))"

lemma mappages_loop_one:
  "mappages_loop (Suc n) pgdir a lst pa perm s =
     bnd (map_one pgdir a pa perm) (\<lambda>ok.
       if \<not> ok then ret (-1) else if a = lst then ret 0
       else mappages_loop n pgdir (a + PGSIZE) lst (pa + PGSIZE) perm) s"
  by (simp add: map_one_def bnd_def thn_def ld32_def st32_def gets_def upd_def ret_def
        panic_def split: res.split)

lemma map_one_ok:
  assumes ok: "vm_ok s fl d" and ab: "\<not> present (entry (mem s) d (vpn a))"
  shows "\<exists>r s' us fl'. map_one d a pa perm s = Ret r s' \<and> fl = us @ fl' \<and> vm_ok s' fl' d
    \<and> grew s s' us d \<and> (\<not> r \<longrightarrow> fl' = [])
    \<and> (\<forall>n < 2 ^ 20. entry (mem s') d n
         = (if r \<and> n = vpn a then pa OR perm OR PTE_P else entry (mem s) d n))"
proof -
  from walk_alloc [OF ok, of a] obtain p t us fl' where
    w: "walkpgdir d a True s = Ret p t" "fl = us @ fl'" "vm_ok t fl' d" "grew s t us d"
      "\<forall>n < 2 ^ 20. entry (mem t) d n = entry (mem s) d n"
      "if p = 0 then fl' = [] else present (pde (mem t) d (vpn a div 1024))
         \<and> kw p = slot (mem t) d (vpn a)" by blast
  show ?thesis
  proof (cases "p = 0")
    case True
    with w have "map_one d a pa perm s = Ret False t" by (simp add: map_one_def bnd_Ret)
    with w True show ?thesis by (intro exI [of _ False] exI [of _ t] exI [of _ us] exI [of _ fl']) simp
  next
    case False
    with w(6) have p: "present (pde (mem t) d (vpn a div 1024))" "kw p = slot (mem t) d (vpn a)"
      by simp_all
    let ?t = "t\<lparr>mem := (mem t)(slot (mem t) d (vpn a) := pa OR perm OR PTE_P)\<rparr>"
    note V = vm_ok_write [OF w(3) vpn_less(1) p(1), where x = "pa OR perm OR PTE_P"]
    have "mem t (kw p) = entry (mem t) d (vpn a)" using p by (simp add: entry_def)
    then have "\<not> present (mem t (kw p))" using ab w(5) vpn_less(1) [of a] by simp
    with w(1) False p have "map_one d a pa perm s = Ret True ?t"
      by (simp add: map_one_def bnd_Ret ld32_def st32_def)
    moreover have "grew s ?t us d" using grew_trans [OF w(4) V(2)] by simp
    ultimately show ?thesis using w(2,5) V(1,3)
      by (intro exI [of _ True] exI [of _ ?t] exI [of _ us] exI [of _ fl']) simp
  qed
qed

lemma mappages_loop_ok:
  assumes "vm_ok s fl d" and "unat a mod 4096 = 0" and "vpn a + k < 2 ^ 20" and "k < fuel"
    and "\<forall>i \<le> k. \<not> present (entry (mem s) d (vpn a + i))" and "lst = a + of_nat k * PGSIZE"
  shows "\<exists>r s' us fl' j. mappages_loop fuel d a lst pa perm s = Ret r s' \<and> fl = us @ fl'
    \<and> vm_ok s' fl' d \<and> grew s s' us d
    \<and> (\<forall>n < 2 ^ 20. entry (mem s') d n = with_range (entry (mem s) d) (vpn a) j pa perm n)
    \<and> (if r = 0 then j = Suc k else r = -1 \<and> j \<le> k \<and> fl' = [])"
  using assms
proof (induction k arbitrary: fuel a pa s fl)
  case (Suc k)
  then obtain f where f: "fuel = Suc f" by (cases fuel) auto
  have "\<not> present (entry (mem s) d (vpn a))" using spec [OF Suc.prems(5), of 0] by simp
  from map_one_ok [OF Suc.prems(1) this, of pa perm] obtain r t us fl' where
    o1: "map_one d a pa perm s = Ret r t" "fl = us @ fl'" "vm_ok t fl' d" "grew s t us d"
      "\<not> r \<longrightarrow> fl' = []" "\<forall>n < 2 ^ 20. entry (mem t) d n
         = (if r \<and> n = vpn a then pa OR perm OR PTE_P else entry (mem s) d n)"
    by blast
  have v: "vpn (a + PGSIZE) = Suc (vpn a)" "unat (a + PGSIZE) mod 4096 = 0"
    using Suc.prems(2,3) by (simp_all add: vpn_PGSIZE aligned_PGSIZE)
  show ?case
  proof (cases r)
    case False
    with o1 f have "mappages_loop fuel d a lst pa perm s = Ret (-1) t"
      by (simp add: mappages_loop_one bnd_Ret del: mappages_loop.simps)
    with o1 False show ?thesis
      by (intro exI [of _ "-1"] exI [of _ t] exI [of _ us] exI [of _ fl'] exI [of _ 0]) simp
  next
    case True
    have "unat (of_nat (Suc k) * PGSIZE) = Suc k * 4096"
      using unat_page_run [of 0 "Suc k"] Suc.prems(3) by simp
    then have ne: "a \<noteq> lst" using Suc.prems(6) by auto
    have ab: "\<forall>i \<le> k. \<not> present (entry (mem t) d (vpn (a + PGSIZE) + i))"
      using o1(6) Suc.prems(3,5) v by auto
    have b: "vpn (a + PGSIZE) + k < 2 ^ 20" "k < f" "lst = a + PGSIZE + of_nat k * PGSIZE"
      using Suc.prems(3,4,6) v f by (simp_all add: algebra_simps)
    from Suc.IH [OF o1(3) v(2) b(1,2) ab b(3), of "pa + PGSIZE"]
    obtain r' u vs fl'' j where i: "mappages_loop f d (a + PGSIZE) lst (pa + PGSIZE) perm t = Ret r' u"
      "fl' = vs @ fl''" "vm_ok u fl'' d" "grew t u vs d"
      "\<forall>n < 2 ^ 20. entry (mem u) d n = with_range (entry (mem t) d) (Suc (vpn a)) j (pa + PGSIZE) perm n"
      "if r' = 0 then j = Suc k else r' = -1 \<and> j \<le> k \<and> fl'' = []"
      unfolding v(1) by blast
    have "entry (mem u) d n = with_range (entry (mem s) d) (vpn a) (Suc j) pa perm n" if "n < 2 ^ 20" for n
    proof -
      have "entry (mem u) d n = with_range (\<lambda>n. if n = vpn a then pa OR perm OR PTE_P else entry (mem s) d n)
          (Suc (vpn a)) j (pa + PGSIZE) perm n"
        using i(5) o1(6) True that by (simp add: with_range_def)
      then show ?thesis by (simp only: with_range_Suc)
    qed
    moreover have "mappages_loop fuel d a lst pa perm s = Ret r' u"
      using o1(1) True ne i(1) f by (simp add: mappages_loop_one bnd_Ret del: mappages_loop.simps)
    ultimately show ?thesis using i(2,3,6) o1(2) grew_trans [OF o1(4) i(4)]
      by (intro exI [of _ r'] exI [of _ u] exI [of _ "us @ vs"] exI [of _ fl''] exI [of _ "Suc j"]) auto
  qed
next
  case 0
  then obtain f where f: "fuel = Suc f" by (cases fuel) auto
  from map_one_ok [OF 0(1), of a pa perm] 0(5) obtain r t us fl' where
    o1: "map_one d a pa perm s = Ret r t" "fl = us @ fl'" "vm_ok t fl' d" "grew s t us d"
      "\<not> r \<longrightarrow> fl' = []" "\<forall>n < 2 ^ 20. entry (mem t) d n
         = (if r \<and> n = vpn a then pa OR perm OR PTE_P else entry (mem s) d n)"
    by auto
  have "mappages_loop fuel d a lst pa perm s = Ret (if r then 0 else -1) t"
    using o1(1) 0(6) f by (simp add: mappages_loop_one bnd_Ret del: mappages_loop.simps)
  with o1 show ?case
    by (intro exI [of _ "if r then 0 else -1"] exI [of _ t] exI [of _ us] exI [of _ fl']
          exI [of _ "if r then 1 else 0"]) (auto simp: with_range_def)
qed

lemma PGROUNDDOWN_aligned: "unat (PGROUNDDOWN va) mod 4096 = 0" "vpn (PGROUNDDOWN va) = vpn va"
  by (simp_all add: unat_PGROUNDDOWN vpn_def)

lemma mappages_ok:
  assumes ok: "vm_ok s fl d" and sz: "0 < unat sz" "unat va + unat sz \<le> 2 ^ 32"
    and k: "vpn va + k = (unat va + unat sz - 1) div 4096"
    and ab: "\<forall>i \<le> k. \<not> present (entry (mem s) d (vpn va + i))"
  shows "\<exists>r s' us fl' j. mappages d va sz pa perm s = Ret r s' \<and> fl = us @ fl'
    \<and> vm_ok s' fl' d \<and> grew s s' us d
    \<and> (\<forall>n < 2 ^ 20. entry (mem s') d n = with_range (entry (mem s) d) (vpn va) j pa perm n)
    \<and> (if r = 0 then j = Suc k else r = -1 \<and> j \<le> k \<and> fl' = [])"
proof -
  have "va + sz - 1 = va + (sz - 1)" by simp
  moreover have s1: "unat (sz - 1) = unat sz - 1" using sz(1) by (simp add: unat_minus_one unat_gt_0)
  ultimately have e: "unat (va + sz - 1) = unat va + unat sz - 1"
    using sz by (subst \<open>va + sz - 1 = va + (sz - 1)\<close>, subst unat_add_lem [THEN iffD1]) simp_all
  have lt: "vpn va + k < 2 ^ 20" using k sz by simp
  have "unat (PGROUNDDOWN va + of_nat k * PGSIZE) = unat (PGROUNDDOWN va) + k * 4096"
    using lt by (intro unat_page_run) (simp add: unat_PGROUNDDOWN vpn_def)
  then have "PGROUNDDOWN (va + sz - 1) = PGROUNDDOWN va + of_nat k * PGSIZE"
    using k e by (simp add: word_unat_eq_iff unat_PGROUNDDOWN vpn_def) 
  from mappages_loop_ok [where fuel = "2 ^ 20", OF ok PGROUNDDOWN_aligned(1) _ _ _ this, of pa perm]
    lt ab show ?thesis by (simp add: mappages_def PGROUNDDOWN_aligned)
qed

text \<open>A table has at most 1024 second-level pages, so mapping never takes more than that.\<close>

lemma ptpgs_card: "finite (ptpgs m d)" "card (ptpgs m d) \<le> 1025"
proof -
  have *: "ptpgs m d \<subseteq> insert (kpg d) ((\<lambda>i. frm (pde m d i)) ` {..<1024})" by (auto simp: ptpgs_def)
  then show "finite (ptpgs m d)" by (rule finite_subset) simp
  have "card (ptpgs m d) \<le> card (insert (kpg d) ((\<lambda>i. frm (pde m d i)) ` {..<1024}))"
    using * by (intro card_mono) simp_all
  also have "\<dots> \<le> Suc (card ((\<lambda>i. frm (pde m d i)) ` {..<(1024 :: nat)}))" by (rule card_insert_le_m1) auto
  also have "\<dots> \<le> 1025" using card_image_le [of "{..<(1024 :: nat)}" "\<lambda>i. frm (pde m d i)"] by simp
  finally show "card (ptpgs m d) \<le> 1025" .
qed

lemma kpg_inj_frees: "frees s fl \<Longrightarrow> inj_on kpg (set fl)"
  unfolding frees_def inj_on_def using page_ok_inj by blast

lemma grew_bound:
  assumes "vm_ok s (us @ fl') d" and "grew s s' us d"
  shows "length us \<le> 1024"
proof -
  from assms(1) have f: "frees s (us @ fl')" by (simp add: vm_ok_def)
  then have "inj_on kpg (set us)" using kpg_inj_frees by (metis inj_on_Un set_append)
  moreover have "distinct us" using f by (simp add: frees_def)
  ultimately have c: "card (kpg ` set us) = length us" by (simp add: card_image distinct_card)
  have d: "kpg d \<in> ptpgs (mem s) d" by (simp add: ptpgs_def)
  then have "kpg d \<notin> kpg ` set us" using assms(1) by (auto simp: vm_ok_def)
  then have "Suc (length us) = card (insert (kpg d) (kpg ` set us))" using c by simp
  also have "\<dots> \<le> card (ptpgs (mem s') d)"
    using assms(2) d by (intro card_mono ptpgs_card) (auto simp: grew_def)
  also have "\<dots> \<le> 1025" by (rule ptpgs_card)
  finally show ?thesis by simp
qed

section \<open>The kernel part of a page table\<close>

definition npages :: "kmap_entry \<Rightarrow> nat" where
  "npages k = unat (phys_end k - phys_start k) div 4096"

abbreviation add_region :: "kmap_entry \<Rightarrow> (nat \<Rightarrow> uint) \<Rightarrow> nat \<Rightarrow> uint" where
  "add_region k en \<equiv> with_range en (vpn (virt k)) (npages k) (phys_start k) (kperm k)"

fun kmap_ok :: "kmap_entry list \<Rightarrow> (nat \<Rightarrow> uint) \<Rightarrow> bool" where
  "kmap_ok [] en = True"
| "kmap_ok (k # ks) en \<longleftrightarrow> unat (virt k) mod 4096 = 0 \<and> 0 < npages k
     \<and> unat (phys_end k - phys_start k) = npages k * 4096 \<and> vpn (virt k) + npages k \<le> 2 ^ 20
     \<and> (\<forall>i < npages k. \<not> present (en (vpn (virt k) + i))) \<and> kmap_ok ks (add_region k en)"

fun kmap_entries :: "kmap_entry list \<Rightarrow> (nat \<Rightarrow> uint) \<Rightarrow> nat \<Rightarrow> uint" where
  "kmap_entries [] en = en"
| "kmap_entries (k # ks) en = kmap_entries ks (add_region k en)"

lemma with_range_cong: "en n = en' n \<Longrightarrow> with_range en b j pa perm n = with_range en' b j pa perm n"
  by (simp add: with_range_def)

lemma kmap_cong:
  assumes "\<forall>n < 2 ^ 20. en n = en' n"
  shows "kmap_ok ks en = kmap_ok ks en' \<and> (\<forall>n < 2 ^ 20. kmap_entries ks en n = kmap_entries ks en' n)"
  using assms
proof (induction ks arbitrary: en en')
  case (Cons k ks)
  have "\<forall>n < 2 ^ 20. add_region k en n = add_region k en' n"
    using Cons.prems by (auto intro: with_range_cong)
  note IH = Cons.IH [OF this]
  have "(\<forall>i < npages k. \<not> present (en (vpn (virt k) + i))) = (\<forall>i < npages k. \<not> present (en' (vpn (virt k) + i)))"
    if "vpn (virt k) + npages k \<le> 2 ^ 20" using that Cons.prems by auto
  with IH show ?case by auto
qed auto

lemma map_kernel_ok:
  assumes "vm_ok s0 (us @ fl) d" and "grew s0 s us d" and "vm_ok s fl d" and "1024 < length (us @ fl)"
    and "kmap_ok ks (entry (mem s) d)"
  shows "\<exists>s' vs fl'. map_kernel d ks s = Ret d s' \<and> fl = vs @ fl' \<and> vm_ok s' fl' d \<and> grew s s' vs d
    \<and> (\<forall>n < 2 ^ 20. entry (mem s') d n = kmap_entries ks (entry (mem s) d) n)"
  using assms
proof (induction ks arbitrary: s us fl)
  case Nil
  then show ?case by (intro exI [of _ s] exI [of _ "[]"] exI [of _ fl]) simp
next
  case (Cons k ks)
  let ?sz = "phys_end k - phys_start k"
  from Cons.prems(5) have k: "unat (virt k) mod 4096 = 0" "0 < npages k" "unat ?sz = npages k * 4096"
    "vpn (virt k) + npages k \<le> 2 ^ 20" "\<forall>i < npages k. \<not> present (entry (mem s) d (vpn (virt k) + i))"
    "kmap_ok ks (add_region k (entry (mem s) d))" by simp_all
  obtain p where p: "npages k = Suc p" using k(2) by (cases "npages k") auto
  have v: "unat (virt k) = vpn (virt k) * 4096" using k(1) by (auto simp: vpn_def)
  have "\<exists>r s' vs fl' j. mappages d (virt k) ?sz (phys_start k) (kperm k) s = Ret r s' \<and> fl = vs @ fl'
    \<and> vm_ok s' fl' d \<and> grew s s' vs d
    \<and> (\<forall>n < 2 ^ 20. entry (mem s') d n
         = with_range (entry (mem s) d) (vpn (virt k)) j (phys_start k) (kperm k) n)
    \<and> (if r = 0 then j = Suc p else r = -1 \<and> j \<le> p \<and> fl' = [])"
    using k v p by (intro mappages_ok Cons.prems(3)) (auto simp: less_Suc_eq_le)
  then obtain r t vs fl' j where m: "mappages d (virt k) ?sz (phys_start k) (kperm k) s = Ret r t"
    "fl = vs @ fl'" "vm_ok t fl' d" "grew s t vs d"
    "\<forall>n < 2 ^ 20. entry (mem t) d n = with_range (entry (mem s) d) (vpn (virt k)) j (phys_start k) (kperm k) n"
    "if r = 0 then j = Suc p else r = -1 \<and> j \<le> p \<and> fl' = []" by blast
  have g: "grew s0 t (us @ vs) d" using Cons.prems(2) m(4) by (rule grew_trans)
  have "length (us @ vs) \<le> 1024" using grew_bound [OF _ g, of fl'] Cons.prems(1) m(2) by simp
  with Cons.prems(4) m(2) have "fl' \<noteq> []" by auto
  with m(6) p have r: "r = 0" "j = npages k" by (auto split: if_splits)
  have en: "\<forall>n < 2 ^ 20. entry (mem t) d n = add_region k (entry (mem s) d) n" using m(5) r by simp
  note C = kmap_cong [OF en]
  have "\<exists>s' ws fl''. map_kernel d ks t = Ret d s' \<and> fl' = ws @ fl'' \<and> vm_ok s' fl'' d \<and> grew t s' ws d
    \<and> (\<forall>n < 2 ^ 20. entry (mem s') d n = kmap_entries ks (entry (mem t) d) n)"
    using Cons.prems(1,4) g m(2,3) k(6) C by (intro Cons.IH [of "us @ vs"]) simp_all
  then obtain u ws fl'' where i: "map_kernel d ks t = Ret d u" "fl' = ws @ fl''" "vm_ok u fl'' d"
    "grew t u ws d" "\<forall>n < 2 ^ 20. entry (mem u) d n = kmap_entries ks (entry (mem t) d) n" by blast
  have "map_kernel d (k # ks) s = Ret d u" using m(1) i(1) r by (simp add: bnd_Ret)
  with i(2,3,5) m(2) grew_trans [OF m(4) i(4)] C show ?case
    by (intro exI [of _ u] exI [of _ "vs @ ws"] exI [of _ fl'']) simp
qed

end
