(* ===== verification/Uvm.thy ===== *)
theory Uvm
  imports Vm
begin

unbundle bit_operations_syntax

text \<open>
  What the operations of \<^verbatim>\<open>vm.c\<close> do to whole address spaces: the kernel mappings every page table
  starts with, growing and shrinking the user part, and copying it.
\<close>

section \<open>The kernel mappings\<close>

text \<open>
  The linker script aligns \<^verbatim>\<open>data\<close> to a page, above the kernel's text.
\<close>

definition data_ok :: "uint \<Rightarrow> bool" where
  "data_ok data \<longleftrightarrow> unat data mod 4096 = 0 \<and> KERNLINK < data \<and> data < P2V PHYSTOP"

text \<open>The entry the table of \<^verbatim>\<open>vm.c\<close> calls for at each address.\<close>

definition kernel_pte :: "uint \<Rightarrow> uint \<Rightarrow> uint" where
  "kernel_pte data va =
     (if va < KERNBASE then 0
      else if va < KERNLINK then V2P (PGROUNDDOWN va) OR PTE_W OR PTE_P
      else if va < data then V2P (PGROUNDDOWN va) OR PTE_P
      else if va < P2V PHYSTOP then V2P (PGROUNDDOWN va) OR PTE_W OR PTE_P
      else if va < DEVSPACE then 0
      else PGROUNDDOWN va OR PTE_W OR PTE_P)"

lemma data_vpn:
  assumes "data_ok data"
  shows "unat data = vpn data * 4096" "0x80100 < vpn data" "vpn data < 0x8E000"
    "unat (V2P data) = (vpn data - 0x80000) * 4096"
proof -
  from assms show u: "unat data = vpn data * 4096" by (auto simp: data_ok_def vpn_def)
  from assms have "0x80100000 < unat data" "unat data < 0x8E000000"
    by (simp_all add: data_ok_def word_less_nat_alt P2V_def)
  with u show lo: "0x80100 < vpn data" and "vpn data < 0x8E000" by simp_all
  have "unat (V2P data) = unat data - 0x80000000"
    using assms by (intro unat_V2P) (auto simp: data_ok_def word_le_nat_alt word_less_nat_alt)
  then show "unat (V2P data) = (vpn data - 0x80000) * 4096" using u by simp
qed

lemma kmap_numbers:
  assumes "data_ok data"
  shows "map (\<lambda>k. (vpn (virt k), npages k)) (kmap data)
    = [(0x80000, 0x100), (0x80100, vpn data - 0x80100), (vpn data, 0x8E000 - vpn data), (0xFE000, 0x2000)]"
    and "\<forall>k \<in> set (kmap data). unat (virt k) mod 4096 = 0
      \<and> unat (phys_end k - phys_start k) = npages k * 4096"
proof -
  note D = data_vpn [OF assms]
  have e: "unat (V2P data - EXTMEM) = (vpn data - 0x80100) * 4096"
    using D by (subst unat_sub) (simp_all add: word_le_nat_alt)
  have f: "unat (PHYSTOP - V2P data) = (0x8E000 - vpn data) * 4096"
    using D by (subst unat_sub) (simp_all add: word_le_nat_alt)
  have l: "V2P KERNLINK = EXTMEM" by (simp add: V2P_def)
  show "map (\<lambda>k. (vpn (virt k), npages k)) (kmap data)
    = [(0x80000, 0x100), (0x80100, vpn data - 0x80100), (vpn data, 0x8E000 - vpn data), (0xFE000, 0x2000)]"
    by (simp add: kmap_def npages_def l e f) (simp add: vpn_def)
  show "\<forall>k \<in> set (kmap data). unat (virt k) mod 4096 = 0
      \<and> unat (phys_end k - phys_start k) = npages k * 4096"
    using assms by (simp add: kmap_def npages_def l e f data_ok_def)
qed

lemma kmap_list:
  assumes "data_ok data"
  obtains k1 k2 k3 k4 where "kmap data = [k1, k2, k3, k4]"
    "vpn (virt k1) = 0x80000" "npages k1 = 0x100" "vpn (virt k2) = 0x80100"
    "npages k2 = vpn data - 0x80100" "vpn (virt k3) = vpn data" "npages k3 = 0x8E000 - vpn data"
    "vpn (virt k4) = 0xFE000" "npages k4 = 0x2000"
    "virt k1 = KERNBASE" "virt k2 = KERNLINK" "virt k3 = data" "virt k4 = DEVSPACE"
    "phys_start k1 = V2P KERNBASE" "phys_start k2 = V2P KERNLINK" "phys_start k3 = V2P data"
    "phys_start k4 = DEVSPACE" "kperm k1 = PTE_W" "kperm k2 = 0" "kperm k3 = PTE_W" "kperm k4 = PTE_W"
  using kmap_numbers(1) [OF assms] by (auto simp: kmap_def V2P_def)

lemma kmap_data_ok:
  assumes "data_ok data"
  shows "kmap_ok (kmap data) (\<lambda>_. 0)"
proof (rule kmap_list [OF assms])
  fix k1 k2 k3 k4
  assume k: "kmap data = [k1, k2, k3, k4]" and n: "vpn (virt k1) = 0x80000" "npages k1 = 0x100"
    "vpn (virt k2) = 0x80100" "npages k2 = vpn data - 0x80100" "vpn (virt k3) = vpn data"
    "npages k3 = 0x8E000 - vpn data" "vpn (virt k4) = 0xFE000" "npages k4 = 0x2000"
  note D = data_vpn [OF assms]
  from kmap_numbers(2) [OF assms] show ?thesis
    unfolding k kmap_ok.simps
    by (intro conjI allI impI) (use n D in \<open>simp_all add: with_range_def\<close>)
qed

lemma vpn_addr: "of_nat (vpn va) * PGSIZE = PGROUNDDOWN va"
  using unat_page_run [of 0 "vpn va"] vpn_less(1) [of va]
  by (simp add: word_unat_eq_iff unat_PGROUNDDOWN vpn_def)

lemma PGROUNDDOWN_id: "unat v mod 4096 = 0 \<Longrightarrow> PGROUNDDOWN v = v"
  by (auto simp: word_unat_eq_iff unat_PGROUNDDOWN)

lemma vpn_less_iff: "unat v mod 4096 = 0 \<Longrightarrow> va < v \<longleftrightarrow> vpn va < vpn v"
  by (auto simp: vpn_def word_less_nat_alt)

lemma V2P_sub: "V2P v + (x - v) = V2P x"
  by (simp add: V2P_def)

lemma kernel_entries:
  assumes "data_ok data"
  shows "kmap_entries (kmap data) (\<lambda>_. 0) (vpn va) = kernel_pte data va"
proof (rule kmap_list [OF assms])
  fix k1 k2 k3 k4
  assume k: "kmap data = [k1, k2, k3, k4]" and n: "vpn (virt k1) = 0x80000" "npages k1 = 0x100"
    "vpn (virt k2) = 0x80100" "npages k2 = vpn data - 0x80100" "vpn (virt k3) = vpn data"
    "npages k3 = 0x8E000 - vpn data" "vpn (virt k4) = 0xFE000" "npages k4 = 0x2000"
    and v: "virt k1 = KERNBASE" "virt k2 = KERNLINK" "virt k3 = data" "virt k4 = DEVSPACE"
    and p: "phys_start k1 = V2P KERNBASE" "phys_start k2 = V2P KERNLINK" "phys_start k3 = V2P data"
    "phys_start k4 = DEVSPACE" "kperm k1 = PTE_W" "kperm k2 = 0" "kperm k3 = PTE_W" "kperm k4 = PTE_W"
  note D = data_vpn [OF assms]
  have al: "unat data mod 4096 = 0" "unat KERNBASE mod 4096 = 0" "unat KERNLINK mod 4096 = 0"
    "unat (P2V PHYSTOP) mod 4096 = 0" "unat DEVSPACE mod 4096 = 0"
    using assms by (simp_all add: data_ok_def P2V_def)
  have nv: "vpn KERNBASE = 0x80000" "vpn KERNLINK = 0x80100" "vpn (P2V PHYSTOP) = 0x8E000"
    "vpn DEVSPACE = 0xFE000" by (simp_all add: vpn_def P2V_def)
  note L = vpn_less_iff [OF al(1)] vpn_less_iff [OF al(2), unfolded nv]
    vpn_less_iff [OF al(3), unfolded nv] vpn_less_iff [OF al(4), unfolded nv]
    vpn_less_iff [OF al(5), unfolded nv]
  have top: "vpn va < 0x100000" using vpn_less(1) [of va] by simp
  consider "vpn va < 0x80000" | "0x80000 \<le> vpn va" "vpn va < 0x80100"
    | "0x80100 \<le> vpn va" "vpn va < vpn data" | "vpn data \<le> vpn va" "vpn va < 0x8E000"
    | "0x8E000 \<le> vpn va" "vpn va < 0xFE000" | "0xFE000 \<le> vpn va" by linarith
  then show ?thesis
    by cases (use D top in \<open>simp_all add: k with_range_def n p L kernel_pte_def vpn_addr
      PGROUNDDOWN_id [OF al(1)] V2P_sub\<close>)
qed

definition zero_page :: "uint \<Rightarrow> (nat \<Rightarrow> uint) \<Rightarrow> nat \<Rightarrow> uint" where
  "zero_page v m = (\<lambda>w. if kw v \<le> w \<and> w < kw v + 1024 then 0 else m w)"

lemma memset_zero: "memset_words v 0 4096 s = Ret () (s\<lparr>mem := zero_page v (mem s)\<rparr>)"
  by (simp add: memset_words_def zero_page_def cong: if_cong)

lemma in_page: "page_ok e v \<Longrightarrow> KERNBASE < e \<Longrightarrow> kw v \<le> w \<and> w < kw v + 1024 \<longleftrightarrow> w div 1024 = kpg v"
  using page_ok_unat(3) [of e v] by auto

lemma zero_page_word:
  "page_ok e v \<Longrightarrow> KERNBASE < e \<Longrightarrow> zero_page v m w = (if w div 1024 = kpg v then 0 else m w)"
  by (simp add: zero_page_def in_page)

text \<open>Taking a page and clearing it.\<close>

lemma kalloc_zero:
  assumes "frees s (v # fl)"
  defines "s' \<equiv> s\<lparr>freelist := mem s (kw v), mem := zero_page v (mem s)\<rparr>"
  shows "bnd kalloc (\<lambda>x. if x = 0 then f0 else thn (memset_words x 0 4096) (f x)) s = f v s'"
    and "frees s' fl" and "pages_only s s'" and "page_ok (kend s) v" and "kpg v \<notin> kpg ` set fl"
    and "KERNBASE < kend s" and "mem s' w = (if w div 1024 = kpg v then 0 else mem s w)"
proof -
  from assms have e: "KERNBASE < kend s" and v: "page_ok (kend s) v" "v \<notin> set fl"
    and fl: "\<forall>q \<in> set fl. page_ok (kend s) q" by (auto simp: frees_def)
  show "KERNBASE < kend s" "page_ok (kend s) v" by fact+
  show nin: "kpg v \<notin> kpg ` set fl"
    using page_ok_inj [OF v(1) _ e] fl v(2) by (metis imageE)
  show w: "mem s' w = (if w div 1024 = kpg v then 0 else mem s w)" for w
    using zero_page_word [OF v(1) e] by (simp add: s'_def)
  note K = frees_kalloc_cons [OF assms(1)]
  show "bnd kalloc (\<lambda>x. if x = 0 then f0 else thn (memset_words x 0 4096) (f x)) s = f v s'"
    using K(1) page_ok_unat(1) [OF v(1) e] by (simp add: bnd_Ret thn_Ret memset_zero s'_def)
  have "frees (s\<lparr>freelist := mem s (kw v)\<rparr>\<lparr>mem := mem s'\<rparr>) fl"
    using nin by (intro frees_write K(2)) (auto simp: w kw_div dest: image_eqI [OF sym])
  then show "frees s' fl" by (simp add: s'_def)
  show "pages_only s s'" by (simp add: s'_def)
qed

lemma setupkvm_ok:
  assumes fr: "frees s (d # fl)" and len: "1024 < length fl" and data: "data_ok (kdata s)"
  shows "\<exists>s' us fl'. setupkvm s = Ret d s' \<and> fl = us @ fl' \<and> vm_ok s' fl' d \<and> pages_only s s'
    \<and> ptpgs (mem s') d = kpg ` set (d # us)
    \<and> (\<forall>w. w div 1024 \<notin> kpg ` set (d # us) \<longrightarrow> mem s' w = mem s w)
    \<and> (\<forall>va. entry (mem s') d (vpn va) = kernel_pte (kdata s) va)"
proof -
  define t where "t = s\<lparr>freelist := mem s (kw d), mem := zero_page d (mem s)\<rparr>"
  note Z = kalloc_zero [OF fr, folded t_def]
  have k: "kend t = kend s" "kdata t = kdata s" by (simp_all add: t_def)
  have pd: "pde (mem t) d i = 0" if "i < 1024" for i
    using Z(7) pde_page [OF Z(4,6) that] by (simp add: pde_def)
  then have pt: "ptpgs (mem t) d = {kpg d}" by (auto simp: ptpgs_def)
  have ok: "vm_ok t fl d" using Z(2,4,5) pd pt by (simp add: vm_ok_def pt_wf_def k)
  have e0: "\<forall>n < 2 ^ 20. entry (mem t) d n = 0" using pd by (simp add: entry_def)
  have "kmap_ok (kmap (kdata s)) (entry (mem t) d)"
    using kmap_cong [of "entry (mem t) d" "\<lambda>_. 0"] e0 kmap_data_ok [OF data] by blast
  with map_kernel_ok [of t "[]" fl d t "kmap (kdata s)"] ok len obtain u us fl' where
    u: "map_kernel d (kmap (kdata s)) t = Ret d u" "fl = us @ fl'" "vm_ok u fl' d" "grew t u us d"
      "\<forall>n < 2 ^ 20. entry (mem u) d n = kmap_entries (kmap (kdata s)) (entry (mem t) d) n" by auto
  have "setupkvm s = Ret d u"
    unfolding setupkvm_def Z(1) using u(1) by (simp add: P2V_def k)
  moreover have "pages_only s u" using Z(3) u(4) by (auto simp: grew_def intro: pages_only_trans)
  moreover have "ptpgs (mem u) d = kpg ` set (d # us)" using u(4) pt by (simp add: grew_def)
  moreover from this have "\<forall>w. w div 1024 \<notin> kpg ` set (d # us) \<longrightarrow> mem u w = mem s w"
    using u(4) Z(7) by (auto simp: grew_def)
  moreover have "entry (mem u) d (vpn va) = kernel_pte (kdata s) va" for va
    using u(5) vpn_less(1) [of va] kmap_cong [of "entry (mem t) d" "\<lambda>_. 0" "kmap (kdata s)"] e0
    by (simp add: kernel_entries [OF data])
  ultimately show ?thesis using u(2,3) by blast
qed

section \<open>User memory\<close>

text \<open>
  An address space in order: besides \<open>vm_ok\<close>, every present user entry refers to a page of its own
  that is neither free nor part of the table.
\<close>

abbreviation UPAGES :: nat where "UPAGES \<equiv> 0x80000"

definition user_ok :: "uint \<Rightarrow> (nat \<Rightarrow> uint) \<Rightarrow> nat set \<Rightarrow> bool" where
  "user_ok e en owned \<longleftrightarrow>
     (\<forall>n < UPAGES. present (en n) \<longrightarrow> page_ok e (P2V (PTE_ADDR (en n))) \<and> frm (en n) \<notin> owned)
     \<and> (\<forall>n < UPAGES. \<forall>k < UPAGES. present (en n) \<longrightarrow> present (en k) \<longrightarrow> frm (en n) = frm (en k) \<longrightarrow> n = k)"

definition uvm_ok :: "'e phys_scheme \<Rightarrow> uint list \<Rightarrow> uint \<Rightarrow> bool" where
  "uvm_ok s fl d \<longleftrightarrow> vm_ok s fl d
     \<and> user_ok (kend s) (entry (mem s) d) (kpg ` set fl \<union> ptpgs (mem s) d)"

lemma user_ok_del:
  assumes "user_ok e en ow" and "n < UPAGES" and "present (en n)"
    and "\<And>k. k < UPAGES \<Longrightarrow> en' k = (if k = n then 0 else en k)"
  shows "user_ok e en' (insert (frm (en n)) ow)"
  using assms unfolding user_ok_def by (auto split: if_splits)

lemma free_entry:
  assumes ok: "uvm_ok s fl d" and n: "n < UPAGES" and pr: "present (entry (mem s) d n)"
    and p: "kw p = slot (mem s) d n"
  defines "v \<equiv> P2V (PTE_ADDR (entry (mem s) d n))"
  shows "\<exists>s'. thn (kfree v) (st32 p 0) s = Ret () s' \<and> uvm_ok s' (v # fl) d \<and> pages_only s s'
    \<and> ptpgs (mem s') d = ptpgs (mem s) d
    \<and> (\<forall>k < 2 ^ 20. entry (mem s') d k = (if k = n then 0 else entry (mem s) d k))
    \<and> (\<forall>w. w div 1024 \<notin> insert (kpg v) (ptpgs (mem s) d) \<longrightarrow> mem s' w = mem s w)"
proof -
  from ok have vm: "vm_ok s fl d" by (simp add: uvm_ok_def)
  note D = vm_okD [OF vm]
  let ?e = "entry (mem s) d n"
  have kv: "kpg v = frm ?e" by (simp add: v_def kw_frame)
  from ok n pr have v: "page_ok (kend s) v" "kpg v \<notin> kpg ` set fl" "kpg v \<notin> ptpgs (mem s) d"
    by (auto simp: uvm_ok_def user_ok_def v_def kw_frame)
  from v(2) have nv: "v \<notin> set fl" by auto
  let ?m = "junked v (freelist s) (mem s)"
  let ?t = "s\<lparr>mem := ?m, freelist := v\<rparr>"
  note F = frees_kfree [OF D(1) v(1) nv]
  have same: "?m w = mem s w" if "w div 1024 \<noteq> kpg v" for w
    using that by (intro junked_frame [OF v(1) D(3)])
  have keep: "?m w = mem s w" if "w div 1024 \<in> ptpgs (mem s) d" for w
    using that v(3) by (intro same) auto
  have C: "pde ?m d i = pde (mem s) d i" if "i < 1024" for i
    by (rule pt_cong(1) [OF D(4,3) keep that])
  have C': "ptpgs ?m d = ptpgs (mem s) d" "pt_wf (kend s) ?m d"
    "\<And>k. k < 2 ^ 20 \<Longrightarrow> slot ?m d k = slot (mem s) d k"
    "\<And>k. k < 2 ^ 20 \<Longrightarrow> entry ?m d k = entry (mem s) d k"
    using pt_cong(2-5) [OF D(4,3) keep] D(2) by simp_all
  have n2: "n < 2 ^ 20" using n by simp
  have vt: "vm_ok ?t (v # fl) d" using F(2) C' vm v(3) by (simp add: vm_ok_def)
  have pd: "present (pde (mem s) d (n div 1024))" using pr by (auto simp: entry_def split: if_splits)
  then have pt: "present (pde (mem ?t) d (n div 1024))" using C n by simp
  let ?u = "?t\<lparr>mem := (mem ?t)(slot (mem ?t) d n := 0)\<rparr>"
  note V = vm_ok_write [OF vt n2 pt, where x = 0]
  have run: "thn (kfree v) (st32 p 0) s = Ret () ?u"
    using F(1) p C'(3) [OF n2] by (simp add: thn_Ret st32_def)
  have en: "\<forall>k < 2 ^ 20. entry (mem ?u) d k = (if k = n then 0 else entry (mem s) d k)"
    using V(3) C'(4) by simp
  have up: "ptpgs (mem ?u) d = ptpgs (mem s) d" using V(2) C'(1) by (simp add: grew_def)
  have "user_ok (kend s) (entry (mem ?u) d) (insert (frm ?e) (kpg ` set fl \<union> ptpgs (mem s) d))"
    using ok n pr en by (intro user_ok_del) (auto simp: uvm_ok_def)
  then have "uvm_ok ?u (v # fl) d" using V(1) up kv by (simp add: uvm_ok_def)
  moreover have "\<forall>w. w div 1024 \<notin> insert (kpg v) (ptpgs (mem s) d) \<longrightarrow> mem ?u w = mem s w"
    using V(2) same up by (auto simp: grew_def)
  ultimately show ?thesis using run en up by (intro exI [of _ ?u]) simp
qed

definition upages :: "uint \<Rightarrow> nat" where
  "upages sz = (unat sz + 4095) div 4096"

lemma upages_less: "unat a mod 4096 = 0 \<Longrightarrow> a < sz \<longleftrightarrow> vpn a < upages sz"
  by (auto simp: vpn_def upages_def word_less_nat_alt)

lemma next_dir:
  assumes "vpn a div 1024 < 1023"
  shows "unat (PGADDR (PDX a + 1) 0 0 - PGSIZE + PGSIZE) = (vpn a div 1024 + 1) * 4194304"
proof -
  have "unat (PDX a + 1) = vpn a div 1024 + 1"
    using assms by (subst unat_add_lem [THEN iffD1]) (simp_all add: PDX_vpn)
  moreover have "unat (push_bit 22 x) = unat x * 4194304" if "unat x < 1024" for x :: uint
    unfolding push_bit_eq_mult using that by (subst unat_mult_lem [THEN iffD1]) simp_all
  ultimately have "unat (push_bit 22 (PDX a + 1)) = (vpn a div 1024 + 1) * 4194304"
    using assms by simp
  then show ?thesis by (simp add: PGADDR_def)
qed

definition unmapped :: "(nat \<Rightarrow> uint) \<Rightarrow> nat \<Rightarrow> nat \<Rightarrow> nat \<Rightarrow> uint" where
  "unmapped en lo hi n = (if lo \<le> n \<and> n < hi \<and> present (en n) then 0 else en n)"

definition frames :: "(nat \<Rightarrow> uint) \<Rightarrow> nat \<Rightarrow> nat \<Rightarrow> nat set" where
  "frames en lo hi = {frm (en n) |n. lo \<le> n \<and> n < hi \<and> present (en n)}"

text \<open>\<open>shrinks s s' fl fs d lo hi\<close>: the pages mapped at \<open>lo .. hi - 1\<close> became the free pages \<open>fs\<close>.\<close>

definition shrinks ::
    "'e phys_scheme \<Rightarrow> 'e phys_scheme \<Rightarrow> uint list \<Rightarrow> uint list \<Rightarrow> uint \<Rightarrow> nat \<Rightarrow> nat \<Rightarrow> bool" where
  "shrinks s s' fl fs d lo hi \<longleftrightarrow> uvm_ok s' (fs @ fl) d \<and> pages_only s s'
     \<and> ptpgs (mem s') d = ptpgs (mem s) d
     \<and> (\<forall>n < 2 ^ 20. entry (mem s') d n = unmapped (entry (mem s) d) lo hi n)
     \<and> kpg ` set fs = frames (entry (mem s) d) lo hi
     \<and> (\<forall>w. w div 1024 \<notin> kpg ` set fs \<union> ptpgs (mem s) d \<longrightarrow> mem s' w = mem s w)"

lemma unmapped_absent:
  assumes "\<And>n. lo \<le> n \<Longrightarrow> n < mid \<Longrightarrow> \<not> present (en n)" "lo \<le> mid"
  shows "unmapped en lo hi = unmapped en mid hi" "frames en lo hi = frames en mid hi"
proof -
  have e: "lo \<le> n \<and> n < hi \<and> present (en n) \<longleftrightarrow> mid \<le> n \<and> n < hi \<and> present (en n)" for n
    using assms by (meson le_trans not_le)
  show "unmapped en lo hi = unmapped en mid hi" unfolding unmapped_def e ..
  show "frames en lo hi = frames en mid hi" unfolding frames_def e ..
qed

lemma dealloc_loop_ok:
  assumes "uvm_ok s fl d" and "unat a mod 4096 = 0" and "upages sz \<le> UPAGES"
    and "upages sz - vpn a < fuel"
  shows "\<exists>s' fs. dealloc_loop fuel d a sz s = Ret () s' \<and> shrinks s s' fl fs d (vpn a) (upages sz)"
  using assms
proof (induction fuel arbitrary: a s fl)
  case (Suc fuel)
  show ?case
  proof (cases "a < sz")
    case False
    then have "upages sz \<le> vpn a" using upages_less [OF Suc.prems(2)] by simp
    then have "shrinks s s fl [] d (vpn a) (upages sz)"
      using Suc.prems(1) by (auto simp: shrinks_def unmapped_def frames_def)
    with False show ?thesis by auto
  next
    case True
    then have lt: "vpn a < upages sz" using upages_less [OF Suc.prems(2)] by simp
    with Suc.prems(3) have au: "vpn a < UPAGES" "vpn a < 2 ^ 20" by simp_all
    from Suc.prems(1) have vm: "vm_ok s fl d" by (simp add: uvm_ok_def)
    note D = vm_okD [OF vm]
    from walk_read [OF D(2,3), of a] obtain p where
      p: "walkpgdir d a False s = Ret p s" "p = 0 \<longleftrightarrow> \<not> present (pde (mem s) d (vpn a div 1024))"
        "p \<noteq> 0 \<longrightarrow> kw p = slot (mem s) d (vpn a)" by blast
    have nx: "vpn (a + PGSIZE) = Suc (vpn a)" "unat (a + PGSIZE) mod 4096 = 0"
      using au Suc.prems(2) by (simp_all add: vpn_PGSIZE aligned_PGSIZE)
    have fu: "upages sz - vpn (a + PGSIZE) < fuel" using Suc.prems(4) lt nx(1) by linarith
    consider (skip) "p = 0" | (absent) "p \<noteq> 0" "\<not> present (entry (mem s) d (vpn a))"
      | (free) "p \<noteq> 0" "present (entry (mem s) d (vpn a))" by blast
    then show ?thesis
    proof cases
      case skip
      let ?a = "PGADDR (PDX a + 1) 0 0 - PGSIZE + PGSIZE"
      have u: "unat ?a = (vpn a div 1024 + 1) * 4194304" using au by (intro next_dir) simp
      then have va: "vpn ?a = (vpn a div 1024 + 1) * 1024" "unat ?a mod 4096 = 0"
        by (simp_all add: vpn_def)
      have ab: "\<not> present (entry (mem s) d n)" if "vpn a \<le> n" "n < vpn ?a" for n
      proof -
        have "n div 1024 = vpn a div 1024" using that va(1) by auto
        with skip p(2) show ?thesis by (simp add: entry_def)
      qed
      have le: "vpn a < vpn ?a" unfolding va(1) by simp
      have "upages sz - vpn ?a < fuel" using Suc.prems(4) le lt by linarith
      from Suc.IH [OF Suc.prems(1) va(2) Suc.prems(3) this] obtain s' fs where
        "dealloc_loop fuel d ?a sz s = Ret () s'" "shrinks s s' fl fs d (vpn ?a) (upages sz)" by auto
      moreover note unmapped_absent [of "vpn a" "vpn ?a" "entry (mem s) d", OF ab less_imp_le [OF le]]
      ultimately show ?thesis using True skip p(1) by (auto simp: bnd_Ret shrinks_def)
    next
      case absent
      then have "\<not> present (mem s (kw p))" using p by (simp add: entry_def)
      moreover from Suc.IH [OF Suc.prems(1) nx(2) Suc.prems(3) fu] nx(1) obtain s' fs where
        "dealloc_loop fuel d (a + PGSIZE) sz s = Ret () s'"
        "shrinks s s' fl fs d (Suc (vpn a)) (upages sz)" by auto
      moreover have "unmapped (entry (mem s) d) (vpn a) h = unmapped (entry (mem s) d) (Suc (vpn a)) h"
        "frames (entry (mem s) d) (vpn a) h = frames (entry (mem s) d) (Suc (vpn a)) h" for h
        using absent(2) by (intro unmapped_absent; auto simp: less_Suc_eq)+
      ultimately show ?thesis using True absent p(1) by (auto simp: bnd_Ret shrinks_def ld32_def)
    next
      case free
      let ?e = "entry (mem s) d (vpn a)"
      let ?v = "P2V (PTE_ADDR ?e)"
      have e: "mem s (kw p) = ?e" using p free by (simp add: entry_def)
      from free p have kp: "kw p = slot (mem s) d (vpn a)" by simp
      from free_entry [OF Suc.prems(1) au(1) free(2) kp] obtain t where
        t: "thn (kfree ?v) (st32 p 0) s = Ret () t" "uvm_ok t (?v # fl) d" "pages_only s t"
          "ptpgs (mem t) d = ptpgs (mem s) d"
          "\<forall>k < 2 ^ 20. entry (mem t) d k = (if k = vpn a then 0 else entry (mem s) d k)"
          "\<forall>w. w div 1024 \<notin> insert (kpg ?v) (ptpgs (mem s) d) \<longrightarrow> mem t w = mem s w" by blast
      have "page_ok (kend s) ?v" using Suc.prems(1) au free by (simp add: uvm_ok_def user_ok_def)
      then have nz: "PTE_ADDR ?e \<noteq> 0"
        using D(3) by (auto simp: page_ok_def P2V_def)
      from Suc.IH [OF t(2) nx(2) Suc.prems(3) fu] nx(1) obtain u fs where
        u: "dealloc_loop fuel d (a + PGSIZE) sz t = Ret () u"
          "shrinks t u (?v # fl) fs d (Suc (vpn a)) (upages sz)" by auto
      have "dealloc_loop (Suc fuel) d a sz s = Ret () u"
        using True free p(1) e nz u(1) t(1)
        by (simp add: bnd_Ret ld32_def Let_def) (simp add: thn_assoc [symmetric] thn_Ret del: thn_assoc)
      moreover have "shrinks s u fl (fs @ [?v]) d (vpn a) (upages sz)"
      proof -
        have en: "entry (mem t) d n = entry (mem s) d n" if "Suc (vpn a) \<le> n" "n < upages sz" for n
          using t(5) that Suc.prems(3) by auto
        have "frames (entry (mem t) d) (Suc (vpn a)) (upages sz)
            = frames (entry (mem s) d) (Suc (vpn a)) (upages sz)"
          unfolding frames_def using en by (auto; metis)
        moreover have "frames (entry (mem s) d) (vpn a) (upages sz)
            = insert (frm ?e) (frames (entry (mem s) d) (Suc (vpn a)) (upages sz))"
          unfolding frames_def using lt free(2) by (auto simp: Suc_le_eq le_less)
        moreover have "unmapped (entry (mem t) d) (Suc (vpn a)) (upages sz) n
            = unmapped (entry (mem s) d) (vpn a) (upages sz) n" if "n < 2 ^ 20" for n
          using t(5) that lt free(2) by (auto simp: unmapped_def)
        ultimately show ?thesis
          using u(2) t(3,4,6) by (auto simp: shrinks_def kw_frame intro: pages_only_trans)
      qed
      ultimately show ?thesis by blast
    qed
  qed
qed simp

lemma PGROUNDUP_vpn:
  assumes "sz \<le> KERNBASE"
  shows "vpn (PGROUNDUP sz) = upages sz" "unat (PGROUNDUP sz) mod 4096 = 0"
proof -
  have "unat sz \<le> 0x80000000" using assms by (simp add: word_le_nat_alt)
  then have "unat (PGROUNDUP sz) = (unat sz + 4095) div 4096 * 4096" by (intro unat_PGROUNDUP) simp
  then show "vpn (PGROUNDUP sz) = upages sz" "unat (PGROUNDUP sz) mod 4096 = 0"
    by (simp_all add: vpn_def upages_def)
qed

lemma upages_le: "sz \<le> KERNBASE \<Longrightarrow> upages sz \<le> UPAGES"
  by (simp add: upages_def word_le_nat_alt)

lemma deallocuvm_ok:
  assumes "uvm_ok s fl d" and "oldsz \<le> KERNBASE" and "newsz < oldsz"
  shows "\<exists>s' fs. deallocuvm d oldsz newsz s = Ret newsz s'
    \<and> shrinks s s' fl fs d (upages newsz) (upages oldsz)"
proof -
  have n: "newsz \<le> KERNBASE" using assms(2,3) by simp
  have f: "upages oldsz - vpn (PGROUNDUP newsz) < 2 ^ 20 + 1" using upages_le [OF assms(2)] by simp
  from dealloc_loop_ok [OF assms(1) PGROUNDUP_vpn(2) [OF n] upages_le [OF assms(2)] f] PGROUNDUP_vpn(1) [OF n]
  obtain s' fs where "dealloc_loop (2 ^ 20 + 1) d (PGROUNDUP newsz) oldsz s = Ret () s'"
    "shrinks s s' fl fs d (upages newsz) (upages oldsz)" by auto
  with assms(3) show ?thesis by (auto simp: deallocuvm_def thn_Ret simp del: dealloc_loop.simps)
qed

section \<open>Tearing an address space down\<close>

lemma free_tables_ok:
  assumes "frees s gl" and "page_ok (kend s) d" and "kpg d \<notin> kpg ` set gl" and "distinct is"
    and "\<forall>i \<in> set is. i < 1024 \<and> pde (mem s) d i = pd i"
    and "\<forall>i \<in> set is. present (pd i) \<longrightarrow> page_ok (kend s) (P2V (PTE_ADDR (pd i)))
      \<and> frm (pd i) \<noteq> kpg d \<and> frm (pd i) \<notin> kpg ` set gl"
    and "inj_on (\<lambda>i. frm (pd i)) {i \<in> set is. present (pd i)}"
  shows "\<exists>s' ts. for_each is (free_table d) s = Ret () s' \<and> frees s' (ts @ gl) \<and> pages_only s s'
    \<and> kpg ` set ts = {frm (pd i) |i. i \<in> set is \<and> present (pd i)}
    \<and> (\<forall>w. w div 1024 \<notin> kpg ` set ts \<longrightarrow> mem s' w = mem s w)"
  using assms
proof (induction "is" arbitrary: s gl)
  case Nil
  then show ?case by (intro exI [of _ s] exI [of _ "[]"]) simp
next
  case (Cons i "is")
  have e: "KERNBASE < kend s" using Cons.prems(1) by (simp add: frees_def)
  have i: "i < 1024" "pde (mem s) d i = pd i" using Cons.prems(5) by auto
  have "unat (of_nat i :: uint) = i" using i(1) by (simp add: unsigned_of_nat take_bit_nat_eq_self)
  then have ld: "mem s (kw (d + 4 * of_nat i)) = pd i"
    using kw_index [OF page_ok_V2P [OF Cons.prems(2) e], of "of_nat i"] i by (simp add: pde_def)
  have inj: "inj_on (\<lambda>i. frm (pd i)) {j \<in> set is. present (pd j)}"
    using Cons.prems(7) by (rule inj_on_subset) auto
  show ?case
  proof (cases "present (pd i)")
    case False
    with Cons.IH [OF Cons.prems(1-3) _ _ _ inj] Cons.prems(4-6) obtain s' ts where
      "for_each is (free_table d) s = Ret () s'" "frees s' (ts @ gl)" "pages_only s s'"
      "kpg ` set ts = {frm (pd i) |i. i \<in> set is \<and> present (pd i)}"
      "\<forall>w. w div 1024 \<notin> kpg ` set ts \<longrightarrow> mem s' w = mem s w" by auto
    moreover have "free_table d i s = Ret () s" using ld False by (simp add: free_table_def ld32_def)
    ultimately show ?thesis using False
      by (intro exI [of _ s'] exI [of _ ts]) (auto simp: thn_Ret)
  next
    case True
    let ?v = "P2V (PTE_ADDR (pd i))"
    from True Cons.prems(6) have v: "page_ok (kend s) ?v" "frm (pd i) \<noteq> kpg d" "kpg ?v \<notin> kpg ` set gl"
      by (auto simp: kw_frame)
    then have "?v \<notin> set gl" by auto
    note F = frees_kfree [OF Cons.prems(1) v(1) this]
    let ?t = "s\<lparr>mem := junked ?v (freelist s) (mem s), freelist := ?v\<rparr>"
    have same: "mem ?t w = mem s w" if "w div 1024 \<noteq> frm (pd i)" for w
      using junked_frame [OF v(1) e] that by (simp add: kw_frame)
    have run: "free_table d i s = Ret () ?t" using ld True F(1) by (simp add: free_table_def ld32_def)
    have ne: "frm (pd j) \<noteq> frm (pd i)" if "j \<in> set is" "present (pd j)" for j
      using Cons.prems(4,7) True that by (auto simp: inj_on_def)
    have "\<exists>s' ts. for_each is (free_table d) ?t = Ret () s' \<and> frees s' (ts @ ?v # gl) \<and> pages_only ?t s'
      \<and> kpg ` set ts = {frm (pd i) |i. i \<in> set is \<and> present (pd i)}
      \<and> (\<forall>w. w div 1024 \<notin> kpg ` set ts \<longrightarrow> mem s' w = mem ?t w)"
    proof (rule Cons.IH [OF F(2) _ _ _ _ _ inj])
      show "\<forall>j \<in> set is. j < 1024 \<and> pde (mem ?t) d j = pd j"
        using Cons.prems(5) same v(2) pde_page [OF Cons.prems(2) e] by (auto simp: pde_def)
    qed (use Cons.prems v ne in \<open>auto simp: kw_frame\<close>)
    then obtain s' ts where s': "for_each is (free_table d) ?t = Ret () s'" "frees s' (ts @ ?v # gl)"
      "pages_only ?t s'" "kpg ` set ts = {frm (pd i) |i. i \<in> set is \<and> present (pd i)}"
      "\<forall>w. w div 1024 \<notin> kpg ` set ts \<longrightarrow> mem s' w = mem ?t w" by blast
    have "kpg ` set (ts @ [?v]) = {frm (pd j) |j. j \<in> set (i # is) \<and> present (pd j)}"
      using s'(4) True by (auto simp: kw_frame)
    moreover have "pages_only s s'" by (rule pages_only_trans [OF _ s'(3)]) simp
    moreover have "\<forall>w. w div 1024 \<notin> kpg ` set (ts @ [?v]) \<longrightarrow> mem s' w = mem s w"
      using s'(5) same by (simp add: kw_frame)
    ultimately show ?thesis using run s'(1,2)
      by (intro exI [of _ s'] exI [of _ "ts @ [?v]"]) (simp add: thn_Ret)
  qed
qed

lemma freevm_ok:
  assumes ok: "uvm_ok s fl d"
  shows "\<exists>s' fs. freevm d s = Ret () s' \<and> frees s' (fs @ fl) \<and> pages_only s s'
    \<and> kpg ` set fs = ptpgs (mem s) d \<union> frames (entry (mem s) d) 0 UPAGES
    \<and> (\<forall>w. w div 1024 \<notin> kpg ` set fs \<longrightarrow> mem s' w = mem s w)"
proof -
  have b: "upages 0 = 0" "upages KERNBASE = UPAGES" by (simp_all add: upages_def)
  from deallocuvm_ok [OF ok, of KERNBASE 0] b obtain t us where
    t: "deallocuvm d KERNBASE 0 s = Ret 0 t" "shrinks s t fl us d 0 UPAGES" by auto
  then have vm: "vm_ok t (us @ fl) d" and po: "pages_only s t" by (simp_all add: shrinks_def uvm_ok_def)
  note D = vm_okD [OF vm]
  have pp: "ptpgs (mem t) d = ptpgs (mem s) d" using t(2) by (simp add: shrinks_def)
  have dj: "kpg ` set (us @ fl) \<inter> ptpgs (mem t) d = {}" using vm by (simp add: vm_ok_def)
  have dn: "kpg d \<notin> kpg ` set (us @ fl)" using dj by (auto simp: ptpgs_def)
  have lt: "i \<in> set [0..<NPDENTRIES] \<longleftrightarrow> i < 1024" for i unfolding set_upt NPDENTRIES_def by simp
  have tab: "frm (pde (mem t) d i) \<notin> kpg ` set (us @ fl)" if "i < 1024" "present (pde (mem t) d i)" for i
    using dj that unfolding ptpgs_def by blast
  have "\<exists>s' ts. for_each [0..<NPDENTRIES] (free_table d) t = Ret () s' \<and> frees s' (ts @ us @ fl) \<and> pages_only t s'
      \<and> kpg ` set ts = {frm (pde (mem t) d i) |i. i \<in> set [0..<NPDENTRIES] \<and> present (pde (mem t) d i)}
      \<and> (\<forall>w. w div 1024 \<notin> kpg ` set ts \<longrightarrow> mem s' w = mem t w)"
  proof (rule free_tables_ok [OF D(1,4) dn])
    show "\<forall>i \<in> set [0..<NPDENTRIES]. present (pde (mem t) d i) \<longrightarrow>
      page_ok (kend t) (P2V (PTE_ADDR (pde (mem t) d i))) \<and> frm (pde (mem t) d i) \<noteq> kpg d
      \<and> frm (pde (mem t) d i) \<notin> kpg ` set (us @ fl)"
      using D(2) tab unfolding pt_wf_def Ball_def lt by blast
    show "inj_on (\<lambda>i. frm (pde (mem t) d i)) {i \<in> set [0..<NPDENTRIES]. present (pde (mem t) d i)}"
      using D(2) unfolding pt_wf_def inj_on_def lt by blast
  qed (simp_all add: lt del: set_upt)
  then obtain u ts where u: "for_each [0..<NPDENTRIES] (free_table d) t = Ret () u" "frees u (ts @ us @ fl)"
    "pages_only t u" "kpg ` set ts = {frm (pde (mem t) d i) |i. i < 1024 \<and> present (pde (mem t) d i)}"
    "\<forall>w. w div 1024 \<notin> kpg ` set ts \<longrightarrow> mem u w = mem t w" unfolding lt by auto
  have ku: "kend u = kend t" using u(3) by (rule pages_only_sel)
  have "kpg d \<notin> kpg ` set ts" using u(4) D(2) by (auto simp: pt_wf_def)
  with dn have nd: "d \<notin> set (ts @ us @ fl)" by auto
  have dok: "page_ok (kend u) d" using D(4) ku by simp
  note F = frees_kfree [OF u(2) dok nd]
  let ?r = "u\<lparr>mem := junked d (freelist u) (mem u), freelist := d\<rparr>"
  have "d \<noteq> 0" using page_ok_unat(1) [OF D(4,3)] .
  then have run: "freevm d s = Ret () ?r"
    using t(1) u(1) F(1) by (simp add: freevm_def thn_Ret)
  have pg: "kpg ` set (d # ts @ us) = ptpgs (mem s) d \<union> frames (entry (mem s) d) 0 UPAGES"
  proof -
    have "insert (kpg d) (kpg ` set ts) = ptpgs (mem s) d" using pp u(4) by (simp add: ptpgs_def)
    moreover have "kpg ` set us = frames (entry (mem s) d) 0 UPAGES" using t(2) by (simp add: shrinks_def)
    moreover have "kpg ` set (d # ts @ us) = insert (kpg d) (kpg ` set ts) \<union> kpg ` set us" by auto
    ultimately show ?thesis by simp
  qed
  have fr: "junked d (freelist u) (mem u) w = mem s w" if w: "w div 1024 \<notin> kpg ` set (d # ts @ us)" for w
  proof -
    have "junked d (freelist u) (mem u) w = mem u w"
      using junked_frame [OF D(4,3)] w by simp
    also have "\<dots> = mem t w" using u(5) w by auto
    also have "\<dots> = mem s w" using t(2) w pg by (auto simp: shrinks_def)
    finally show ?thesis .
  qed
  have "pages_only s ?r" using pages_only_trans [OF po u(3)] by simp
  with run F(2) pg fr show ?thesis by (intro exI [of _ ?r] exI [of _ "d # ts @ us"]) simp
qed

end
