(* ===== verification/UvmAlloc.thy ===== *)
theory UvmAlloc
  imports Uvm
begin

unbundle bit_operations_syntax

text \<open>
  Growing the user part of an address space (\<^verbatim>\<open>allocuvm\<close> of \<^verbatim>\<open>vm.c\<close>) and copying it (\<^verbatim>\<open>copyuvm\<close>),
  with the failure paths that undo a partial allocation.
\<close>

section \<open>Pages outside the table\<close>

text \<open>Changing memory outside the table and the free pages keeps an address space in order.\<close>

lemma table_same:
  assumes "pt_wf e m d" "KERNBASE < e" and "\<And>w. w div 1024 \<in> ptpgs m d \<Longrightarrow> m' w = m w"
  shows "ptpgs m' d = ptpgs m d" "pt_wf e m' d" "\<forall>n < 2 ^ 20. entry m' d n = entry m d n"
  using pt_cong [of e d m m'] assms by (auto simp: pt_wf_def)

lemma user_ok_mono:
  "user_ok e en ow \<Longrightarrow> ow' \<subseteq> ow \<Longrightarrow> \<forall>n < 2 ^ 20. en' n = en n \<Longrightarrow> user_ok e en' ow'"
  unfolding user_ok_def by auto

lemma user_ok_insert:
  "user_ok e en ow \<Longrightarrow> x \<notin> frames en 0 UPAGES \<Longrightarrow> user_ok e en (insert x ow)"
  by (auto simp: user_ok_def frames_def)

lemma uvm_kalloc:
  assumes "uvm_ok s (p # fl) d"
  defines "s' \<equiv> s\<lparr>freelist := mem s (kw p), mem := zero_page p (mem s)\<rparr>"
  shows "uvm_ok s' fl d" "ptpgs (mem s') d = ptpgs (mem s) d"
    "\<forall>n < 2 ^ 20. entry (mem s') d n = entry (mem s) d n"
proof -
  from assms have vm: "vm_ok s (p # fl) d" by (simp add: uvm_ok_def)
  note D = vm_okD [OF vm] and Z = kalloc_zero [OF vm_okD(1) [OF vm], folded s'_def]
  from vm have np: "kpg p \<notin> ptpgs (mem s) d" by (simp add: vm_ok_def)
  have "mem s' w = mem s w" if "w div 1024 \<in> ptpgs (mem s) d" for w
    using Z(7) [of w] that np by auto
  note T = table_same [OF D(2,3) this]
  show "ptpgs (mem s') d = ptpgs (mem s) d" "\<forall>n < 2 ^ 20. entry (mem s') d n = entry (mem s) d n"
    using T(1,3) by simp_all
  have k: "kend s' = kend s" by (simp add: s'_def)
  have "vm_ok s' fl d" using vm Z(2) T(1,2) k by (simp add: vm_ok_def)
  moreover have "user_ok (kend s) (entry (mem s') d) (kpg ` set fl \<union> ptpgs (mem s') d)"
  proof (rule user_ok_mono)
    show "user_ok (kend s) (entry (mem s) d) (kpg ` set (p # fl) \<union> ptpgs (mem s) d)"
      using assms(1) by (simp add: uvm_ok_def)
  qed (use T(1,3) in auto)
  ultimately show "uvm_ok s' fl d" using k by (simp add: uvm_ok_def)
qed

lemma uvm_kfree:
  assumes ok: "uvm_ok s fl d" and p: "page_ok (kend s) p" "kpg p \<notin> kpg ` set fl \<union> ptpgs (mem s) d"
    "kpg p \<notin> frames (entry (mem s) d) 0 UPAGES"
  shows "\<exists>s'. kfree p s = Ret () s' \<and> uvm_ok s' (p # fl) d \<and> pages_only s s'
    \<and> ptpgs (mem s') d = ptpgs (mem s) d \<and> (\<forall>n < 2 ^ 20. entry (mem s') d n = entry (mem s) d n)
    \<and> (\<forall>w. w div 1024 \<noteq> kpg p \<longrightarrow> mem s' w = mem s w)"
proof -
  from ok have vm: "vm_ok s fl d" by (simp add: uvm_ok_def)
  note D = vm_okD [OF vm]
  have "p \<notin> set fl" using p(2) by auto
  note F = frees_kfree [OF D(1) p(1) this]
  let ?t = "s\<lparr>mem := junked p (freelist s) (mem s), freelist := p\<rparr>"
  have same: "\<forall>w. w div 1024 \<noteq> kpg p \<longrightarrow> mem ?t w = mem s w" using junked_frame [OF p(1) D(3)] by simp
  have "mem ?t w = mem s w" if "w div 1024 \<in> ptpgs (mem s) d" for w
    using same that p(2) by (metis UnI2)
  note T = table_same [OF D(2,3) this]
  have "vm_ok ?t (p # fl) d" using F(2) vm T(1,2) p(2) by (simp add: vm_ok_def)
  moreover have "user_ok (kend s) (entry (mem ?t) d) (kpg ` set (p # fl) \<union> ptpgs (mem ?t) d)"
  proof -
    have "user_ok (kend s) (entry (mem s) d) (insert (kpg p) (kpg ` set fl \<union> ptpgs (mem s) d))"
      using ok p(3) by (intro user_ok_insert) (simp_all add: uvm_ok_def)
    then show ?thesis by (rule user_ok_mono) (use T(1,3) in simp_all)
  qed
  ultimately have "uvm_ok ?t (p # fl) d" by (simp add: uvm_ok_def)
  with F(1) same T(1,3) show ?thesis by (intro exI [of _ ?t]) simp
qed

text \<open>
  \<open>within s s' fl fl' d\<close>: from \<open>s\<close> with free pages \<open>fl\<close> to \<open>s'\<close> with free pages \<open>fl'\<close>, only pages
  that were free or part of the table changed or were taken.
\<close>

definition within :: "'e phys_scheme \<Rightarrow> 'e phys_scheme \<Rightarrow> uint list \<Rightarrow> uint list \<Rightarrow> uint \<Rightarrow> bool" where
  "within s s' fl fl' d \<longleftrightarrow> pages_only s s' \<and> set fl' \<subseteq> set fl
     \<and> ptpgs (mem s') d \<subseteq> ptpgs (mem s) d \<union> kpg ` set fl
     \<and> (\<forall>w. w div 1024 \<notin> ptpgs (mem s) d \<union> kpg ` set fl \<longrightarrow> mem s' w = mem s w)"

lemma within_refl [simp]: "within s s fl fl d"
  by (simp add: within_def)

lemma within_trans:
  assumes "within s t fl fl' d" "within t u fl' fl'' d"
  shows "within s u fl fl'' d"
proof -
  have "ptpgs (mem t) d \<union> kpg ` set fl' \<subseteq> ptpgs (mem s) d \<union> kpg ` set fl"
    using assms(1) by (auto simp: within_def)
  moreover from this have "mem u w = mem s w" if "w div 1024 \<notin> ptpgs (mem s) d \<union> kpg ` set fl" for w
    using assms that unfolding within_def by (metis subsetD)
  ultimately show ?thesis using assms unfolding within_def by (meson pages_only_trans subset_trans)
qed

text \<open>Mapping one fresh page at a free user address.\<close>

definition fresh_page :: "(nat \<Rightarrow> uint) \<Rightarrow> uint list \<Rightarrow> uint \<Rightarrow> bool" where
  "fresh_page m fl e \<longleftrightarrow> (\<exists>p \<in> set fl. e = V2P p OR (PTE_W OR PTE_U) OR PTE_P)
     \<and> (\<forall>w. w div 1024 = frm e \<longrightarrow> m w = 0)"

lemma user_ok_add:
  assumes "user_ok e en ow" "n < UPAGES" "page_ok e (P2V (PTE_ADDR x))" "frm x \<notin> ow'"
    "frm x \<notin> frames en 0 UPAGES" "frames en 0 UPAGES \<inter> ow' = {}"
    "\<forall>k < 2 ^ 20. en' k = (if k = n then x else en k)"
  shows "user_ok e en' ow'"
  unfolding user_ok_def
proof (intro conjI allI impI)
  have fr: "frm (en k) \<in> frames en 0 UPAGES" if "k < UPAGES" "present (en k)" for k
    using that by (auto simp: frames_def)
  fix k assume k: "k < UPAGES" "present (en' k)"
  then have e: "en' k = (if k = n then x else en k)" using assms(7) by simp
  show "page_ok e (P2V (PTE_ADDR (en' k)))"
    using assms(1,3) k e by (auto simp: user_ok_def split: if_splits)
  show "frm (en' k) \<notin> ow'" using assms(4,6) k e fr by (auto split: if_splits)
  fix l assume l: "l < UPAGES" "present (en' l)" "frm (en' k) = frm (en' l)"
  then have e': "en' l = (if l = n then x else en l)" using assms(7) by simp
  have "k = n \<longleftrightarrow> l = n" using fr [of k] fr [of l] assms(5) k l e e' by (metis (full_types))
  moreover have "k = l" if "k \<noteq> n" "l \<noteq> n"
    using assms(1) k l e e' that unfolding user_ok_def by (metis (full_types))
  ultimately show "k = l" by blast
qed

lemma in_frames: "lo \<le> n \<Longrightarrow> n < hi \<Longrightarrow> present (en n) \<Longrightarrow> frm (en n) \<in> frames en lo hi"
  by (auto simp: frames_def)

lemma frames_mono: "lo' \<le> lo \<Longrightarrow> hi \<le> hi' \<Longrightarrow> frames en lo hi \<subseteq> frames en lo' hi'"
  by (auto simp: frames_def)

lemma frames_cong: "\<forall>n < 2 ^ 20. en' n = en n \<Longrightarrow> hi \<le> UPAGES \<Longrightarrow> frames en' lo hi = frames en lo hi"
  unfolding frames_def by (rule Collect_cong, rule ex_cong1) auto

lemma user_frames_disj: "user_ok e en ow \<Longrightarrow> frames en 0 UPAGES \<inter> ow = {}"
  by (auto simp: user_ok_def frames_def)

lemma map_user_page:
  assumes ok: "uvm_ok s fl d" and a: "unat a mod 4096 = 0" "vpn a < UPAGES"
    and ab: "\<not> present (entry (mem s) d (vpn a))" and perm: "unat (perm OR PTE_P) < 4096"
    and p: "page_ok (kend s) p" "kpg p \<notin> kpg ` set fl \<union> ptpgs (mem s) d"
      "kpg p \<notin> frames (entry (mem s) d) 0 UPAGES"
  shows "\<exists>r s' us fl'. mappages d a PGSIZE (V2P p) perm s = Ret r s' \<and> fl = us @ fl'
    \<and> uvm_ok s' fl' d \<and> grew s s' us d \<and> (r = 0 \<or> r = -1 \<and> fl' = [])
    \<and> (\<forall>k < 2 ^ 20. entry (mem s') d k
         = (if r = 0 \<and> k = vpn a then V2P p OR perm OR PTE_P else entry (mem s) d k))"
proof -
  from ok have vm: "vm_ok s fl d" by (simp add: uvm_ok_def)
  note D = vm_okD [OF vm]
  have u: "unat a = vpn a * 4096" using a(1) by (auto simp: vpn_def)
  have "\<exists>r s' us fl' j. mappages d a PGSIZE (V2P p) perm s = Ret r s' \<and> fl = us @ fl'
    \<and> vm_ok s' fl' d \<and> grew s s' us d
    \<and> (\<forall>n < 2 ^ 20. entry (mem s') d n = with_range (entry (mem s) d) (vpn a) j (V2P p) perm n)
    \<and> (if r = 0 then j = Suc 0 else r = -1 \<and> j \<le> 0 \<and> fl' = [])"
    using u a ab by (intro mappages_ok [OF vm]) simp_all
  then obtain r t us fl' j where m: "mappages d a PGSIZE (V2P p) perm s = Ret r t" "fl = us @ fl'"
    "vm_ok t fl' d" "grew s t us d"
    "\<forall>n < 2 ^ 20. entry (mem t) d n = with_range (entry (mem s) d) (vpn a) j (V2P p) perm n"
    "if r = 0 then j = Suc 0 else r = -1 \<and> j \<le> 0 \<and> fl' = []" by blast
  let ?x = "V2P p OR perm OR PTE_P"
  have en: "\<forall>k < 2 ^ 20. entry (mem t) d k = (if r = 0 \<and> k = vpn a then ?x else entry (mem s) d k)"
    using m(5,6) by (auto simp: with_range_def split: if_splits)
  have ow: "kpg ` set fl' \<union> ptpgs (mem t) d \<subseteq> kpg ` set fl \<union> ptpgs (mem s) d"
    using m(2,4) by (auto simp: grew_def)
  have k: "kend t = kend s" using m(4) by (rule grew_kend)
  have uo: "user_ok (kend s) (entry (mem s) d) (kpg ` set fl \<union> ptpgs (mem s) d)"
    using ok by (simp add: uvm_ok_def)
  have "user_ok (kend s) (entry (mem t) d) (kpg ` set fl' \<union> ptpgs (mem t) d)"
  proof (cases "r = 0")
    case True
    note f = entry_fields [OF page_ok_V2P [OF p(1) D(3)] perm]
    from f have x: "P2V (PTE_ADDR ?x) = p" "frm ?x = kpg p" by (simp_all add: or.assoc kpg_def)
    show ?thesis
    proof (rule user_ok_add [OF uo a(2)])
      show "frames (entry (mem s) d) 0 UPAGES \<inter> (kpg ` set fl' \<union> ptpgs (mem t) d) = {}"
        using user_frames_disj [OF uo] ow by blast
      show "frm ?x \<notin> kpg ` set fl' \<union> ptpgs (mem t) d" using p(2) ow x by auto
    qed (use p x en True in simp_all)
  next
    case False
    with en uo ow show ?thesis by (intro user_ok_mono [OF uo]) simp_all
  qed
  then have "uvm_ok t fl' d" using m(3) k by (simp add: uvm_ok_def)
  moreover have "r = 0 \<or> r = -1 \<and> fl' = []" using m(6) by (auto split: if_splits)
  ultimately show ?thesis using m(1,2,4) en by blast
qed

text \<open>
  The loop of \<^verbatim>\<open>allocuvm\<close>, started at page \<open>lo\<close> of state \<open>s0\<close>: the pages below \<open>vpn a\<close> are in place.
  It either maps a fresh zeroed page at every page of the range, or undoes what it did.
\<close>

definition grown :: "'e phys_scheme \<Rightarrow> 'e phys_scheme \<Rightarrow> uint list \<Rightarrow> uint \<Rightarrow> nat \<Rightarrow> nat \<Rightarrow> bool" where
  "grown s s' fl d lo hi \<longleftrightarrow>
     (\<forall>n < 2 ^ 20. if lo \<le> n \<and> n < hi then fresh_page (mem s') fl (entry (mem s') d n)
                   else entry (mem s') d n = entry (mem s) d n)"

lemma grownI:
  assumes "\<And>n. lo \<le> n \<Longrightarrow> n < hi \<Longrightarrow> n < 2 ^ 20 \<Longrightarrow> fresh_page (mem s') fl (entry (mem s') d n)"
    and "\<And>n. n < 2 ^ 20 \<Longrightarrow> \<not> (lo \<le> n \<and> n < hi) \<Longrightarrow> entry (mem s') d n = entry (mem s) d n"
  shows "grown s s' fl d lo hi"
  unfolding grown_def using assms by simp

lemma grownD:
  assumes "grown s s' fl d lo hi" "n < 2 ^ 20"
  shows "lo \<le> n \<Longrightarrow> n < hi \<Longrightarrow> fresh_page (mem s') fl (entry (mem s') d n)"
    and "\<not> (lo \<le> n \<and> n < hi) \<Longrightarrow> entry (mem s') d n = entry (mem s) d n"
  using assms unfolding grown_def by metis+

lemma fresh_frame:
  assumes "frees s fl" "fresh_page m fl e"
  shows "present e" "frm e \<in> kpg ` set fl" "page_ok (kend s) (P2V (PTE_ADDR e))"
proof -
  from assms(2) obtain p where p: "p \<in> set fl" "e = V2P p OR (PTE_W OR PTE_U) OR PTE_P"
    by (auto simp: fresh_page_def)
  with assms(1) have ok: "page_ok (kend s) p" "KERNBASE < kend s" by (auto simp: frees_def)
  have x: "e = V2P p OR 7" using p(2) by (simp add: or.assoc)
  note f = entry_fields [OF page_ok_V2P [OF ok], of 7]
  show "present e" unfolding x present_bit by (simp add: bit_simps)
  show "frm e \<in> kpg ` set fl" using p f by (auto simp: x kpg_def)
  show "page_ok (kend s) (P2V (PTE_ADDR e))" using ok f by (simp add: x)
qed

text \<open>What a failed \<^verbatim>\<open>allocuvm\<close> leaves: the range unmapped, the rest of the table reads as before.\<close>

definition undone :: "'e phys_scheme \<Rightarrow> 'e phys_scheme \<Rightarrow> uint \<Rightarrow> nat \<Rightarrow> nat \<Rightarrow> bool" where
  "undone s s' d lo hi \<longleftrightarrow>
     (\<forall>n < 2 ^ 20. if lo \<le> n \<and> n < hi then \<not> present (entry (mem s') d n)
                   else entry (mem s') d n = entry (mem s) d n)"

lemma frames_grown:
  assumes "frees s0 fl0" "grown s0 s fl0 d lo hi" "hi \<le> UPAGES"
  shows "frames (entry (mem s) d) lo hi \<subseteq> kpg ` set fl0"
proof
  fix x assume "x \<in> frames (entry (mem s) d) lo hi"
  then obtain n where n: "lo \<le> n" "n < hi" "x = frm (entry (mem s) d n)" by (auto simp: frames_def)
  then have "fresh_page (mem s) fl0 (entry (mem s) d n)" using assms(2,3) by (simp add: grown_def)
  with n fresh_frame(2) [OF assms(1)] show "x \<in> kpg ` set fl0" by simp
qed

lemma kpg_subset:
  assumes "frees s fl" "frees s' fl'" "kend s' = kend s" "kpg ` set fl' \<subseteq> kpg ` set fl"
  shows "set fl' \<subseteq> set fl"
proof
  fix q assume "q \<in> set fl'"
  with assms obtain p where "p \<in> set fl" "kpg q = kpg p" by blast
  with assms \<open>q \<in> set fl'\<close> show "q \<in> set fl"
    using page_ok_inj [of "kend s" q p] by (auto simp: frees_def)
qed

lemma undo_ok:
  assumes f0: "frees s0 fl0" and ok: "uvm_ok s fl d" and wi: "within s0 s fl0 fl d"
    and gr: "grown s0 s fl0 d (upages oldsz) m" and m: "m \<le> upages newsz"
    and sz: "newsz < KERNBASE" "oldsz < newsz"
    and ab: "\<forall>n. upages oldsz \<le> n \<and> n < upages newsz \<longrightarrow> \<not> present (entry (mem s0) d n)"
  shows "\<exists>s' fs. deallocuvm d newsz oldsz s = Ret oldsz s' \<and> uvm_ok s' (fs @ fl) d
    \<and> within s0 s' fl0 (fs @ fl) d \<and> undone s0 s' d (upages oldsz) (upages newsz)
    \<and> ptpgs (mem s') d = ptpgs (mem s) d \<and> kpg ` set fs \<subseteq> frames (entry (mem s) d) 0 UPAGES
    \<and> frames (entry (mem s') d) 0 UPAGES \<subseteq> frames (entry (mem s) d) 0 UPAGES"
proof -
  let ?lo = "upages oldsz" and ?hi = "upages newsz"
  have hi: "?hi \<le> UPAGES" using sz(1) by (intro upages_le) simp
  from deallocuvm_ok [OF ok less_imp_le [OF sz(1)] sz(2)] obtain s' fs where
    d: "deallocuvm d newsz oldsz s = Ret oldsz s'" "shrinks s s' fl fs d ?lo ?hi" by auto
  have e: "entry (mem s) d n = entry (mem s0) d n" if "n < 2 ^ 20" "\<not> (?lo \<le> n \<and> n < m)" for n
    using gr that unfolding grown_def by metis
  have en: "entry (mem s') d n = unmapped (entry (mem s) d) ?lo ?hi n" if "n < 2 ^ 20" for n
    using d(2) that by (simp add: shrinks_def)
  have un: "undone s0 s' d ?lo ?hi"
    unfolding undone_def using e en m by (auto simp: unmapped_def)
  have eq: "?lo \<le> n \<and> n < ?hi \<and> present (entry (mem s) d n)
      \<longleftrightarrow> ?lo \<le> n \<and> n < m \<and> present (entry (mem s) d n)" for n
  proof -
    have "\<not> present (entry (mem s) d n)" if "?lo \<le> n" "m \<le> n" "n < ?hi"
      using e [of n] that ab hi by simp
    then show ?thesis using m not_less by auto
  qed
  have fm: "frames (entry (mem s) d) ?lo ?hi = frames (entry (mem s) d) ?lo m"
    unfolding frames_def eq ..
  have sub: "kpg ` set fs \<subseteq> kpg ` set fl0"
    using d(2) fm frames_grown [OF f0 gr] m hi by (simp add: shrinks_def)
  have po: "pages_only s0 s'" using wi d(2) by (auto simp: within_def shrinks_def intro: pages_only_trans)
  have fr: "frees s' (fs @ fl)" using d(2) by (simp add: shrinks_def uvm_ok_def vm_ok_def)
  have "within s0 s' fl0 (fs @ fl) d"
  proof -
    have "kpg ` set (fs @ fl) \<subseteq> kpg ` set fl0" using sub wi by (auto simp: within_def)
    then have "set (fs @ fl) \<subseteq> set fl0" using kpg_subset [OF f0 fr pages_only_sel(1) [OF po]] by simp
    moreover have "\<forall>w. w div 1024 \<notin> ptpgs (mem s0) d \<union> kpg ` set fl0 \<longrightarrow> mem s' w = mem s0 w"
    proof (intro allI impI)
      fix w assume w: "w div 1024 \<notin> ptpgs (mem s0) d \<union> kpg ` set fl0"
      with sub wi have "w div 1024 \<notin> kpg ` set fs \<union> ptpgs (mem s) d" by (auto simp: within_def)
      with d(2) have "mem s' w = mem s w" by (simp add: shrinks_def)
      also have "\<dots> = mem s0 w" using w wi by (simp add: within_def)
      finally show "mem s' w = mem s0 w" .
    qed
    ultimately show ?thesis using po d(2) wi by (simp add: within_def shrinks_def)
  qed
  moreover have "kpg ` set fs \<subseteq> frames (entry (mem s) d) 0 UPAGES"
    using d(2) hi by (auto simp: shrinks_def frames_def)
  moreover have "frames (entry (mem s') d) 0 UPAGES \<subseteq> frames (entry (mem s) d) 0 UPAGES"
    using en by (auto simp: frames_def unmapped_def split: if_splits)
  ultimately show ?thesis using d un unfolding shrinks_def by blast
qed

text \<open>Every page that was free at the start is still free, in the table, or mapped in the range.\<close>

definition accounted :: "uint list \<Rightarrow> 'e phys_scheme \<Rightarrow> uint list \<Rightarrow> uint \<Rightarrow> nat \<Rightarrow> nat \<Rightarrow> bool" where
  "accounted fl0 s fl d lo hi \<longleftrightarrow>
     kpg ` set fl0 \<subseteq> kpg ` set fl \<union> ptpgs (mem s) d \<union> frames (entry (mem s) d) lo hi"

lemma frames_card: "card (frames en lo hi) \<le> hi - lo" "finite (frames en lo hi)"
proof -
  have s: "frames en lo hi \<subseteq> (\<lambda>n. frm (en n)) ` {lo..<hi}" by (auto simp: frames_def)
  then show "finite (frames en lo hi)" by (rule finite_subset) simp
  have "card (frames en lo hi) \<le> card ((\<lambda>n. frm (en n)) ` {lo..<hi})" using s by (intro card_mono) simp_all
  also have "\<dots> \<le> hi - lo" using card_image_le [of "{lo..<hi}" "\<lambda>n. frm (en n)"] by simp
  finally show "card (frames en lo hi) \<le> hi - lo" .
qed

lemma accounted_card:
  assumes "frees s0 fl0" "kpg ` set fl0 \<subseteq> X \<union> ptpgs m d \<union> frames en lo hi" "finite X"
  shows "length fl0 \<le> card X + 1025 + (hi - lo)"
proof -
  have "length fl0 = card (kpg ` set fl0)"
    using assms(1) card_image [OF kpg_inj_frees [OF assms(1)]] by (simp add: frees_def distinct_card)
  also have "\<dots> \<le> card (X \<union> ptpgs m d \<union> frames en lo hi)"
    using assms by (intro card_mono) (simp_all add: ptpgs_card frames_card)
  also have "\<dots> \<le> card (X \<union> ptpgs m d) + card (frames en lo hi)" by (rule card_Un_le)
  also have "\<dots> \<le> card X + card (ptpgs m d) + card (frames en lo hi)" using card_Un_le [of X "ptpgs m d"] by simp
  finally show ?thesis using ptpgs_card(2) [of m d] frames_card(1) [of en lo hi] by simp
qed

text \<open>One round of the loop: the page is mapped, or there is no page for it or for its table.\<close>

lemma alloc_round:
  assumes f0: "frees s0 fl0" and ok: "uvm_ok s (p # fl) d" and wi: "within s0 s fl0 (p # fl) d"
    and gr: "grown s0 s fl0 d lo (vpn a)" and ac: "accounted fl0 s (p # fl) d lo (vpn a)"
    and a: "unat a mod 4096 = 0" "vpn a < UPAGES" "lo \<le> vpn a"
    and ab: "\<not> present (entry (mem s0) d (vpn a))"
  defines "t \<equiv> s\<lparr>freelist := mem s (kw p), mem := zero_page p (mem s)\<rparr>"
  shows "\<exists>r s' fl'. mappages d a PGSIZE (V2P p) (PTE_W OR PTE_U) t = Ret r s' \<and> uvm_ok s' fl' d
    \<and> within s0 s' fl0 fl' d \<and> kpg p \<notin> kpg ` set fl' \<union> ptpgs (mem s') d
    \<and> (if r = 0 then grown s0 s' fl0 d lo (Suc (vpn a)) \<and> accounted fl0 s' fl' d lo (Suc (vpn a))
       else r = -1 \<and> fl' = [] \<and> grown s0 s' fl0 d lo (vpn a)
         \<and> kpg p \<notin> frames (entry (mem s') d) 0 UPAGES
         \<and> kpg ` set fl0 \<subseteq> {kpg p} \<union> ptpgs (mem s') d \<union> frames (entry (mem s') d) lo (vpn a))"
proof -
  have vm: "vm_ok s (p # fl) d" using ok by (simp add: uvm_ok_def)
  note Z = kalloc_zero [OF vm_okD(1) [OF vm], folded t_def] and K = uvm_kalloc [OF ok, folded t_def]
  have kt: "kend t = kend s" by (simp add: t_def)
  have pp: "page_ok (kend t) p" "kpg p \<notin> kpg ` set fl \<union> ptpgs (mem t) d"
    using Z(4,5) vm K(2) kt by (auto simp: vm_ok_def)
  have fr: "frames (entry (mem t) d) 0 UPAGES = frames (entry (mem s) d) 0 UPAGES"
    using K(3) by (intro frames_cong) simp_all
  have pf: "kpg p \<notin> frames (entry (mem t) d) 0 UPAGES"
    using ok user_frames_disj [of "kend s" "entry (mem s) d"] unfolding fr uvm_ok_def by fastforce
  have abt: "\<not> present (entry (mem t) d (vpn a))"
    using gr ab K(3) a(2) by (simp add: grown_def)
  have "unat ((PTE_W OR PTE_U) OR PTE_P) < 4096" by simp
  from map_user_page [OF K(1) a(1,2) abt this pp pf] obtain r u us fl' where
    m: "mappages d a PGSIZE (V2P p) (PTE_W OR PTE_U) t = Ret r u" "fl = us @ fl'" "uvm_ok u fl' d"
      "grew t u us d" "r = 0 \<or> r = -1 \<and> fl' = []"
      "\<forall>k < 2 ^ 20. entry (mem u) d k
         = (if r = 0 \<and> k = vpn a then V2P p OR (PTE_W OR PTE_U) OR PTE_P else entry (mem t) d k)" by blast
  have pu: "ptpgs (mem u) d = ptpgs (mem s) d \<union> kpg ` set us" using m(4) K(2) by (simp add: grew_def)
  have pn: "kpg p \<notin> kpg ` set fl' \<union> ptpgs (mem u) d" using pp m(2) pu K(2) by auto
  have same: "mem u w = mem s w" if "w div 1024 \<notin> ptpgs (mem u) d" "w div 1024 \<noteq> kpg p" for w
    using m(4) Z(7) [of w] that by (simp add: grew_def)
  have w1: "within s u (p # fl) fl' d"
    using same m(2,4) pu Z(3) by (auto simp: within_def grew_def intro: pages_only_trans)
  have wu: "within s0 u fl0 fl' d" using wi w1 by (rule within_trans)
  have old: "fresh_page (mem u) fl0 (entry (mem u) d n) = True" if "lo \<le> n" "n < vpn a" for n
  proof -
    have n: "n < UPAGES" "n < 2 ^ 20" using that a by auto
    have "fresh_page (mem s) fl0 (entry (mem s) d n)" using gr that n by (simp add: grown_def)
    moreover have en: "entry (mem u) d n = entry (mem s) d n" using m(6) K(3) n that by simp
    moreover have "present (entry (mem s) d n)" using fresh_frame(1) [OF f0] calculation by blast
    then have fn: "frm (entry (mem s) d n) \<in> frames (entry (mem s) d) 0 UPAGES"
      using n by (auto simp: frames_def)
    then have "frm (entry (mem s) d n) \<noteq> kpg p" using pf fr by auto
    moreover have "frm (entry (mem s) d n) \<notin> ptpgs (mem u) d"
    proof -
      have "frames (entry (mem s) d) 0 UPAGES \<inter> (kpg ` set (p # fl) \<union> ptpgs (mem s) d) = {}"
        using ok user_frames_disj unfolding uvm_ok_def by blast
      with fn m(2) pu show ?thesis by auto
    qed
    ultimately show ?thesis using same by (simp add: fresh_page_def)
  qed
  have fs: "frames (entry (mem u) d) lo (vpn a) = frames (entry (mem s) d) lo (vpn a)"
    using m(6) K(3) a unfolding frames_def by (intro Collect_cong ex_cong1) auto
  have acu: "kpg ` set fl0 \<subseteq> kpg ` set fl' \<union> {kpg p} \<union> ptpgs (mem u) d \<union> frames (entry (mem u) d) lo (vpn a)"
    using ac m(2) pu unfolding accounted_def fs by auto
  show ?thesis
  proof (cases "r = 0")
    case True
    let ?x = "V2P p OR (PTE_W OR PTE_U) OR PTE_P"
    have x: "entry (mem u) d (vpn a) = ?x" using m(6) True a(2) by simp
    have pin: "p \<in> set fl0" using wi by (simp add: within_def)
    have fx: "frm ?x = kpg p" using entry_fields(3) [OF page_ok_V2P [OF Z(4,6)], of 7] by (simp add: kpg_def)
    have "mem u w = 0" if "w div 1024 = kpg p" for w
      using m(4) pn Z(7) [of w] that by (auto simp: grew_def)
    with x fx pin have fp: "fresh_page (mem u) fl0 (entry (mem u) d (vpn a))"
      unfolding fresh_page_def x by (intro conjI bexI [of _ p]) simp_all
    have "present ?x" unfolding present_bit by (simp add: bit_simps)
    have g: "grown s0 u fl0 d lo (Suc (vpn a))"
    proof (rule grownI)
      fix n assume n: "lo \<le> n" "n < Suc (vpn a)"
      show "fresh_page (mem u) fl0 (entry (mem u) d n)"
        using old [OF n(1)] fp n(2) by (cases "n = vpn a") simp_all
    next
      fix n :: nat assume n: "n < 2 ^ 20" "\<not> (lo \<le> n \<and> n < Suc (vpn a))"
      then have "n \<noteq> vpn a" "\<not> (lo \<le> n \<and> n < vpn a)" using a(3) by auto
      with n(1) m(6) K(3) grownD(2) [OF gr n(1)] show "entry (mem u) d n = entry (mem s0) d n" by simp
    qed
    have "insert (kpg p) (frames (entry (mem u) d) lo (vpn a)) \<subseteq> frames (entry (mem u) d) lo (Suc (vpn a))"
      using in_frames [OF a(3), of "Suc (vpn a)" "entry (mem u) d"] x fx \<open>present ?x\<close>
        frames_mono [of lo lo "vpn a" "Suc (vpn a)"] by simp
    with acu have "accounted fl0 u fl' d lo (Suc (vpn a))" unfolding accounted_def by auto
    with g True m(1,3) wu pn show ?thesis by auto
  next
    case False
    with m(5) have r: "r = -1" "fl' = []" by auto
    have en: "\<forall>k < 2 ^ 20. entry (mem u) d k = entry (mem s) d k" using m(6) K(3) False by simp
    have "grown s0 u fl0 d lo (vpn a)"
    proof (rule grownI)
      fix n :: nat assume "n < 2 ^ 20" "\<not> (lo \<le> n \<and> n < vpn a)"
      with en grownD(2) [OF gr] show "entry (mem u) d n = entry (mem s0) d n" by simp
    qed (use old in simp)
    moreover have "frames (entry (mem u) d) 0 UPAGES = frames (entry (mem s) d) 0 UPAGES"
      using en by (intro frames_cong) simp_all
    ultimately show ?thesis using r m(1,3) wu pn acu pf fr by auto
  qed
qed

lemma alloc_loop_ok:
  assumes f0: "frees s0 fl0" and sz: "newsz < KERNBASE"
    and ab: "\<forall>n. upages oldsz \<le> n \<and> n < upages newsz \<longrightarrow> \<not> present (entry (mem s0) d n)"
    and "uvm_ok s fl d" "within s0 s fl0 fl d" "grown s0 s fl0 d (upages oldsz) (vpn a)"
    "accounted fl0 s fl d (upages oldsz) (vpn a)" "unat a mod 4096 = 0" "upages oldsz \<le> vpn a"
    "upages newsz - vpn a < fuel" "vpn a \<le> upages newsz \<or> vpn a = upages oldsz"
  shows "\<exists>r s' fl'. alloc_loop fuel d a oldsz newsz s = Ret r s' \<and> uvm_ok s' fl' d
    \<and> within s0 s' fl0 fl' d
    \<and> (r = newsz \<and> grown s0 s' fl0 d (upages oldsz) (upages newsz)
       \<or> r = 0 \<and> undone s0 s' d (upages oldsz) (upages newsz)
         \<and> length fl0 \<le> 1026 + (upages newsz - upages oldsz))"
  using assms(4-)
proof (induction fuel arbitrary: a s fl)
  case (Suc fuel)
  let ?lo = "upages oldsz" and ?hi = "upages newsz"
  show ?case
  proof (cases "a < newsz")
    case False
    then have "?hi \<le> vpn a" using upages_less [OF Suc.prems(5)] by simp
    with Suc.prems(8) have "grown s0 s fl0 d ?lo ?hi \<or> vpn a = ?lo \<and> ?hi \<le> ?lo"
      using Suc.prems(3) by (metis le_antisym)
    then have "grown s0 s fl0 d ?lo ?hi" using Suc.prems(3) by (auto simp: grown_def)
    with False Suc.prems(1,2) show ?thesis by auto
  next
    case True
    then have lt: "vpn a < ?hi" using upages_less [OF Suc.prems(5)] by simp
    have hi: "?hi \<le> UPAGES" using sz by (intro upages_le) simp
    have os: "oldsz < newsz"
    proof (rule ccontr)
      assume "\<not> oldsz < newsz"
      then have "?hi \<le> ?lo" by (simp add: upages_def word_less_nat_alt div_le_mono)
      with lt Suc.prems(6) show False by simp
    qed
    have au: "vpn a < UPAGES" using lt hi by simp
    show ?thesis
    proof (cases fl)
      case Nil
      with Suc.prems(1) have k: "kalloc s = Ret 0 s"
        by (intro frees_kalloc_nil) (simp add: uvm_ok_def vm_ok_def)
      from undo_ok [OF f0 Suc.prems(1,2,3) less_imp_le [OF lt] sz os ab] obtain s' fs where
        u: "deallocuvm d newsz oldsz s = Ret oldsz s'" "uvm_ok s' (fs @ fl) d"
          "within s0 s' fl0 (fs @ fl) d" "undone s0 s' d ?lo ?hi" by blast
      have "length fl0 \<le> card ({} :: nat set) + 1025 + (vpn a - ?lo)"
        using Suc.prems(4) Nil by (intro accounted_card [OF f0]) (auto simp: accounted_def)
      then have "length fl0 \<le> 1026 + (?hi - ?lo)" using lt Suc.prems(6) by simp
      moreover have "alloc_loop (Suc fuel) d a oldsz newsz s = Ret 0 s'"
        using True k u(1) by (simp add: bnd_Ret thn_Ret)
      ultimately show ?thesis using u(2-4) by blast
    next
      case (Cons p fl')
      define t where "t = s\<lparr>freelist := mem s (kw p), mem := zero_page p (mem s)\<rparr>"
      have fr: "frees s (p # fl')" using Suc.prems(1) Cons by (simp add: uvm_ok_def vm_ok_def)
      note Z = kalloc_zero [OF fr, folded t_def]
      have ab0: "\<not> present (entry (mem s0) d (vpn a))" using ab Suc.prems(6) lt by simp
      from alloc_round [OF f0 Suc.prems(1,2) [unfolded Cons] Suc.prems(3) Suc.prems(4) [unfolded Cons]
          Suc.prems(5) au Suc.prems(6) ab0, folded t_def]
      obtain r u gl where r: "mappages d a PGSIZE (V2P p) (PTE_W OR PTE_U) t = Ret r u" "uvm_ok u gl d"
        "within s0 u fl0 gl d" "kpg p \<notin> kpg ` set gl \<union> ptpgs (mem u) d"
        "if r = 0 then grown s0 u fl0 d ?lo (Suc (vpn a)) \<and> accounted fl0 u gl d ?lo (Suc (vpn a))
         else r = -1 \<and> gl = [] \<and> grown s0 u fl0 d ?lo (vpn a)
           \<and> kpg p \<notin> frames (entry (mem u) d) 0 UPAGES
           \<and> kpg ` set fl0 \<subseteq> {kpg p} \<union> ptpgs (mem u) d \<union> frames (entry (mem u) d) ?lo (vpn a)"
        by (elim exE conjE) (rule that; assumption)
      have run: "alloc_loop (Suc fuel) d a oldsz newsz s =
          (if r < 0 then thn (deallocuvm d newsz oldsz) (thn (kfree p) (ret 0))
           else alloc_loop fuel d (a + PGSIZE) oldsz newsz) u"
        using True r(1) by (simp add: Z(1) bnd_Ret)
      show ?thesis
      proof (cases "r = 0")
        case r0: True
        have v: "vpn (a + PGSIZE) = Suc (vpn a)" "unat (a + PGSIZE) mod 4096 = 0"
          using au Suc.prems(5) by (simp_all add: vpn_PGSIZE aligned_PGSIZE)
        have g: "grown s0 u fl0 d ?lo (vpn (a + PGSIZE))" "accounted fl0 u gl d ?lo (vpn (a + PGSIZE))"
          using r(5) r0 v(1) by simp_all
        have n: "?lo \<le> vpn (a + PGSIZE)" "?hi - vpn (a + PGSIZE) < fuel"
          using Suc.prems(6,7) lt v(1) by linarith+
        have le: "vpn (a + PGSIZE) \<le> ?hi \<or> vpn (a + PGSIZE) = ?lo" using lt v(1) by simp
        from Suc.IH [OF r(2,3) g v(2) n le] run r0 show ?thesis by simp
      next
        case False
        with r(5) have f: "r = -1" "gl = []" "grown s0 u fl0 d ?lo (vpn a)"
          "kpg p \<notin> frames (entry (mem u) d) 0 UPAGES"
          "kpg ` set fl0 \<subseteq> {kpg p} \<union> ptpgs (mem u) d \<union> frames (entry (mem u) d) ?lo (vpn a)"
          by auto
        from undo_ok [OF f0 r(2,3) f(3) less_imp_le [OF lt] sz os ab] obtain s' fs where
          u: "deallocuvm d newsz oldsz u = Ret oldsz s'" "uvm_ok s' (fs @ gl) d"
            "within s0 s' fl0 (fs @ gl) d" "undone s0 s' d ?lo ?hi" "ptpgs (mem s') d = ptpgs (mem u) d"
            "kpg ` set fs \<subseteq> frames (entry (mem u) d) 0 UPAGES"
            "frames (entry (mem s') d) 0 UPAGES \<subseteq> frames (entry (mem u) d) 0 UPAGES" by blast
        have ks: "kend s' = kend s0" "kend s = kend s0"
          using u(3) Suc.prems(2) by (auto simp: within_def dest: pages_only_sel)
        have pin: "p \<in> set fl0" using Suc.prems(2) Cons by (simp add: within_def)
        have p1: "page_ok (kend s') p" using Z(4) ks by simp
        have p2: "kpg p \<notin> kpg ` set (fs @ gl) \<union> ptpgs (mem s') d" using r(4) u(5,6) f(2,4) by auto
        have p3: "kpg p \<notin> frames (entry (mem s') d) 0 UPAGES" using u(7) f(4) by blast
        from uvm_kfree [OF u(2) p1 p2 p3] obtain s'' where
          w: "kfree p s' = Ret () s''" "uvm_ok s'' (p # fs @ gl) d" "pages_only s' s''"
            "ptpgs (mem s'') d = ptpgs (mem s') d" "\<forall>n < 2 ^ 20. entry (mem s'') d n = entry (mem s') d n"
            "\<forall>w. w div 1024 \<noteq> kpg p \<longrightarrow> mem s'' w = mem s' w" by blast
        have "within s0 s'' fl0 (p # fs @ gl) d"
          using u(3) w(3,4,6) pin by (auto simp: within_def intro: pages_only_trans)
        moreover have "undone s0 s'' d ?lo ?hi" using u(4) w(5) by (simp add: undone_def)
        moreover have "length fl0 \<le> card {kpg p} + 1025 + (vpn a - ?lo)"
          by (rule accounted_card [OF f0 f(5)]) simp
        then have "length fl0 \<le> 1026 + (?hi - ?lo)" using lt Suc.prems(6) by simp
        moreover have "alloc_loop (Suc fuel) d a oldsz newsz s = Ret 0 s''"
          unfolding run using f(1) u(1) w(1) by (simp add: thn_Ret)
        ultimately show ?thesis using w(2) by blast
      qed
    qed
  qed
qed simp

end
