(* ===== verification/VmProps.thy ===== *)
theory VmProps
  imports UvmAlloc
begin

unbundle bit_operations_syntax

text \<open>
  The properties of \<^verbatim>\<open>vm.c\<close>, and the concrete memory on which their witnesses run: a page table at
  \<^verbatim>\<open>0x80300000\<close> with one user page mapped at address 0, and a chain of free pages above it.
\<close>

section \<open>A concrete memory\<close>

definition chain_page :: "nat \<Rightarrow> uint" where
  "chain_page i = P2V (of_nat (0x400 + i) * PGSIZE)"

definition chain_mem :: "nat \<Rightarrow> nat \<Rightarrow> uint" where
  "chain_mem N w =
     (if w = 0x300 * 1024 then 0x301007 else if w = 0x301 * 1024 then 0x302007
      else if w mod 1024 = 0 \<and> 0x400 \<le> w div 1024 \<and> w div 1024 + 1 < 0x400 + N
        then chain_page (w div 1024 + 1 - 0x400) else 0)"

definition chain_phys :: "nat \<Rightarrow> phys" where
  "chain_phys N = \<lparr>held = [], others = {}, mem = chain_mem N, kend = 0x80200000, kdata = 0x80108000,
     freelist = (if N = 0 then 0 else chain_page 0), use_lock = True\<rparr>"

definition chain_dir :: uint where
  "chain_dir = 0x80300000"

lemma chain_page_num:
  assumes "i < 0x8000"
  shows "page_ok 0x80200000 (chain_page i)" and "kpg (chain_page i) = 0x400 + i"
    and "kw (chain_page i) = (0x400 + i) * 1024" and "chain_page i \<noteq> 0"
proof -
  have "unat (0 + of_nat (0x400 + i) * PGSIZE) = unat (0 :: uint) + (0x400 + i) * 4096"
    using assms by (intro unat_page_run) simp
  then have u: "unat (of_nat (0x400 + i) * PGSIZE) = (0x400 + i) * 4096" by simp
  then have v: "unat (V2P (chain_page i)) = (0x400 + i) * 4096" by (simp add: chain_page_def)
  have "unat (chain_page i) = (0x400 + i) * 4096 + 0x80000000"
    unfolding chain_page_def P2V_def using u assms by (subst unat_add_lem [THEN iffD1]) simp_all
  with v assms show ok: "page_ok 0x80200000 (chain_page i)"
    by (simp add: page_ok_def mod_PGSIZE word_le_nat_alt word_less_nat_alt del: of_nat_add)
  show "kpg (chain_page i) = 0x400 + i" "kw (chain_page i) = (0x400 + i) * 1024"
    by (simp_all add: kpg_def kw_def v)
  show "chain_page i \<noteq> 0" using page_ok_unat(1) [OF ok] by simp
qed

lemma chain_flist:
  "i + k = N \<Longrightarrow> 0 < k \<Longrightarrow> N < 0x8000 \<Longrightarrow>
    flist (chain_mem N) (chain_page i) (map chain_page [i..<N])"
proof (induction k arbitrary: i)
  case (Suc k)
  have i: "i < 0x8000" "i < N" using Suc.prems by auto
  note P = chain_page_num [OF i(1)]
  have nx: "chain_mem N (kw (chain_page i)) = (if Suc i < N then chain_page (Suc i) else 0)"
    unfolding P(3) by (simp add: chain_mem_def)
  have "[i..<N] = i # [Suc i..<N]" using i(2) by (rule upt_conv_Cons)
  moreover have "flist (chain_mem N) (if Suc i < N then chain_page (Suc i) else 0) (map chain_page [Suc i..<N])"
    using Suc.IH [of "Suc i"] Suc.prems by (cases "Suc i < N") auto
  ultimately show ?case using P(4) nx by simp
qed simp

lemma chain_frees:
  assumes "0 < N" "N < 0x8000"
  shows "frees (chain_phys N) (map chain_page [0..<N])"
proof -
  have "distinct (map chain_page [0..<N])"
  proof (simp only: distinct_map distinct_upt inj_on_def, intro conjI TrueI ballI impI)
    fix i j assume ij: "i \<in> set [0..<N]" "j \<in> set [0..<N]" and "chain_page i = chain_page j"
    then have "kpg (chain_page i) = kpg (chain_page j)" by simp
    moreover have "kpg (chain_page i) = 0x400 + i" "kpg (chain_page j) = 0x400 + j"
      using ij assms(2) by (auto intro: chain_page_num(2))
    ultimately show "i = j" by simp
  qed
  moreover have "flist (chain_mem N) (chain_page 0) (map chain_page [0..<N])"
    using assms by (intro chain_flist [of 0 N]) simp_all
  ultimately show ?thesis
    using assms chain_page_num(1)
    by (auto simp: frees_def chain_phys_def kmem_ready_def lock_free_def)
qed

lemma chain_table:
  shows "pt_wf 0x80200000 (chain_mem N) chain_dir" and "ptpgs (chain_mem N) chain_dir = {0x300, 0x301}"
    and "n < 2 ^ 20 \<Longrightarrow> entry (chain_mem N) chain_dir n = (if n = 0 then 0x302007 else 0)"
proof -
  have kd: "kw chain_dir = 0x300 * 1024" "kpg chain_dir = 0x300" "page_ok 0x80200000 chain_dir"
    by (simp_all add: chain_dir_def kw_def kpg_def V2P_def page_ok_def)
  have z: "chain_mem N w = (if w = 0x300 * 1024 then 0x301007 else if w = 0x301 * 1024 then 0x302007 else 0)"
    if "w div 1024 < 0x400" for w using that by (simp add: chain_mem_def)
  have p: "pde (chain_mem N) chain_dir i = (if i = 0 then 0x301007 else 0)" if "i < 1024" for i
    unfolding pde_def kd(1) using that by (subst z) auto
  have f: "frm 0x301007 = 0x301" "present 0x301007" by (simp_all add: frm_def)
  have t: "page_ok 0x80200000 (P2V (PTE_ADDR 0x301007))" by (simp add: page_ok_def PTE_ADDR_def P2V_def V2P_def)
  show "pt_wf 0x80200000 (chain_mem N) chain_dir"
    unfolding pt_wf_def using p kd f t by auto
  show "ptpgs (chain_mem N) chain_dir = {0x300, 0x301}"
  proof (rule set_eqI)
    fix x
    have "(\<exists>i < 1024. present (pde (chain_mem N) chain_dir i) \<and> frm (pde (chain_mem N) chain_dir i) = x) = (x = 0x301)"
      using p f by (metis (no_types, lifting) and_zero_eq zero_less_numeral and.commute)
    then show "x \<in> ptpgs (chain_mem N) chain_dir \<longleftrightarrow> x \<in> {0x300, 0x301}"
      unfolding in_ptpgs kd(2) by auto
  qed
  assume n: "n < 2 ^ 20"
  show "entry (chain_mem N) chain_dir n = (if n = 0 then 0x302007 else 0)"
  proof (cases "n div 1024 = 0")
    case True
    have "slot (chain_mem N) chain_dir n = 0x301 * 1024 + n mod 1024"
      using p [of 0] True f by (simp add: slot_def)
    moreover have "chain_mem N (0x301 * 1024 + n mod 1024) = (if n = 0 then 0x302007 else 0)"
      using True by (subst z) auto
    ultimately show ?thesis using p [of 0] True f by (simp add: entry_def)
  next
    case False
    then have "n \<noteq> 0" by (metis div_0)
    with False n p [of "n div 1024"] show ?thesis by (simp add: entry_def)
  qed
qed

lemma chain_uvm:
  assumes "0 < N" "N < 0x8000"
  shows "uvm_ok (chain_phys N) (map chain_page [0..<N]) chain_dir"
proof -
  have s: "kend (chain_phys N) = 0x80200000" "mem (chain_phys N) = chain_mem N"
    by (simp_all add: chain_phys_def)
  have k: "kpg ` set (map chain_page [0..<N]) = {0x400..<0x400 + N}"
  proof -
    have "kpg ` set (map chain_page [0..<N]) = (\<lambda>i. 0x400 + i) ` {0..<N}"
      using assms chain_page_num(2) by (auto simp: image_image intro!: image_cong)
    also have "\<dots> = {0x400..<0x400 + N}" by (simp add: image_add_atLeastLessThan add.commute)
    finally show ?thesis .
  qed
  have vm: "vm_ok (chain_phys N) (map chain_page [0..<N]) chain_dir"
    using chain_frees [OF assms] chain_table(1,2) [of N] k by (auto simp: vm_ok_def s)
  have "page_ok 0x80200000 (P2V (PTE_ADDR 0x302007))" "frm 0x302007 = 0x302"
    by (simp_all add: page_ok_def PTE_ADDR_def P2V_def V2P_def frm_def)
  then have "user_ok 0x80200000 (entry (chain_mem N) chain_dir) ({0x400..<0x400 + N} \<union> {0x300, 0x301})"
    using chain_table(3) [of _ N] by (auto simp: user_ok_def split: if_splits)
  with vm show ?thesis by (simp only: uvm_ok_def s k chain_table(2))
qed

section \<open>Mapping\<close>

lemma vpn_last:
  assumes "0 < unat sz" "unat va + unat sz \<le> 2 ^ 32"
  obtains k where "vpn va + k = (unat va + unat sz - 1) div 4096"
proof -
  have "vpn va \<le> (unat va + unat sz - 1) div 4096" unfolding vpn_def using assms(1) by (intro div_le_mono) simp
  then show thesis using that [of "(unat va + unat sz - 1) div 4096 - vpn va"] by simp
qed

text \<open>C18: \<^verbatim>\<open>mappages\<close> on a well-formed table and an unmapped range returns 0 or -1. When it returns 0,
  page \<open>i\<close> of the range is mapped to physical page \<open>i\<close> after \<open>pa\<close> with the given permissions, and
  every other entry of the table is as before; with more than 1024 free pages it returns 0.\<close>

theorem mappages_exact:
  assumes "vm_ok s fl d" and "0 < unat sz" and "unat va + unat sz \<le> 2 ^ 32"
    and "\<forall>n. vpn va \<le> n \<and> n \<le> (unat va + unat sz - 1) div 4096 \<longrightarrow> \<not> present (entry (mem s) d n)"
  shows "\<exists>r s' fl'. mappages d va sz pa perm s = Ret r s' \<and> (r = 0 \<or> r = -1) \<and> vm_ok s' fl' d
    \<and> (1024 < length fl \<longrightarrow> r = 0)
    \<and> (r = 0 \<longrightarrow> (\<forall>n < 2 ^ 20. entry (mem s') d n =
         (if vpn va \<le> n \<and> n \<le> (unat va + unat sz - 1) div 4096
          then (pa + of_nat (n - vpn va) * PGSIZE) OR perm OR PTE_P else entry (mem s) d n)))"
proof -
  from vpn_last [OF assms(2,3)] obtain k where k: "vpn va + k = (unat va + unat sz - 1) div 4096" .
  have "\<forall>i \<le> k. \<not> present (entry (mem s) d (vpn va + i))" using assms(4) k by simp
  from mappages_ok [OF assms(1,2,3) k this, of pa perm] obtain r s' us fl' j where
    m: "mappages d va sz pa perm s = Ret r s'" "fl = us @ fl'" "vm_ok s' fl' d" "grew s s' us d"
      "\<forall>n < 2 ^ 20. entry (mem s') d n = with_range (entry (mem s) d) (vpn va) j pa perm n"
      "if r = 0 then j = Suc k else r = -1 \<and> j \<le> k \<and> fl' = []" by blast
  have "length us \<le> 1024" using grew_bound [OF _ m(4), of fl'] assms(1) m(2) by simp
  then have "1024 < length fl \<longrightarrow> r = 0" using m(2,6) by (auto split: if_splits)
  moreover have "r = 0 \<longrightarrow> (\<forall>n < 2 ^ 20. entry (mem s') d n =
      (if vpn va \<le> n \<and> n \<le> (unat va + unat sz - 1) div 4096
       then (pa + of_nat (n - vpn va) * PGSIZE) OR perm OR PTE_P else entry (mem s) d n))"
    using m(5,6) k by (auto simp: with_range_def split: if_splits)
  moreover have "r = 0 \<or> r = -1" using m(6) by (auto split: if_splits)
  ultimately show ?thesis using m(1,3) by blast
qed

theorem mappages_exact_witness:
  "\<exists>r s'. mappages chain_dir 0x5000 0x3000 0x700000 PTE_U (chain_phys 2000) = Ret r s' \<and> r = 0
     \<and> entry (mem s') chain_dir 6 = 0x701005 \<and> entry (mem s') chain_dir 9 = 0"
proof -
  let ?s = "chain_phys 2000" and ?fl = "map chain_page [0..<2000]"
  have ok: "vm_ok ?s ?fl chain_dir" using chain_uvm [of 2000] by (simp add: uvm_ok_def)
  have en: "entry (mem ?s) chain_dir n = (if n = 0 then 0x302007 else 0)" if "n < 2 ^ 20" for n
    using chain_table(3) [OF that] by (simp add: chain_phys_def)
  have "\<forall>n. vpn 0x5000 \<le> n \<and> n \<le> (unat (0x5000 :: uint) + unat (0x3000 :: uint) - 1) div 4096
      \<longrightarrow> \<not> present (entry (mem ?s) chain_dir n)"
    using en by (simp add: vpn_def)
  with mappages_exact [OF ok, of "0x3000" "0x5000" "0x700000" PTE_U] obtain r s' fl' where
    m: "mappages chain_dir 0x5000 0x3000 0x700000 PTE_U ?s = Ret r s'" "1024 < length ?fl \<longrightarrow> r = 0"
      "r = 0 \<longrightarrow> (\<forall>n < 2 ^ 20. entry (mem s') chain_dir n =
         (if vpn 0x5000 \<le> n \<and> n \<le> (unat (0x5000 :: uint) + unat (0x3000 :: uint) - 1) div 4096
          then (0x700000 + of_nat (n - vpn 0x5000) * PGSIZE) OR PTE_U OR PTE_P
          else entry (mem ?s) chain_dir n))"
    by auto
  have r: "r = 0" using m(2) by (simp del: upt_rec_numeral)
  have "entry (mem s') chain_dir 6 = 0x701005" "entry (mem s') chain_dir 9 = 0"
    using m(3) r en by (simp_all add: vpn_def)
  with m(1) r show ?thesis by blast
qed

text \<open>\<^verbatim>\<open>mappages\<close> refuses to replace a mapping: asked for a page that is already mapped, it
  panics with \<^verbatim>\<open>remap\<close>.\<close>

theorem mappages_remap_panics:
  assumes "vm_ok s fl d" and "present (entry (mem s) d (vpn va))"
  shows "mappages d va sz pa perm s = Stop (Panic ''remap'') s"
proof -
  note D = vm_okD [OF assms(1)]
  have pr: "present (pde (mem s) d (vpn va div 1024))" using assms(2) by (auto simp: entry_def split: if_splits)
  let ?a = "PGROUNDDOWN va" and ?e = "pde (mem s) d (vpn va div 1024)"
  have v: "vpn ?a = vpn va" by (rule PGROUNDDOWN_aligned)
  have l: "mem s (kw (d + 4 * PDX ?a)) = ?e" using kw_pde [OF D(4,3), of ?a] v by (simp add: pde_def)
  from D(2) pr vpn_less(2) have "page_ok (kend s) (P2V (PTE_ADDR ?e))" by (simp add: pt_wf_def)
  then have nz: "P2V (PTE_ADDR ?e) + 4 * PTX ?a \<noteq> 0"
    using D(3) by (rule page_ok_index_nz) (simp add: PTX_vpn)
  have w: "walkpgdir d ?a True s = Ret (P2V (PTE_ADDR ?e) + 4 * PTX ?a) s"
    using pr l by (simp add: walkpgdir_def ld32_def Let_def)
  have "present (mem s (kw (P2V (PTE_ADDR ?e) + 4 * PTX ?a)))"
    using assms(2) pr v by (simp add: kw_slot entry_def slot_def)
  then have "map_one d ?a pa perm s = Stop (Panic ''remap'') s"
    using w nz by (simp add: map_one_def bnd_Ret ld32_def)
  then have "mappages_loop (Suc n) d ?a lst pa perm s = Stop (Panic ''remap'') s" for n lst
    unfolding mappages_loop_one by (rule bnd_Stop)
  from this [of "2 ^ 20 - 1"] show ?thesis by (simp add: mappages_def del: mappages_loop.simps)
qed

theorem mappages_remap_panics_witness:
  "mappages chain_dir 0x123 0x10 0x700000 PTE_U (chain_phys 7) = Stop (Panic ''remap'') (chain_phys 7)"
proof -
  have "vm_ok (chain_phys 7) (map chain_page [0..<7]) chain_dir"
    using chain_uvm [of 7] by (simp add: uvm_ok_def del: upt_rec_numeral)
  moreover have "present (entry (mem (chain_phys 7)) chain_dir (vpn 0x123))"
    using chain_table(3) [of 0 7] by (simp add: chain_phys_def vpn_def)
  ultimately show ?thesis by (rule mappages_remap_panics)
qed

section \<open>Whole address spaces\<close>

text \<open>C22: with enough memory \<^verbatim>\<open>setupkvm\<close> returns a fresh page table whose entries are exactly the ones
  the kernel map calls for: I/O space, kernel text read-only, kernel data and free memory, and the
  devices, with no user mapping.\<close>

theorem setupkvm_maps_kernel:
  assumes "frees s (d # fl)" and "1024 < length fl" and "data_ok (kdata s)"
  shows "\<exists>s' fl'. setupkvm s = Ret d s' \<and> vm_ok s' fl' d \<and> pages_only s s'
    \<and> (\<forall>va. entry (mem s') d (vpn va) = kernel_pte (kdata s) va)"
  using setupkvm_ok [OF assms] by blast

theorem setupkvm_maps_kernel_witness:
  "\<exists>s'. setupkvm (chain_phys 2000) = Ret (chain_page 0) s'
     \<and> entry (mem s') (chain_page 0) (vpn 0x80101000) = 0x101001"
proof -
  have l: "map chain_page [0..<2000] = chain_page 0 # map chain_page [1..<2000]"
    by (subst upt_conv_Cons) simp_all
  have "frees (chain_phys 2000) (chain_page 0 # map chain_page [1..<2000])"
    unfolding l [symmetric] by (rule chain_frees) simp_all
  moreover have "1024 < length (map chain_page [1..<2000])" by (simp del: upt_rec_numeral)
  moreover have "data_ok (kdata (chain_phys 2000))" by (simp add: chain_phys_def data_ok_def P2V_def)
  ultimately obtain s' where s': "setupkvm (chain_phys 2000) = Ret (chain_page 0) s'"
    "\<forall>va. entry (mem s') (chain_page 0) (vpn va) = kernel_pte (kdata (chain_phys 2000)) va"
    using setupkvm_maps_kernel by blast
  have "kernel_pte (kdata (chain_phys 2000)) 0x80101000 = 0x101001"
    by (simp add: kernel_pte_def chain_phys_def PGROUNDDOWN_def V2P_def)
  with s' show ?thesis by auto
qed

text \<open>C20: \<^verbatim>\<open>deallocuvm\<close>, which skips a whole page directory entry when its table is missing, still
  visits every mapped page of the range: afterwards none of them is mapped, their physical pages are
  back on the free list, each once, and every other entry is as before.\<close>

theorem deallocuvm_unmaps:
  assumes "uvm_ok s fl d" and "oldsz \<le> KERNBASE" and "newsz < oldsz"
  shows "\<exists>s' fs. deallocuvm d oldsz newsz s = Ret newsz s' \<and> uvm_ok s' (fs @ fl) d
    \<and> (\<forall>n < 2 ^ 20. entry (mem s') d n =
         (if upages newsz \<le> n \<and> n < upages oldsz \<and> present (entry (mem s) d n) then 0
          else entry (mem s) d n))
    \<and> kpg ` set fs = {frm (entry (mem s) d n) |n. upages newsz \<le> n \<and> n < upages oldsz
         \<and> present (entry (mem s) d n)}"
proof -
  from deallocuvm_ok [OF assms] obtain s' fs where
    "deallocuvm d oldsz newsz s = Ret newsz s'" "shrinks s s' fl fs d (upages newsz) (upages oldsz)" by blast
  then show ?thesis
    by (intro exI [of _ s'] exI [of _ fs]) (simp add: shrinks_def unmapped_def frames_def)
qed

theorem deallocuvm_unmaps_witness:
  "\<exists>s' fs. deallocuvm chain_dir 0x3000 0 (chain_phys 3) = Ret 0 s' \<and> entry (mem s') chain_dir 0 = 0
     \<and> uvm_ok s' (fs @ map chain_page [0..<3]) chain_dir"
proof -
  have "uvm_ok (chain_phys 3) (map chain_page [0..<3]) chain_dir"
    using chain_uvm [of 3] by (simp del: upt_rec_numeral)
  from deallocuvm_unmaps [OF this, of "0x3000" 0] obtain s' fs where
    "deallocuvm chain_dir 0x3000 0 (chain_phys 3) = Ret 0 s'" "uvm_ok s' (fs @ map chain_page [0..<3]) chain_dir"
    "\<forall>n < 2 ^ 20. entry (mem s') chain_dir n = (if upages 0 \<le> n \<and> n < upages 0x3000
       \<and> present (entry (mem (chain_phys 3)) chain_dir n) then 0 else entry (mem (chain_phys 3)) chain_dir n)"
    by auto
  moreover have "entry (mem (chain_phys 3)) chain_dir 0 = 0x302007" "upages 0 = 0" "upages 0x3000 = 3"
    using chain_table(3) [of 0 3] by (simp_all add: chain_phys_def upages_def)
  ultimately show ?thesis by auto
qed

text \<open>C21: \<^verbatim>\<open>freevm\<close> gives back everything an address space owns: the directory, its tables and every
  mapped user page return to the free list, each exactly once, and no other memory changes.\<close>

theorem freevm_returns_pages:
  assumes "uvm_ok s fl d"
  shows "\<exists>s' fs. freevm d s = Ret () s' \<and> frees s' (fs @ fl)
    \<and> kpg ` set fs = ptpgs (mem s) d \<union> {frm (entry (mem s) d n) |n. n < UPAGES \<and> present (entry (mem s) d n)}
    \<and> (\<forall>w. w div 1024 \<notin> kpg ` set fs \<longrightarrow> mem s' w = mem s w)"
proof -
  from freevm_ok [OF assms] obtain s' fs where
    "freevm d s = Ret () s'" "frees s' (fs @ fl)"
    "kpg ` set fs = ptpgs (mem s) d \<union> frames (entry (mem s) d) 0 UPAGES"
    "\<forall>w. w div 1024 \<notin> kpg ` set fs \<longrightarrow> mem s' w = mem s w" by blast
  then show ?thesis by (intro exI [of _ s'] exI [of _ fs]) (simp add: frames_def)
qed

theorem freevm_returns_pages_witness:
  "\<exists>s' fs. freevm chain_dir (chain_phys 3) = Ret () s' \<and> frees s' (fs @ map chain_page [0..<3])
     \<and> kpg ` set fs = {0x300, 0x301, 0x302}"
proof -
  have "uvm_ok (chain_phys 3) (map chain_page [0..<3]) chain_dir"
    using chain_uvm [of 3] by (simp del: upt_rec_numeral)
  from freevm_returns_pages [OF this] obtain s' fs where
    s': "freevm chain_dir (chain_phys 3) = Ret () s'" "frees s' (fs @ map chain_page [0..<3])"
    "kpg ` set fs = ptpgs (mem (chain_phys 3)) chain_dir \<union> {frm (entry (mem (chain_phys 3)) chain_dir n) |n.
       n < UPAGES \<and> present (entry (mem (chain_phys 3)) chain_dir n)}" by blast
  have en: "entry (mem (chain_phys 3)) chain_dir n = (if n = 0 then 0x302007 else 0)" if "n < UPAGES" for n
    using chain_table(3) [of n 3] that by (simp add: chain_phys_def)
  have "{frm (entry (mem (chain_phys 3)) chain_dir n) |n. n < UPAGES
      \<and> present (entry (mem (chain_phys 3)) chain_dir n)} = {0x302}"
  proof -
    have "n < UPAGES \<and> present (entry (mem (chain_phys 3)) chain_dir n) \<longleftrightarrow> n = 0" for n
      using en [of n] by (cases "n = 0") auto
    then show ?thesis using en [of 0] by (simp add: frm_def)
  qed
  with s' chain_table(2) [of 3] show ?thesis by (auto simp: chain_phys_def)
qed

text \<open>C19: \<^verbatim>\<open>allocuvm\<close> either grows the address space or leaves it as it was. On success every page of
  the new range is a zeroed page taken from the free list, mapped writable for the user, and the other
  entries are unchanged; when it returns 0 the range is unmapped again and the rest unchanged, and
  memory was short: at most 1026 pages more than the range needs were free. Either way no memory
  outside the table and the formerly free pages is touched.\<close>

theorem allocuvm_grows:
  assumes "uvm_ok s fl d" and "newsz < KERNBASE" and "oldsz \<le> newsz"
    and "\<forall>n. upages oldsz \<le> n \<and> n < upages newsz \<longrightarrow> \<not> present (entry (mem s) d n)"
  shows "\<exists>r s' fl'. allocuvm d oldsz newsz s = Ret r s' \<and> uvm_ok s' fl' d \<and> within s s' fl fl' d
    \<and> (r = newsz \<and> grown s s' fl d (upages oldsz) (upages newsz)
       \<or> r = 0 \<and> undone s s' d (upages oldsz) (upages newsz)
         \<and> length fl \<le> 1026 + (upages newsz - upages oldsz))"
proof -
  let ?a = "PGROUNDUP oldsz"
  have os: "oldsz \<le> KERNBASE" using assms(2,3) by simp
  note P = PGROUNDUP_vpn [OF os]
  have fr: "frees s fl" using assms(1) by (simp add: uvm_ok_def vm_ok_def)
  have "upages newsz - vpn ?a < 2 ^ 20" using upages_le [OF less_imp_le [OF assms(2)]] by simp
  moreover have "grown s s fl d (upages oldsz) (vpn ?a)" "accounted fl s fl d (upages oldsz) (vpn ?a)"
    using P(1) by (auto simp: grown_def accounted_def)
  moreover have "\<not> KERNBASE \<le> newsz" "\<not> newsz < oldsz" using assms(2,3) by simp_all
  then have "allocuvm d oldsz newsz s = alloc_loop (2 ^ 20) d ?a oldsz newsz s"
    by (simp add: allocuvm_def del: alloc_loop.simps)
  ultimately show ?thesis
    using alloc_loop_ok [OF fr assms(2,4,1) within_refl, of ?a "2 ^ 20"] P by simp
qed

theorem allocuvm_grows_witness:
  "\<exists>s' fl'. allocuvm chain_dir 0x1000 0x3000 (chain_phys 2000) = Ret 0x3000 s' \<and> uvm_ok s' fl' chain_dir
     \<and> grown (chain_phys 2000) s' (map chain_page [0..<2000]) chain_dir 1 3"
proof -
  let ?s = "chain_phys 2000" and ?fl = "map chain_page [0..<2000]"
  have ok: "uvm_ok ?s ?fl chain_dir" using chain_uvm [of 2000] by (simp del: upt_rec_numeral)
  have u: "upages 0x1000 = 1" "upages 0x3000 = 3" by (simp_all add: upages_def)
  have "\<not> present (entry (mem ?s) chain_dir n)" if "1 \<le> n" "n < 3" for n
    using chain_table(3) [of n 2000] that by (simp add: chain_phys_def)
  moreover have len: "length ?fl = 2000" by (simp del: upt_rec_numeral)
  ultimately have "\<exists>r s' fl'. allocuvm chain_dir 0x1000 0x3000 ?s = Ret r s' \<and> uvm_ok s' fl' chain_dir
      \<and> within ?s s' ?fl fl' chain_dir \<and> (r = 0x3000 \<and> grown ?s s' ?fl chain_dir 1 3
       \<or> r = 0 \<and> undone ?s s' chain_dir 1 3 \<and> length ?fl \<le> 1026 + (3 - 1))"
    using allocuvm_grows [OF ok, of "0x3000" "0x1000"] unfolding u by simp
  with len show ?thesis by (elim exE conjE disjE) (blast, linarith)
qed

end
