(* ===== verification/CString.thy ===== *)
theory CString
  imports Prelude
begin

unbundle bit_operations_syntax

text \<open>
  The byte and string routines of \<^verbatim>\<open>string.c\<close> and \<^verbatim>\<open>ulib.c\<close>.

  A pointer to a character is modelled by the bytes from it to the end of the object it points into;
  a routine that would run off the end of the object has the result \<open>None\<close>. \<open>cstr\<close> is the string such
  a pointer denotes. \<^verbatim>\<open>memset\<close> and \<^verbatim>\<open>memmove\<close>, whose behaviour depends on the addresses, work on a
  memory of bytes.
\<close>

section \<open>Strings\<close>

definition cstr :: "uchar list \<Rightarrow> uchar list" where
  "cstr bs = takeWhile (\<lambda>c. c \<noteq> 0) bs"

fun strlen :: "uchar list \<Rightarrow> nat option" where
  "strlen [] = None"
| "strlen (c # s) = (if c = 0 then Some 0 else map_option Suc (strlen s))"

text \<open>\<^verbatim>\<open>(uchar)*p - (uchar)*q\<close> is computed in \<^verbatim>\<open>int\<close>.\<close>

definition bdiff :: "uchar \<Rightarrow> uchar \<Rightarrow> int" where
  "bdiff a b = uint a - uint b"

fun strcmp :: "uchar list \<Rightarrow> uchar list \<Rightarrow> int option" where
  "strcmp (c # p) (d # q) = (if c \<noteq> 0 \<and> c = d then strcmp p q else Some (bdiff c d))"
| "strcmp _ _ = None"

fun strncmp :: "uchar list \<Rightarrow> uchar list \<Rightarrow> nat \<Rightarrow> int option" where
  "strncmp p q 0 = Some 0"
| "strncmp (c # p) (d # q) (Suc n) = (if c \<noteq> 0 \<and> c = d then strncmp p q n else Some (bdiff c d))"
| "strncmp _ _ (Suc n) = None"

fun memcmp :: "uchar list \<Rightarrow> uchar list \<Rightarrow> nat \<Rightarrow> int option" where
  "memcmp p q 0 = Some 0"
| "memcmp (c # p) (d # q) (Suc n) = (if c \<noteq> d then Some (bdiff c d) else memcmp p q n)"
| "memcmp _ _ (Suc n) = None"

fun strcpy :: "uchar list \<Rightarrow> uchar list \<Rightarrow> uchar list option" where
  "strcpy (x # s) (c # t) = (if c \<noteq> 0 then map_option ((#) c) (strcpy s t) else Some (0 # s))"
| "strcpy _ _ = None"

fun zero_fill :: "nat \<Rightarrow> uchar list \<Rightarrow> uchar list option" where
  "zero_fill 0 s = Some s"
| "zero_fill (Suc n) (x # s) = map_option ((#) 0) (zero_fill n s)"
| "zero_fill (Suc n) [] = None"

fun strncpy_loop :: "nat \<Rightarrow> uchar list \<Rightarrow> uchar list \<Rightarrow> uchar list option" where
  "strncpy_loop 0 s t = Some s"
| "strncpy_loop (Suc n) (x # s) (c # t) =
     (if c \<noteq> 0 then map_option ((#) c) (strncpy_loop n s t) else map_option ((#) 0) (zero_fill n s))"
| "strncpy_loop (Suc n) _ _ = None"

definition strncpy :: "uchar list \<Rightarrow> uchar list \<Rightarrow> int \<Rightarrow> uchar list option" where
  "strncpy s t n = strncpy_loop (nat n) s t"

text \<open>\<open>n\<close> counts the iterations that \<^verbatim>\<open>--n > 0\<close> still allows.\<close>

fun safestrcpy_loop :: "nat \<Rightarrow> uchar list \<Rightarrow> uchar list \<Rightarrow> uchar list option" where
  "safestrcpy_loop 0 (x # s) t = Some (0 # s)"
| "safestrcpy_loop (Suc n) (x # s) (c # t) =
     (if c \<noteq> 0 then map_option ((#) c) (safestrcpy_loop n s t)
      else (case s of [] \<Rightarrow> None | y # s' \<Rightarrow> Some (0 # 0 # s')))"
| "safestrcpy_loop _ _ _ = None"

definition safestrcpy :: "uchar list \<Rightarrow> uchar list \<Rightarrow> int \<Rightarrow> uchar list option" where
  "safestrcpy s t n = (if n \<le> 0 then Some s else safestrcpy_loop (nat (n - 1)) s t)"

text \<open>\<^verbatim>\<open>strchr\<close> returns a pointer into its argument: the bytes from the match on, \<open>Some None\<close> for 0.\<close>

fun strchr :: "uchar list \<Rightarrow> uchar \<Rightarrow> uchar list option option" where
  "strchr [] c = None"
| "strchr (x # s) c = (if x = 0 then Some None else if x = c then Some (Some (x # s)) else strchr s c)"

text \<open>\<^verbatim>\<open>atoi\<close>: the accumulator is a 32-bit \<^verbatim>\<open>int\<close>, taken to wrap.\<close>

fun atoi_loop :: "32 word \<Rightarrow> uchar list \<Rightarrow> 32 word option" where
  "atoi_loop n [] = None"
| "atoi_loop n (c # s) =
     (if 48 \<le> c \<and> c \<le> 57 then atoi_loop (n * 10 + ucast c - 48) s else Some n)"

definition atoi :: "uchar list \<Rightarrow> 32 word option" where
  "atoi s = atoi_loop 0 s"

text \<open>
  \<^verbatim>\<open>gets\<close> reads characters one at a time from file descriptor 0; \<open>inp\<close> is what \<^verbatim>\<open>read\<close> has still to
  deliver. The result is what is stored in the buffer, and what is left to read.
\<close>

fun gets_loop :: "nat \<Rightarrow> uchar list \<Rightarrow> uchar list \<times> uchar list" where
  "gets_loop 0 inp = ([0], inp)"
| "gets_loop (Suc k) [] = ([0], [])"
| "gets_loop (Suc k) (c # inp) =
     (if c = 10 \<or> c = 13 then ([c, 0], inp)
      else let (b, r) = gets_loop k inp in (c # b, r))"

definition ugets :: "uchar list \<Rightarrow> int \<Rightarrow> uchar list \<times> uchar list" where
  "ugets inp mx = gets_loop (nat (mx - 1)) inp"

section \<open>Memory\<close>

text \<open>
  Byte addresses are numbers, which do not wrap: a range that reaches over the end of the address space is not one C allows.
\<close>

type_synonym bmem = "nat \<Rightarrow> uchar"

fun stosb :: "bmem \<Rightarrow> nat \<Rightarrow> uchar \<Rightarrow> nat \<Rightarrow> bmem" where
  "stosb m a c 0 = m"
| "stosb m a c (Suc n) = stosb (m(a := c)) (a + 1) c n"

definition store32 :: "bmem \<Rightarrow> nat \<Rightarrow> 32 word \<Rightarrow> bmem" where
  "store32 m a w = m(a := ucast w, a + 1 := ucast (drop_bit 8 w), a + 2 := ucast (drop_bit 16 w),
     a + 3 := ucast (drop_bit 24 w))"

fun stosl :: "bmem \<Rightarrow> nat \<Rightarrow> 32 word \<Rightarrow> nat \<Rightarrow> bmem" where
  "stosl m a w 0 = m"
| "stosl m a w (Suc n) = stosl (store32 m a w) (a + 4) w n"

definition memset :: "bmem \<Rightarrow> 32 word \<Rightarrow> 32 word \<Rightarrow> 32 word \<Rightarrow> bmem" where
  "memset m dst c n =
     (if dst mod 4 = 0 \<and> n mod 4 = 0 then
        (let b = c AND 0xFF in
         stosl m (unat dst) (push_bit 24 b OR push_bit 16 b OR push_bit 8 b OR b) (unat n div 4))
      else stosb m (unat dst) (ucast c) (unat n))"

definition umemset :: "bmem \<Rightarrow> 32 word \<Rightarrow> 32 word \<Rightarrow> 32 word \<Rightarrow> bmem" where
  "umemset m dst c n = stosb m (unat dst) (ucast c) (unat n)"

fun move_up :: "bmem \<Rightarrow> nat \<Rightarrow> nat \<Rightarrow> nat \<Rightarrow> bmem" where
  "move_up m d s 0 = m"
| "move_up m d s (Suc n) = move_up (m(d := m s)) (d + 1) (s + 1) n"

text \<open>\<open>d\<close> and \<open>s\<close> are the ends of the areas, one past the next byte to copy.\<close>

fun move_down :: "bmem \<Rightarrow> nat \<Rightarrow> nat \<Rightarrow> nat \<Rightarrow> bmem" where
  "move_down m d s 0 = m"
| "move_down m d s (Suc n) = move_down (m(d - 1 := m (s - 1))) (d - 1) (s - 1) n"

definition memmove :: "bmem \<Rightarrow> 32 word \<Rightarrow> 32 word \<Rightarrow> 32 word \<Rightarrow> bmem" where
  "memmove m dst src n =
     (if src < dst \<and> dst < src + n
      then move_down m (unat dst + unat n) (unat src + unat n) (unat n)
      else move_up m (unat dst) (unat src) (unat n))"

definition memcpy :: "bmem \<Rightarrow> 32 word \<Rightarrow> 32 word \<Rightarrow> 32 word \<Rightarrow> bmem" where
  "memcpy m dst src n = memmove m dst src n"

definition umemmove :: "bmem \<Rightarrow> 32 word \<Rightarrow> 32 word \<Rightarrow> int \<Rightarrow> bmem" where
  "umemmove m dst src n = move_up m (unat dst) (unat src) (nat n)"

section \<open>What the string routines compute\<close>

lemma cstr_simps [simp]:
  "cstr [] = []" "cstr (c # s) = (if c = 0 then [] else c # cstr s)"
  by (simp_all add: cstr_def)

lemma bdiff_zero [simp]: "bdiff a b = 0 \<longleftrightarrow> a = b"
  by (simp add: bdiff_def word_uint_eq_iff)

lemma strlen_run: "strlen s = (if 0 \<in> set s then Some (length (cstr s)) else None)"
  by (induction s) auto

lemma strcmp_run:
  "0 \<in> set p \<Longrightarrow> 0 \<in> set q \<Longrightarrow> \<exists>r. strcmp p q = Some r \<and> (r = 0 \<longleftrightarrow> cstr p = cstr q)"
proof (induction p q rule: strcmp.induct)
  case (1 c p d q)
  show ?case
  proof (cases "c \<noteq> 0 \<and> c = d")
    case True
    with 1 show ?thesis by auto
  next
    case False
    then show ?thesis by auto
  qed
qed auto

lemma strncmp_run:
  "0 \<in> set p \<or> n \<le> length p \<Longrightarrow> 0 \<in> set q \<or> n \<le> length q \<Longrightarrow>
    \<exists>r. strncmp p q n = Some r \<and> (r = 0 \<longleftrightarrow> take n (cstr p) = take n (cstr q))"
proof (induction p q n rule: strncmp.induct)
  case (2 c p d q n)
  show ?case
  proof (cases "c \<noteq> 0 \<and> c = d")
    case True
    with 2 show ?thesis by auto
  next
    case False
    then show ?thesis by auto
  qed
qed auto

lemma memcmp_run:
  "n \<le> length p \<Longrightarrow> n \<le> length q \<Longrightarrow>
    \<exists>r. memcmp p q n = Some r \<and> (r = 0 \<longleftrightarrow> take n p = take n q)"
  by (induction p q n rule: memcmp.induct) auto

lemma zero_fill_run: "n \<le> length s \<Longrightarrow> zero_fill n s = Some (replicate n 0 @ drop n s)"
  by (induction n s rule: zero_fill.induct) auto

lemma strncpy_loop_run:
  "n \<le> length s \<Longrightarrow> 0 \<in> set t \<or> n \<le> length t \<Longrightarrow>
    strncpy_loop n s t = Some (take n (cstr t) @ replicate (n - length (cstr t)) 0 @ drop n s)"
  by (induction n s t rule: strncpy_loop.induct) (auto simp: zero_fill_run)

lemma safestrcpy_loop_run:
  "n < length s \<Longrightarrow> 0 \<in> set t \<or> n \<le> length t \<Longrightarrow>
    \<exists>u. safestrcpy_loop n s t = Some u \<and> length u = length s \<and> cstr u = take n (cstr t)
      \<and> drop (Suc n) u = drop (Suc n) s \<and> u ! length (take n (cstr t)) = 0"
proof (induction n s t rule: safestrcpy_loop.induct)
  case (2 n x s c t)
  show ?case
  proof (cases "c = 0")
    case True
    with 2 show ?thesis by (cases s) (auto simp: drop_Cons')
  next
    case False
    with 2 obtain u where "safestrcpy_loop n s t = Some u" "length u = length s"
      "cstr u = take n (cstr t)" "drop (Suc n) u = drop (Suc n) s" "u ! length (take n (cstr t)) = 0"
      by auto
    with False show ?thesis by simp
  qed
qed auto

section \<open>What the memory routines compute\<close>

lemma stosb_run: "stosb m a c n = (\<lambda>x. if a \<le> x \<and> x < a + n then c else m x)"
  by (induction n arbitrary: m a) (auto simp: fun_eq_iff)

lemma store32_same:
  assumes "ucast w = c" "ucast (drop_bit 8 w) = c" "ucast (drop_bit 16 w) = c" "ucast (drop_bit 24 w) = c"
  shows "store32 m a w = (\<lambda>x. if a \<le> x \<and> x < a + 4 then c else m x)"
proof
  fix x
  have "a \<le> x \<and> x < a + 4 \<longleftrightarrow> x = a \<or> x = a + 1 \<or> x = a + 2 \<or> x = a + 3" by auto
  then show "store32 m a w x = (if a \<le> x \<and> x < a + 4 then c else m x)"
    using assms by (auto simp: store32_def)
qed

lemma stosl_run:
  assumes "ucast w = c" "ucast (drop_bit 8 w) = c" "ucast (drop_bit 16 w) = c" "ucast (drop_bit 24 w) = c"
  shows "stosl m a w n = (\<lambda>x. if a \<le> x \<and> x < a + 4 * n then c else m x)"
  by (induction n arbitrary: m a) (auto simp: fun_eq_iff store32_same [OF assms])

lemma rep_bytes:
  fixes c :: "32 word"
  defines "b \<equiv> c AND 0xFF"
  defines "w \<equiv> push_bit 24 b OR push_bit 16 b OR push_bit 8 b OR b"
  shows "ucast w = (ucast c :: uchar)" "ucast (drop_bit 8 w) = (ucast c :: uchar)"
    "ucast (drop_bit 16 w) = (ucast c :: uchar)" "ucast (drop_bit 24 w) = (ucast c :: uchar)"
proof -
  have m: "(0xFF :: 32 word) = mask 8" by (simp add: mask_eq_exp_minus_1)
  have bb: "bit b n \<longleftrightarrow> n < 8 \<and> bit c n" for n unfolding b_def m by (auto simp: bit_simps)
  have wb: "bit w n \<longleftrightarrow> 24 \<le> n \<and> bit b (n - 24) \<or> 16 \<le> n \<and> bit b (n - 16)
      \<or> 8 \<le> n \<and> bit b (n - 8) \<or> bit b n" if "n < 32" for n
    unfolding w_def using that by (simp add: bit_simps)
  have byte: "bit w (8 * k + n) \<longleftrightarrow> bit c n" if "n < 8" "k < 4" for n k
  proof -
    from that(2) consider "k = 0" | "k = 1" | "k = 2" | "k = 3" by linarith
    then show ?thesis using that(1) by cases (simp_all add: wb bb)
  qed
  show "ucast w = (ucast c :: uchar)" "ucast (drop_bit 8 w) = (ucast c :: uchar)"
    "ucast (drop_bit 16 w) = (ucast c :: uchar)" "ucast (drop_bit 24 w) = (ucast c :: uchar)"
    by (rule bit_word_eqI; use byte [of _ 0] byte [of _ 1] byte [of _ 2] byte [of _ 3] in \<open>simp add: bit_simps\<close>)+
qed

lemma memset_run:
  "memset m dst c n = (\<lambda>x. if unat dst \<le> x \<and> x < unat dst + unat n then ucast c else m x)"
proof (cases "dst mod 4 = 0 \<and> n mod 4 = 0")
  case True
  then have "unat n mod 4 = 0" using unat_mod [of n 4] by simp
  then have "4 * (unat n div 4) = unat n" by auto
  moreover have "memset m dst c n = stosl m (unat dst) (push_bit 24 (c AND 0xFF) OR push_bit 16 (c AND 0xFF)
      OR push_bit 8 (c AND 0xFF) OR (c AND 0xFF)) (unat n div 4)"
    unfolding memset_def Let_def using True by (rule if_P)
  ultimately show ?thesis unfolding stosl_run [OF rep_bytes] by simp
next
  case False
  then have "memset m dst c n = stosb m (unat dst) (ucast c) (unat n)"
    unfolding memset_def Let_def by (rule if_not_P)
  then show ?thesis by (simp add: stosb_run)
qed

definition copied :: "bmem \<Rightarrow> nat \<Rightarrow> nat \<Rightarrow> nat \<Rightarrow> bmem" where
  "copied m d s n = (\<lambda>x. if d \<le> x \<and> x < d + n then m (s + (x - d)) else m x)"

lemma move_up_run: "\<not> (s < d \<and> d < s + n) \<Longrightarrow> move_up m d s n = copied m d s n"
proof (induction n arbitrary: m d s)
  case (Suc n)
  then have "\<not> (s + 1 < d + 1 \<and> d + 1 < s + 1 + n)" by auto
  then have "move_up m d s (Suc n) = copied (m(d := m s)) (d + 1) (s + 1) n"
    unfolding move_up.simps by (rule Suc.IH)
  also have "\<dots> = copied m d s (Suc n)"
  proof
    fix x
    consider "x = d" | "d < x" "x < d + Suc n" | "x < d \<or> d + Suc n \<le> x" by linarith
    then show "copied (m(d := m s)) (d + 1) (s + 1) n x = copied m d s (Suc n) x"
    proof cases
      case 2
      then have "s + 1 + (x - (d + 1)) = s + (x - d)" "s + (x - d) \<noteq> d" using Suc.prems by auto
      with 2 show ?thesis by (simp add: copied_def)
    qed (auto simp: copied_def)
  qed
  finally show ?case .
qed (auto simp: copied_def fun_eq_iff)

lemma move_down_run: "s \<le> d \<Longrightarrow> move_down m (d + n) (s + n) n = copied m d s n"
proof (induction n arbitrary: m)
  case (Suc n)
  then have "move_down m (d + Suc n) (s + Suc n) (Suc n) = copied (m(d + n := m (s + n))) d s n" by simp
  also have "\<dots> = copied m d s (Suc n)"
  proof
    fix x
    consider "x = d + n" | "d \<le> x" "x < d + n" | "x < d \<or> d + n < x" by linarith
    then show "copied (m(d + n := m (s + n))) d s n x = copied m d s (Suc n) x"
    proof cases
      case 2
      then have "s + (x - d) \<noteq> d + n" using Suc.prems by auto
      with 2 show ?thesis by (simp add: copied_def)
    qed (auto simp: copied_def)
  qed
  finally show ?case .
qed (auto simp: copied_def fun_eq_iff)

section \<open>Properties\<close>

text \<open>C23: \<^verbatim>\<open>memmove\<close> copies the source as it was, whatever the overlap: afterwards byte \<open>i\<close> of the
  destination is the old byte \<open>i\<close> of the source, and nothing else changed.\<close>

theorem memmove_copies:
  assumes "unat src + unat n < 2 ^ 32"
  shows "memmove m dst src n =
    (\<lambda>x. if unat dst \<le> x \<and> x < unat dst + unat n then m (unat src + (x - unat dst)) else m x)"
proof -
  have "unat (src + n) = unat src + unat n" using assms by (subst unat_add_lem [THEN iffD1]) simp_all
  then have t: "src < dst \<and> dst < src + n \<longleftrightarrow> unat src < unat dst \<and> unat dst < unat src + unat n"
    by (simp add: word_less_nat_alt)
  show ?thesis
  proof (cases "src < dst \<and> dst < src + n")
    case True
    then have "memmove m dst src n = copied m (unat dst) (unat src) (unat n)"
      using t move_down_run [of "unat src" "unat dst"] by (simp add: memmove_def)
    then show ?thesis by (simp add: copied_def)
  next
    case False
    then have "memmove m dst src n = move_up m (unat dst) (unat src) (unat n)"
      unfolding memmove_def by (rule if_not_P)
    also have "\<dots> = copied m (unat dst) (unat src) (unat n)"
      using False t by (intro move_up_run) simp
    finally have "memmove m dst src n = copied m (unat dst) (unat src) (unat n)" .
    then show ?thesis by (simp add: copied_def)
  qed
qed

theorem memmove_copies_witness:
  "map (memmove (\<lambda>x. of_nat x) 3 1 4) [1, 3, 4, 5, 6, 7] = [1, 1, 2, 3, 4, 7]"
  using memmove_copies [of 1 4 "\<lambda>x. of_nat x" 3] by simp

text \<open>C24: \<^verbatim>\<open>memset\<close> fills the area with the low byte of its argument and changes nothing else, whether it
  stores words (aligned address and length) or bytes; the kernel's and the user library's versions agree.\<close>

theorem memset_fills:
  "memset m dst c n = (\<lambda>x. if unat dst \<le> x \<and> x < unat dst + unat n then ucast c else m x)
   \<and> umemset m dst c n = memset m dst c n"
  by (simp add: memset_run umemset_def stosb_run)

text \<open>C25: \<^verbatim>\<open>safestrcpy\<close> into a buffer of at least \<open>n > 0\<close> bytes always leaves a terminated string: the
  longest prefix of the source that fits with its terminator, nothing past the first \<open>n\<close> bytes
  being written.\<close>

theorem safestrcpy_terminates:
  assumes "0 < n" and "nat n \<le> length s" and "0 \<in> set t \<or> nat n \<le> Suc (length t)"
  shows "\<exists>u. safestrcpy s t n = Some u \<and> length u = length s \<and> cstr u = take (nat n - 1) (cstr t)
    \<and> length (cstr u) < nat n \<and> u ! length (cstr u) = 0 \<and> drop (nat n) u = drop (nat n) s"
proof -
  have k: "nat (n - 1) = nat n - 1" "Suc (nat n - 1) = nat n" using assms(1) by auto
  from safestrcpy_loop_run [of "nat n - 1" s t] assms k obtain u where
    "safestrcpy_loop (nat n - 1) s t = Some u" "length u = length s" "cstr u = take (nat n - 1) (cstr t)"
    "drop (nat n) u = drop (nat n) s" "u ! length (take (nat n - 1) (cstr t)) = 0" by force
  with assms(1) k show ?thesis by (auto simp: safestrcpy_def)
qed

theorem safestrcpy_terminates_witness:
  "\<exists>u. safestrcpy [9, 9, 9, 9] [97, 98, 99, 100, 101, 0] 4 = Some u \<and> cstr u = [97, 98, 99]"
  using safestrcpy_terminates [of 4 "[9, 9, 9, 9]" "[97, 98, 99, 100, 101, 0]"] by auto

text \<open>The string comparisons decide equality of strings. On terminated strings \<^verbatim>\<open>strcmp\<close> returns, and
  returns 0 exactly for equal strings; \<^verbatim>\<open>strncmp\<close> does so for the first \<open>n\<close> characters.\<close>

theorem strcmp_decides:
  assumes "0 \<in> set p" and "0 \<in> set q"
  shows "(\<exists>r. strcmp p q = Some r \<and> (r = 0 \<longleftrightarrow> cstr p = cstr q))
    \<and> (\<exists>r. strncmp p q n = Some r \<and> (r = 0 \<longleftrightarrow> take n (cstr p) = take n (cstr q)))"
  using strcmp_run [OF assms] strncmp_run [of p n q] assms by blast

theorem strcmp_decides_witness:
  "(\<exists>r. strcmp [97, 98, 0] [97, 99, 0] = Some r \<and> r \<noteq> 0)
    \<and> (\<exists>r. strncmp [97, 98, 0] [97, 99, 0] 1 = Some r \<and> r = 0)"
  using strcmp_decides [of "[97, 98, 0]" "[97, 99, 0]" 1] by simp

end
