(* ===== verification/Printf.thy ===== *)
theory Printf
  imports CString
begin

text \<open>
  Formatted output: \<^verbatim>\<open>printint\<close> and \<^verbatim>\<open>printf\<close> of the user library (\<^verbatim>\<open>printf.c\<close>), and the kernel's
  \<^verbatim>\<open>printint\<close> and \<^verbatim>\<open>cprintf\<close> (\<^verbatim>\<open>console.c\<close>). What is printed is a list of bytes. The variable
  arguments are the words on the stack after the format; \<open>str\<close> gives the bytes a word points to, for
  \<^verbatim>\<open>%s\<close>. A run that would overflow a buffer, or read past the arguments or past the end of a string,
  has the result \<open>None\<close>.
\<close>

section \<open>The code\<close>

definition udigits :: "uchar list" where
  "udigits = [48, 49, 50, 51, 52, 53, 54, 55, 56, 57, 65, 66, 67, 68, 69, 70]"

definition kdigits :: "uchar list" where
  "kdigits = [48, 49, 50, 51, 52, 53, 54, 55, 56, 57, 97, 98, 99, 100, 101, 102]"

text \<open>\<open>room\<close> is the number of bytes of \<^verbatim>\<open>buf[16]\<close> still unused; digits are produced lowest first.\<close>

fun digit_loop :: "nat \<Rightarrow> uchar list \<Rightarrow> 32 word \<Rightarrow> 32 word \<Rightarrow> uchar list option" where
  "digit_loop 0 ds base x = None"
| "digit_loop (Suc room) ds base x =
     (let d = ds ! unat (x mod base) in
      if x div base \<noteq> 0 then map_option ((#) d) (digit_loop room ds base (x div base)) else Some [d])"

definition printint :: "uchar list \<Rightarrow> 32 word \<Rightarrow> 32 word \<Rightarrow> bool \<Rightarrow> uchar list option" where
  "printint ds xx base sg =
     (let neg = sg \<and> sint xx < 0; x = (if neg then - xx else xx) in
      case digit_loop 16 ds base x of
        None \<Rightarrow> None
      | Some b \<Rightarrow> if neg then (if length b < 16 then Some (rev (b @ [45])) else None) else Some (rev b))"

text \<open>The string a \<^verbatim>\<open>%s\<close> argument stands for.\<close>

definition string_arg :: "(32 word \<Rightarrow> uchar list) \<Rightarrow> 32 word \<Rightarrow> uchar list option" where
  "string_arg str a =
     (if a = 0 then Some [40, 110, 117, 108, 108, 41]
      else if 0 \<in> set (str a) then Some (cstr (str a)) else None)"

text \<open>\<open>pct\<close> says that \<^verbatim>\<open>state\<close> is \<^verbatim>\<open>'%'\<close>.\<close>

fun printf :: "(32 word \<Rightarrow> uchar list) \<Rightarrow> bool \<Rightarrow> uchar list \<Rightarrow> 32 word list \<Rightarrow> uchar list option" where
  "printf str pct [] ap = None"
| "printf str pct (c # fmt) ap =
     (if c = 0 then Some []
      else if \<not> pct then
        if c = 37 then printf str True fmt ap else map_option ((#) c) (printf str False fmt ap)
      else if c = 100 then
        (case ap of [] \<Rightarrow> None | a # ap' \<Rightarrow> (case printint udigits a 10 True of
           None \<Rightarrow> None | Some b \<Rightarrow> map_option ((@) b) (printf str False fmt ap')))
      else if c = 120 \<or> c = 112 then
        (case ap of [] \<Rightarrow> None | a # ap' \<Rightarrow> (case printint udigits a 16 False of
           None \<Rightarrow> None | Some b \<Rightarrow> map_option ((@) b) (printf str False fmt ap')))
      else if c = 115 then
        (case ap of [] \<Rightarrow> None | a # ap' \<Rightarrow> (case string_arg str a of
           None \<Rightarrow> None | Some b \<Rightarrow> map_option ((@) b) (printf str False fmt ap')))
      else if c = 99 then
        (case ap of [] \<Rightarrow> None | a # ap' \<Rightarrow> map_option ((#) (ucast a)) (printf str False fmt ap'))
      else if c = 37 then map_option ((#) c) (printf str False fmt ap)
      else map_option (\<lambda>r. 37 # c # r) (printf str False fmt ap))"

fun cprintf :: "(32 word \<Rightarrow> uchar list) \<Rightarrow> uchar list \<Rightarrow> 32 word list \<Rightarrow> uchar list option" where
  "cprintf str [] argp = None"
| "cprintf str (c # fmt) argp =
     (if c = 0 then Some []
      else if c \<noteq> 37 then map_option ((#) c) (cprintf str fmt argp)
      else (case fmt of [] \<Rightarrow> None | d # fmt' \<Rightarrow>
        if d = 0 then Some []
        else if d = 100 then
          (case argp of [] \<Rightarrow> None | a # argp' \<Rightarrow> (case printint kdigits a 10 True of
             None \<Rightarrow> None | Some b \<Rightarrow> map_option ((@) b) (cprintf str fmt' argp')))
        else if d = 120 \<or> d = 112 then
          (case argp of [] \<Rightarrow> None | a # argp' \<Rightarrow> (case printint kdigits a 16 False of
             None \<Rightarrow> None | Some b \<Rightarrow> map_option ((@) b) (cprintf str fmt' argp')))
        else if d = 115 then
          (case argp of [] \<Rightarrow> None | a # argp' \<Rightarrow> (case string_arg str a of
             None \<Rightarrow> None | Some b \<Rightarrow> map_option ((@) b) (cprintf str fmt' argp')))
        else if d = 37 then map_option ((#) 37) (cprintf str fmt' argp)
        else map_option (\<lambda>r. 37 # d # r) (cprintf str fmt' argp)))"

section \<open>Numbers\<close>

text \<open>A number below \<open>base ^ room\<close> has at most \<open>room\<close> digits.\<close>

lemma digit_loop_some:
  "2 \<le> unat base \<Longrightarrow> 0 < room \<Longrightarrow> unat x < unat base ^ room \<Longrightarrow>
    \<exists>b. digit_loop room ds base x = Some b \<and> length b \<le> room \<and> b \<noteq> []"
proof (induction room arbitrary: x)
  case (Suc room)
  show ?case
  proof (cases "x div base = 0")
    case False
    have d: "unat (x div base) = unat x div unat base" by (rule unat_div)
    have "unat x div unat base < unat base ^ room"
      using Suc.prems by (simp add: less_mult_imp_div_less mult.commute)
    moreover have "0 < room"
    proof (rule ccontr)
      assume "\<not> 0 < room"
      with Suc.prems have "unat x < unat base" by simp
      then have "unat (x div base) = 0" by (simp add: d)
      with False show False by (simp add: unat_eq_zero)
    qed
    ultimately obtain b where "digit_loop room ds base (x div base) = Some b" "length b \<le> room"
      using Suc.IH [of "x div base"] Suc.prems(1) d by auto
    with False show ?thesis by (simp add: Let_def)
  qed (simp add: Let_def)
qed simp

lemma digit_loop_mono:
  "digit_loop room ds base x = Some b \<Longrightarrow> room \<le> room' \<Longrightarrow> digit_loop room' ds base x = Some b"
proof (induction room arbitrary: x b room')
  case (Suc room)
  from Suc.prems(2) obtain k where k: "room' = Suc k" "room \<le> k" by (cases room') auto
  show ?case
  proof (cases "x div base = 0")
    case True
    with Suc.prems(1) k show ?thesis by (simp add: Let_def)
  next
    case False
    with Suc.prems(1) obtain b' where "digit_loop room ds base (x div base) = Some b'"
      "b = ds ! unat (x mod base) # b'" by (auto simp: Let_def)
    with Suc.IH [OF _ k(2)] False k(1) show ?thesis by (simp add: Let_def)
  qed
qed simp

lemma printint_digits:
  assumes "base = 10 \<or> base = 16"
  shows "\<exists>b. digit_loop 16 ds base x = Some b \<and> length b \<le> 10 \<and> b \<noteq> []"
proof -
  have "unat x < 2 ^ 32" using unsigned_less [of x] by simp
  then have "unat x < unat base ^ 10" using assms by auto
  with digit_loop_some [of base 10 x ds] assms obtain b where
    "digit_loop 10 ds base x = Some b" "length b \<le> 10" "b \<noteq> []" by auto
  with digit_loop_mono [of 10 ds base x b 16] show ?thesis by auto
qed

text \<open>Reading decimal digits back.\<close>

lemma atoi_loop_digits:
  "\<forall>c \<in> set b. 48 \<le> c \<and> c \<le> 57 \<Longrightarrow> \<not> (48 \<le> z \<and> z \<le> 57) \<Longrightarrow>
    atoi_loop n (b @ z # r) = Some (foldl (\<lambda>n c. n * 10 + ucast c - 48) n b)"
  by (induction b arbitrary: n) auto

lemma udigit_dec:
  fixes d :: "32 word"
  assumes "unat d < 10"
  shows "48 \<le> udigits ! unat d \<and> udigits ! unat d \<le> 57" and "ucast (udigits ! unat d) = d + 48"
proof -
  let ?ks = "[0, 1, 2, 3, 4, 5, 6, 7, 8, 9] :: nat list"
  have "\<forall>k \<in> set ?ks. 48 \<le> udigits ! k \<and> udigits ! k \<le> 57
      \<and> ucast (udigits ! k) = (of_nat k + 48 :: 32 word)"
    by (simp add: udigits_def)
  moreover have "k \<in> set ?ks" if "k < 10" for k :: nat using that by simp presburger
  then have "unat d \<in> set ?ks" using assms by blast
  ultimately have "48 \<le> udigits ! unat d \<and> udigits ! unat d \<le> 57
      \<and> ucast (udigits ! unat d) = (of_nat (unat d) + 48 :: 32 word)" by blast
  then show "48 \<le> udigits ! unat d \<and> udigits ! unat d \<le> 57" "ucast (udigits ! unat d) = d + 48"
    by simp_all
qed

lemma digits_value:
  "digit_loop room udigits 10 x = Some b \<Longrightarrow>
    (\<forall>c \<in> set b. 48 \<le> c \<and> c \<le> 57) \<and> foldl (\<lambda>n c. n * 10 + ucast c - 48) 0 (rev b) = x"
proof (induction room arbitrary: x b)
  case (Suc room)
  let ?d = "x mod 10"
  have d: "unat ?d < 10" by (simp add: unat_mod)
  have x: "x div 10 * 10 + ?d = x" by (rule div_mult_mod_eq)
  show ?case
  proof (cases "x div 10 = 0")
    case True
    with Suc.prems d x udigit_dec [OF d] show ?thesis by (auto simp: Let_def)
  next
    case False
    with Suc.prems obtain b' where b: "digit_loop room udigits 10 (x div 10) = Some b'"
      "b = udigits ! unat ?d # b'" by (auto simp: Let_def)
    with Suc.IH [OF b(1)] udigit_dec [OF d] x show ?thesis by (simp add: algebra_simps)
  qed
qed simp

section \<open>Properties\<close>

text \<open>A printed number always fits the 16-byte buffer of \<^verbatim>\<open>printint\<close>, sign included: for both bases the
  callers use, \<^verbatim>\<open>printint\<close> prints between 1 and 11 characters.\<close>

theorem printint_fits:
  assumes "base = 10 \<or> base = 16"
  shows "\<exists>b. printint ds xx base sg = Some b \<and> 1 \<le> length b \<and> length b \<le> 11"
proof -
  let ?x = "if sg \<and> sint xx < 0 then - xx else xx"
  from printint_digits [OF assms, of ds ?x] obtain b where
    "digit_loop 16 ds base ?x = Some b" "length b \<le> 10" "b \<noteq> []" by blast
  then show ?thesis by (cases b) (auto simp: printint_def Let_def)
qed

theorem printint_fits_witness:
  "\<exists>b. printint udigits 0x80000000 10 True = Some b \<and> length b \<le> 11"
  using printint_fits [of 10 udigits "0x80000000" True] by auto

text \<open>C26: \<^verbatim>\<open>atoi\<close> and decimal output, for every number. A number that is not negative is read back from the printed
  digits, followed by the terminator. A negative one is printed as a minus sign and the digits of its
  magnitude; \<^verbatim>\<open>atoi\<close> reads the magnitude back after the sign, but has no case for the sign: with it,
  the result is 0.\<close>

theorem atoi_printint:
  "\<exists>b. printint udigits xx 10 True = Some b
     \<and> (if 0 \<le> sint xx then atoi (b @ [0]) = Some xx
        else hd b = 45 \<and> atoi (tl b @ [0]) = Some (- xx) \<and> atoi (b @ [0]) = Some 0)"
proof -
  have r: "\<exists>b. digit_loop 16 udigits 10 x = Some b \<and> length b < 16 \<and> atoi (rev b @ [0]) = Some x" for x
  proof -
    from printint_digits [of 10 udigits x] obtain b
      where b: "digit_loop 16 udigits 10 x = Some b" "length b \<le> 10" by blast
    from digits_value [OF b(1)] have v: "\<forall>c \<in> set b. 48 \<le> c \<and> c \<le> 57"
      "foldl (\<lambda>n c. n * 10 + ucast c - 48) 0 (rev b) = x" by blast+
    from v(1) have "atoi (rev b @ [0]) = Some x"
      unfolding atoi_def by (subst atoi_loop_digits) (simp_all add: v(2))
    with b show ?thesis by auto
  qed
  obtain b where "digit_loop 16 udigits 10 (if sint xx < 0 then - xx else xx) = Some b" "length b < 16"
    "atoi (rev b @ [0]) = Some (if sint xx < 0 then - xx else xx)" using r by blast
  then show ?thesis by (auto simp: printint_def Let_def atoi_def not_le)
qed

text \<open>Formats without \<^verbatim>\<open>%x\<close>, \<^verbatim>\<open>%p\<close> and \<^verbatim>\<open>%c\<close>.\<close>

fun plain_format :: "uchar list \<Rightarrow> bool" where
  "plain_format (c # d # fmt) =
     (if c = 37 then d \<noteq> 120 \<and> d \<noteq> 112 \<and> d \<noteq> 99 \<and> (d = 0 \<or> plain_format fmt) else plain_format (d # fmt))"
| "plain_format _ = True"

lemma printint_dec_digits: "printint kdigits a 10 True = printint udigits a 10 True"
proof -
  have "kdigits ! unat (x mod 10) = udigits ! unat (x mod 10)" for x :: "32 word"
  proof -
    have "unat (x mod 10) < 10" by (simp add: unat_mod)
    then show ?thesis by (auto simp: kdigits_def udigits_def less_Suc_eq numeral_eq_Suc)
  qed
  then have "digit_loop room kdigits 10 x = digit_loop room udigits 10 x" for room x
    by (induction room arbitrary: x) (simp_all add: Let_def)
  then show ?thesis by (simp add: printint_def)
qed

text \<open>The two formatters agree where they overlap. For a format whose conversions are not
  \<^verbatim>\<open>%x\<close>, \<^verbatim>\<open>%p\<close> (their digits differ in case) or \<^verbatim>\<open>%c\<close> (the kernel has none), the character-driven
  state machine of \<^verbatim>\<open>printf\<close> prints what the look-ahead loop of \<^verbatim>\<open>cprintf\<close> prints.\<close>

theorem printf_cprintf_agree:
  assumes "plain_format fmt"
  shows "printf str False fmt ap = cprintf str fmt ap"
  using assms
proof (induction "length fmt" arbitrary: fmt ap rule: less_induct)
  case less
  have IH: "printf str False f a = cprintf str f a" if "length f < length fmt" "plain_format f" for f a
    using less.hyps that by blast
  consider "fmt = []" | c fmt1 where "fmt = c # fmt1" "c \<noteq> 37" | "fmt = [37]"
    | d fmt2 where "fmt = 37 # d # fmt2" by (metis neq_Nil_conv)
  then show ?case
  proof cases
    case (2 c fmt1)
    with less.prems have "plain_format fmt1" by (cases fmt1) auto
    with 2 IH show ?thesis by simp
  next
    case (4 d fmt2)
    show ?thesis
    proof (cases "d = 0")
      case False
      with less.prems 4 have p: "plain_format fmt2" "d \<noteq> 120" "d \<noteq> 112" "d \<noteq> 99" by simp_all
      have e: "printf str False fmt2 a = cprintf str fmt2 a" for a using IH p(1) 4 by simp
      consider "d = 100" | "d = 115" | "d = 37" | "d \<notin> {100, 115, 37}" by blast
      then show ?thesis
        by cases (use 4 False p e in \<open>simp_all add: printint_dec_digits cong: list.case_cong option.case_cong\<close>)
    qed (use 4 in simp)
  qed simp_all
qed

theorem printf_cprintf_agree_witness:
  "printf (\<lambda>_. [120, 0]) False [37, 100, 32, 37, 115, 10, 0] [7, 1]
     = cprintf (\<lambda>_. [120, 0]) [37, 100, 32, 37, 115, 10, 0] [7, 1]"
  by (rule printf_cprintf_agree) simp

end
