(* ===== verification/Grep.thy ===== *)
theory Grep
  imports CString
begin

text \<open>
  The pattern matcher and the line loop of \<^verbatim>\<open>grep.c\<close>, and the word counter of \<^verbatim>\<open>wc.c\<close>. Patterns and
  lines are C strings, given without their terminator: reading one past the end gives \<^verbatim>\<open>'\0'\<close>.
\<close>

section \<open>The matcher\<close>

text \<open>The bytes 36, 42, 46 and 94 are \<^verbatim>\<open>$\<close>, \<^verbatim>\<open>*\<close>, \<^verbatim>\<open>.\<close> and \<^verbatim>\<open>^\<close>.\<close>

function (sequential) matchhere :: "uchar list \<Rightarrow> uchar list \<Rightarrow> bool"
  and matchstar :: "uchar \<Rightarrow> uchar list \<Rightarrow> uchar list \<Rightarrow> bool" where
  "matchhere [] tx = True"
| "matchhere (c # re) tx =
     (case re of
        s # re' \<Rightarrow> if s = 42 then matchstar c re' tx
          else (case tx of [] \<Rightarrow> False | t # tx' \<Rightarrow> if c = 46 \<or> c = t then matchhere re tx' else False)
      | [] \<Rightarrow> if c = 36 then tx = []
          else (case tx of [] \<Rightarrow> False | t # tx' \<Rightarrow> if c = 46 \<or> c = t then matchhere re tx' else False))"
| "matchstar c re tx =
     (if matchhere re tx then True
      else (case tx of [] \<Rightarrow> False | t # tx' \<Rightarrow> if t = c \<or> c = 46 then matchstar c re tx' else False))"
  by pat_completeness auto

termination
  by (relation "measures [\<lambda>x. case x of Inl (re, _) \<Rightarrow> length re | Inr (_, re, _) \<Rightarrow> length re,
        \<lambda>x. case x of Inl (_, tx) \<Rightarrow> length tx | Inr (_, _, tx) \<Rightarrow> length tx,
        \<lambda>x. case x of Inl _ \<Rightarrow> 0 | Inr _ \<Rightarrow> 1]") auto

fun match_from :: "uchar list \<Rightarrow> uchar list \<Rightarrow> bool" where
  "match_from re [] = matchhere re []"
| "match_from re (t # tx) = (if matchhere re (t # tx) then True else match_from re tx)"

definition grep_match :: "uchar list \<Rightarrow> uchar list \<Rightarrow> bool" where
  "grep_match re tx =
     (case re of c # re' \<Rightarrow> if c = 94 then matchhere re' tx else match_from re tx
      | [] \<Rightarrow> match_from re tx)"

section \<open>The line loop\<close>

lemma first_idx_cstr: "first_idx P (cstr p) = Some i \<Longrightarrow> i < length p"
  using length_takeWhile_le [of "\<lambda>c. c \<noteq> 0" p] by (auto simp: first_idx_Some cstr_def)

text \<open>
  \<open>p\<close> is what \<^verbatim>\<open>buf\<close> holds from \<^verbatim>\<open>p\<close> up to \<^verbatim>\<open>buf + m\<close>, where the loop stored a terminator. The
  result is what is written to file descriptor 1, and what is left at the final \<^verbatim>\<open>p\<close>.
\<close>

function grep_lines :: "uchar list \<Rightarrow> uchar list \<Rightarrow> uchar list \<times> uchar list" where
  "grep_lines re p =
     (case first_idx (\<lambda>c. c = 10) (cstr p) of
        None \<Rightarrow> ([], p)
      | Some i \<Rightarrow>
          (let (out, r) = grep_lines re (drop (Suc i) p);
               line = take i p in
           ((if grep_match re line then line @ [10] else []) @ out, r)))"
  by pat_completeness auto

termination
  by (relation "measure (\<lambda>(re, p). length p)") (auto dest: first_idx_cstr)

text \<open>
  One round of the outer loop: \<open>pend\<close> are the \<^verbatim>\<open>m\<close> bytes kept at the front of \<^verbatim>\<open>buf\<close>, \<open>chunk\<close> the
  bytes the \<^verbatim>\<open>read\<close> delivered. When no newline was found \<^verbatim>\<open>p == buf\<close>, and the round sets \<^verbatim>\<open>m = 0\<close>.
\<close>

definition grep_round :: "uchar list \<Rightarrow> uchar list \<Rightarrow> uchar list \<Rightarrow> uchar list \<times> uchar list" where
  "grep_round re pend chunk =
     (let (out, r) = grep_lines re (pend @ chunk) in
      (out, if length r = length (pend @ chunk) then [] else r))"

text \<open>The outer loop over the results of the successive reads; it ends at a read that delivers nothing.\<close>

fun grep :: "uchar list \<Rightarrow> uchar list \<Rightarrow> uchar list list \<Rightarrow> uchar list" where
  "grep re pend [] = []"
| "grep re pend (chunk # chunks) =
     (if chunk = [] then []
      else let (out, pend') = grep_round re pend chunk in out @ grep re pend' chunks)"

section \<open>Counting words\<close>

record wc_state =
  wl :: nat
  ww :: nat
  wch :: nat
  inword :: bool

text \<open>\<^verbatim>\<open>strchr(" \r\t\n\v", buf[i])\<close>; the terminator of that string is not found, so a zero byte is part
  of a word.\<close>

definition wc_space :: "uchar \<Rightarrow> bool" where
  "wc_space c = (strchr [32, 13, 9, 10, 11, 0] c \<noteq> Some None)"

definition wc_byte :: "uchar \<Rightarrow> wc_state \<Rightarrow> wc_state" where
  "wc_byte b st =
     (let s = st\<lparr>wch := wch st + 1\<rparr>;
          s = (if b = 10 then s\<lparr>wl := wl s + 1\<rparr> else s) in
      if wc_space b then s\<lparr>inword := False\<rparr>
      else if \<not> inword s then s\<lparr>ww := ww s + 1, inword := True\<rparr> else s)"

definition wc :: "uchar list list \<Rightarrow> wc_state" where
  "wc chunks = foldl (\<lambda>st chunk. foldl (\<lambda>st b. wc_byte b st) st chunk)
     \<lparr>wl = 0, ww = 0, wch = 0, inword = False\<rparr> (takeWhile (\<lambda>c. c \<noteq> []) chunks)"

section \<open>What the matcher accepts\<close>

text \<open>The meaning of a pattern, as a relation: where it matches at the beginning of a line.\<close>

definition char_ok :: "uchar \<Rightarrow> uchar \<Rightarrow> bool" where
  "char_ok c t \<longleftrightarrow> c = 46 \<or> c = t"

inductive here :: "uchar list \<Rightarrow> uchar list \<Rightarrow> bool" where
  here_nil: "here [] tx"
| here_star: "\<forall>t \<in> set p. char_ok c t \<Longrightarrow> here re tx \<Longrightarrow> here (c # 42 # re) (p @ tx)"
| here_end: "here [36] []"
| here_char: "char_ok c t \<Longrightarrow> re = [] \<longrightarrow> c \<noteq> 36 \<Longrightarrow> (\<forall>re'. re \<noteq> 42 # re') \<Longrightarrow> here re tx \<Longrightarrow>
    here (c # re) (t # tx)"

inductive_cases here_starE: "here (c # 42 # re) tx"
inductive_cases here_oneE: "here [c] tx"
inductive_cases here_consE: "here (c # s # re) tx"

lemma star_unfold:
  "(\<exists>p s. tx = p @ s \<and> (\<forall>t \<in> set p. char_ok c t) \<and> Q s)
     \<longleftrightarrow> Q tx \<or> (\<exists>t tx'. tx = t # tx' \<and> char_ok c t
           \<and> (\<exists>p s. tx' = p @ s \<and> (\<forall>t \<in> set p. char_ok c t) \<and> Q s))"
  (is "?l = ?r")
proof
  assume ?l
  then obtain p s where p: "tx = p @ s" "\<forall>t \<in> set p. char_ok c t" "Q s" by blast
  then show ?r by (cases p) auto
next
  assume ?r
  then show ?l
  proof
    assume "Q tx"
    then show ?l by (intro exI [of _ "[]"] exI [of _ tx]) simp
  next
    assume "\<exists>t tx'. tx = t # tx' \<and> char_ok c t
        \<and> (\<exists>p s. tx' = p @ s \<and> (\<forall>t \<in> set p. char_ok c t) \<and> Q s)"
    then obtain t p s where "tx = t # p @ s" "char_ok c t" "\<forall>t \<in> set p. char_ok c t" "Q s" by blast
    then show ?l by (intro exI [of _ "t # p"] exI [of _ s]) simp
  qed
qed

lemma here_star_iff:
  "here (c # 42 # re) tx \<longleftrightarrow> (\<exists>p s. tx = p @ s \<and> (\<forall>t \<in> set p. char_ok c t) \<and> here re s)"
proof
  assume "here (c # 42 # re) tx"
  then show "\<exists>p s. tx = p @ s \<and> (\<forall>t \<in> set p. char_ok c t) \<and> here re s"
    by (cases rule: here.cases) blast+
qed (auto intro: here.intros)

lemma matcher_correct:
  "matchhere re tx = here re tx"
  "matchstar c re tx = (\<exists>p s. tx = p @ s \<and> (\<forall>t \<in> set p. char_ok c t) \<and> here re s)"
proof (induction re tx and c re tx rule: matchhere_matchstar.induct)
  case (1 tx)
  then show ?case by (simp add: here_nil)
next
  case (2 c re tx)
  show ?case
  proof (cases re)
    case Nil
    then show ?thesis using 2
      by (cases tx) (auto simp: char_ok_def intro: here.intros elim: here_oneE)
  next
    case (Cons s re')
    show ?thesis
    proof (cases "s = 42")
      case True
      with Cons 2 show ?thesis by (simp add: here_star_iff)
    next
      case False
      with Cons 2 show ?thesis
        by (cases tx) (auto simp: char_ok_def intro: here.intros elim: here_consE)
    qed
  qed
next
  case (3 c re tx)
  have "matchstar c re tx = (here re tx \<or> (\<exists>t tx'. tx = t # tx' \<and> char_ok c t
      \<and> (\<exists>p s. tx' = p @ s \<and> (\<forall>t \<in> set p. char_ok c t) \<and> here re s)))"
    using 3 by (cases tx) (auto simp: char_ok_def)
  then show ?case by (subst star_unfold)
qed

lemma match_from_iff: "match_from re tx \<longleftrightarrow> (\<exists>p s. tx = p @ s \<and> matchhere re s)"
proof (induction tx)
  case (Cons t tx)
  have "(\<exists>p s. t # tx = p @ s \<and> matchhere re s)
      \<longleftrightarrow> matchhere re (t # tx) \<or> (\<exists>p s. tx = p @ s \<and> matchhere re s)"
    by (auto simp: Cons_eq_append_conv)
  with Cons show ?case by simp
qed simp

section \<open>Lines\<close>

definition unlines :: "uchar list list \<Rightarrow> uchar list" where
  "unlines ls = concat (map (\<lambda>l. l @ [10]) ls)"

lemma first_idx_newline:
  "0 \<notin> set l \<Longrightarrow> 10 \<notin> set l \<Longrightarrow> first_idx (\<lambda>c. c = 10) (cstr (l @ 10 # r)) = Some (length l)"
  by (induction l) auto

declare grep_lines.simps [simp del]

lemma grep_lines_whole:
  "\<forall>l \<in> set ls. 0 \<notin> set l \<and> 10 \<notin> set l \<Longrightarrow>
    grep_lines re (unlines ls) = (unlines (filter (grep_match re) ls), [])"
proof (induction ls)
  case Nil
  then show ?case by (simp add: unlines_def grep_lines.simps [of re "[]"])
next
  case (Cons l ls)
  have u: "unlines (l # ls) = l @ 10 # unlines ls" by (simp add: unlines_def)
  have "first_idx (\<lambda>c. c = 10) (cstr (l @ 10 # unlines ls)) = Some (length l)"
    using Cons.prems by (intro first_idx_newline) simp_all
  then have "grep_lines re (unlines (l # ls)) =
      (let (out, r) = grep_lines re (unlines ls) in
       ((if grep_match re l then l @ [10] else []) @ out, r))"
    unfolding u by (subst grep_lines.simps) simp
  with Cons show ?case by (simp add: unlines_def)
qed

lemma grep_lines_partial: "10 \<notin> set p \<Longrightarrow> grep_lines re p = ([], p)"
proof -
  assume "10 \<notin> set p"
  then have "10 \<notin> set (cstr p)" by (auto simp: cstr_def dest: set_takeWhileD)
  then have "first_idx (\<lambda>c. c = 10) (cstr p) = None" by (auto simp: first_idx_None)
  then show ?thesis by (simp add: grep_lines.simps [of re p])
qed

lemma wc_chunks:
  "\<forall>c \<in> set chunks. c \<noteq> [] \<Longrightarrow>
    wc chunks = foldl (\<lambda>st b. wc_byte b st) \<lparr>wl = 0, ww = 0, wch = 0, inword = False\<rparr> (concat chunks)"
proof -
  assume "\<forall>c \<in> set chunks. c \<noteq> []"
  then have tw: "takeWhile (\<lambda>c. c \<noteq> []) chunks = chunks" by (simp add: takeWhile_eq_all_conv)
  have f: "foldl (\<lambda>st chunk. foldl f st chunk) a chunks = foldl f a (concat chunks)"
    for f and a :: wc_state by (induction chunks arbitrary: a) auto
  show ?thesis unfolding wc_def tw by (rule f)
qed

text \<open>The number of words: the positions where a word begins, \<open>w\<close> saying that the previous byte was
  part of one.\<close>

fun word_count :: "bool \<Rightarrow> uchar list \<Rightarrow> nat" where
  "word_count w [] = 0"
| "word_count w (b # bs) =
     (if b \<in> {32, 13, 9, 10, 11} then word_count False bs else (if w then 0 else 1) + word_count True bs)"

lemma wc_space_iff: "wc_space b \<longleftrightarrow> b \<in> {32, 13, 9, 10, 11}"
  by (auto simp: wc_space_def)

lemma wc_fold:
  "let st' = foldl (\<lambda>st b. wc_byte b st) st bs in
    wch st' = wch st + length bs \<and> wl st' = wl st + count_list bs 10
    \<and> ww st' = ww st + word_count (inword st) bs"
  by (induction bs arbitrary: st) (auto simp: wc_byte_def Let_def wc_space_iff)

section \<open>Properties\<close>

text \<open>C27: the backtracking matcher of \<^verbatim>\<open>grep.c\<close> terminates and decides the meaning of patterns: \<^verbatim>\<open>match\<close>
  answers yes exactly when the pattern matches at the beginning of the line (after \<^verbatim>\<open>^\<close>) or at some
  position of it, where \<^verbatim>\<open>c*\<close> stands for any number of characters \<^verbatim>\<open>c\<close>, \<^verbatim>\<open>.\<close> for any character, and a
  final \<^verbatim>\<open>$\<close> for the end of the line.\<close>

theorem grep_match_correct:
  "grep_match re tx =
     (if re \<noteq> [] \<and> hd re = 94 then here (tl re) tx else (\<exists>p s. tx = p @ s \<and> here re s))"
  by (cases re) (simp_all add: grep_match_def match_from_iff matcher_correct(1))

text \<open>C28: on input that arrives in whole lines \<^verbatim>\<open>grep\<close> prints exactly the lines that match, in order.\<close>

theorem grep_filters_lines:
  assumes "\<forall>ls \<in> set lss. ls \<noteq> [] \<and> (\<forall>l \<in> set ls. 0 \<notin> set l \<and> 10 \<notin> set l)"
  shows "grep re [] (map unlines lss) = unlines (filter (grep_match re) (concat lss))"
  using assms
proof (induction lss)
  case (Cons ls lss)
  then have "unlines ls \<noteq> []" "grep_lines re (unlines ls) = (unlines (filter (grep_match re) ls), [])"
    using grep_lines_whole [of ls re] by (auto simp: unlines_def neq_Nil_conv)
  with Cons show ?case by (simp add: grep_round_def Let_def) (simp add: unlines_def)
qed (simp add: unlines_def)

theorem grep_filters_lines_witness:
  "grep [97, 42, 98] [] (map unlines [[[97, 97, 98], [99]], [[98]]]) = unlines [[97, 97, 98], [98]]"
proof -
  have m: "grep_match [97, 42, 98] [97, 97, 98]" "\<not> grep_match [97, 42, 98] [99]"
    "grep_match [97, 42, 98] [98]" by (simp_all add: grep_match_def)
  have "grep [97, 42, 98] [] (map unlines [[[97, 97, 98], [99]], [[98]]])
      = unlines (filter (grep_match [97, 42, 98]) (concat [[[97, 97, 98], [99]], [[98]]]))"
    by (rule grep_filters_lines) simp
  with m show ?thesis by simp
qed

text \<open>C29: a line that arrives in two reads loses its beginning: when a read delivers no newline, the round
  forgets what it has read (\<^verbatim>\<open>m = 0\<close>), and \<^verbatim>\<open>grep\<close> goes on as if the input began with the next read.\<close>

theorem grep_drops_partial_line:
  assumes "10 \<notin> set a" and "a \<noteq> []"
  shows "grep re [] (a # chunks) = grep re [] chunks"
  using assms by (simp add: grep_round_def grep_lines_partial Let_def)

theorem grep_drops_partial_line_witness:
  "grep [97, 98] [] [[97], [98, 10]] = grep [97, 98] [] [[98, 10]]"
  by (rule grep_drops_partial_line) simp_all

text \<open>The counts of \<^verbatim>\<open>wc\<close> do not depend on how the input is split into reads: they are the number of
  newlines, of words and of bytes of the whole input.\<close>

theorem wc_counts:
  assumes "\<forall>c \<in> set chunks. c \<noteq> []"
  shows "wl (wc chunks) = count_list (concat chunks) 10
    \<and> ww (wc chunks) = word_count False (concat chunks) \<and> wch (wc chunks) = length (concat chunks)"
  using wc_fold [of "\<lparr>wl = 0, ww = 0, wch = 0, inword = False\<rparr>" "concat chunks"]
  by (simp_all add: wc_chunks [OF assms] Let_def)

theorem wc_counts_witness:
  "wl (wc [[97, 32], [98, 98, 10]]) = 1 \<and> ww (wc [[97, 32], [98, 98, 10]]) = 2
   \<and> wch (wc [[97, 32], [98, 98, 10]]) = 5"
  using wc_counts [of "[[97, 32], [98, 98, 10]]"] by simp_all

end
