(* ===== verification/Proc.thy ===== *)
theory Proc
  imports Uvm
begin

unbundle bit_operations_syntax

text \<open>
  Processes and the scheduler (\<^verbatim>\<open>proc.c\<close>, \<^verbatim>\<open>proc.h\<close>), except for the functions that use the file
  system (\<^verbatim>\<open>fork\<close>, \<^verbatim>\<open>exit\<close> and \<^verbatim>\<open>userinit\<close> are in \<^verbatim>\<open>Process\<close>).

  The process table is a list of \<^verbatim>\<open>NPROC\<close> slots and a process is named by its index. A trap frame
  and a kernel context are words on the kernel stack page, as in the code. The code runs as the
  process \<open>cur\<close>. \<^verbatim>\<open>swtch\<close> to the scheduler ends the run of a process with \<open>Stop Sleeping\<close>; what the
  code does once the process is switched back to is a definition of its own (\<open>sleep_woken\<close>,
  \<open>yield_resumed\<close>). \<^verbatim>\<open>swtch\<close> from the scheduler to a process is an argument of the scheduler: whatever
  the process does until it switches back.
\<close>

section \<open>State\<close>

datatype procstate = UNUSED | EMBRYO | SLEEPING | RUNNABLE | RUNNING | ZOMBIE

record proc =
  psz :: uint
  pgdir :: uint
  kstack :: uint
  state :: procstate
  pid :: uint
  parent :: "nat option"
  tf :: uint
  ctx :: uint
  chan :: uint
  killed :: bool
  ofile :: "nat option list"
  cwd :: "nat option"
  pname :: "uchar list"
  priority :: uint

definition NPROC :: nat where
  "NPROC = 64"

definition NOFILE :: nat where
  "NOFILE = 16"

record ptab = phys +
  procs :: "proc list"
  initproc :: "nat option"
  nextpid :: uint
  cur :: "nat option"
  kpgdir :: uint
  cr3 :: uint
  ts_ss0 :: ushort
  ts_esp0 :: uint
  ts_iomb :: ushort
  ticks :: uint
  outws :: "(ushort \<times> ushort) list"

definition upd_proc :: "nat \<Rightarrow> (proc \<Rightarrow> proc) \<Rightarrow> ('e ptab_scheme, unit) km" where
  "upd_proc i f = upd (\<lambda>s. s\<lparr>procs := (procs s)[i := f (procs s ! i)]\<rparr>)"

definition getp :: "nat \<Rightarrow> (proc \<Rightarrow> 'a) \<Rightarrow> ('e ptab_scheme, 'a) km" where
  "getp i f = gets (\<lambda>s. f (procs s ! i))"

text \<open>A field of \<^verbatim>\<open>myproc()\<close>; the callers run as a process.\<close>

definition myproc :: "('e ptab_scheme, nat option) km" where
  "myproc = gets cur"

definition with_me :: "(nat \<Rightarrow> ('e ptab_scheme, 'a) km) \<Rightarrow> ('e ptab_scheme, 'a) km" where
  "with_me f = bnd myproc (\<lambda>p. case p of Some i \<Rightarrow> f i | None \<Rightarrow> panic ''null process'')"

section \<open>Address space switches\<close>

definition switchkvm :: "('e ptab_scheme, unit) km" where
  "switchkvm = upd (\<lambda>s. s\<lparr>cr3 := V2P (kpgdir s)\<rparr>)"

definition switchuvm :: "nat option \<Rightarrow> ('e ptab_scheme, unit) km" where
  "switchuvm p =
     (case p of
        None \<Rightarrow> panic ''switchuvm: no process''
      | Some i \<Rightarrow>
          bnd (getp i kstack) (\<lambda>ks.
          bnd (getp i pgdir) (\<lambda>d.
          if ks = 0 then panic ''switchuvm: no kstack''
          else if d = 0 then panic ''switchuvm: no pgdir''
          else upd (\<lambda>s. s\<lparr>ts_ss0 := 0x10, ts_esp0 := ks + 0x1000, ts_iomb := 0xFFFF, cr3 := V2P d\<rparr>))))"

section \<open>Creating and growing\<close>

definition pinit :: "('e ptab_scheme, unit) km" where
  "pinit = lock_init PtableLock"

text \<open>
  \<open>trapret\<close> and \<open>forkret\<close> are the addresses the linker gives those functions. The trap frame takes
  76 bytes and the context 20.
\<close>

definition allocproc :: "uint \<Rightarrow> uint \<Rightarrow> ('e ptab_scheme, nat option) km" where
  "allocproc trapret forkret =
     thn (lock_acquire PtableLock) (
     bnd (gets (\<lambda>s. first_idx (\<lambda>p. state p = UNUSED) (procs s))) (\<lambda>f. case f of
       None \<Rightarrow> thn (lock_release PtableLock) (ret None)
     | Some i \<Rightarrow>
         thn (upd_proc i (\<lambda>p. p\<lparr>state := EMBRYO\<rparr>)) (
         bnd (gets nextpid) (\<lambda>n.
         thn (upd_proc i (\<lambda>p. p\<lparr>pid := n\<rparr>)) (
         thn (upd (\<lambda>s. s\<lparr>nextpid := n + 1\<rparr>)) (
         thn (upd_proc i (\<lambda>p. p\<lparr>priority := 10\<rparr>)) (
         thn (lock_release PtableLock) (
         bnd kalloc (\<lambda>ks.
         thn (upd_proc i (\<lambda>p. p\<lparr>kstack := ks\<rparr>)) (
         if ks = 0 then thn (upd_proc i (\<lambda>p. p\<lparr>state := UNUSED\<rparr>)) (ret None)
         else
           let sp0 = ks + 0x1000;
               sp1 = sp0 - 76;
               sp2 = sp1 - 4;
               sp3 = sp2 - 20 in
           thn (upd_proc i (\<lambda>p. p\<lparr>tf := sp1\<rparr>)) (
           thn (st32 sp2 trapret) (
           thn (upd_proc i (\<lambda>p. p\<lparr>ctx := sp3\<rparr>)) (
           thn (memset_words sp3 0 20) (
           thn (st32 (sp3 + 16) forkret) (
           ret (Some i))))))))))))))))"

definition growproc :: "uint \<Rightarrow> ('e ptab_scheme, int) km" where
  "growproc n = with_me (\<lambda>me.
     bnd (getp me psz) (\<lambda>sz0.
     bnd (getp me pgdir) (\<lambda>d.
     bnd (if 0 < sint n then allocuvm d sz0 (sz0 + n)
          else if sint n < 0 then deallocuvm d sz0 (sz0 + n)
          else ret sz0) (\<lambda>sz1.
     if n \<noteq> 0 \<and> sz1 = 0 then ret (-1)
     else
       thn (upd_proc me (\<lambda>p. p\<lparr>psz := sz1\<rparr>)) (
       thn (switchuvm (Some me)) (
       ret 0))))))"

section \<open>Giving up the processor\<close>

text \<open>
  \<^verbatim>\<open>mycpu()->ncli\<close> is the number of held locks, and interrupts are off while one is held
  (\<open>lk_rel\<close> of \<^verbatim>\<open>Spinlock\<close>).
\<close>

definition sched :: "('e ptab_scheme, unit) km" where
  "sched = with_me (\<lambda>me.
     bnd (lock_holding PtableLock) (\<lambda>h.
     bnd (gets (\<lambda>s. length (held s))) (\<lambda>n.
     bnd (getp me state) (\<lambda>st.
     if \<not> h then panic ''sched ptable.lock''
     else if n \<noteq> 1 then panic ''sched locks''
     else if st = RUNNING then panic ''sched running''
     else if n = 0 then panic ''sched interruptible''
     else stop Sleeping))))"

definition yield :: "('e ptab_scheme, unit) km" where
  "yield =
     thn (lock_acquire PtableLock) (
     with_me (\<lambda>me. thn (upd_proc me (\<lambda>p. p\<lparr>state := RUNNABLE\<rparr>)) sched))"

definition yield_resumed :: "('e ptab_scheme, unit) km" where
  "yield_resumed = lock_release PtableLock"

text \<open>
  The statements of \<^verbatim>\<open>sleep\<close> and \<^verbatim>\<open>wakeup\<close>, in order, as lists: \<open>run_all\<close> runs them one after the other, and the
  interleavings of \<^verbatim>\<open>Wakeup\<close> let other CPUs run in between.
\<close>

definition run_all :: "('s, unit) km list \<Rightarrow> ('s, unit) km" where
  "run_all ms = foldr thn ms (ret ())"

definition sleep_code :: "nat \<Rightarrow> uint \<Rightarrow> lockid \<Rightarrow> ('e ptab_scheme, unit) km list" where
  "sleep_code me ch l =
     (if l \<noteq> PtableLock then [lock_acquire PtableLock, lock_release l] else [])
     @ [upd_proc me (\<lambda>p. p\<lparr>chan := ch\<rparr>),
        upd_proc me (\<lambda>p. p\<lparr>state := SLEEPING\<rparr>),
        sched]"

definition sleep :: "uint \<Rightarrow> lockid option \<Rightarrow> ('e ptab_scheme, unit) km" where
  "sleep ch lk =
     bnd myproc (\<lambda>p. case p of
       None \<Rightarrow> panic ''sleep''
     | Some me \<Rightarrow> (case lk of
         None \<Rightarrow> panic ''sleep without lk''
       | Some l \<Rightarrow> run_all (sleep_code me ch l)))"

text \<open>What is left to do after \<^verbatim>\<open>sched\<close> returns.\<close>

definition woken_code :: "nat \<Rightarrow> lockid \<Rightarrow> ('e ptab_scheme, unit) km list" where
  "woken_code me l =
     upd_proc me (\<lambda>p. p\<lparr>chan := 0\<rparr>) # (if l \<noteq> PtableLock then [lock_release PtableLock, lock_acquire l] else [])"

definition sleep_woken :: "lockid \<Rightarrow> ('e ptab_scheme, unit) km" where
  "sleep_woken l = with_me (\<lambda>me. run_all (woken_code me l))"

definition wakeup1 :: "uint \<Rightarrow> ('e ptab_scheme, unit) km" where
  "wakeup1 ch = for_each [0..<NPROC] (\<lambda>i.
     bnd (getp i state) (\<lambda>st.
     bnd (getp i chan) (\<lambda>c.
     if st = SLEEPING \<and> c = ch then upd_proc i (\<lambda>p. p\<lparr>state := RUNNABLE\<rparr>) else ret ())))"

definition wakeup_code :: "uint \<Rightarrow> ('e ptab_scheme, unit) km list" where
  "wakeup_code ch = [lock_acquire PtableLock, wakeup1 ch, lock_release PtableLock]"

definition wakeup :: "uint \<Rightarrow> ('e ptab_scheme, unit) km" where
  "wakeup ch = run_all (wakeup_code ch)"

lemma thn_unit: "thn m (ret ()) = m"
  by (auto simp: thn_def bnd_def fun_eq_iff split: res.splits)

lemma sleep_unfold:
  "sleep ch lk =
     bnd myproc (\<lambda>p. case p of
       None \<Rightarrow> panic ''sleep''
     | Some me \<Rightarrow> (case lk of
         None \<Rightarrow> panic ''sleep without lk''
       | Some l \<Rightarrow>
           thn (if l \<noteq> PtableLock then thn (lock_acquire PtableLock) (lock_release l) else ret ()) (
           thn (upd_proc me (\<lambda>p. p\<lparr>chan := ch\<rparr>)) (
           thn (upd_proc me (\<lambda>p. p\<lparr>state := SLEEPING\<rparr>))
           sched))))"
proof -
  have "thn (ret ()) m = m" for m :: "('a ptab_scheme, unit) km" by (simp add: fun_eq_iff)
  moreover have "thn (thn m n) k = thn m (thn n k)" for m n k :: "('a ptab_scheme, unit) km"
    by (auto simp: thn_def bnd_def fun_eq_iff split: res.splits)
  ultimately show ?thesis
    unfolding sleep_def sleep_code_def run_all_def
    by (intro arg_cong [where f = "bnd myproc"] ext) (simp add: thn_unit split: option.split)
qed

lemma sleep_woken_unfold:
  "sleep_woken l = with_me (\<lambda>me.
     thn (upd_proc me (\<lambda>p. p\<lparr>chan := 0\<rparr>)) (
     if l \<noteq> PtableLock then thn (lock_release PtableLock) (lock_acquire l) else ret ()))"
  by (simp add: sleep_woken_def woken_code_def run_all_def thn_unit)

lemma wakeup_unfold:
  "wakeup ch = thn (lock_acquire PtableLock) (thn (wakeup1 ch) (lock_release PtableLock))"
  by (simp add: wakeup_def wakeup_code_def run_all_def thn_unit)

section \<open>Signals between processes\<close>

definition kill :: "uint \<Rightarrow> ('e ptab_scheme, int) km" where
  "kill n =
     thn (lock_acquire PtableLock) (
     bnd (gets (\<lambda>s. first_idx (\<lambda>p. pid p = n) (procs s))) (\<lambda>f. case f of
       Some i \<Rightarrow>
         thn (upd_proc i (\<lambda>p. p\<lparr>killed := True\<rparr>)) (
         bnd (getp i state) (\<lambda>st.
         thn (if st = SLEEPING then upd_proc i (\<lambda>p. p\<lparr>state := RUNNABLE\<rparr>) else ret ()) (
         thn (lock_release PtableLock) (ret 0))))
     | None \<Rightarrow> thn (lock_release PtableLock) (ret (-1))))"

definition setpriority :: "uint \<Rightarrow> uint \<Rightarrow> ('e ptab_scheme, int) km" where
  "setpriority n prio =
     thn (lock_acquire PtableLock) (
     bnd (gets (\<lambda>s. first_idx (\<lambda>p. pid p = n) (procs s))) (\<lambda>f. case f of
       Some i \<Rightarrow>
         thn (upd_proc i (\<lambda>p. p\<lparr>priority := prio\<rparr>)) (
         thn (lock_release PtableLock) (ret 0))
     | None \<Rightarrow> thn (lock_release PtableLock) (ret (-1))))"

section \<open>Waiting for a child\<close>

text \<open>
  \<open>chan_of i\<close> is the address of slot \<open>i\<close>, which \<^verbatim>\<open>wait\<close> and \<^verbatim>\<open>exit\<close> use as a channel. The scan of
  the table looks for the first zombie child, and notes whether there is a child. A process that
  is woken in \<^verbatim>\<open>wait\<close> continues at the head of the loop, with \<^verbatim>\<open>ptable.lock\<close> held (\<open>wait_loop\<close>).
\<close>

definition wait_loop :: "(nat \<Rightarrow> uint) \<Rightarrow> ('e ptab_scheme, uint) km" where
  "wait_loop chan_of = with_me (\<lambda>me.
     bnd (gets (\<lambda>s. first_idx (\<lambda>p. parent p = Some me \<and> state p = ZOMBIE) (procs s))) (\<lambda>z.
     bnd (gets (\<lambda>s. \<exists>p \<in> set (procs s). parent p = Some me)) (\<lambda>havekids. case z of
       Some i \<Rightarrow>
         bnd (getp i pid) (\<lambda>n.
         bnd (getp i kstack) (\<lambda>ks.
         thn (kfree ks) (
         thn (upd_proc i (\<lambda>p. p\<lparr>kstack := 0\<rparr>)) (
         bnd (getp i pgdir) (\<lambda>d.
         thn (freevm d) (
         thn (upd_proc i (\<lambda>p. p\<lparr>pid := 0\<rparr>)) (
         thn (upd_proc i (\<lambda>p. p\<lparr>parent := None\<rparr>)) (
         thn (upd_proc i (\<lambda>p. p\<lparr>pname := (pname p)[0 := 0]\<rparr>)) (
         thn (upd_proc i (\<lambda>p. p\<lparr>killed := False\<rparr>)) (
         thn (upd_proc i (\<lambda>p. p\<lparr>state := UNUSED\<rparr>)) (
         thn (lock_release PtableLock) (ret n))))))))))))
     | None \<Rightarrow>
         bnd (getp me killed) (\<lambda>k.
         if \<not> havekids \<or> k then thn (lock_release PtableLock) (ret (-1))
         else thn (sleep (chan_of me) (Some PtableLock)) (ret (-1))))))"

definition wait :: "(nat \<Rightarrow> uint) \<Rightarrow> ('e ptab_scheme, uint) km" where
  "wait chan_of = thn (lock_acquire PtableLock) (wait_loop chan_of)"

section \<open>The scheduler\<close>

definition is_highest :: "proc list \<Rightarrow> proc \<Rightarrow> bool" where
  "is_highest ps p \<longleftrightarrow> \<not> (\<exists>p1 \<in> set ps. state p1 = RUNNABLE \<and> sint (priority p) < sint (priority p1))"

text \<open>
  The loop over the table, from slot \<open>i\<close>: \<open>swtch p\<close> runs the process until it switches back. The value
  is the list of processes that were given the processor, in order.
\<close>

fun sched_scan :: "(nat \<Rightarrow> ('e ptab_scheme, unit) km) \<Rightarrow> nat list \<Rightarrow> ('e ptab_scheme, nat list) km" where
  "sched_scan swtch [] = ret []"
| "sched_scan swtch (i # is) =
     bnd (gets (\<lambda>s. procs s ! i)) (\<lambda>p.
     bnd (gets procs) (\<lambda>ps.
     if state p \<noteq> RUNNABLE then sched_scan swtch is
     else if is_highest ps p then
       thn (upd (\<lambda>s. s\<lparr>cur := Some i\<rparr>)) (
       thn (switchuvm (Some i)) (
       thn (upd_proc i (\<lambda>p. p\<lparr>state := RUNNING\<rparr>)) (
       thn (swtch i) (
       thn switchkvm (
       thn (upd (\<lambda>s. s\<lparr>cur := None\<rparr>)) (
       bnd (sched_scan swtch is) (\<lambda>r. ret (i # r))))))))
     else sched_scan swtch is))"

text \<open>One round of the endless loop of \<^verbatim>\<open>scheduler\<close>.\<close>

definition sched_round :: "(nat \<Rightarrow> ('e ptab_scheme, unit) km) \<Rightarrow> ('e ptab_scheme, nat list) km" where
  "sched_round swtch =
     thn (lock_acquire PtableLock) (
     bnd (sched_scan swtch [0..<NPROC]) (\<lambda>r.
     thn (lock_release PtableLock) (
     ret r)))"

text \<open>The first \<open>n\<close> rounds of the endless loop.\<close>

fun sched_rounds :: "nat \<Rightarrow> (nat \<Rightarrow> ('e ptab_scheme, unit) km) \<Rightarrow> ('e ptab_scheme, nat list) km" where
  "sched_rounds 0 swtch = ret []"
| "sched_rounds (Suc n) swtch =
     bnd (sched_round swtch) (\<lambda>r. bnd (sched_rounds n swtch) (\<lambda>r'. ret (r @ r')))"

definition scheduler :: "nat \<Rightarrow> (nat \<Rightarrow> ('e ptab_scheme, unit) km) \<Rightarrow> ('e ptab_scheme, nat list) km" where
  "scheduler n swtch = thn (upd (\<lambda>s. s\<lparr>cur := None\<rparr>)) (sched_rounds n swtch)"

section \<open>The part of \<^verbatim>\<open>exit\<close> and \<^verbatim>\<open>fork\<close> under \<^verbatim>\<open>ptable.lock\<close>\<close>

definition make_runnable :: "nat \<Rightarrow> ('e ptab_scheme, unit) km" where
  "make_runnable i =
     thn (lock_acquire PtableLock) (
     thn (upd_proc i (\<lambda>p. p\<lparr>state := RUNNABLE\<rparr>)) (
     lock_release PtableLock))"

definition exit_tail :: "(nat \<Rightarrow> uint) \<Rightarrow> nat \<Rightarrow> ('e ptab_scheme, unit) km" where
  "exit_tail chan_of me =
     bnd (gets initproc) (\<lambda>ip.
     thn (lock_acquire PtableLock) (
     bnd (getp me parent) (\<lambda>par.
     thn (wakeup1 (case par of Some q \<Rightarrow> chan_of q | None \<Rightarrow> 0)) (
     thn (for_each [0..<NPROC] (\<lambda>i.
       bnd (getp i parent) (\<lambda>pp.
       if pp = Some me then
         thn (upd_proc i (\<lambda>p. p\<lparr>parent := ip\<rparr>)) (
         bnd (getp i state) (\<lambda>st.
         if st = ZOMBIE then wakeup1 (case ip of Some q \<Rightarrow> chan_of q | None \<Rightarrow> 0) else ret ()))
       else ret ()))) (
     thn (upd_proc me (\<lambda>p. p\<lparr>state := ZOMBIE\<rparr>)) (
     thn sched (
     panic ''zombie exit'')))))))"

end
