(* ===== verification/ProcInv.thy ===== *)
theory ProcInv
  imports Proc
begin

unbundle bit_operations_syntax

text \<open>
  The process table as a system of steps. Every operation that changes it keeps the ids of the processes in use
  different from each other and from the ids of the processes that were waited for.
\<close>

section \<open>Fields the memory operations do not touch\<close>

definition phys_blind :: "('e phys_scheme \<Rightarrow> 'b) \<Rightarrow> bool" where
  "phys_blind f \<longleftrightarrow> (\<forall>s m l h. f (s\<lparr>mem := m\<rparr>) = f s \<and> f (s\<lparr>freelist := l\<rparr>) = f s \<and> f (s\<lparr>held := h\<rparr>) = f s)"

lemma keeps_lock [pres]:
  assumes "phys_blind f"
  shows "keeps f (lock_acquire l)" and "keeps f (lock_release l)"
  using assms unfolding lock_acquire_def lock_release_def phys_blind_def
  by (intro pres keeps_upd; simp)+

lemma keeps_store [pres]:
  assumes "phys_blind f"
  shows "keeps f (st32 v x)" and "keeps f (memset_words v c n)" and "keeps f (memmove_words v w n)"
    and "keeps f (ld32 v)"
  using assms unfolding st32_def memset_words_def memmove_words_def ld32_def phys_blind_def
  by (intro pres keeps_upd; simp)+

lemma keeps_kfree [pres]: "phys_blind f \<Longrightarrow> keeps f (kfree v)"
  unfolding kfree_def by (intro pres keeps_upd; simp add: phys_blind_def)

lemma keeps_kalloc [pres]: "phys_blind f \<Longrightarrow> keeps f kalloc"
  unfolding kalloc_def by (intro pres keeps_upd; simp add: phys_blind_def)

lemma keeps_walkpgdir [pres]: "phys_blind f \<Longrightarrow> keeps f (walkpgdir d v a)"
  unfolding walkpgdir_def Let_def by (intro pres keeps_upd; simp)

lemma keeps_dealloc_loop [pres]: "phys_blind f \<Longrightarrow> keeps f (dealloc_loop n d a sz)"
  by (induction n arbitrary: a) (auto simp: Let_def intro!: pres)

lemma keeps_freevm [pres]: "phys_blind f \<Longrightarrow> keeps f (freevm d)"
  unfolding freevm_def deallocuvm_def free_table_def by (intro pres; simp)

lemma blind_procs [simp]: "phys_blind procs" "phys_blind nextpid" "phys_blind cur" "phys_blind initproc"
  by (simp_all add: phys_blind_def)

section \<open>Running the operations\<close>

lemma thn_acquire_fin:
  "fin (thn (lock_acquire l) k s) = (if lock_free l s then fin (k (s\<lparr>held := l # held s\<rparr>)) else s)"
  by (auto simp: lock_acquire_def lock_free_def)

lemma upd_proc_run [simp]:
  "upd_proc i f s = Ret () (s\<lparr>procs := (procs s)[i := f (procs s ! i)]\<rparr>)"
  by (simp add: upd_proc_def)

lemma getp_run [simp]: "getp i f s = Ret (f (procs s ! i)) s" "bnd (getp i f) k s = k (f (procs s ! i)) s"
  by (simp_all add: getp_def)

lemma keeps_getp [pres]: "keeps f (getp i g)" "keeps f myproc"
  unfolding getp_def myproc_def by (intro pres)+

lemma thn_upd_proc [simp]:
  "thn (upd_proc i f) k s = k (s\<lparr>procs := (procs s)[i := f (procs s ! i)]\<rparr>)"
  by (simp add: upd_proc_def)

lemma myproc_run [simp]: "bnd myproc k s = k (cur s) s"
  by (simp add: myproc_def)

lemma with_me_run [simp]:
  "cur s = Some i \<Longrightarrow> with_me f s = f i s"
  "cur s = None \<Longrightarrow> with_me f s = Stop (Panic ''null process'') s"
  by (simp_all add: with_me_def)

text \<open>A loop over the whole table that changes each slot by itself.\<close>

lemma for_each_procs:
  assumes body: "\<And>i s. body i s = Ret () (s\<lparr>procs := (procs s)[i := f (procs s ! i)]\<rparr>)"
    and "n \<le> length (procs s)"
  shows "for_each [0..<n] body s = Ret () (s\<lparr>procs := map f (take n (procs s)) @ drop n (procs s)\<rparr>)"
  using assms(2)
proof (induction n)
  case 0
  then show ?case by simp
next
  case (Suc n)
  then have n: "n < length (procs s)" by simp
  let ?ps = "map f (take n (procs s)) @ drop n (procs s)"
  have "?ps[n := f (?ps ! n)] = map f (take (Suc n) (procs s)) @ drop (Suc n) (procs s)"
    using n by (simp add: take_Suc_conv_app_nth list_update_append nth_append Cons_nth_drop_Suc [symmetric])
  then show ?case
    using Suc by (simp add: for_each_append thn_Ret body del: upt_Suc add: upt_Suc_append)
qed

definition woken :: "uint \<Rightarrow> proc \<Rightarrow> proc" where
  "woken ch p = (if state p = SLEEPING \<and> chan p = ch then p\<lparr>state := RUNNABLE\<rparr> else p)"

lemma wakeup1_run:
  assumes "length (procs s) = NPROC"
  shows "wakeup1 ch s = Ret () (s\<lparr>procs := map (woken ch) (procs s)\<rparr>)"
proof -
  have "wakeup1 ch s = Ret () (s\<lparr>procs := map (woken ch) (take NPROC (procs s)) @ drop NPROC (procs s)\<rparr>)"
    unfolding wakeup1_def using assms by (intro for_each_procs) (simp_all add: woken_def)
  with assms show ?thesis by simp
qed

section \<open>Unique process ids\<close>

text \<open>\<open>G\<close> are the ids \<^verbatim>\<open>wait\<close> has returned so far.\<close>

definition active :: "proc \<Rightarrow> bool" where
  "active p \<longleftrightarrow> state p \<noteq> UNUSED"

definition pids_ok :: "uint set \<Rightarrow> proc list \<Rightarrow> uint \<Rightarrow> bool" where
  "pids_ok G ps n \<longleftrightarrow> length ps = NPROC \<and> 0 < n \<and> (\<forall>g \<in> G. 0 < g \<and> g < n)
     \<and> (\<forall>i < NPROC. active (ps ! i) \<longrightarrow> 0 < pid (ps ! i) \<and> pid (ps ! i) < n \<and> pid (ps ! i) \<notin> G)
     \<and> (\<forall>i < NPROC. \<forall>j < NPROC. active (ps ! i) \<longrightarrow> active (ps ! j) \<longrightarrow> pid (ps ! i) = pid (ps ! j) \<longrightarrow> i = j)"

definition pids_inv :: "uint set \<Rightarrow> 'e ptab_scheme \<Rightarrow> bool" where
  "pids_inv G s \<longleftrightarrow> pids_ok G (procs s) (nextpid s) \<and> (\<forall>i. cur s = Some i \<longrightarrow> i < NPROC \<and> active (procs s ! i))"

definition running :: "nat \<Rightarrow> 'e ptab_scheme \<Rightarrow> bool" where
  "running i s \<longleftrightarrow> cur s = Some i \<and> i < NPROC \<and> state (procs s ! i) = RUNNING"

text \<open>A change of one slot that keeps its id, and does not put an unused slot to use.\<close>

lemma pids_ok_upd:
  assumes "pids_ok G ps n" and "active q \<Longrightarrow> active (ps ! i)" and "pid q = pid (ps ! i) \<or> \<not> active q"
  shows "pids_ok G (ps[i := q]) n"
  using assms by (auto simp: pids_ok_def nth_upd)

lemma pids_inv_upd:
  assumes "pids_inv G s" and "active q = active (procs s ! i)" and "pid q = pid (procs s ! i)"
  shows "pids_inv G (s\<lparr>procs := (procs s)[i := q]\<rparr>)"
proof -
  have ok: "pids_ok G (procs s) (nextpid s)" and c: "\<And>j. cur s = Some j \<Longrightarrow> j < NPROC \<and> active (procs s ! j)"
    using assms(1) by (auto simp: pids_inv_def)
  have len: "length (procs s) = NPROC" using ok by (simp add: pids_ok_def)
  have "pids_ok G ((procs s)[i := q]) (nextpid s)" using ok assms(2,3) by (intro pids_ok_upd) simp_all
  then show ?thesis using c len assms(2) by (simp add: pids_inv_def nth_upd)
qed

lemma pids_inv_held [simp]: "pids_inv G (s\<lparr>held := h\<rparr>) = pids_inv G s"
  by (simp add: pids_inv_def)

lemma pids_inv_map:
  assumes "pids_inv G s" and "\<And>p. active (f p) = active p \<and> pid (f p) = pid p"
  shows "pids_inv G (s\<lparr>procs := map f (procs s)\<rparr>)"
  using assms by (auto simp: pids_inv_def pids_ok_def)

lemma pids_inv_upd_proc:
  assumes "\<And>p. active (f p) = active p \<and> pid (f p) = pid p"
  shows "preserves (pids_inv G) (upd_proc i f)"
  unfolding preserves_def using assms by (auto intro: pids_inv_upd)

lemma pids_inv_lock [pres]: "preserves (pids_inv G) (lock_acquire l)" "preserves (pids_inv G) (lock_release l)"
  unfolding lock_acquire_def lock_release_def by (intro pres preserves_upd; simp)+

lemma pids_inv_getp [pres]: "preserves (pids_inv G) (getp i f)"
  unfolding getp_def by (intro pres)

text \<open>What \<open>pids_inv\<close> reads of the state.\<close>

definition table :: "'e ptab_scheme \<Rightarrow> proc list \<times> uint \<times> nat option" where
  "table s = (procs s, nextpid s, cur s)"

lemma blind_table [simp]: "phys_blind table"
  by (simp add: phys_blind_def table_def)

lemma pids_inv_table: "keeps table m \<Longrightarrow> preserves (pids_inv G) m"
  by (simp add: keeps_def table_def preserves_def pids_inv_def)

lemma pids_inv_unused:
  assumes "pids_inv G s" and "cur s \<noteq> Some i" and "\<not> active q"
  shows "pids_inv G (s\<lparr>procs := (procs s)[i := q]\<rparr>)"
proof -
  from assms(1) have ok: "pids_ok G (procs s) (nextpid s)" and len: "length (procs s) = NPROC"
    and c: "\<And>j. cur s = Some j \<Longrightarrow> j < NPROC \<and> active (procs s ! j)"
    by (auto simp: pids_inv_def pids_ok_def)
  have "pids_ok G ((procs s)[i := q]) (nextpid s)"
    using ok assms(3) by (intro pids_ok_upd) simp_all
  then show ?thesis using c len assms(2) by (auto simp: pids_inv_def nth_upd)
qed

section \<open>Allocating a process\<close>

lemma pids_ok_alloc:
  assumes ok: "pids_ok G ps n" and i: "first_idx (\<lambda>p. state p = UNUSED) ps = Some i" and n: "n \<noteq> - 1"
    and q: "pid q = n"
  shows "pids_ok G (ps[i := q]) (n + 1)"
proof -
  have "1 + n \<noteq> 0" using n by (metis add.commute eq_neg_iff_add_eq_0)
  then have "unat (n + 1) = Suc (unat n)" by (simp add: unatSuc add.commute)
  then have lt: "x < n \<Longrightarrow> x < n + 1" "n < n + 1" "0 < n + 1" for x
    by (simp_all add: word_less_nat_alt)
  have pn: "active (ps ! j) \<Longrightarrow> j < NPROC \<Longrightarrow> pid (ps ! j) < n" for j
    using ok by (simp add: pids_ok_def)
  have "i < NPROC" using first_idx_bound [OF i] ok by (simp add: pids_ok_def)
  then show ?thesis
    using ok q lt pn by (fastforce simp: pids_ok_def nth_upd)
qed

text \<open>The state between the two halves of \<^verbatim>\<open>allocproc\<close>, and its second half.\<close>

definition embryo :: "nat \<Rightarrow> 'e ptab_scheme \<Rightarrow> 'e ptab_scheme" where
  "embryo i s = s\<lparr>nextpid := nextpid s + 1,
     procs := (procs s)[i := (procs s ! i)\<lparr>state := EMBRYO, pid := nextpid s, priority := 10\<rparr>]\<rparr>"

definition alloc_stack :: "uint \<Rightarrow> uint \<Rightarrow> nat \<Rightarrow> ('e ptab_scheme, nat option) km" where
  "alloc_stack trapret forkret i =
     bnd kalloc (\<lambda>ks.
     thn (upd_proc i (\<lambda>p. p\<lparr>kstack := ks\<rparr>)) (
     if ks = 0 then thn (upd_proc i (\<lambda>p. p\<lparr>state := UNUSED\<rparr>)) (ret None)
     else
       let sp0 = ks + 0x1000;
           sp1 = sp0 - 76;
           sp2 = sp1 - 4;
           sp3 = sp2 - 20 in
       thn (upd_proc i (\<lambda>p. p\<lparr>tf := sp1\<rparr>)) (
       thn (st32 sp2 trapret) (
       thn (upd_proc i (\<lambda>p. p\<lparr>ctx := sp3\<rparr>)) (
       thn (memset_words sp3 0 20) (
       thn (st32 (sp3 + 16) forkret) (
       ret (Some i))))))))"

lemma allocproc_split:
  assumes "lock_free PtableLock s" and "length (procs s) = NPROC"
  shows "allocproc trapret forkret s =
    (case first_idx (\<lambda>p. state p = UNUSED) (procs s) of
       None \<Rightarrow> Ret None s
     | Some i \<Rightarrow> alloc_stack trapret forkret i (embryo i s))"
proof (cases "first_idx (\<lambda>p. state p = UNUSED) (procs s)")
  case None
  with assms show ?thesis by (simp add: allocproc_def thn_acquire thn_release)
next
  case (Some i)
  then have "i < length (procs s)" by (rule first_idx_bound)
  with Some assms show ?thesis
    unfolding allocproc_def alloc_stack_def [symmetric]
    by (simp add: thn_acquire thn_release embryo_def)
qed

definition unused_away :: "uint set \<Rightarrow> nat \<Rightarrow> uint \<Rightarrow> 'e ptab_scheme \<Rightarrow> bool" where
  "unused_away G i n s \<longleftrightarrow> pids_inv G s \<and> cur s \<noteq> Some i \<and> nextpid s = n"

lemma unused_away_keep: "keeps table m \<Longrightarrow> preserves (unused_away G i n) m"
  by (auto simp: keeps_def table_def preserves_def unused_away_def pids_inv_def)

lemma unused_away_upd:
  "(\<And>p. active (f p) = active p \<and> pid (f p) = pid p) \<Longrightarrow> preserves (unused_away G i n) (upd_proc j f)"
  by (auto simp: preserves_def unused_away_def intro: pids_inv_upd)

lemma alloc_stack_pres: "preserves (unused_away G i n) (alloc_stack trapret forkret i)"
proof -
  have u: "preserves (unused_away G i n) (upd_proc i (\<lambda>p. p\<lparr>state := UNUSED\<rparr>))"
    by (simp add: preserves_def unused_away_def pids_inv_unused active_def)
  show ?thesis
    unfolding alloc_stack_def Let_def
    by (intro u pres unused_away_upd unused_away_keep; simp add: active_def pres)
qed

lemma allocproc_inv:
  assumes "pids_inv G s" and "nextpid s \<noteq> - 1"
  shows "pids_inv G (fin (allocproc trapret forkret s))
    \<and> nextpid (fin (allocproc trapret forkret s)) \<in> {nextpid s, nextpid s + 1}"
proof (cases "lock_free PtableLock s")
  case False
  then show ?thesis using assms unfolding allocproc_def thn_acquire_fin by simp
next
  case True
  from assms have len: "length (procs s) = NPROC" by (simp add: pids_inv_def pids_ok_def)
  show ?thesis
  proof (cases "first_idx (\<lambda>p. state p = UNUSED) (procs s)")
    case None
    then show ?thesis using assms by (simp add: allocproc_split [OF True len])
  next
    case (Some i)
    have c: "cur s \<noteq> Some i"
      using assms(1) first_idx_sat [OF Some] by (auto simp: pids_inv_def active_def)
    have "unused_away G i (nextpid s + 1) (embryo i s)"
      using assms c len pids_ok_alloc [OF _ Some]
      by (auto simp: unused_away_def pids_inv_def embryo_def nth_upd)
    then show ?thesis
      using alloc_stack_pres [of G i "nextpid s + 1" trapret forkret]
      by (auto simp: allocproc_split [OF True len] Some preserves_def unused_away_def)
  qed
qed

section \<open>The other operations\<close>

text \<open>\<open>at_me\<close>: the invariant, while the code runs as process \<open>me\<close>.\<close>

definition at_me :: "uint set \<Rightarrow> nat \<Rightarrow> 'e ptab_scheme \<Rightarrow> bool" where
  "at_me G me s \<longleftrightarrow> pids_inv G s \<and> cur s = Some me"

lemma at_me_table: "keeps table m \<Longrightarrow> preserves (at_me G me) m"
  by (auto simp: keeps_def table_def preserves_def at_me_def pids_inv_def)

lemma at_me_locks [pres]: "preserves (at_me G me) (lock_acquire l)" "preserves (at_me G me) (lock_release l)"
  by (intro at_me_table; simp add: pres)+

lemma at_me_getp [pres]: "preserves (at_me G me) (getp i f)" "preserves (at_me G me) (lock_holding l)"
  unfolding getp_def lock_holding_def by (intro pres)+

lemma at_me_upd:
  "(\<And>p. active (f p) = active p \<and> pid (f p) = pid p) \<Longrightarrow> preserves (at_me G me) (upd_proc i f)"
  by (auto simp: preserves_def at_me_def intro: pids_inv_upd)

lemma at_me_state:
  assumes "\<And>p. active (f p) \<and> pid (f p) = pid p"
  shows "preserves (at_me G me) (upd_proc me f)"
proof -
  have "pids_inv G s \<Longrightarrow> cur s = Some me \<Longrightarrow> active (procs s ! me)" for s :: "'a ptab_scheme"
    by (simp add: pids_inv_def)
  with assms show ?thesis by (auto simp: preserves_def at_me_def intro!: pids_inv_upd)
qed

lemma at_me_with: "(\<And>me. preserves (at_me G me) (f me)) \<Longrightarrow> preserves (pids_inv G) (with_me f)"
  by (auto simp: preserves_def at_me_def with_me_def myproc_def split: option.splits)

lemma at_me_with_me: "preserves (at_me G me) (f me) \<Longrightarrow> preserves (at_me G me) (with_me f)"
  by (auto simp: preserves_def at_me_def with_me_def myproc_def split: option.splits)

lemma sched_pres [pres]: "preserves (at_me G me) sched"
  unfolding sched_def by (intro at_me_with_me pres)

lemma woken_same: "active (woken ch p) = active p \<and> pid (woken ch p) = pid p"
  by (simp add: woken_def active_def)

lemma wakeup1_pids:
  "pids_inv G s \<Longrightarrow> wakeup1 ch s = Ret () (s\<lparr>procs := map (woken ch) (procs s)\<rparr>)"
  by (intro wakeup1_run) (simp add: pids_inv_def pids_ok_def)

lemma wakeup1_pres [pres]: "preserves (pids_inv G) (wakeup1 ch)"
  by (simp add: preserves_def wakeup1_pids [where G = G] pids_inv_map woken_same)

lemma wakeup1_at_me [pres]: "preserves (at_me G me) (wakeup1 ch)"
  by (simp add: preserves_def at_me_def wakeup1_pids [where G = G] pids_inv_map woken_same)

lemma wakeup_pres: "preserves (pids_inv G) (wakeup ch)"
  unfolding wakeup_unfold by (intro pres)

lemma wake_if_asleep:
  assumes "preserves (pids_inv G) k"
  shows "preserves (pids_inv G) (bnd (getp i state) (\<lambda>st.
    thn (if st = SLEEPING then upd_proc i (\<lambda>p. p\<lparr>state := RUNNABLE\<rparr>) else ret ()) k))"
  unfolding preserves_def
proof (intro allI impI)
  fix s :: "'a ptab_scheme"
  assume s: "pids_inv G s"
  show "pids_inv G (fin (bnd (getp i state) (\<lambda>st.
    thn (if st = SLEEPING then upd_proc i (\<lambda>p. p\<lparr>state := RUNNABLE\<rparr>) else ret ()) k) s))"
  proof (cases "state (procs s ! i) = SLEEPING")
    case True
    with s have "pids_inv G (s\<lparr>procs := (procs s)[i := (procs s ! i)\<lparr>state := RUNNABLE\<rparr>]\<rparr>)"
      by (intro pids_inv_upd) (simp_all add: active_def)
    with True assms show ?thesis by (simp add: preserves_def)
  next
    case False
    with s assms show ?thesis by (simp add: preserves_def)
  qed
qed

lemma kill_pres: "preserves (pids_inv G) (kill n)"
  unfolding kill_def by (intro pres wake_if_asleep pids_inv_upd_proc; simp add: active_def)

lemma setpriority_pres: "preserves (pids_inv G) (setpriority n pr)"
  unfolding setpriority_def by (intro pres pids_inv_upd_proc; simp add: active_def)

lemma yield_pres: "preserves (pids_inv G) yield" "preserves (pids_inv G) yield_resumed"
  unfolding yield_def yield_resumed_def by (intro pres at_me_with at_me_state; simp add: active_def)+

lemma at_me_myproc: "preserves (at_me G me) (f (Some me)) \<Longrightarrow> preserves (at_me G me) (bnd myproc f)"
  by (simp add: preserves_def at_me_def)

lemma sleep_pres: "preserves (at_me G me) (sleep ch lk)"
  unfolding sleep_unfold
proof (intro at_me_myproc, unfold option.case)
  have st: "preserves (at_me G me) (upd_proc me (\<lambda>p. p\<lparr>state := SLEEPING\<rparr>))"
    by (intro at_me_state) (simp add: active_def)
  show "preserves (at_me G me) (case lk of
      None \<Rightarrow> panic ''sleep without lk''
    | Some l \<Rightarrow>
        thn (if l \<noteq> PtableLock then thn (lock_acquire PtableLock) (lock_release l) else ret ()) (
        thn (upd_proc me (\<lambda>p. p\<lparr>chan := ch\<rparr>)) (
        thn (upd_proc me (\<lambda>p. p\<lparr>state := SLEEPING\<rparr>))
        sched)))"
    by (intro pres st at_me_upd; simp add: active_def)
qed

lemma sleep_woken_pres: "preserves (pids_inv G) (sleep_woken l)"
  unfolding sleep_woken_unfold by (intro at_me_with pres at_me_upd; simp add: active_def)

lemma exit_tail_pres: "preserves (at_me G me) (exit_tail chan_of me)"
  unfolding exit_tail_def by (intro pres at_me_upd at_me_state; simp add: active_def)

lemma pids_inv_mono: "pids_inv G s \<Longrightarrow> H \<subseteq> G \<Longrightarrow> pids_inv H s"
  unfolding pids_inv_def pids_ok_def by blast

lemma pids_inv_reap:
  assumes "pids_inv G s" and "cur s \<noteq> Some i" and "i < NPROC" and "active (procs s ! i)" and "\<not> active q"
  shows "pids_inv (insert (pid (procs s ! i)) G) (s\<lparr>procs := (procs s)[i := q]\<rparr>)"
  using assms by (auto simp: pids_inv_def pids_ok_def nth_upd)

text \<open>What \<^verbatim>\<open>wait\<close> does with a zombie before and after it clears the slot.\<close>

definition reap_free :: "nat \<Rightarrow> ('e ptab_scheme, unit) km" where
  "reap_free i =
     bnd (getp i kstack) (\<lambda>ks.
     thn (kfree ks) (
     thn (upd_proc i (\<lambda>p. p\<lparr>kstack := 0\<rparr>)) (
     bnd (getp i pgdir) freevm)))"

definition reap_clear :: "nat \<Rightarrow> uint \<Rightarrow> ('e ptab_scheme, uint) km" where
  "reap_clear i n =
     thn (upd_proc i (\<lambda>p. p\<lparr>pid := 0\<rparr>)) (
     thn (upd_proc i (\<lambda>p. p\<lparr>parent := None\<rparr>)) (
     thn (upd_proc i (\<lambda>p. p\<lparr>pname := (pname p)[0 := 0]\<rparr>)) (
     thn (upd_proc i (\<lambda>p. p\<lparr>killed := False\<rparr>)) (
     thn (upd_proc i (\<lambda>p. p\<lparr>state := UNUSED\<rparr>)) (
     thn (lock_release PtableLock) (ret n))))))"

lemma wait_loop_reap:
  assumes "cur s = Some me" and "first_idx (\<lambda>p. parent p = Some me \<and> state p = ZOMBIE) (procs s) = Some i"
  shows "wait_loop chan_of s = thn (reap_free i) (reap_clear i (pid (procs s ! i))) s"
  using assms by (simp add: wait_loop_def reap_free_def reap_clear_def thn_def bnd_assoc)

text \<open>A slot that is about to be cleared.\<close>

definition doomed :: "uint set \<Rightarrow> nat \<Rightarrow> uint \<Rightarrow> 'e ptab_scheme \<Rightarrow> bool" where
  "doomed G i n s \<longleftrightarrow> pids_inv G s \<and> cur s \<noteq> Some i \<and> i < NPROC \<and> active (procs s ! i) \<and> pid (procs s ! i) = n"

lemma doomed_keep: "keeps table m \<Longrightarrow> preserves (doomed G i n) m"
  by (auto simp: keeps_def table_def preserves_def doomed_def pids_inv_def)

lemma reap_free_pres: "preserves (doomed G i n) (reap_free i)"
proof -
  have "doomed G i n (s\<lparr>procs := (procs s)[i := (procs s ! i)\<lparr>kstack := 0\<rparr>]\<rparr>)" if "doomed G i n s" for s :: "'a ptab_scheme"
  proof -
    have "length (procs s) = NPROC" using that by (simp add: doomed_def pids_inv_def pids_ok_def)
    moreover have "pids_inv G (s\<lparr>procs := (procs s)[i := (procs s ! i)\<lparr>kstack := 0\<rparr>]\<rparr>)"
      using that by (intro pids_inv_upd) (simp_all add: doomed_def active_def)
    ultimately show ?thesis using that by (simp add: doomed_def active_def)
  qed
  then have u: "preserves (doomed G i n) (upd_proc i (\<lambda>p. p\<lparr>kstack := 0\<rparr>) :: ('a ptab_scheme, unit) km)"
    by (simp add: preserves_def)
  have g: "preserves (doomed G i n) (getp i f)" for f :: "proc \<Rightarrow> uint" by (intro doomed_keep keeps_getp)
  show ?thesis
    unfolding reap_free_def
    by (intro preserves_thn preserves_bnd u g doomed_keep [OF keeps_kfree] doomed_keep [OF keeps_freevm]; simp)
qed

lemma reap_clear_inv:
  assumes "doomed G i n s"
  shows "pids_inv (insert n G) (fin (reap_clear i n s))"
proof -
  let ?q = "(procs s ! i)\<lparr>pid := 0, parent := None, pname := (pname (procs s ! i))[0 := 0], killed := False, state := UNUSED\<rparr>"
  let ?t = "s\<lparr>procs := (procs s)[i := ?q]\<rparr>"
  have "pids_inv (insert n G) ?t" using assms pids_inv_reap [of G s i ?q] by (auto simp: doomed_def active_def)
  moreover have "preserves (pids_inv (insert n G)) (thn (lock_release PtableLock) (ret n) :: ('a ptab_scheme, uint) km)"
    by (intro pres)
  ultimately have "pids_inv (insert n G) (fin (thn (lock_release PtableLock) (ret n) ?t))" by (simp add: preserves_def)
  moreover have "i < length (procs s)" using assms by (simp add: doomed_def pids_inv_def pids_ok_def)
  ultimately show ?thesis by (simp add: reap_clear_def)
qed

text \<open>The id \<^verbatim>\<open>wait\<close> returns.\<close>

definition collected :: "(uint, 'e ptab_scheme) res \<Rightarrow> uint list" where
  "collected r = (case r of Ret n _ \<Rightarrow> if n = - 1 then [] else [n] | Stop _ _ \<Rightarrow> [])"

lemma collected_thn: "(\<And>s. collected (k s) \<in> {[], [n]}) \<Longrightarrow> collected (thn m k s) \<in> {[], [n]}"
  by (cases "m s") (simp_all add: thn_Ret thn_Stop collected_def)

lemma reap_clear_collected: "collected (reap_clear i n s) \<in> {[], [n]}"
  unfolding reap_clear_def by (intro collected_thn) (simp add: collected_def)

lemma wait_loop_inv:
  assumes s: "pids_inv G s" and me: "running me s"
  shows "pids_inv (set (collected (wait_loop chan_of s)) \<union> G) (fin (wait_loop chan_of s))
    \<and> distinct (collected (wait_loop chan_of s)) \<and> set (collected (wait_loop chan_of s)) \<inter> G = {}"
proof (cases "first_idx (\<lambda>p. parent p = Some me \<and> state p = ZOMBIE) (procs s)")
  case None
  have at: "at_me G me s" using s me by (simp add: at_me_def running_def)
  have a: "at_me G me (fin (thn (sleep (chan_of me) (Some PtableLock)) (ret (-1 :: uint)) s))"
    "at_me G me (fin (thn (lock_release PtableLock) (ret (-1 :: uint)) s))"
    by (intro preservesD [where I = "at_me G me", OF _ at] pres sleep_pres)+
  have "collected (thn m (ret (-1)) s) = []" for m :: "('a ptab_scheme, unit) km"
    by (auto simp: collected_def thn_def bnd_def split: res.splits)
  with a show ?thesis
    using None me by (simp add: wait_loop_def running_def at_me_def)
next
  case (Some i)
  let ?n = "pid (procs s ! i)"
  have w: "wait_loop chan_of s = thn (reap_free i) (reap_clear i ?n) s"
    using wait_loop_reap [OF _ Some] me by (simp add: running_def)
  have i: "i < NPROC" using first_idx_bound [OF Some] s by (simp add: pids_inv_def pids_ok_def)
  from first_idx_sat [OF Some] me have z: "cur s \<noteq> Some i" "active (procs s ! i)" by (auto simp: running_def active_def)
  have d: "doomed G i ?n (fin (reap_free i s))"
    by (rule preservesD [OF reap_free_pres]) (use s z i in \<open>simp add: doomed_def\<close>)
  have n: "?n \<notin> G" using s z(2) i by (simp add: pids_inv_def pids_ok_def)
  have "pids_inv (insert ?n G) (fin (wait_loop chan_of s)) \<or> collected (wait_loop chan_of s) = [] \<and> pids_inv G (fin (wait_loop chan_of s))"
  proof (cases "reap_free i s")
    case (Ret a t)
    with d show ?thesis by (simp add: w thn_Ret reap_clear_inv)
  next
    case (Stop e t)
    with d show ?thesis by (simp add: w thn_Stop collected_def doomed_def)
  qed
  moreover have "collected (wait_loop chan_of s) \<in> {[], [?n]}"
    unfolding w by (intro collected_thn reap_clear_collected)
  ultimately show ?thesis using n pids_inv_mono [OF _ subset_insertI] by auto
qed

lemma dispatch_inv:
  assumes "pids_inv G s" and "\<forall>i \<in> set js. i < NPROC"
  shows "pids_inv G (fin (sched_scan (\<lambda>_. stop Sleeping) js s))"
  using assms
proof (induction js arbitrary: s)
  case Nil
  then show ?case by simp
next
  case (Cons i js)
  let ?s = "s\<lparr>cur := Some i\<rparr>"
  show ?case
  proof (cases "state (procs s ! i) = RUNNABLE \<and> is_highest (procs s) (procs s ! i)")
    case True
    with Cons.prems have "at_me G i ?s" by (auto simp: at_me_def pids_inv_def active_def)
    moreover have "preserves (at_me G i) (thn (switchuvm (Some i)) (
        thn (upd_proc i (\<lambda>p. p\<lparr>state := RUNNING\<rparr>)) (stop Sleeping :: ('a ptab_scheme, nat list) km)))"
      unfolding switchuvm_def option.case
      by (intro pres at_me_state preserves_upd; simp add: active_def at_me_def pids_inv_def)
    ultimately have "at_me G i (fin (thn (switchuvm (Some i)) (
        thn (upd_proc i (\<lambda>p. p\<lparr>state := RUNNING\<rparr>)) (stop Sleeping :: ('a ptab_scheme, nat list) km)) ?s))"
      by (rule preservesD [rotated])
    then show ?thesis
      using True by (simp add: at_me_def thn_def bnd_def split: res.splits)
  next
    case False
    with Cons show ?thesis by auto
  qed
qed

section \<open>The process table as a system of steps\<close>

text \<open>
  The steps that change the process table, each the whole operation or the part of one that the scheduler or a failure
  can separate from the rest, with the ids \<^verbatim>\<open>wait\<close> returns. The fields a process fills in are arbitrary, and so is what
  it does to memory.

  \<^item> \<open>alloc\<close>, \<open>fills\<close> and \<open>publish\<close> are \<^verbatim>\<open>fork\<close>: \<^verbatim>\<open>allocproc\<close>, the assignments to the fields of \<^verbatim>\<open>np\<close> (\<^verbatim>\<open>np->parent = curproc\<close>
    among them), and \<^verbatim>\<open>np->state = RUNNABLE\<close> under \<^verbatim>\<open>ptable.lock\<close>; \<open>abandon\<close> is its error path. With \<open>inits\<close> in place of
    \<open>fills\<close> they are \<^verbatim>\<open>userinit\<close>.
  \<^item> \<open>works\<close> is the rest of what a running process does to its own slot (\<^verbatim>\<open>growproc\<close>, \<^verbatim>\<open>exec\<close>, opening and closing files).
  \<^item> \<open>resumes\<close> is the end of \<^verbatim>\<open>yield\<close>, and what \<^verbatim>\<open>forkret\<close> does to the lock.
  \<^item> \<open>enters\<close>, \<open>leaves\<close> and \<open>dispatch\<close> are \<^verbatim>\<open>scheduler\<close>: it takes and drops \<^verbatim>\<open>ptable.lock\<close> around a pass over the table,
    and goes on with the slot after the one that switched back, or with the first one, to the next process it runs.
\<close>

inductive ptab_step :: "(nat \<Rightarrow> uint) \<Rightarrow> 'e ptab_scheme \<Rightarrow> uint list \<Rightarrow> 'e ptab_scheme \<Rightarrow> bool" for chan_of where
  alloc: "ptab_step chan_of s [] (fin (allocproc trapret forkret s))"
| fills: "running me s \<Longrightarrow> state (procs s ! i) = EMBRYO \<Longrightarrow>
    ptab_step chan_of s [] (fin (upd_proc i
      (\<lambda>p. p\<lparr>pgdir := d, psz := z, parent := Some me, ofile := fs, cwd := c, pname := nm\<rparr>) (s\<lparr>mem := m, freelist := l\<rparr>)))"
| inits: "cur s = None \<Longrightarrow> state (procs s ! i) = EMBRYO \<Longrightarrow>
    ptab_step chan_of s [] (fin (upd_proc i (\<lambda>p. p\<lparr>pgdir := d, psz := z, cwd := c, pname := nm\<rparr>)
      (s\<lparr>initproc := Some i, mem := m, freelist := l\<rparr>)))"
| publish: "state (procs s ! i) = EMBRYO \<Longrightarrow> ptab_step chan_of s [] (fin (make_runnable i s))"
| abandon: "running me s \<Longrightarrow> state (procs s ! i) = EMBRYO \<Longrightarrow>
    ptab_step chan_of s [] (fin (upd_proc i (\<lambda>p. p\<lparr>kstack := 0, state := UNUSED\<rparr>) (s\<lparr>mem := m, freelist := l\<rparr>)))"
| works: "running me s \<Longrightarrow>
    ptab_step chan_of s [] (fin (upd_proc me
      (\<lambda>p. p\<lparr>pgdir := d, psz := z, tf := t, ofile := fs, cwd := c, pname := nm\<rparr>) (s\<lparr>mem := m, freelist := l\<rparr>)))"
| kills: "ptab_step chan_of s [] (fin (kill n s))"
| prios: "ptab_step chan_of s [] (fin (setpriority n pr s))"
| wakes: "ptab_step chan_of s [] (fin (wakeup ch s))"
| yields: "running me s \<Longrightarrow> ptab_step chan_of s [] (fin (yield s))"
| resumes: "running me s \<Longrightarrow> ptab_step chan_of s [] (fin (yield_resumed s))"
| sleeps: "running me s \<Longrightarrow> ptab_step chan_of s [] (fin (sleep ch lk s))"
| awakes: "running me s \<Longrightarrow> ptab_step chan_of s [] (fin (sleep_woken l s))"
| waits: "running me s \<Longrightarrow> ptab_step chan_of s (collected (wait chan_of s)) (fin (wait chan_of s))"
| rewaits: "running me s \<Longrightarrow> ptab_step chan_of s (collected (wait_loop chan_of s)) (fin (wait_loop chan_of s))"
| exits: "running me s \<Longrightarrow> ptab_step chan_of s [] (fin (exit_tail chan_of me s))"
| enters: "cur s = None \<Longrightarrow> ptab_step chan_of s [] (fin (lock_acquire PtableLock s))"
| leaves: "cur s = None \<Longrightarrow> ptab_step chan_of s [] (fin (lock_release PtableLock s))"
| dispatch: "\<not> (\<exists>me. running me s) \<Longrightarrow>
    ptab_step chan_of s [] (fin (sched_scan (\<lambda>_. stop Sleeping) [k..<NPROC] (s\<lparr>cr3 := V2P (kpgdir s), cur := None\<rparr>)))"

text \<open>The states reached in \<open>n\<close> steps, with the ids \<^verbatim>\<open>wait\<close> has returned.\<close>

inductive ptab_reach :: "(nat \<Rightarrow> uint) \<Rightarrow> 'e ptab_scheme \<Rightarrow> nat \<Rightarrow> uint list \<Rightarrow> 'e ptab_scheme \<Rightarrow> bool" for chan_of s0 where
  start: "ptab_reach chan_of s0 0 [] s0"
| step: "ptab_reach chan_of s0 n gone s \<Longrightarrow> ptab_step chan_of s r s' \<Longrightarrow> ptab_reach chan_of s0 (Suc n) (r @ gone) s'"

text \<open>The table at boot: every slot is zero.\<close>

definition zero_proc :: proc where
  "zero_proc = \<lparr>psz = 0, pgdir = 0, kstack = 0, state = UNUSED, pid = 0, parent = None, tf = 0, ctx = 0,
     chan = 0, killed = False, ofile = replicate NOFILE None, cwd = None, pname = replicate 16 0, priority = 0\<rparr>"

definition boot_table :: "'e ptab_scheme \<Rightarrow> bool" where
  "boot_table s \<longleftrightarrow> procs s = replicate NPROC zero_proc \<and> nextpid s = 1 \<and> cur s = None"

lemma running_at_me: "pids_inv G s \<Longrightarrow> running me s \<Longrightarrow> at_me G me s"
  by (simp add: at_me_def running_def)

text \<open>Only \<^verbatim>\<open>allocproc\<close> hands out ids.\<close>

lemma nextpid_upd_proc [pres]: "keeps nextpid (upd_proc i f)"
  unfolding upd_proc_def by (intro keeps_upd) simp

lemma nextpid_with_me [pres]: "(\<And>me. keeps nextpid (f me)) \<Longrightarrow> keeps nextpid (with_me f)"
  unfolding with_me_def by (intro pres)

lemma nextpid_sched [pres]: "keeps nextpid sched"
  unfolding sched_def lock_holding_def by (intro pres)

lemma nextpid_wakeup1 [pres]: "keeps nextpid (wakeup1 ch)"
  unfolding wakeup1_def by (intro pres)

lemma nextpid_sleep [pres]: "keeps nextpid (sleep ch lk)"
  unfolding sleep_unfold by (intro pres; simp)

lemma nextpid_wait_loop [pres]: "keeps nextpid (wait_loop chan_of)"
  unfolding wait_loop_def by (intro pres; simp)

lemma nextpid_scan [pres]: "keeps nextpid (sched_scan (\<lambda>_. stop Sleeping) js)"
proof (induction js)
  case (Cons i js)
  have "keeps nextpid (switchuvm p)" "keeps nextpid switchkvm"
    "keeps nextpid (upd (\<lambda>s. s\<lparr>cur := c\<rparr>))" for p c
    unfolding switchuvm_def switchkvm_def by (intro pres keeps_upd; simp)+
  with Cons show ?case unfolding sched_scan.simps by (intro pres)
qed (unfold sched_scan.simps, intro pres)

lemma nextpid_ops:
  "keeps nextpid (make_runnable i)" "keeps nextpid (kill n)" "keeps nextpid (setpriority n pr)"
  "keeps nextpid (wakeup ch)" "keeps nextpid yield" "keeps nextpid yield_resumed"
  "keeps nextpid (sleep_woken l)" "keeps nextpid (wait chan_of)" "keeps nextpid (exit_tail chan_of me)"
  unfolding make_runnable_def kill_def setpriority_def wakeup_unfold yield_def yield_resumed_def
    sleep_woken_unfold wait_def exit_tail_def
  by (intro pres; simp)+

lemma make_runnable_inv:
  assumes "pids_inv G s" and "state (procs s ! i) = EMBRYO"
  shows "pids_inv G (fin (make_runnable i s))"
proof (cases "lock_free PtableLock s")
  case True
  have "pids_inv G (s\<lparr>procs := (procs s)[i := (procs s ! i)\<lparr>state := RUNNABLE\<rparr>]\<rparr>)"
    using assms by (intro pids_inv_upd) (simp_all add: active_def)
  then show ?thesis
    using True by (simp add: make_runnable_def thn_acquire lock_release_run pids_inv_def)
next
  case False
  with assms show ?thesis by (simp add: make_runnable_def thn_acquire_fin)
qed

lemma wait_inv:
  assumes "pids_inv G s" and "running me s"
  shows "pids_inv (set (collected (wait chan_of s)) \<union> G) (fin (wait chan_of s))
    \<and> distinct (collected (wait chan_of s)) \<and> set (collected (wait chan_of s)) \<inter> G = {}"
proof (cases "lock_acquire PtableLock s")
  case (Ret u t)
  then have "pids_inv G t" "running me t"
    using assms by (auto simp: lock_acquire_def running_def split: if_splits)
  from wait_loop_inv [OF this] Ret show ?thesis by (simp add: wait_def thn_Ret)
next
  case (Stop e t)
  then have "t = s" by (auto simp: lock_acquire_def split: if_splits)
  with Stop assms(1) show ?thesis by (simp add: wait_def thn_Stop collected_def)
qed

lemma keeps_fin: "keeps f m \<Longrightarrow> f (fin (m s)) = f s"
  by (simp add: keeps_def)

lemmas nextpid_same = nextpid_ops [THEN keeps_fin] nextpid_sleep [THEN keeps_fin]
  nextpid_wait_loop [THEN keeps_fin] nextpid_scan [THEN keeps_fin] keeps_lock [of nextpid, THEN keeps_fin]

lemmas pids_inv_ops = kill_pres [THEN preservesD] setpriority_pres [THEN preservesD]
  wakeup_pres [THEN preservesD] yield_pres [THEN preservesD] sleep_woken_pres [THEN preservesD]
  make_runnable_inv pids_inv_lock [THEN preservesD]

text \<open>Filling in fields does not touch ids.\<close>

lemma pids_inv_fill:
  assumes "pids_inv G s" and "\<And>p. active (f p) = active p \<and> pid (f p) = pid p"
    and "procs t = procs s" "nextpid t = nextpid s" "cur t = cur s"
  shows "pids_inv G (fin (upd_proc i f t)) \<and> nextpid (fin (upd_proc i f t)) = nextpid s"
proof -
  have "pids_inv G t" using assms by (simp add: pids_inv_def)
  then show ?thesis using assms(2,4) pids_inv_upd [of G t "f (procs t ! i)" i] by simp
qed

lemma ptab_step_inv:
  assumes "ptab_step chan_of s r s'" and "pids_inv G s" and "nextpid s \<noteq> - 1"
  shows "pids_inv (set r \<union> G) s' \<and> nextpid s' \<in> {nextpid s, nextpid s + 1} \<and> distinct r \<and> set r \<inter> G = {}"
  using assms(1)
proof (cases rule: ptab_step.cases)
  case (alloc tr fr)
  then show ?thesis using allocproc_inv assms by simp
next
  case (fills me i d z fs c nm m l)
  have "pids_inv G s' \<and> nextpid s' = nextpid s"
    unfolding fills(2) by (rule pids_inv_fill [OF assms(2)]) (simp_all add: active_def)
  with fills(1) show ?thesis by simp
next
  case (inits i d z c nm m l)
  have "pids_inv G s' \<and> nextpid s' = nextpid s"
    unfolding inits(2) by (rule pids_inv_fill [OF assms(2)]) (simp_all add: active_def)
  with inits(1) show ?thesis by simp
next
  case (works me d z t fs c nm m l)
  have "pids_inv G s' \<and> nextpid s' = nextpid s"
    unfolding works(2) by (rule pids_inv_fill [OF assms(2)]) (simp_all add: active_def)
  with works(1) show ?thesis by simp
next
  case (abandon me i l m)
  then have "cur s \<noteq> Some i" by (auto simp: running_def)
  moreover have "pids_inv G (s\<lparr>mem := m, freelist := l\<rparr>)" using assms(2) by (simp add: pids_inv_def)
  ultimately show ?thesis
    using abandon pids_inv_unused [of G "s\<lparr>mem := m, freelist := l\<rparr>" i] by (simp add: active_def)
next
  case (sleeps me ch lk)
  then have "at_me G me s'"
    using preservesD [OF sleep_pres running_at_me [OF assms(2) sleeps(3)]] by simp
  with sleeps show ?thesis by (simp add: at_me_def nextpid_same)
next
  case (exits me)
  then have "at_me G me s'"
    using preservesD [OF exit_tail_pres running_at_me [OF assms(2) exits(3)]] by simp
  with exits show ?thesis by (simp add: at_me_def nextpid_same)
next
  case (waits me)
  then show ?thesis using wait_inv [OF assms(2)] by (simp add: nextpid_same)
next
  case (rewaits me)
  then show ?thesis using wait_loop_inv [OF assms(2)] by (simp add: nextpid_same)
next
  case (dispatch k)
  have "pids_inv G (s\<lparr>cr3 := V2P (kpgdir s), cur := None\<rparr>)" using assms(2) by (simp add: pids_inv_def)
  from dispatch_inv [OF this, of "[k..<NPROC]"] dispatch show ?thesis by (simp add: nextpid_same)
qed (use assms(2) in \<open>auto simp: nextpid_same intro: pids_inv_ops\<close>)

end
