(* ===== verification/ProcProps.thy ===== *)
theory ProcProps
  imports ProcInv VmProps
begin

unbundle bit_operations_syntax

text \<open>
  Properties of processes: what the priority scheduler chooses, what \<^verbatim>\<open>wait\<close> gives back, and what
  \<^verbatim>\<open>kill\<close> does.
\<close>

section \<open>The table at boot\<close>

definition boot_ptab :: ptab where
  "boot_ptab = \<lparr>held = [], others = {}, mem = (\<lambda>_. 0), kend = 0x80200000, kdata = 0x80108000,
     freelist = 0x80300000, use_lock = True, procs = replicate NPROC zero_proc, initproc = None, nextpid = 1,
     cur = None, kpgdir = 0x803FF000, cr3 = 0x3FF000, ts_ss0 = 0, ts_esp0 = 0, ts_iomb = 0, ticks = 0, outws = []\<rparr>"

lemma boot_ptab_table: "boot_table boot_ptab" "lock_free PtableLock boot_ptab" "length (procs boot_ptab) = NPROC"
  by (simp_all add: boot_table_def boot_ptab_def lock_free_def)

text \<open>The first call of \<^verbatim>\<open>allocproc\<close> takes slot 0.\<close>

lemma boot_alloc: "state (procs (fin (allocproc tr fr boot_ptab)) ! 0) = EMBRYO"
proof -
  have f: "first_idx (\<lambda>p. state p = UNUSED) (procs boot_ptab) = Some 0"
    by (simp add: boot_ptab_def NPROC_def zero_proc_def eval_nat_numeral)
  have "kmem_ready (embryo 0 boot_ptab)"
    by (simp add: kmem_ready_def lock_free_def embryo_def boot_ptab_def)
  then have "kalloc (embryo 0 boot_ptab) = Ret 0x80300000 ((embryo 0 boot_ptab)\<lparr>freelist := 0\<rparr>)"
    by (simp add: kalloc_run) (simp add: embryo_def boot_ptab_def)
  then show ?thesis
    by (simp add: allocproc_split boot_ptab_table f alloc_stack_def bnd_Ret Let_def st32_def memset_words_def)
      (simp add: embryo_def boot_ptab_def NPROC_def)
qed

section \<open>The scheduler\<close>

text \<open>
  A process is fit to run when it is the one whose address space and kernel stack are loaded, and
  no runnable process has a higher priority. \<open>asserted\<close> checks this at every switch to a process.
\<close>

definition fit :: "nat \<Rightarrow> 'e ptab_scheme \<Rightarrow> bool" where
  "fit i s \<longleftrightarrow> cur s = Some i \<and> cr3 s = V2P (pgdir (procs s ! i)) \<and> ts_esp0 s = kstack (procs s ! i) + 0x1000
     \<and> (i < length (procs s) \<longrightarrow> state (procs s ! i) = RUNNING)
     \<and> (\<forall>p \<in> set (procs s). state p = RUNNABLE \<longrightarrow> sint (priority p) \<le> sint (priority (procs s ! i)))"

definition asserted :: "(nat \<Rightarrow> ('e ptab_scheme, unit) km) \<Rightarrow> nat \<Rightarrow> ('e ptab_scheme, unit) km" where
  "asserted swtch i s = (if fit i s then swtch i s else Stop (Panic ''unfit'') s)"

lemma switchuvm_run:
  "switchuvm (Some i) s = (if kstack (procs s ! i) = 0 then Stop (Panic ''switchuvm: no kstack'') s
    else if pgdir (procs s ! i) = 0 then Stop (Panic ''switchuvm: no pgdir'') s
    else Ret () (s\<lparr>ts_ss0 := 0x10, ts_esp0 := kstack (procs s ! i) + 0x1000, ts_iomb := 0xFFFF,
                  cr3 := V2P (pgdir (procs s ! i))\<rparr>))"
  by (simp add: switchuvm_def)

lemma thn_switchuvm:
  "thn (switchuvm (Some i)) k s = (if kstack (procs s ! i) = 0 then Stop (Panic ''switchuvm: no kstack'') s
    else if pgdir (procs s ! i) = 0 then Stop (Panic ''switchuvm: no pgdir'') s
    else k (s\<lparr>ts_ss0 := 0x10, ts_esp0 := kstack (procs s ! i) + 0x1000, ts_iomb := 0xFFFF,
                  cr3 := V2P (pgdir (procs s ! i))\<rparr>))"
  by (simp add: thn_def bnd_def switchuvm_run)

lemma thn_asserted: "fit i s \<Longrightarrow> thn (asserted swtch i) k s = thn (swtch i) k s"
  by (simp add: thn_def bnd_def asserted_def)

lemma fit_dispatch:
  assumes "is_highest (procs s) (procs s ! i)"
  shows "fit i (s\<lparr>cur := Some i, ts_ss0 := a, ts_esp0 := kstack (procs s ! i) + 0x1000, ts_iomb := b,
    cr3 := V2P (pgdir (procs s ! i)), procs := (procs s)[i := (procs s ! i)\<lparr>state := RUNNING\<rparr>]\<rparr>)"
proof -
  have "sint (priority p) \<le> sint (priority (procs s ! i))"
    if "p \<in> set ((procs s)[i := (procs s ! i)\<lparr>state := RUNNING\<rparr>])" "state p = RUNNABLE" for p
  proof -
    from that set_update_subset_insert [of "procs s" i "(procs s ! i)\<lparr>state := RUNNING\<rparr>"]
    have "p \<in> set (procs s)" by auto
    with assms that(2) show ?thesis by (auto simp: is_highest_def not_less)
  qed
  then show ?thesis by (cases "i < length (procs s)") (auto simp: fit_def not_less list_update_beyond)
qed

lemma sched_scan_asserted: "sched_scan (asserted swtch) js = sched_scan swtch js"
proof (induction js)
  case (Cons i js)
  show ?case
  proof
    fix s :: "'a ptab_scheme"
    show "sched_scan (asserted swtch) (i # js) s = sched_scan swtch (i # js) s"
      using fit_dispatch [of s i]
      by (simp add: Cons thn_switchuvm thn_asserted)
  qed
qed simp

text \<open>C31: the scheduler runs strictly by priority: at every switch to a process, in every round and whatever
  the processes do in between, no runnable process has a higher priority than the chosen one, and its
  address space and kernel stack are the loaded ones. Checking this at each switch makes no difference.\<close>

theorem sched_strict_priority: "scheduler n (asserted swtch) s = scheduler n swtch s"
proof -
  have "sched_rounds n (asserted swtch) = sched_rounds n swtch"
    by (induction n) (simp_all add: sched_round_def sched_scan_asserted)
  then show ?thesis by (simp add: scheduler_def)
qed

text \<open>
  A time slice: the process returns from \<^verbatim>\<open>swtch\<close> into \<^verbatim>\<open>yield\<close>, works, and is preempted by the timer,
  which calls \<^verbatim>\<open>yield\<close> again.
\<close>

definition time_slice :: "(nat \<Rightarrow> ('e ptab_scheme, unit) km) \<Rightarrow> nat \<Rightarrow> ('e ptab_scheme, unit) km" where
  "time_slice work i s =
     (case thn yield_resumed (thn (work i) yield) s of
        Stop Sleeping s' \<Rightarrow> Ret () s'
      | Stop e s' \<Rightarrow> Stop e s'
      | Ret _ s' \<Rightarrow> Stop Spin s')"

definition top_ready :: "proc list \<Rightarrow> nat \<Rightarrow> bool" where
  "top_ready ps i \<longleftrightarrow> state (ps ! i) = RUNNABLE \<and> is_highest ps (ps ! i)"

definition loadable :: "proc \<Rightarrow> bool" where
  "loadable p \<longleftrightarrow> kstack p \<noteq> 0 \<and> pgdir p \<noteq> 0"

text \<open>The work of a time slice: it may change memory, files and devices, but not the process table and the locks.\<close>

definition busywork :: "(nat \<Rightarrow> ('e ptab_scheme, unit) km) \<Rightarrow> bool" where
  "busywork work \<longleftrightarrow> (\<forall>i s. \<exists>s'. work i s = Ret () s' \<and> procs s' = procs s \<and> held s' = held s \<and> others s' = others s
     \<and> cur s' = cur s)"

lemma slice_run:
  assumes "held s = [PtableLock]" and "PtableLock \<notin> others s" and "cur s = Some i"
    and w: "busywork work" and i: "i < length (procs s)"
  shows "\<exists>s'. time_slice work i s = Ret () s' \<and> procs s' = (procs s)[i := (procs s ! i)\<lparr>state := RUNNABLE\<rparr>]
    \<and> held s' = [PtableLock] \<and> others s' = others s"
proof -
  obtain t where t: "work i (s\<lparr>held := []\<rparr>) = Ret () t" "procs t = procs s" "held t = []" "others t = others s" "cur t = Some i"
    using w [unfolded busywork_def, THEN spec [of _ i], THEN spec [of _ "s\<lparr>held := []\<rparr>"]] assms(3) by auto
  have "time_slice work i s = Ret () (t\<lparr>held := [PtableLock], procs := (procs s)[i := (procs s ! i)\<lparr>state := RUNNABLE\<rparr>]\<rparr>)"
    using assms t by (simp add: time_slice_def yield_resumed_def thn_release thn_Ret yield_def thn_acquire
      lock_free_def sched_def lock_holding_def)
  then show ?thesis using t by simp
qed

lemma scan_slices:
  assumes "held s = [PtableLock]" and "PtableLock \<notin> others s" and "length (procs s) = NPROC"
    and "\<forall>i \<in> set js. i < NPROC" and "\<forall>p \<in> set (procs s). state p = RUNNABLE \<longrightarrow> loadable p"
    and w: "busywork work"
  shows "\<exists>s'. sched_scan (time_slice work) js s = Ret (filter (top_ready (procs s)) js) s'
    \<and> procs s' = procs s \<and> held s' = held s \<and> others s' = others s"
  using assms(1-5)
proof (induction js arbitrary: s)
  case Nil
  then show ?case by simp
next
  case (Cons i js)
  from Cons.prems have i: "i < length (procs s)" by simp
  show ?case
  proof (cases "top_ready (procs s) i")
    case True
    then have rdy: "state (procs s ! i) = RUNNABLE" "is_highest (procs s) (procs s ! i)"
      by (simp_all add: top_ready_def)
    with Cons.prems(5) i have ld: "kstack (procs s ! i) \<noteq> 0" "pgdir (procs s ! i) \<noteq> 0"
      by (auto simp: loadable_def)
    let ?t = "s\<lparr>cur := Some i, ts_ss0 := 0x10, ts_esp0 := kstack (procs s ! i) + 0x1000, ts_iomb := 0xFFFF,
      cr3 := V2P (pgdir (procs s ! i)), procs := (procs s)[i := (procs s ! i)\<lparr>state := RUNNING\<rparr>]\<rparr>"
    obtain v where v: "time_slice work i ?t = Ret () v"
        "procs v = (procs ?t)[i := (procs ?t ! i)\<lparr>state := RUNNABLE\<rparr>]" "held v = [PtableLock]" "others v = others s"
      using slice_run [of ?t i work] Cons.prems i w by auto
    have "(procs s)[i := (procs s ! i)\<lparr>state := RUNNABLE\<rparr>] = procs s"
      using rdy(1) by (metis list_update_id proc.surjective proc.update_convs(4))
    with v(2) i have same: "procs v = procs s" by simp
    define u where "u = v\<lparr>cr3 := V2P (kpgdir v), cur := None\<rparr>"
    have "held u = [PtableLock]" "PtableLock \<notin> others u" "length (procs u) = NPROC" "procs u = procs s"
      "held u = held s" "others u = others s" using Cons.prems v same by (simp_all add: u_def)
    moreover have "\<forall>k \<in> set js. k < NPROC" using Cons.prems by simp
    ultimately obtain s' where s': "sched_scan (time_slice work) js u = Ret (filter (top_ready (procs s)) js) s'"
      "procs s' = procs s" "held s' = held s" "others s' = others s"
      using Cons.IH [of u] Cons.prems(5) by auto
    have "sched_scan (time_slice work) (i # js) s = bnd (sched_scan (time_slice work) js) (\<lambda>r. ret (i # r)) u"
      using rdy ld i v(1) by (simp add: thn_switchuvm thn_Ret switchkvm_def u_def)
    with s' True show ?thesis by (simp add: bnd_Ret)
  next
    case False
    then show ?thesis using Cons by (auto simp: top_ready_def)
  qed
qed

lemma top_ready_exists:
  assumes "p \<in> set ps" and "state p = RUNNABLE"
  shows "\<exists>i < length ps. top_ready ps i"
proof -
  let ?R = "{p \<in> set ps. state p = RUNNABLE}"
  let ?K = "(\<lambda>p. sint (priority p)) ` ?R"
  have fin: "finite ?K" and "?K \<noteq> {}" using assms by auto
  then have "Max ?K \<in> ?K" by (rule Max_in)
  then obtain q where "q \<in> ?R" "sint (priority q) = Max ?K" by auto
  with fin have q: "q \<in> ?R" "\<forall>r \<in> ?R. sint (priority r) \<le> sint (priority q)" by auto
  from q(1) obtain i where "i < length ps" "ps ! i = q" by (auto simp: in_set_conv_nth)
  with q have "top_ready ps i" by (auto simp: top_ready_def is_highest_def not_less)
  with \<open>i < length ps\<close> show ?thesis by blast
qed

text \<open>C32: round robin among the processes of highest priority. When every process that is run works until the timer
  preempts it, and its work leaves the process table and the locks alone (it does not sleep, exit, fork
  or change a priority), one round of the scheduler runs exactly the runnable processes of the highest
  priority, each once, in the order of the table; and it runs at least one whenever some process is runnable.\<close>

theorem sched_round_robin:
  assumes "held s = []" and "PtableLock \<notin> others s" and "length (procs s) = NPROC"
    and "\<forall>p \<in> set (procs s). state p = RUNNABLE \<longrightarrow> loadable p"
    and "busywork work"
  shows "\<exists>r s'. sched_round (time_slice work) s = Ret r s' \<and> r = filter (top_ready (procs s)) [0..<NPROC]
    \<and> procs s' = procs s \<and> ((\<exists>p \<in> set (procs s). state p = RUNNABLE) \<longrightarrow> r \<noteq> [])"
proof -
  let ?t = "s\<lparr>held := [PtableLock]\<rparr>"
  obtain s' where "sched_scan (time_slice work) [0..<NPROC] ?t = Ret (filter (top_ready (procs s)) [0..<NPROC]) s'"
    "procs s' = procs s" "held s' = [PtableLock]"
    using scan_slices [of ?t "[0..<NPROC]" work] assms by auto
  moreover have "filter (top_ready (procs s)) [0..<NPROC] \<noteq> []"
    if "p \<in> set (procs s)" "state p = RUNNABLE" for p
    using top_ready_exists [OF that] assms(3) by (auto simp: filter_empty_conv)
  ultimately show ?thesis
    using assms by (simp add: sched_round_def thn_acquire lock_free_def bnd_Ret thn_release) blast
qed

text \<open>Three runnable processes, two of them with the highest priority, and one that sleeps with a higher one.\<close>

definition ready :: "uint \<Rightarrow> proc" where
  "ready pr = zero_proc\<lparr>state := RUNNABLE, kstack := 0x80301000, pgdir := 0x80302000, priority := pr\<rparr>"

definition mixed_procs :: ptab where
  "mixed_procs = boot_ptab\<lparr>procs := [ready 10, ready 5, ready 10, zero_proc\<lparr>state := SLEEPING, priority := 20\<rparr>]
     @ replicate 60 zero_proc\<rparr>"

lemma mixed_sel: "procs mixed_procs = [ready 10, ready 5, ready 10, zero_proc\<lparr>state := SLEEPING, priority := 20\<rparr>]
     @ replicate 60 zero_proc" "held mixed_procs = []" "others mixed_procs = {}"
  by (simp_all add: mixed_procs_def boot_ptab_def)

lemma mixed_top: "filter (top_ready (procs mixed_procs)) [0..<NPROC] = [0, 2]"
proof -
  have e: "[0..<NPROC] = [0, 1, 2, 3] @ [4..<64]" by (simp add: NPROC_def upt_conv_Cons)
  have "procs mixed_procs ! k = zero_proc" if "4 \<le> k" "k < 64" for k
    using that by (simp add: mixed_sel nth_append)
  then have z: "filter (top_ready (procs mixed_procs)) [4..<64] = []"
    by (auto simp: filter_empty_conv top_ready_def zero_proc_def)
  have "is_highest (procs mixed_procs) (ready 10)" "\<not> is_highest (procs mixed_procs) (ready 5)"
    by (simp_all add: is_highest_def mixed_sel ready_def zero_proc_def)
  then show ?thesis
    unfolding e filter_append z by (simp add: top_ready_def mixed_sel) (simp add: ready_def)
qed

theorem sched_round_robin_witness:
  "\<exists>s'. sched_round (time_slice (\<lambda>i. upd (\<lambda>s. s\<lparr>ticks := ticks s + 1\<rparr>))) mixed_procs = Ret [0, 2] s' \<and> procs s' = procs mixed_procs"
proof -
  have w: "busywork (\<lambda>i. upd (\<lambda>s. s\<lparr>ticks := ticks s + 1\<rparr>) :: (ptab, unit) km)" by (simp add: busywork_def)
  have l: "\<forall>p \<in> set (procs mixed_procs). state p = RUNNABLE \<longrightarrow> loadable p"
    by (auto simp: mixed_sel loadable_def ready_def zero_proc_def)
  have "length (procs mixed_procs) = NPROC" by (simp add: mixed_sel NPROC_def)
  from sched_round_robin [OF mixed_sel(2) _ this l w] show ?thesis by (auto simp: mixed_sel(3) mixed_top)
qed

section \<open>Waiting for a child\<close>

lemma uvm_ok_procs [simp]:
  "uvm_ok (s\<lparr>procs := ps\<rparr>) fl d = uvm_ok s fl d" "frees (s\<lparr>procs := ps\<rparr>) fl = frees s fl"
  by (simp_all add: uvm_ok_def vm_ok_def frees_def kmem_ready_def lock_free_def)

lemma uvm_ok_held:
  "KmemLock \<notin> set h \<Longrightarrow> KmemLock \<notin> set (held s) \<Longrightarrow> uvm_ok (s\<lparr>held := h\<rparr>) fl d = uvm_ok s fl d"
  "KmemLock \<notin> set h \<Longrightarrow> KmemLock \<notin> set (held s) \<Longrightarrow> frees (s\<lparr>held := h\<rparr>) fl = frees s fl"
  by (simp_all add: uvm_ok_def vm_ok_def frees_def kmem_ready_def lock_free_def)

definition reaped :: "proc \<Rightarrow> proc" where
  "reaped p = p\<lparr>kstack := 0, pid := 0, parent := None, pname := (pname p)[0 := 0], killed := False, state := UNUSED\<rparr>"

lemma wait_run:
  assumes "lock_free PtableLock s" and "KmemLock \<notin> set (held s)" and "cur s = Some me"
    and "first_idx (\<lambda>p. parent p = Some me \<and> state p = ZOMBIE) (procs s) = Some i"
    and "uvm_ok s fl (pgdir (procs s ! i))"
    and "page_ok (kend s) (kstack (procs s ! i))"
    and "kpg (kstack (procs s ! i)) \<notin> kpg ` set fl \<union> ptpgs (mem s) (pgdir (procs s ! i))
           \<union> frames (entry (mem s) (pgdir (procs s ! i))) 0 UPAGES"
  shows "\<exists>s' fs. wait chan_of s = Ret (pid (procs s ! i)) s'
    \<and> frees s' (fs @ kstack (procs s ! i) # fl)
    \<and> kpg ` set fs = ptpgs (mem s) (pgdir (procs s ! i)) \<union> frames (entry (mem s) (pgdir (procs s ! i))) 0 UPAGES
    \<and> procs s' = (procs s)[i := reaped (procs s ! i)] \<and> held s' = held s"
proof -
  let ?p = "procs s ! i"
  let ?s1 = "s\<lparr>held := PtableLock # held s\<rparr>"
  have i: "i < length (procs s)" using assms(4) by (rule first_idx_bound)
  have "uvm_ok ?s1 fl (pgdir ?p)" using assms(2,5) by (subst uvm_ok_held) simp_all
  with uvm_kfree [of ?s1 fl "pgdir ?p" "kstack ?p"] assms(6,7) obtain s2 where
    s2: "kfree (kstack ?p) ?s1 = Ret () s2" "uvm_ok s2 (kstack ?p # fl) (pgdir ?p)" "pages_only ?s1 s2"
      "ptpgs (mem s2) (pgdir ?p) = ptpgs (mem s) (pgdir ?p)"
      "\<forall>n < 2 ^ 20. entry (mem s2) (pgdir ?p) n = entry (mem s) (pgdir ?p) n"
    by auto
  from s2(3) have e2: "procs s2 = procs s" "held s2 = PtableLock # held s" by (auto simp: pages_only_def)
  let ?s3 = "s2\<lparr>procs := (procs s)[i := ?p\<lparr>kstack := 0\<rparr>]\<rparr>"
  from freevm_ok [of ?s3 "kstack ?p # fl" "pgdir ?p"] s2(2) obtain s4 fs where
    s4: "freevm (pgdir ?p) ?s3 = Ret () s4" "frees s4 (fs @ kstack ?p # fl)" "pages_only ?s3 s4"
      "kpg ` set fs = ptpgs (mem s2) (pgdir ?p) \<union> frames (entry (mem s2) (pgdir ?p)) 0 UPAGES"
    by auto
  from s4(3) e2 have e4: "procs s4 = (procs s)[i := ?p\<lparr>kstack := 0\<rparr>]" "held s4 = PtableLock # held s"
    by (auto simp: pages_only_def)
  let ?s5 = "s4\<lparr>procs := (procs s)[i := reaped ?p], held := held s\<rparr>"
  have "wait chan_of s = Ret (pid ?p) ?s5"
    using assms(1,3,4) i e2 e4 s2(1) s4(1)
    by (simp add: wait_def thn_acquire wait_loop_def thn_Ret lock_release_def reaped_def)
  moreover have "frees ?s5 (fs @ kstack ?p # fl)"
    using s4(2) e4 assms(2) by (subst uvm_ok_held(2)) simp_all
  moreover have "frames (entry (mem s2) (pgdir ?p)) 0 UPAGES = frames (entry (mem s) (pgdir ?p)) 0 UPAGES"
    using s2(5) by (intro frames_cong) simp_all
  ultimately show ?thesis using s4(4) s2(4) e4 by auto
qed

text \<open>C34: \<^verbatim>\<open>wait\<close> returns the id of the first zombie child and gives everything it owned back: its kernel stack,
  its page tables and its user pages are free again, its slot is unused, the other slots are as
  before, and \<^verbatim>\<open>ptable.lock\<close> is released.\<close>

theorem wait_reaps:
  assumes "lock_free PtableLock s" and "KmemLock \<notin> set (held s)" and "cur s = Some me"
    and "first_idx (\<lambda>p. parent p = Some me \<and> state p = ZOMBIE) (procs s) = Some i"
    and "uvm_ok s fl (pgdir (procs s ! i))"
    and "page_ok (kend s) (kstack (procs s ! i))"
    and "kpg (kstack (procs s ! i)) \<notin> kpg ` set fl \<union> ptpgs (mem s) (pgdir (procs s ! i))
           \<union> frames (entry (mem s) (pgdir (procs s ! i))) 0 UPAGES"
  shows "\<exists>s' fs. wait chan_of s = Ret (pid (procs s ! i)) s'
    \<and> frees s' (fs @ kstack (procs s ! i) # fl)
    \<and> kpg ` set fs = ptpgs (mem s) (pgdir (procs s ! i)) \<union> frames (entry (mem s) (pgdir (procs s ! i))) 0 UPAGES
    \<and> procs s' = (procs s)[i := reaped (procs s ! i)] \<and> held s' = held s"
  using assms by (rule wait_run)

text \<open>A process with one zombie child, whose address space is the one of \<open>chain_phys\<close>.\<close>

definition parent_ptab :: ptab where
  "parent_ptab = phys.extend (chain_phys 3) (ptab.fields
     [zero_proc\<lparr>state := RUNNING, pid := 1\<rparr>,
      zero_proc\<lparr>state := ZOMBIE, pid := 7, parent := Some 0, kstack := 0x80310000, pgdir := chain_dir\<rparr>]
     (Some 0) 8 (Some 0) 0x803FF000 0 0 0 0 0 [])"

lemma parent_phys:
  "uvm_ok parent_ptab fl d = uvm_ok (chain_phys 3) fl d" "mem parent_ptab = chain_mem 3"
  "kend parent_ptab = 0x80200000" "held parent_ptab = []" "others parent_ptab = {}"
  by (simp_all add: parent_ptab_def phys.defs ptab.defs chain_phys_def uvm_ok_def vm_ok_def frees_def
      kmem_ready_def lock_free_def)

lemma parent_procs:
  "procs parent_ptab = [zero_proc\<lparr>state := RUNNING, pid := 1\<rparr>,
    zero_proc\<lparr>state := ZOMBIE, pid := 7, parent := Some 0, kstack := 0x80310000, pgdir := chain_dir\<rparr>]"
  "cur parent_ptab = Some 0"
  by (simp_all add: parent_ptab_def phys.defs ptab.defs)

lemma chain_stack:
  "kpg 0x80310000 \<notin> kpg ` set (map chain_page [0..<3]) \<union> ptpgs (chain_mem 3) chain_dir
    \<union> frames (entry (chain_mem 3) chain_dir) 0 UPAGES" "page_ok 0x80200000 0x80310000"
proof -
  have fr: "frames (entry (chain_mem 3) chain_dir) 0 UPAGES \<subseteq> {0x302}"
  proof -
    have "entry (chain_mem 3) chain_dir n = (if n = 0 then 0x302007 else 0)" if "n < UPAGES" for n
      using chain_table(3) [of n 3] that by simp
    then show ?thesis by (auto simp: frames_def frm_def split: if_splits)
  qed
  show "page_ok 0x80200000 0x80310000" by (simp add: V2P_def page_ok_def)
  have k: "kpg 0x80310000 = 0x310" by (simp add: kpg_def V2P_def)
  have "0x400 \<le> kpg (chain_page i)" if "i < 3" for i using chain_page_num(2) [of i] that by simp
  then have fl: "x \<noteq> 0x310" if "x \<in> kpg ` set (map chain_page [0..<3])" for x
    using that unfolding set_map set_upt by fastforce
  have "0x310 \<notin> ptpgs (chain_mem 3) chain_dir" by (simp add: chain_table(2))
  moreover have "0x310 \<notin> frames (entry (chain_mem 3) chain_dir) 0 UPAGES" using fr by auto
  moreover have "0x310 \<notin> kpg ` set (map chain_page [0..<3])" using fl by blast
  ultimately show "kpg 0x80310000 \<notin> kpg ` set (map chain_page [0..<3]) \<union> ptpgs (chain_mem 3) chain_dir
      \<union> frames (entry (chain_mem 3) chain_dir) 0 UPAGES"
    unfolding k Un_iff by blast
qed

theorem wait_reaps_witness:
  "\<exists>s'. wait (\<lambda>_. 0) parent_ptab = Ret 7 s' \<and> state (procs s' ! 1) = UNUSED"
proof -
  have "uvm_ok parent_ptab (map chain_page [0..<3]) chain_dir"
    unfolding parent_phys(1) using chain_uvm [of 3] by (simp del: upt_rec_numeral)
  then show ?thesis
    using wait_reaps [of parent_ptab 0 1 "map chain_page [0..<3]" "\<lambda>_. 0"] chain_stack
    by (auto simp: parent_phys parent_procs lock_free_def reaped_def zero_proc_def simp del: upt_rec_numeral)
qed

section \<open>A kill that hits an unused slot\<close>

text \<open>C35: \<^verbatim>\<open>kill(0)\<close> succeeds although no process has id 0: it marks the first slot whose id is 0, an unused
  one, as killed; \<^verbatim>\<open>allocproc\<close> does not clear the mark, so the next process is born killed.\<close>

theorem kill_zero_marks_next:
  assumes "lock_free PtableLock s" and "frees s (ks # fl)" and "length (procs s) = NPROC"
    and "first_idx (\<lambda>p. state p = UNUSED) (procs s) = Some i" and "first_idx (\<lambda>p. pid p = 0) (procs s) = Some i"
  shows "\<exists>s1 s2. kill 0 s = Ret 0 s1 \<and> allocproc tr fr s1 = Ret (Some i) s2
    \<and> state (procs s2 ! i) = EMBRYO \<and> killed (procs s2 ! i)"
proof -
  let ?s1 = "s\<lparr>procs := (procs s)[i := (procs s ! i)\<lparr>killed := True\<rparr>]\<rparr>"
  have i: "i < length (procs s)" and u: "state (procs s ! i) = UNUSED"
    using first_idx_bound first_idx_sat assms(4) by blast+
  have k: "kill 0 s = Ret 0 ?s1"
    using assms i u by (simp add: kill_def thn_acquire thn_release)
  have f: "first_idx (\<lambda>p. state p = UNUSED) (procs ?s1) = Some i"
    using assms(4) by (auto simp: first_idx_Some nth_upd)
  have "frees (embryo i ?s1) (ks # fl)"
    using assms(2) by (simp add: embryo_def frees_def kmem_ready_def lock_free_def)
  then have "kalloc (embryo i ?s1) = Ret ks ((embryo i ?s1)\<lparr>freelist := mem s (kw ks)\<rparr>)" and "ks \<noteq> 0"
    using frees_kalloc_cons(1) [of "embryo i ?s1" ks fl] by (simp_all add: embryo_def frees_def)
  moreover have "lock_free PtableLock ?s1" using assms(1) by (simp add: lock_free_def)
  ultimately show ?thesis
    using k f i assms(3)
    by (simp add: allocproc_split alloc_stack_def bnd_Ret Let_def st32_def memset_words_def)
      (simp add: embryo_def)
qed

theorem kill_zero_marks_next_witness:
  "\<exists>s1 s2. kill 0 boot_ptab = Ret 0 s1 \<and> allocproc 1 2 s1 = Ret (Some 0) s2 \<and> killed (procs s2 ! 0)"
proof -
  have "first_idx (\<lambda>p. state p = UNUSED) (procs boot_ptab) = Some 0"
    "first_idx (\<lambda>p. pid p = 0) (procs boot_ptab) = Some 0"
    by (simp_all add: boot_ptab_def NPROC_def zero_proc_def eval_nat_numeral)
  moreover have "frees boot_ptab [0x80300000]"
    by (simp add: frees_def boot_ptab_def kmem_ready_def lock_free_def page_ok_def V2P_def)
  ultimately show ?thesis
    using kill_zero_marks_next [of boot_ptab "0x80300000" "[]" 0 1 2] boot_ptab_table by auto
qed

end
