(* ===== verification/Pids.thy ===== *)
theory Pids
  imports ProcProps
begin

unbundle bit_operations_syntax

text \<open>
  Process ids. In every state the steps of \<^verbatim>\<open>ProcInv\<close> reach, the ids of the processes in use and those that \<^verbatim>\<open>wait\<close>
  has returned are different; the example goes from the empty table through \<^verbatim>\<open>fork\<close> and \<^verbatim>\<open>exit\<close> to the \<^verbatim>\<open>wait\<close> that
  collects the child.
\<close>

section \<open>The invariant along a run\<close>

lemma ptab_reach_inv:
  assumes "ptab_reach chan_of s0 n gone s" and "boot_table s0" and "n < 2 ^ 32 - 2"
  shows "pids_inv (set gone) s \<and> distinct gone \<and> unat (nextpid s) \<le> Suc n"
  using assms
proof (induction rule: ptab_reach.induct)
  case start
  then show ?case by (simp add: boot_table_def pids_inv_def pids_ok_def active_def zero_proc_def)
next
  case (step n gone s r s')
  then have IH: "pids_inv (set gone) s" "distinct gone" "unat (nextpid s) \<le> Suc n" and n: "Suc n < 2 ^ 32 - 2" by simp_all
  have "nextpid s \<noteq> - 1"
  proof
    assume "nextpid s = - 1"
    then have "unat (nextpid s) = 2 ^ 32 - 1"
      by (simp add: unsigned_minus_1_eq_mask mask_eq_exp_minus_1)
    with IH(3) n show False by simp
  qed
  with ptab_step_inv [OF step(2) IH(1)] have r: "pids_inv (set (r @ gone)) s'" "distinct (r @ gone)"
    and nx: "nextpid s' = nextpid s \<or> nextpid s' = nextpid s + 1" using IH(2) by auto
  have "unat (nextpid s + 1) \<le> Suc (unat (nextpid s))" by (simp add: unat_word_ariths mod_less_eq_dividend)
  with nx IH(3) have "unat (nextpid s') \<le> Suc (Suc n)" by auto
  with r show ?case by simp
qed

lemma distinct_filter_map:
  assumes "\<forall>i < length xs. \<forall>j < length xs. P (xs ! i) \<longrightarrow> P (xs ! j) \<longrightarrow> f (xs ! i) = f (xs ! j) \<longrightarrow> i = j"
  shows "distinct (map f (filter P xs))"
  using assms
proof (induction xs)
  case (Cons x xs)
  have "\<forall>i < length xs. \<forall>j < length xs. P (xs ! i) \<longrightarrow> P (xs ! j) \<longrightarrow> f (xs ! i) = f (xs ! j) \<longrightarrow> i = j"
    using Cons.prems by (metis Suc_less_eq length_Cons nth_Cons_Suc nat.inject)
  moreover have "f x \<noteq> f y" if "P x" "y \<in> set xs" "P y" for y
  proof -
    from that(2) obtain j where "j < length xs" "xs ! j = y" by (auto simp: in_set_conv_nth)
    then show ?thesis using Cons.prems [rule_format, of 0 "Suc j"] that by auto
  qed
  ultimately show ?case using Cons.IH by auto
qed simp

lemma pids_inv_distinct:
  assumes "pids_inv (set gone) s" and "distinct gone"
  shows "distinct (map pid (filter active (procs s)) @ gone) \<and> 0 \<notin> set (map pid (filter active (procs s)) @ gone)"
proof -
  have ok: "pids_ok (set gone) (procs s) (nextpid s)" using assms(1) by (simp add: pids_inv_def)
  have at: "pid p \<noteq> 0 \<and> pid p \<notin> set gone" if "p \<in> set (procs s)" "active p" for p
    using that ok unfolding pids_ok_def in_set_conv_nth by (metis word_gt_0)
  have "distinct (map pid (filter active (procs s)))"
    by (rule distinct_filter_map) (use ok in \<open>simp add: pids_ok_def\<close>)
  moreover have "0 \<notin> set gone" using ok by (auto simp: pids_ok_def)
  ultimately show ?thesis using assms(2) at by (auto simp: disjoint_iff)
qed

text \<open>C30: process ids are unique, and stay so. From the empty table, after any number of steps below the wrap-around of
  \<^verbatim>\<open>nextpid\<close>, in any order, the ids of the processes in use and the ids \<^verbatim>\<open>wait\<close> has returned are all different, and
  none of them is 0: no two processes share an id, no process is collected twice, and the id of a collected process
  is not in use again.\<close>

theorem pids_unique:
  assumes "boot_table s0" and "ptab_reach chan_of s0 n gone s" and "n < 2 ^ 32 - 2"
  shows "distinct (map pid (filter active (procs s)) @ gone) \<and> 0 \<notin> set (map pid (filter active (procs s)) @ gone)"
  using pids_inv_distinct ptab_reach_inv [OF assms(2,1,3)] by blast

section \<open>From the empty table to a collected child\<close>

text \<open>What matters of the slots along the way.\<close>

type_synonym slot = "procstate \<times> uint \<times> uint \<times> uint \<times> nat option \<times> uint"

definition slot_of :: "proc \<Rightarrow> slot" where
  "slot_of p = (state p, pid p, kstack p, pgdir p, parent p, priority p)"

definition table_at :: "slot \<Rightarrow> slot \<Rightarrow> nat option \<Rightarrow> lockid list \<Rightarrow> uint \<Rightarrow> ptab \<Rightarrow> bool" where
  "table_at a b c h n s \<longleftrightarrow> map slot_of (procs s) = a # b # replicate 62 (slot_of zero_proc)
     \<and> cur s = c \<and> held s = h \<and> others s = {} \<and> nextpid s = n \<and> kend s = 0x80200000"

definition visits :: "nat \<Rightarrow> slot \<Rightarrow> slot \<Rightarrow> nat option \<Rightarrow> lockid list \<Rightarrow> uint \<Rightarrow> bool" where
  "visits k a b c h n \<longleftrightarrow> (\<exists>s. ptab_reach (\<lambda>_. 0) boot_ptab k [] s \<and> table_at a b c h n s)"

lemma visits_step:
  assumes "visits k a b c h n" and "k' = Suc k"
    and "\<And>s. table_at a b c h n s \<Longrightarrow> \<exists>s'. ptab_step (\<lambda>_. 0) s [] s' \<and> table_at a' b' c' h' n' s'"
  shows "visits k' a' b' c' h' n'"
proof -
  from assms(1) obtain s where s: "ptab_reach (\<lambda>_. 0) boot_ptab k [] s" "table_at a b c h n s"
    by (auto simp: visits_def)
  from assms(3) [OF s(2)] obtain s' where "ptab_step (\<lambda>_. 0) s [] s'" "table_at a' b' c' h' n' s'" by blast
  with ptab_reach.step [OF s(1)] show ?thesis unfolding visits_def assms(2) by fastforce
qed

text \<open>Reading the table through the slots.\<close>

lemma table_slots:
  assumes "table_at a b c h n s"
  shows "length (procs s) = NPROC" "slot_of (procs s ! 0) = a" "slot_of (procs s ! Suc 0) = b" "cur s = c" "held s = h"
    "others s = {}" "nextpid s = n" "kend s = 0x80200000"
    "set (procs s) \<subseteq> {p. slot_of p = a \<or> slot_of p = b \<or> slot_of p = slot_of zero_proc}"
proof -
  have m: "map slot_of (procs s) = a # b # replicate 62 (slot_of zero_proc)" using assms by (simp add: table_at_def)
  then have "length (map slot_of (procs s)) = 64" by simp
  then show len: "length (procs s) = NPROC" by (simp add: NPROC_def)
  then have "map slot_of (procs s) ! i = slot_of (procs s ! i)" if "i < 64" for i using that by (simp add: NPROC_def)
  from this [of 0] this [of 1] m show "slot_of (procs s ! 0) = a" "slot_of (procs s ! Suc 0) = b" by simp_all
  have "slot_of ` set (procs s) \<subseteq> {a, b, slot_of zero_proc}"
    using arg_cong [OF m, of set] by (auto simp: set_replicate_conv_if)
  then show "set (procs s) \<subseteq> {p. slot_of p = a \<or> slot_of p = b \<or> slot_of p = slot_of zero_proc}" by auto
qed (use assms in \<open>simp_all add: table_at_def\<close>)

lemma table_upd:
  assumes "table_at a b c h n s"
  shows "procs t = (procs s)[0 := p] \<Longrightarrow> slot_of p = a' \<Longrightarrow> cur t = c' \<Longrightarrow> held t = h' \<Longrightarrow> others t = {} \<Longrightarrow> nextpid t = n' \<Longrightarrow>
      kend t = kend s \<Longrightarrow> table_at a' b c' h' n' t"
    and "procs t = (procs s)[Suc 0 := p] \<Longrightarrow> slot_of p = b' \<Longrightarrow> cur t = c' \<Longrightarrow> held t = h' \<Longrightarrow> others t = {} \<Longrightarrow> nextpid t = n' \<Longrightarrow>
      kend t = kend s \<Longrightarrow> table_at a b' c' h' n' t"
    and "procs t = procs s \<Longrightarrow> cur t = c' \<Longrightarrow> held t = h' \<Longrightarrow> others t = {} \<Longrightarrow> nextpid t = n' \<Longrightarrow>
      kend t = kend s \<Longrightarrow> table_at a b c' h' n' t"
  using assms by (simp_all add: table_at_def map_update)

lemma first_slot:
  assumes "table_at a b c h n s" and "\<And>p. P p = Q (slot_of p)"
  shows "first_idx P (procs s) = first_idx Q (a # b # replicate 62 (slot_of zero_proc))"
proof -
  have "first_idx Q (map slot_of xs) = first_idx P xs" for xs by (induction xs) (simp_all add: assms(2))
  from this [of "procs s"] assms(1) show ?thesis by (simp add: table_at_def)
qed

section \<open>The steps of the example\<close>

lemma alloc_run:
  fixes s :: ptab
  assumes "lock_free PtableLock s" and "kmem_ready s" and "length (procs s) = NPROC"
    and "first_idx (\<lambda>p. state p = UNUSED) (procs s) = Some i" and "freelist s \<noteq> 0"
  shows "\<exists>q t. fin (allocproc tr fr s) = t \<and> procs t = (procs s)[i := q] \<and> cur t = cur s \<and> held t = held s \<and> others t = others s
    \<and> nextpid t = nextpid s + 1 \<and> kend t = kend s
    \<and> slot_of q = (EMBRYO, nextpid s, freelist s, pgdir (procs s ! i), parent (procs s ! i), 10)"
proof -
  have i: "i < NPROC" using first_idx_bound [OF assms(4)] assms(3) by simp
  have "kmem_ready (embryo i s)" using assms(2) by (simp add: kmem_ready_def lock_free_def embryo_def)
  then have "kalloc (embryo i s) = Ret (freelist s) ((embryo i s)\<lparr>freelist := mem s (kw (freelist s))\<rparr>)"
    using assms(5) by (simp add: kalloc_run) (simp add: embryo_def)
  with assms i show ?thesis
    by (simp add: allocproc_split alloc_stack_def bnd_Ret Let_def st32_def memset_words_def)
      (simp add: embryo_def slot_of_def, rule exI, intro conjI, rule refl, simp_all)
qed

lemma at_alloc:
  assumes "table_at a b c [] n s" and "freelist s \<noteq> 0" and "first_idx (\<lambda>x. fst x = UNUSED) (a # b # replicate 62 (slot_of zero_proc)) = Some i"
  shows "i = 0 \<Longrightarrow> a = (UNUSED, x, y, d, q, w) \<Longrightarrow>
      \<exists>s'. ptab_step (\<lambda>_. 0) s [] s' \<and> table_at (EMBRYO, n, freelist s, d, q, 10) b c [] (n + 1) s'"
    and "i = Suc 0 \<Longrightarrow> b = (UNUSED, x, y, d, q, w) \<Longrightarrow>
      \<exists>s'. ptab_step (\<lambda>_. 0) s [] s' \<and> table_at a (EMBRYO, n, freelist s, d, q, 10) c [] (n + 1) s'"
proof -
  note T = table_slots [OF assms(1)]
  have f: "first_idx (\<lambda>p. state p = UNUSED) (procs s) = Some i"
    using first_slot [OF assms(1), of "\<lambda>p. state p = UNUSED" "\<lambda>x. fst x = UNUSED"] assms(3) by (simp add: slot_of_def)
  have "lock_free PtableLock s" "kmem_ready s" using T by (simp_all add: lock_free_def kmem_ready_def)
  from alloc_run [OF this T(1) f assms(2)] obtain q' t where
    t: "fin (allocproc 1 2 s) = t" "procs t = (procs s)[i := q']" "cur t = cur s" "held t = held s" "others t = others s"
      "nextpid t = nextpid s + 1" "kend t = kend s"
      "slot_of q' = (EMBRYO, nextpid s, freelist s, pgdir (procs s ! i), parent (procs s ! i), 10)" by blast
  have st: "ptab_step (\<lambda>_. 0) s [] t" using ptab_step.alloc [of "\<lambda>_. 0" s 1 2] t(1) by simp
  show "\<exists>s'. ptab_step (\<lambda>_. 0) s [] s' \<and> table_at (EMBRYO, n, freelist s, d, q, 10) b c [] (n + 1) s'"
    if "i = 0" "a = (UNUSED, x, y, d, q, w)"
  proof -
    have "slot_of q' = (EMBRYO, n, freelist s, d, q, 10)" using T(2,7) t(8) that by (simp add: slot_of_def)
    with st t T that(1) show ?thesis by (intro exI [of _ t] conjI table_upd(1) [OF assms(1)]) simp_all
  qed
  show "\<exists>s'. ptab_step (\<lambda>_. 0) s [] s' \<and> table_at a (EMBRYO, n, freelist s, d, q, 10) c [] (n + 1) s'"
    if "i = Suc 0" "b = (UNUSED, x, y, d, q, w)"
  proof -
    have "slot_of q' = (EMBRYO, n, freelist s, d, q, 10)" using T(3,7) t(8) that by (simp add: slot_of_def)
    with st t T that(1) show ?thesis by (intro exI [of _ t] conjI table_upd(2) [OF assms(1)]) simp_all
  qed
qed

lemma dispatch_run:
  fixes s :: ptab
  assumes "i < NPROC" and "state (procs s ! i) = RUNNABLE" and "is_highest (procs s) (procs s ! i)" and "loadable (procs s ! i)"
    and "\<not> (\<exists>me. running me s)"
  shows "\<exists>t. ptab_step chan_of s [] t \<and> procs t = (procs s)[i := (procs s ! i)\<lparr>state := RUNNING\<rparr>] \<and> cur t = Some i \<and> held t = held s
    \<and> others t = others s \<and> nextpid t = nextpid s \<and> kend t = kend s \<and> freelist t = freelist s"
proof -
  have u: "[i..<NPROC] = i # [Suc i..<NPROC]" using assms(1) by (simp add: upt_conv_Cons)
  show ?thesis
    using ptab_step.dispatch [OF assms(5), of chan_of i] assms(2-4)
    unfolding u by (simp add: thn_switchuvm loadable_def) fastforce
qed

lemma for_each_idle: "(\<forall>x \<in> set xs. body x s = Ret () s) \<Longrightarrow> for_each xs body s = Ret () s"
  by (induction xs) (simp_all add: thn_Ret)

lemma exit_run:
  fixes s :: ptab
  assumes "held s = []" and "others s = {}" and "length (procs s) = NPROC" and "cur s = Some me" and "me < NPROC"
    and "\<forall>p \<in> set (procs s). parent p \<noteq> Some me \<and> state p \<noteq> SLEEPING"
  shows "fin (exit_tail chan_of me s) = s\<lparr>held := [PtableLock], procs := (procs s)[me := (procs s ! me)\<lparr>state := ZOMBIE\<rparr>]\<rparr>"
proof -
  have "map (woken ch) (procs s) = procs s" for ch using assms(6) by (intro map_idI) (simp add: woken_def)
  then have w: "wakeup1 ch (s\<lparr>held := [PtableLock]\<rparr>) = Ret () (s\<lparr>held := [PtableLock]\<rparr>)" for ch
    using wakeup1_run [of "s\<lparr>held := [PtableLock]\<rparr>" ch] assms(3) by simp
  have f: "for_each [0..<NPROC] (\<lambda>i. bnd (getp i parent) (\<lambda>pp.
       if pp = Some me then
         thn (upd_proc i (\<lambda>p. p\<lparr>parent := ip\<rparr>)) (
         bnd (getp i state) (\<lambda>st.
         if st = ZOMBIE then wakeup1 (case ip of Some q \<Rightarrow> chan_of q | None \<Rightarrow> 0) else ret ()))
       else ret ())) (s\<lparr>held := [PtableLock]\<rparr>) = Ret () (s\<lparr>held := [PtableLock]\<rparr>)" for ip
    using assms(3,6) by (intro for_each_idle) simp
  have "lock_free PtableLock s" using assms by (simp add: lock_free_def)
  then show ?thesis
    using assms(1,3-5) by (simp add: exit_tail_def thn_acquire thn_Ret thn_Stop w f sched_def lock_holding_def)
qed

text \<open>The steps on tables.\<close>

lemma exI_conj: "P x \<Longrightarrow> Q x \<Longrightarrow> \<exists>x. P x \<and> Q x"
  by blast

lemma at_running:
  assumes "table_at a b c h n s" and "c = Some 0 \<and> fst a = RUNNING \<or> c = Some (Suc 0) \<and> fst b = RUNNING"
  shows "running (the c) s"
  using table_slots(2-4) [OF assms(1)] assms(2) by (auto simp: running_def slot_of_def NPROC_def)

lemma at_inits:
  assumes "table_at (EMBRYO, x, y, d, q, w) b None h n s"
  shows "\<exists>s'. ptab_step (\<lambda>_. 0) s [] s' \<and> table_at (EMBRYO, x, y, d', q, w) b None h n s'"
proof -
  note T = table_slots [OF assms]
  have "state (procs s ! 0) = EMBRYO" using T(2) by (simp add: slot_of_def)
  from ptab_step.inits [OF T(4) this, where d = d' and z = 0 and c = None and nm = "[]" and chan_of = "\<lambda>_. 0"] show ?thesis
    by (rule exI_conj) (rule table_upd(1) [OF assms, where p = "(procs s ! 0)\<lparr>pgdir := d', psz := 0, cwd := None, pname := []\<rparr>"],
      use T in \<open>simp_all add: slot_of_def\<close>)
qed

lemma at_fills:
  assumes "table_at a (EMBRYO, x, y, d, q, w) (Some 0) h n s" and "fst a = RUNNING"
  shows "\<exists>s'. ptab_step (\<lambda>_. 0) s [] s' \<and> table_at a (EMBRYO, x, y, d', Some 0, w) (Some 0) h n s'"
proof -
  note T = table_slots [OF assms(1)]
  have "state (procs s ! Suc 0) = EMBRYO" "running 0 s"
    using T(3) at_running [OF assms(1)] assms(2) by (simp_all add: slot_of_def)
  from ptab_step.fills [OF this(2,1), where d = d' and z = 0 and fs = "[]" and c = None and nm = "[]" and chan_of = "\<lambda>_. 0"] show ?thesis
    by (rule exI_conj) (rule table_upd(2) [OF assms(1), where
        p = "(procs s ! Suc 0)\<lparr>pgdir := d', psz := 0, parent := Some 0, ofile := [], cwd := None, pname := []\<rparr>"],
      use T in \<open>simp_all add: slot_of_def\<close>)
qed

text \<open>A running process 0 that has memory for a kernel stack at \<open>l\<close>.\<close>

lemma at_works:
  assumes "table_at a b (Some 0) h n s" and "fst a = RUNNING"
  shows "\<exists>s'. ptab_step (\<lambda>_. 0) s [] s' \<and> table_at a b (Some 0) h n s' \<and> mem s' = m \<and> freelist s' = l"
proof -
  note T = table_slots [OF assms(1)]
  let ?p = "procs s ! 0"
  have "running 0 s" using at_running [OF assms(1)] assms(2) by simp
  from ptab_step.works [OF this, where d = "pgdir ?p" and z = "psz ?p" and t = "tf ?p" and fs = "ofile ?p" and c = "cwd ?p" and nm = "pname ?p"
      and m = m and l = l and chan_of = "\<lambda>_. 0"] show ?thesis
    by (rule exI_conj) (intro conjI, rule table_upd(1) [OF assms(1), where p = ?p], use T in \<open>simp_all add: slot_of_def\<close>)
qed

lemma at_publish:
  shows "table_at (EMBRYO, x) b c [] n s \<Longrightarrow> \<exists>s'. ptab_step (\<lambda>_. 0) s [] s' \<and> table_at (RUNNABLE, x) b c [] n s'"
    and "table_at a (EMBRYO, x) c [] n s \<Longrightarrow> \<exists>s'. ptab_step (\<lambda>_. 0) s [] s' \<and> table_at a (RUNNABLE, x) c [] n s'"
proof -
  have m: "fin (make_runnable i s) = s\<lparr>procs := (procs s)[i := (procs s ! i)\<lparr>state := RUNNABLE\<rparr>]\<rparr>" if "table_at a b c [] n s" for a b i
    using table_slots [OF that] by (simp add: make_runnable_def thn_acquire lock_free_def lock_release_run)
  show "\<exists>s'. ptab_step (\<lambda>_. 0) s [] s' \<and> table_at (RUNNABLE, x) b c [] n s'" if t: "table_at (EMBRYO, x) b c [] n s"
  proof -
    note T = table_slots [OF t]
    have "state (procs s ! 0) = EMBRYO" using T(2) by (cases x) (simp add: slot_of_def)
    from ptab_step.publish [OF this, of "\<lambda>_. 0"] show ?thesis
      unfolding m [OF t] by (rule exI_conj) (rule table_upd(1) [OF t, where p = "(procs s ! 0)\<lparr>state := RUNNABLE\<rparr>"],
        use T in \<open>auto simp: slot_of_def\<close>)
  qed
  show "\<exists>s'. ptab_step (\<lambda>_. 0) s [] s' \<and> table_at a (RUNNABLE, x) c [] n s'" if t: "table_at a (EMBRYO, x) c [] n s"
  proof -
    note T = table_slots [OF t]
    have "state (procs s ! Suc 0) = EMBRYO" using T(3) by (cases x) (simp add: slot_of_def)
    from ptab_step.publish [OF this, of "\<lambda>_. 0"] show ?thesis
      unfolding m [OF t] by (rule exI_conj) (rule table_upd(2) [OF t, where p = "(procs s ! Suc 0)\<lparr>state := RUNNABLE\<rparr>"],
        use T in \<open>auto simp: slot_of_def\<close>)
  qed
qed

lemma at_enters:
  assumes "table_at a b None [] n s"
  shows "\<exists>s'. ptab_step (\<lambda>_. 0) s [] s' \<and> table_at a b None [PtableLock] n s'"
proof -
  note T = table_slots(1-8) [OF assms]
  have l: "fin (lock_acquire PtableLock s) = s\<lparr>held := [PtableLock]\<rparr>" using T by (simp add: lock_acquire_run lock_free_def)
  from ptab_step.enters [OF T(4), of "\<lambda>_. 0"] show ?thesis
    unfolding l by (rule exI_conj) (rule table_upd(3) [OF assms], use T in simp_all)
qed

lemma at_resumes:
  assumes "table_at a b c [PtableLock] n s" and "c = Some 0 \<and> fst a = RUNNING \<or> c = Some (Suc 0) \<and> fst b = RUNNING"
  shows "\<exists>s'. ptab_step (\<lambda>_. 0) s [] s' \<and> table_at a b c [] n s'"
proof -
  note T = table_slots(1-8) [OF assms(1)]
  have l: "fin (yield_resumed s) = s\<lparr>held := []\<rparr>" using T by (simp add: yield_resumed_def lock_release_run)
  from ptab_step.resumes [OF at_running [OF assms], of "\<lambda>_. 0"] show ?thesis
    unfolding l by (rule exI_conj) (rule table_upd(3) [OF assms(1)], use T in simp_all)
qed

lemma at_yields:
  assumes "table_at (RUNNING, x) b (Some 0) [] n s"
  shows "\<exists>s'. ptab_step (\<lambda>_. 0) s [] s' \<and> table_at (RUNNABLE, x) b (Some 0) [PtableLock] n s'"
proof -
  note T = table_slots(1-8) [OF assms]
  have r: "running 0 s" using at_running [OF assms] by simp
  have y: "fin (yield s) = s\<lparr>held := [PtableLock], procs := (procs s)[0 := (procs s ! 0)\<lparr>state := RUNNABLE\<rparr>]\<rparr>"
    using T by (simp add: yield_def thn_acquire lock_free_def sched_def lock_holding_def NPROC_def)
  from ptab_step.yields [OF r, of "\<lambda>_. 0"] show ?thesis
    unfolding y by (rule exI_conj) (rule table_upd(1) [OF assms, where p = "(procs s ! 0)\<lparr>state := RUNNABLE\<rparr>"],
      use T in \<open>auto simp: slot_of_def\<close>)
qed

lemma at_highest:
  assumes "table_at a b c h n s" and "fst a = RUNNABLE \<Longrightarrow> snd (snd (snd (snd (snd a)))) = 10" and "fst b = RUNNABLE \<Longrightarrow> snd (snd (snd (snd (snd b)))) = 10"
    and "priority p = 10"
  shows "is_highest (procs s) p"
proof -
  have "priority q = 10" if "q \<in> set (procs s)" "state q = RUNNABLE" for q
  proof -
    have "slot_of q = a \<or> slot_of q = b \<or> slot_of q = slot_of zero_proc" using table_slots(9) [OF assms(1)] that(1) by blast
    then show ?thesis using assms(2,3) that(2) by (auto simp: slot_of_def zero_proc_def)
  qed
  then show ?thesis using assms(4) by (auto simp: is_highest_def)
qed

lemma at_dispatch:
  shows "table_at (RUNNABLE, x, y, d, q, 10) b c h n s \<Longrightarrow> y \<noteq> 0 \<Longrightarrow> d \<noteq> 0 \<Longrightarrow> fst b \<in> {UNUSED, ZOMBIE} \<Longrightarrow>
      \<exists>s'. ptab_step (\<lambda>_. 0) s [] s' \<and> table_at (RUNNING, x, y, d, q, 10) b (Some 0) h n s'"
    and "table_at (RUNNABLE, x', y', d', q', 10) (RUNNABLE, x, y, d, q, 10) c h n s \<Longrightarrow> y \<noteq> 0 \<Longrightarrow> d \<noteq> 0 \<Longrightarrow>
      \<exists>s'. ptab_step (\<lambda>_. 0) s [] s' \<and> table_at (RUNNABLE, x', y', d', q', 10) (RUNNING, x, y, d, q, 10) (Some (Suc 0)) h n s'"
proof -
  have r: "\<not> (\<exists>me. running me s)" if t: "table_at a b c h n s" "fst a \<noteq> RUNNING" "fst b \<noteq> RUNNING" for a b
  proof
    assume "\<exists>me. running me s"
    then obtain me where "me < length (procs s)" "state (procs s ! me) = RUNNING" using table_slots(1) [OF t(1)] by (auto simp: running_def)
    then obtain p where "p \<in> set (procs s)" "state p = RUNNING" using nth_mem by blast
    then show False using table_slots(9) [OF t(1)] t(2,3) by (fastforce simp: slot_of_def zero_proc_def)
  qed
  show "\<exists>s'. ptab_step (\<lambda>_. 0) s [] s' \<and> table_at (RUNNING, x, y, d, q, 10) b (Some 0) h n s'"
    if t: "table_at (RUNNABLE, x, y, d, q, 10) b c h n s" "y \<noteq> 0" "d \<noteq> 0" "fst b \<in> {UNUSED, ZOMBIE}"
  proof -
    note T = table_slots(1-8) [OF t(1)]
    have p: "state (procs s ! 0) = RUNNABLE" "priority (procs s ! 0) = 10" "loadable (procs s ! 0)"
      using T(2) t(2,3) by (auto simp: slot_of_def loadable_def)
    have "is_highest (procs s) (procs s ! 0)" by (rule at_highest [OF t(1)]) (use t(4) p(2) in auto)
    from dispatch_run [OF _ p(1) this p(3) r [OF t(1)], of "\<lambda>_. 0"] t(4) T obtain u where
      u: "ptab_step (\<lambda>_. 0) s [] u" "procs u = (procs s)[0 := (procs s ! 0)\<lparr>state := RUNNING\<rparr>]" "cur u = Some 0" "held u = held s"
        "others u = others s" "nextpid u = nextpid s" "kend u = kend s" by (auto simp: NPROC_def)
    from u(1) show ?thesis by (rule exI_conj) (rule table_upd(1) [OF t(1) u(2)], use T u in \<open>auto simp: slot_of_def\<close>)
  qed
  show "\<exists>s'. ptab_step (\<lambda>_. 0) s [] s' \<and> table_at (RUNNABLE, x', y', d', q', 10) (RUNNING, x, y, d, q, 10) (Some (Suc 0)) h n s'"
    if t: "table_at (RUNNABLE, x', y', d', q', 10) (RUNNABLE, x, y, d, q, 10) c h n s" "y \<noteq> 0" "d \<noteq> 0"
  proof -
    note T = table_slots(1-8) [OF t(1)]
    have p: "state (procs s ! Suc 0) = RUNNABLE" "priority (procs s ! Suc 0) = 10" "loadable (procs s ! Suc 0)"
      using T(3) t(2,3) by (auto simp: slot_of_def loadable_def)
    have "is_highest (procs s) (procs s ! Suc 0)" by (rule at_highest [OF t(1)]) (use p(2) in auto)
    from dispatch_run [OF _ p(1) this p(3) r [OF t(1)], of "\<lambda>_. 0"] T obtain u where
      u: "ptab_step (\<lambda>_. 0) s [] u" "procs u = (procs s)[Suc 0 := (procs s ! Suc 0)\<lparr>state := RUNNING\<rparr>]" "cur u = Some (Suc 0)" "held u = held s"
        "others u = others s" "nextpid u = nextpid s" "kend u = kend s" by (auto simp: NPROC_def)
    from u(1) show ?thesis by (rule exI_conj) (rule table_upd(2) [OF t(1) u(2)], use T u in \<open>auto simp: slot_of_def\<close>)
  qed
qed

lemma at_exits:
  assumes "table_at (RUNNABLE, x', y', d', None, w') (RUNNING, x, y, d, Some 0, w) (Some (Suc 0)) [] n s"
  shows "\<exists>s'. ptab_step (\<lambda>_. 0) s [] s' \<and> table_at (RUNNABLE, x', y', d', None, w') (ZOMBIE, x, y, d, Some 0, w) (Some (Suc 0)) [PtableLock] n s'"
proof -
  note T = table_slots(1-8) [OF assms]
  have "parent p \<noteq> Some (Suc 0) \<and> state p \<noteq> SLEEPING" if "p \<in> set (procs s)" for p
  proof -
    have "slot_of p \<in> {(RUNNABLE, x', y', d', None, w'), (RUNNING, x, y, d, Some 0, w), slot_of zero_proc}"
      using table_slots(9) [OF assms] that by blast
    then show ?thesis by (auto simp: slot_of_def zero_proc_def)
  qed
  with exit_run [of s "Suc 0" "\<lambda>_. 0"] T have e: "fin (exit_tail (\<lambda>_. 0) (Suc 0) s)
      = s\<lparr>held := [PtableLock], procs := (procs s)[Suc 0 := (procs s ! Suc 0)\<lparr>state := ZOMBIE\<rparr>]\<rparr>" by (simp add: NPROC_def)
  have "running (Suc 0) s" using at_running [OF assms] by simp
  from ptab_step.exits [OF this, of "\<lambda>_. 0"] show ?thesis
    unfolding e by (rule exI_conj) (rule table_upd(2) [OF assms, where p = "(procs s ! Suc 0)\<lparr>state := ZOMBIE\<rparr>"],
      use T in \<open>auto simp: slot_of_def\<close>)
qed

section \<open>The run\<close>

abbreviation "KS0 \<equiv> 0x80300000 :: uint"
abbreviation "KS1 \<equiv> 0x80310000 :: uint"

lemma visits_boot: "visits 1 (EMBRYO, 1, KS0, 0, None, 10) (slot_of zero_proc) None [] 2"
proof -
  have t: "table_at (slot_of zero_proc) (slot_of zero_proc) None [] 1 boot_ptab"
    by (simp add: table_at_def boot_ptab_def NPROC_def eval_nat_numeral)
  have z: "slot_of zero_proc = (UNUSED, 0, 0, 0, None, 0)" by (simp add: slot_of_def zero_proc_def)
  have l: "freelist boot_ptab = KS0" by (simp add: boot_ptab_def)
  have "\<exists>s'. ptab_step (\<lambda>_. 0) boot_ptab [] s' \<and> table_at (EMBRYO, 1, freelist boot_ptab, 0, None, 10) (slot_of zero_proc) None [] (1 + 1) s'"
    by (rule at_alloc(1) [OF t _ _ refl z]) (simp_all add: l z)
  then obtain s' where "ptab_step (\<lambda>_. 0) boot_ptab [] s'" "table_at (EMBRYO, 1, KS0, 0, None, 10) (slot_of zero_proc) None [] 2 s'"
    unfolding l by auto
  with ptab_reach.step [OF ptab_reach.start, of "\<lambda>_. 0" boot_ptab "[]" s'] show ?thesis by (auto simp: visits_def)
qed

lemma visits_child: "visits 12 (RUNNABLE, 1, KS0, chain_dir, None, 10) (RUNNING, 2, KS1, chain_dir, Some 0, 10) (Some (Suc 0)) [PtableLock] 3"
proof -
  let ?z = "slot_of zero_proc"
  have z: "?z = (UNUSED, 0, 0, 0, None, 0)" by (simp add: slot_of_def zero_proc_def)
  have d: "chain_dir \<noteq> 0" by (simp add: chain_dir_def)
  have "visits 2 (EMBRYO, 1, KS0, chain_dir, None, 10) ?z None [] 2"
    by (rule visits_step [OF visits_boot]) (simp, erule at_inits)
  then have "visits 3 (RUNNABLE, 1, KS0, chain_dir, None, 10) ?z None [] 2" by (rule visits_step) (simp, erule at_publish(1))
  then have "visits 4 (RUNNABLE, 1, KS0, chain_dir, None, 10) ?z None [PtableLock] 2" by (rule visits_step) (simp, erule at_enters)
  then have "visits 5 (RUNNING, 1, KS0, chain_dir, None, 10) ?z (Some 0) [PtableLock] 2" by (rule visits_step) (simp, erule at_dispatch(1), use d in \<open>simp_all add: slot_of_def zero_proc_def\<close>)
  then have "visits 6 (RUNNING, 1, KS0, chain_dir, None, 10) ?z (Some 0) [] 2" by (rule visits_step) (simp, erule at_resumes, simp_all)
  then obtain s where s: "ptab_reach (\<lambda>_. 0) boot_ptab 6 [] s" "table_at (RUNNING, 1, KS0, chain_dir, None, 10) ?z (Some 0) [] 2 s"
    by (auto simp: visits_def)
  from at_works [OF s(2), of "mem s" KS1] obtain t where t: "ptab_step (\<lambda>_. 0) s [] t"
    "table_at (RUNNING, 1, KS0, chain_dir, None, 10) ?z (Some 0) [] 2 t" "freelist t = KS1" by auto
  have "\<exists>s'. ptab_step (\<lambda>_. 0) t [] s' \<and> table_at (RUNNING, 1, KS0, chain_dir, None, 10) (EMBRYO, 2, freelist t, 0, None, 10) (Some 0) [] (2 + 1) s'"
    by (rule at_alloc(2) [OF t(2) _ _ refl z]) (simp_all add: t(3) z)
  then obtain u where u: "ptab_step (\<lambda>_. 0) t [] u" "table_at (RUNNING, 1, KS0, chain_dir, None, 10) (EMBRYO, 2, KS1, 0, None, 10) (Some 0) [] 3 u"
    unfolding t(3) by auto
  have "visits 8 (RUNNING, 1, KS0, chain_dir, None, 10) (EMBRYO, 2, KS1, 0, None, 10) (Some 0) [] 3"
    using ptab_reach.step [OF ptab_reach.step [OF s(1) t(1)] u(1)] u(2) unfolding visits_def by fastforce
  then have "visits 9 (RUNNING, 1, KS0, chain_dir, None, 10) (EMBRYO, 2, KS1, chain_dir, Some 0, 10) (Some 0) [] 3" by (rule visits_step) (simp, erule at_fills, simp_all)
  then have "visits 10 (RUNNING, 1, KS0, chain_dir, None, 10) (RUNNABLE, 2, KS1, chain_dir, Some 0, 10) (Some 0) [] 3" by (rule visits_step) (simp, erule at_publish(2))
  then have "visits 11 (RUNNABLE, 1, KS0, chain_dir, None, 10) (RUNNABLE, 2, KS1, chain_dir, Some 0, 10) (Some 0) [PtableLock] 3" by (rule visits_step) (simp, erule at_yields)
  then show ?thesis by (rule visits_step) (simp, erule at_dispatch(2), use d in \<open>simp_all add: slot_of_def zero_proc_def\<close>)
qed

lemma visits_zombie: "visits 16 (RUNNING, 1, KS0, chain_dir, None, 10) (ZOMBIE, 2, KS1, chain_dir, Some 0, 10) (Some 0) [] 3"
proof -
  have d: "chain_dir \<noteq> 0" by (simp add: chain_dir_def)
  have "visits 13 (RUNNABLE, 1, KS0, chain_dir, None, 10) (RUNNING, 2, KS1, chain_dir, Some 0, 10) (Some (Suc 0)) [] 3" by (rule visits_step [OF visits_child]) (simp, erule at_resumes, simp_all)
  then have "visits 14 (RUNNABLE, 1, KS0, chain_dir, None, 10) (ZOMBIE, 2, KS1, chain_dir, Some 0, 10) (Some (Suc 0)) [PtableLock] 3" by (rule visits_step) (simp, erule at_exits)
  then have "visits 15 (RUNNING, 1, KS0, chain_dir, None, 10) (ZOMBIE, 2, KS1, chain_dir, Some 0, 10) (Some 0) [PtableLock] 3" by (rule visits_step) (simp, erule at_dispatch(1), use d in \<open>simp_all add: slot_of_def zero_proc_def\<close>)
  then show ?thesis by (rule visits_step) (simp, erule at_resumes, simp_all)
qed

lemma uvm_ok_chain:
  assumes "mem s = chain_mem 3" "freelist s = freelist (chain_phys 3)" "kend s = 0x80200000" "held s = []" "others s = {}"
  shows "uvm_ok s (map chain_page [0..<3]) chain_dir"
proof -
  have "kmem_ready s" "kmem_ready (chain_phys 3)" using assms by (simp_all add: kmem_ready_def lock_free_def chain_phys_def)
  moreover have "mem (chain_phys 3) = chain_mem 3" "kend (chain_phys 3) = 0x80200000" by (simp_all add: chain_phys_def)
  ultimately show ?thesis
    using chain_uvm [of 3] assms by (simp add: uvm_ok_def vm_ok_def frees_def del: upt_rec_numeral)
qed

theorem pids_unique_witness:
  "\<exists>s. ptab_reach (\<lambda>_. 0) boot_ptab 18 [2] s \<and> state (procs s ! 1) = UNUSED
     \<and> distinct (map pid (filter active (procs s)) @ [2]) \<and> 0 \<notin> set (map pid (filter active (procs s)) @ [2])"
proof -
  let ?a = "(RUNNING, 1, KS0, chain_dir, None, 10)" and ?b = "(ZOMBIE, 2, KS1, chain_dir, Some 0, 10)"
  obtain s where s: "ptab_reach (\<lambda>_. 0) boot_ptab 16 [] s" "table_at ?a ?b (Some 0) [] 3 s"
    using visits_zombie by (auto simp: visits_def)
  from at_works [OF s(2), of "chain_mem 3" "freelist (chain_phys 3)"] obtain t where t: "ptab_step (\<lambda>_. 0) s [] t"
    "table_at ?a ?b (Some 0) [] 3 t" "mem t = chain_mem 3" "freelist t = freelist (chain_phys 3)" by auto
  note T = table_slots(1-8) [OF t(2)]
  have p: "pid (procs t ! 1) = 2" "kstack (procs t ! 1) = KS1" "pgdir (procs t ! 1) = chain_dir" using T(3) by (simp_all add: slot_of_def)
  have z: "first_idx (\<lambda>p. parent p = Some 0 \<and> state p = ZOMBIE) (procs t) = Some 1"
    using first_slot [OF t(2), of "\<lambda>p. parent p = Some 0 \<and> state p = ZOMBIE" "\<lambda>(st, _, _, _, q, _). q = Some 0 \<and> st = ZOMBIE"]
    by (simp add: slot_of_def)
  have "uvm_ok t (map chain_page [0..<3]) (pgdir (procs t ! 1))" unfolding p(3) by (rule uvm_ok_chain) (use t T in simp_all)
  moreover have "lock_free PtableLock t" "KmemLock \<notin> set (held t)" using T by (simp_all add: lock_free_def)
  ultimately obtain u where u: "wait (\<lambda>_. 0) t = Ret 2 u" "procs u = (procs t)[1 := reaped (procs t ! 1)]"
    using wait_run [of t 0 1 "map chain_page [0..<3]" "\<lambda>_. 0"] z chain_stack T(4,8) t(3) p by (auto simp del: upt_rec_numeral)
  have "ptab_step (\<lambda>_. 0) t [2] u"
    using ptab_step.waits [OF at_running [OF t(2)], of "\<lambda>_. 0"] u(1) by (simp add: collected_def)
  from ptab_reach.step [OF ptab_reach.step [OF s(1) t(1)] this] have r: "ptab_reach (\<lambda>_. 0) boot_ptab 18 [2] u"
    by simp
  moreover have "state (procs u ! 1) = UNUSED" using u(2) T(1) by (simp add: reaped_def NPROC_def)
  moreover have "distinct (map pid (filter active (procs u)) @ [2]) \<and> 0 \<notin> set (map pid (filter active (procs u)) @ [2])"
    by (rule pids_unique [OF boot_ptab_table(1) r]) simp
  ultimately show ?thesis by blast
qed

end
