(* ===== verification/Wakeup.thy ===== *)
theory Wakeup
  imports ProcInv
begin

text \<open>
  No wakeup is lost. Processes that run \<^verbatim>\<open>while(!cond) sleep(chan, lk)\<close> with \<open>lk\<close> held, and a CPU that makes the condition
  true and calls \<^verbatim>\<open>wakeup(chan)\<close> with \<open>lk\<close> held, are interleaved statement by statement. The statements are those of
  \<^verbatim>\<open>Proc\<close> (\<open>sleep_code\<close>, \<open>woken_code\<close>, \<open>wakeup_code\<close>), run on the kernel state as the CPU sees it: with its own locks held,
  and the locks of the other CPUs held by others.
\<close>

section \<open>CPUs that take turns\<close>

text \<open>The kernel state, with the condition the processes wait for.\<close>

record cstate = ptab +
  flag :: bool

text \<open>
  What a CPU is doing: taking \<open>lk\<close>, before the test of the condition; in \<^verbatim>\<open>sleep\<close> up to \<^verbatim>\<open>sched\<close>; in the scheduler, after a process
  switched to it and when it looks at the table again; resuming the process, through the rest of \<^verbatim>\<open>sleep\<close> to the test;
  releasing \<open>lk\<close>; and making the condition true. CPU \<open>i\<close> runs process \<open>i\<close>, and CPU \<open>NPROC\<close> makes the condition true.
\<close>

datatype phase = Enters | Sleeps | Switched | Looks | Resumes | Leaves | Wakes

fun code :: "uint \<Rightarrow> lockid \<Rightarrow> nat \<Rightarrow> phase \<Rightarrow> (cstate, unit) km list" where
  "code ch lk i Enters = [lock_acquire lk]"
| "code ch lk i Sleeps = sleep_code i ch lk"
| "code ch lk i Switched = [lock_release PtableLock]"
| "code ch lk i Looks = [lock_acquire PtableLock]"
| "code ch lk i Resumes = upd_proc i (\<lambda>p. p\<lparr>state := RUNNING\<rparr>) # woken_code i lk"
| "code ch lk i Leaves = [lock_release lk]"
| "code ch lk i Wakes = [lock_acquire lk, upd (\<lambda>s. s\<lparr>flag := True\<rparr>)] @ wakeup_code ch @ [lock_release lk]"

text \<open>What comes after the last statement of a phase.\<close>

fun followed :: "nat \<Rightarrow> cstate \<Rightarrow> phase \<Rightarrow> phase" where
  "followed i s Enters = (if flag s then Leaves else Sleeps)"
| "followed i s Sleeps = Switched"
| "followed i s Switched = Looks"
| "followed i s Looks = (if state (procs s ! i) = RUNNABLE then Resumes else Switched)"
| "followed i s Resumes = (if flag s then Leaves else Sleeps)"
| "followed i s Leaves = Leaves"
| "followed i s Wakes = Wakes"

record cpus_st =
  shared :: cstate
  locks :: "nat \<Rightarrow> lockid list"
  at :: "nat \<Rightarrow> phase \<times> nat"

text \<open>The kernel state as CPU \<open>i\<close> sees it, and the state after it ran a statement.\<close>

definition view :: "nat \<Rightarrow> cpus_st \<Rightarrow> cstate" where
  "view i S = (shared S)\<lparr>held := locks S i, others := {l. \<exists>j. j \<noteq> i \<and> l \<in> set (locks S j)},
     cur := (if i < NPROC then Some i else None)\<rparr>"

definition put :: "nat \<Rightarrow> cstate \<Rightarrow> phase \<times> nat \<Rightarrow> cpus_st \<Rightarrow> cpus_st" where
  "put i s p S = S\<lparr>shared := s, locks := (locks S)(i := held s), at := (at S)(i := p)\<rparr>"

text \<open>A CPU that spins on a lock takes no step; \<^verbatim>\<open>sched\<close> switches to the scheduler of the CPU.\<close>

inductive wk_step :: "uint \<Rightarrow> lockid \<Rightarrow> cpus_st \<Rightarrow> cpus_st \<Rightarrow> bool" for ch lk where
  runs: "i \<le> NPROC \<Longrightarrow> at S i = (ph, k) \<Longrightarrow> k < length (code ch lk i ph) \<Longrightarrow>
    (code ch lk i ph ! k) (view i S) = Ret () s \<Longrightarrow> wk_step ch lk S (put i s (ph, Suc k) S)"
| switches: "i \<le> NPROC \<Longrightarrow> at S i = (ph, k) \<Longrightarrow> k < length (code ch lk i ph) \<Longrightarrow>
    (code ch lk i ph ! k) (view i S) = Stop Sleeping s \<Longrightarrow> wk_step ch lk S (put i s (ph, Suc k) S)"
| goes_on: "i \<le> NPROC \<Longrightarrow> at S i = (ph, length (code ch lk i ph)) \<Longrightarrow> ph \<noteq> Leaves \<Longrightarrow> ph \<noteq> Wakes \<Longrightarrow>
    wk_step ch lk S (S\<lparr>at := (at S)(i := (followed i (shared S) ph, 0))\<rparr>)"

definition wk_init :: "cpus_st \<Rightarrow> bool" where
  "wk_init S \<longleftrightarrow> (\<forall>i < NPROC. at S i = (Enters, 0) \<and> state (procs (shared S) ! i) = RUNNING) \<and> at S NPROC = (Wakes, 0)
     \<and> (\<forall>i. locks S i = []) \<and> length (procs (shared S)) = NPROC \<and> \<not> flag (shared S)"

inductive wk_reach :: "uint \<Rightarrow> lockid \<Rightarrow> cpus_st \<Rightarrow> bool" for ch lk where
  wk_start: "wk_init S \<Longrightarrow> wk_reach ch lk S"
| wk_next: "wk_reach ch lk S \<Longrightarrow> wk_step ch lk S S' \<Longrightarrow> wk_reach ch lk S'"

section \<open>What holds between the statements\<close>

definition final :: "phase \<Rightarrow> nat" where
  "final ph = (case ph of Enters \<Rightarrow> 1 | Sleeps \<Rightarrow> 5 | Switched \<Rightarrow> 1 | Looks \<Rightarrow> 1 | Resumes \<Rightarrow> 4 | Leaves \<Rightarrow> 1 | Wakes \<Rightarrow> 6)"

fun own :: "lockid \<Rightarrow> phase \<times> nat \<Rightarrow> lockid list" where
  "own lk (Enters, k) = (if k = 0 then [] else [lk])"
| "own lk (Sleeps, k) = (if k = 0 then [lk] else if k = 1 then [PtableLock, lk] else [PtableLock])"
| "own lk (Switched, k) = (if k = 0 then [PtableLock] else [])"
| "own lk (Looks, k) = (if k = 0 then [] else [PtableLock])"
| "own lk (Resumes, k) = (if k \<le> 2 then [PtableLock] else if k = 3 then [] else [lk])"
| "own lk (Leaves, k) = (if k = 0 then [lk] else [])"
| "own lk (Wakes, k) = (if k = 0 then [] else if k \<le> 2 then [lk] else if k \<le> 4 then [PtableLock, lk] else if k = 5 then [lk] else [])"

fun slot_ok :: "uint \<Rightarrow> proc \<Rightarrow> phase \<times> nat \<Rightarrow> bool" where
  "slot_ok ch p (Sleeps, k) \<longleftrightarrow> state p = (if k \<le> 3 then RUNNING else SLEEPING) \<and> (3 \<le> k \<longrightarrow> chan p = ch)"
| "slot_ok ch p (Switched, k) \<longleftrightarrow> state p = SLEEPING \<and> chan p = ch \<or> state p = RUNNABLE"
| "slot_ok ch p (Looks, k) \<longleftrightarrow> state p = SLEEPING \<and> chan p = ch \<or> state p = RUNNABLE"
| "slot_ok ch p (Resumes, k) \<longleftrightarrow> state p = (if k = 0 then RUNNABLE else RUNNING)"
| "slot_ok ch p (ph, k) \<longleftrightarrow> state p = RUNNING"

definition drowsy :: "cpus_st \<Rightarrow> nat \<Rightarrow> bool" where
  "drowsy S i \<longleftrightarrow> fst (at S i) = Sleeps \<or> state (procs (shared S) ! i) = SLEEPING"

text \<open>\<^verbatim>\<open>wakeup1\<close> has been through the table.\<close>

definition scanned :: "cpus_st \<Rightarrow> bool" where
  "scanned S \<longleftrightarrow> 4 \<le> snd (at S NPROC)"

definition wk_inv :: "uint \<Rightarrow> lockid \<Rightarrow> cpus_st \<Rightarrow> bool" where
  "wk_inv ch lk S \<longleftrightarrow> length (procs (shared S)) = NPROC
     \<and> (\<forall>i < NPROC. fst (at S i) \<noteq> Wakes \<and> slot_ok ch (procs (shared S) ! i) (at S i))
     \<and> fst (at S NPROC) = Wakes
     \<and> (\<forall>i \<le> NPROC. snd (at S i) \<le> final (fst (at S i)) \<and> locks S i = own lk (at S i))
     \<and> (\<forall>i > NPROC. locks S i = [])
     \<and> (\<forall>i j. i \<noteq> j \<longrightarrow> set (locks S i) \<inter> set (locks S j) = {})
     \<and> (flag (shared S) \<longleftrightarrow> 2 \<le> snd (at S NPROC))
     \<and> (scanned S \<longrightarrow> (\<forall>i < NPROC. \<not> drowsy S i))"

lemma final_length: "lk \<noteq> PtableLock \<Longrightarrow> length (code ch lk i ph) = final ph"
  by (cases ph) (simp_all add: final_def sleep_code_def woken_code_def wakeup_code_def)

lemma wk_init_inv: "wk_init S \<Longrightarrow> wk_inv ch lk S"
proof -
  assume S: "wk_init S"
  have "locks S i = own lk (at S i) \<and> snd (at S i) \<le> final (fst (at S i))" if "i \<le> NPROC" for i
    using S that by (cases "i = NPROC") (simp_all add: wk_init_def)
  with S show ?thesis by (simp add: wk_init_def wk_inv_def scanned_def)
qed

text \<open>A step of one CPU.\<close>

lemma wk_inv_put:
  assumes inv: "wk_inv ch lk S" and i: "i \<le> NPROC"
    and h: "held s = own lk p" "\<And>l j. l \<in> set (held s) \<Longrightarrow> l \<notin> set (locks S i) \<Longrightarrow> j \<noteq> i \<Longrightarrow> l \<notin> set (locks S j)"
    and ps: "length (procs s) = NPROC" "\<And>j. j < NPROC \<Longrightarrow> j \<noteq> i \<Longrightarrow> slot_ok ch (procs s ! j) (at S j)"
    and p: "snd p \<le> final (fst p)" "fst p = Wakes \<longleftrightarrow> i = NPROC" "i < NPROC \<Longrightarrow> slot_ok ch (procs s ! i) p"
    and f: "flag s \<longleftrightarrow> 2 \<le> snd (((at S)(i := p)) NPROC)"
    and d: "\<And>j. scanned (put i s p S) \<Longrightarrow> j < NPROC \<Longrightarrow> \<not> drowsy (put i s p S) j"
  shows "wk_inv ch lk (put i s p S)"
proof -
  let ?T = "put i s p S"
  have T: "shared ?T = s" "locks ?T = (locks S)(i := held s)" "at ?T = (at S)(i := p)" by (simp_all add: put_def)
  have dis: "set (locks S a) \<inter> set (locks S b) = {}" if "a \<noteq> b" for a b using inv that by (simp add: wk_inv_def)
  have "set (locks ?T a) \<inter> set (locks ?T b) = {}" if ab: "a \<noteq> b" for a b
  proof -
    have n: "set (held s) \<inter> set (locks S j) = {}" if "j \<noteq> i" for j using h(2) dis [of i j] that by auto
    show ?thesis using n [of a] n [of b] dis [of a b] ab by (auto simp: T)
  qed
  moreover have "locks ?T j = own lk (at ?T j) \<and> snd (at ?T j) \<le> final (fst (at ?T j))" if "j \<le> NPROC" for j
    using inv that h(1) p(1) by (simp add: T wk_inv_def)
  moreover have "fst (at ?T j) \<noteq> Wakes \<and> slot_ok ch (procs s ! j) (at ?T j)" if "j < NPROC" for j
    using inv that ps(2) p(2,3) by (auto simp: T wk_inv_def)
  moreover have "fst (at ?T NPROC) = Wakes" using inv p(2) by (simp add: T wk_inv_def)
  moreover have "locks ?T j = []" if "NPROC < j" for j using inv i that by (simp add: T wk_inv_def)
  ultimately show ?thesis using ps(1) f d by (simp add: wk_inv_def T)
qed

section \<open>The statements on the view of a CPU\<close>

lemma view_sel [simp]:
  "procs (view i S) = procs (shared S)" "flag (view i S) = flag (shared S)" "held (view i S) = locks S i"
  "others (view i S) = {l. \<exists>j. j \<noteq> i \<and> l \<in> set (locks S j)}" "cur (view i S) = (if i < NPROC then Some i else None)"
  by (simp_all add: view_def)

lemma view_acquire:
  "lock_acquire l (view i S) =
     (if l \<in> set (locks S i) then Stop (Panic ''acquire'') (view i S)
      else if \<exists>j. j \<noteq> i \<and> l \<in> set (locks S j) then Stop Spin (view i S)
      else Ret () ((view i S)\<lparr>held := l # locks S i\<rparr>))"
  by (auto simp: lock_acquire_def)

lemma view_release: "l \<in> set (locks S i) \<Longrightarrow> lock_release l (view i S) = Ret () ((view i S)\<lparr>held := remove1 l (locks S i)\<rparr>)"
  by (simp add: lock_release_run)

lemma below_enum:
  "(k :: nat) < 1 \<longleftrightarrow> k = 0" "(k :: nat) < 4 \<longleftrightarrow> k \<in> {0, 1, 2, 3}" "(k :: nat) < 5 \<longleftrightarrow> k \<in> {0, 1, 2, 3, 4}"
  "(k :: nat) < 6 \<longleftrightarrow> k \<in> {0, 1, 2, 3, 4, 5}"
  by auto

text \<open>The statements of a process that waits: what each one does, with only \<open>lk\<close> and \<^verbatim>\<open>ptable.lock\<close> taken on the way.\<close>

definition does :: "uint \<Rightarrow> lockid \<Rightarrow> cpus_st \<Rightarrow> nat \<Rightarrow> phase \<Rightarrow> nat \<Rightarrow> cstate \<Rightarrow> bool" where
  "does ch lk S i ph k s \<longleftrightarrow> (\<exists>q. procs s = (procs (shared S))[i := q] \<and> flag s = flag (shared S) \<and> held s = own lk (ph, Suc k)
     \<and> slot_ok ch q (ph, Suc k)
     \<and> (\<forall>l \<in> set (held s) - set (locks S i). \<forall>j. j \<noteq> i \<longrightarrow> l \<notin> set (locks S j))
     \<and> (ph = Sleeps \<or> state q \<noteq> SLEEPING \<or> q = procs (shared S) ! i))"

lemma doesI:
  assumes "procs s = (procs (shared S))[i := q]" "flag s = flag (shared S)" "held s = own lk (ph, Suc k)" "slot_ok ch q (ph, Suc k)"
    "\<And>l j. l \<in> set (held s) \<Longrightarrow> l \<notin> set (locks S i) \<Longrightarrow> j \<noteq> i \<Longrightarrow> l \<notin> set (locks S j)"
    "ph = Sleeps \<or> state q \<noteq> SLEEPING \<or> q = procs (shared S) ! i"
  shows "does ch lk S i ph k s"
  unfolding does_def using assms by blast

definition want :: "lockid \<Rightarrow> phase \<times> nat \<Rightarrow> lockid option" where
  "want lk p = (if p \<in> {(Enters, 0), (Resumes, 3), (Wakes, 0)} then Some lk
     else if p \<in> {(Sleeps, 0), (Looks, 0), (Wakes, 2)} then Some PtableLock else None)"

lemma sleeper_runs:
  assumes inv: "wk_inv ch lk S" and lk: "lk \<noteq> PtableLock" and i: "i < NPROC" and a: "at S i = (ph, k)" and k: "k < final ph"
  shows "case (code ch lk i ph ! k) (view i S) of
      Ret _ s \<Rightarrow> does ch lk S i ph k s
    | Stop e s \<Rightarrow> e = Sleeping \<and> does ch lk S i ph k s \<or> e = Spin \<and> (\<exists>l j. want lk (ph, k) = Some l \<and> j \<noteq> i \<and> l \<in> set (locks S j))"
proof -
  have w: "ph \<noteq> Wakes" and sl: "slot_ok ch (procs (shared S) ! i) (ph, k)" and lo: "locks S i = own lk (ph, k)"
    and len: "length (procs (shared S)) = NPROC"
    using inv i a by (auto simp: wk_inv_def)
  show ?thesis
  proof (cases ph)
    case Enters
    with k have "k = 0" by (simp add: final_def)
    then show ?thesis using Enters lo sl lk
      by (auto simp: view_acquire want_def intro!: doesI [where q = "procs (shared S) ! i"])
  next
    case Sleeps
    with k consider "k = 0" | "k = 1" | "k = 2" | "k = 3" | "k = 4" by (auto simp: final_def below_enum)
    then show ?thesis
    proof cases
      case 1
      then show ?thesis using Sleeps lo sl lk
        by (auto simp: sleep_code_def view_acquire want_def intro!: doesI [where q = "procs (shared S) ! i"])
    next
      case 2
      then show ?thesis using Sleeps lo sl lk
        by (auto simp: sleep_code_def view_release intro!: doesI [where q = "procs (shared S) ! i"])
    next
      case 3
      then show ?thesis using Sleeps lo sl lk len i
        by (auto simp: sleep_code_def intro!: doesI [where q = "(procs (shared S) ! i)\<lparr>chan := ch\<rparr>"])
    next
      case 4
      then show ?thesis using Sleeps lo sl lk len i
        by (auto simp: sleep_code_def intro!: doesI [where q = "(procs (shared S) ! i)\<lparr>state := SLEEPING\<rparr>"])
    next
      case 5
      then show ?thesis using Sleeps lo sl lk len i
        by (auto simp: sleep_code_def sched_def lock_holding_def intro!: doesI [where q = "procs (shared S) ! i"])
    qed
  next
    case Switched
    with k have "k = 0" by (simp add: final_def)
    then show ?thesis using Switched lo sl lk
      by (auto simp: view_release intro!: doesI [where q = "procs (shared S) ! i"])
  next
    case Looks
    with k have "k = 0" by (simp add: final_def)
    then show ?thesis using Looks lo sl lk
      by (auto simp: view_acquire want_def intro!: doesI [where q = "procs (shared S) ! i"])
  next
    case Resumes
    with k consider "k = 0" | "k = 1" | "k = 2" | "k = 3" by (auto simp: final_def below_enum)
    then show ?thesis
    proof cases
      case 1
      then show ?thesis using Resumes lo sl lk len i
        by (auto simp: intro!: doesI [where q = "(procs (shared S) ! i)\<lparr>state := RUNNING\<rparr>"])
    next
      case 2
      then show ?thesis using Resumes lo sl lk len i
        by (auto simp: woken_code_def intro!: doesI [where q = "(procs (shared S) ! i)\<lparr>chan := 0\<rparr>"])
    next
      case 3
      then show ?thesis using Resumes lo sl lk
        by (auto simp: woken_code_def view_release intro!: doesI [where q = "procs (shared S) ! i"])
    next
      case 4
      then show ?thesis using Resumes lo sl lk
        by (auto simp: woken_code_def view_acquire want_def intro!: doesI [where q = "procs (shared S) ! i"])
    qed
  next
    case Leaves
    with k have "k = 0" by (simp add: final_def)
    then show ?thesis using Leaves lo sl lk
      by (auto simp: view_release intro!: doesI [where q = "procs (shared S) ! i"])
  qed (use w in simp)
qed

text \<open>The statements of the CPU that makes the condition true.\<close>

definition rouses :: "uint \<Rightarrow> lockid \<Rightarrow> cpus_st \<Rightarrow> nat \<Rightarrow> cstate \<Rightarrow> bool" where
  "rouses ch lk S k s \<longleftrightarrow> procs s = (if k = 3 then map (woken ch) (procs (shared S)) else procs (shared S))
     \<and> flag s = (flag (shared S) \<or> k = 1) \<and> held s = own lk (Wakes, Suc k)
     \<and> (\<forall>l \<in> set (held s) - set (locks S NPROC). \<forall>j. j \<noteq> NPROC \<longrightarrow> l \<notin> set (locks S j))"

lemma waker_runs:
  assumes inv: "wk_inv ch lk S" and lk: "lk \<noteq> PtableLock" and a: "at S NPROC = (Wakes, k)" and k: "k < 6"
  shows "case (code ch lk NPROC Wakes ! k) (view NPROC S) of
      Ret _ s \<Rightarrow> rouses ch lk S k s
    | Stop e s \<Rightarrow> e = Spin \<and> (\<exists>l j. want lk (Wakes, k) = Some l \<and> j \<noteq> NPROC \<and> l \<in> set (locks S j))"
proof -
  have lo: "locks S NPROC = own lk (Wakes, k)" and len: "length (procs (shared S)) = NPROC"
    using inv a by (auto simp: wk_inv_def)
  from k consider "k = 0" | "k = 1" | "k = 2" | "k = 3" | "k = 4" | "k = 5" by (auto simp: below_enum)
  then show ?thesis
  proof cases
    case 1
    then show ?thesis using lo lk by (auto simp: view_acquire want_def rouses_def)
  next
    case 2
    then show ?thesis using lo lk by (auto simp: rouses_def)
  next
    case 3
    then show ?thesis using lo lk by (auto simp: wakeup_code_def view_acquire want_def rouses_def)
  next
    case 4
    then show ?thesis using lo lk len by (auto simp: wakeup_code_def wakeup1_run rouses_def)
  next
    case 5
    then show ?thesis using lo lk by (auto simp: wakeup_code_def view_release rouses_def)
  next
    case 6
    then show ?thesis using lo lk by (auto simp: wakeup_code_def view_release rouses_def)
  qed
qed

section \<open>The invariant\<close>

lemma held_apart:
  assumes "wk_inv ch lk S" "l \<in> set (locks S i)" "i \<noteq> j"
  shows "l \<notin> set (locks S j)"
  using assms by (auto simp: wk_inv_def disjoint_iff)

lemma sleeper_step:
  assumes inv: "wk_inv ch lk S" and i: "i < NPROC" and a: "at S i = (ph, k)" and k: "k < final ph" and d: "does ch lk S i ph k s"
  shows "wk_inv ch lk (put i s (ph, Suc k) S)"
proof -
  from d obtain q where q: "procs s = (procs (shared S))[i := q]" "flag s = flag (shared S)" "held s = own lk (ph, Suc k)"
    "slot_ok ch q (ph, Suc k)" "\<And>l j. l \<in> set (held s) \<Longrightarrow> l \<notin> set (locks S i) \<Longrightarrow> j \<noteq> i \<Longrightarrow> l \<notin> set (locks S j)"
    "ph = Sleeps \<or> state q \<noteq> SLEEPING \<or> q = procs (shared S) ! i" unfolding does_def by blast
  have len: "length (procs (shared S)) = NPROC" and w: "ph \<noteq> Wakes"
    and f: "flag (shared S) \<longleftrightarrow> 2 \<le> snd (at S NPROC)" using inv i a by (auto simp: wk_inv_def)
  have dr: "\<not> drowsy S j" if "scanned S" "j < NPROC" for j using inv that by (simp add: wk_inv_def)
  show ?thesis
  proof (rule wk_inv_put [OF inv])
    show "\<not> drowsy (put i s (ph, Suc k) S) j" if "scanned (put i s (ph, Suc k) S)" "j < NPROC" for j
      using dr [of j] dr [of i] that i a q(1,6) len by (auto simp: scanned_def drowsy_def put_def nth_list_update)
    show "slot_ok ch (procs s ! j) (at S j)" if "j < NPROC" "j \<noteq> i" for j using inv that q(1) by (simp add: wk_inv_def)
    show "flag s \<longleftrightarrow> 2 \<le> snd (((at S)(i := (ph, Suc k))) NPROC)" using f q(2) i by simp
  qed (use i q w k len in auto)
qed

lemma waker_step:
  assumes inv: "wk_inv ch lk S" and lk: "lk \<noteq> PtableLock" and a: "at S NPROC = (Wakes, k)" and k: "k < 6" and r: "rouses ch lk S k s"
  shows "wk_inv ch lk (put NPROC s (Wakes, Suc k) S)"
proof -
  from r have q: "procs s = (if k = 3 then map (woken ch) (procs (shared S)) else procs (shared S))"
    "flag s = (flag (shared S) \<or> k = 1)" "held s = own lk (Wakes, Suc k)"
    "\<And>l j. l \<in> set (held s) \<Longrightarrow> l \<notin> set (locks S NPROC) \<Longrightarrow> j \<noteq> NPROC \<Longrightarrow> l \<notin> set (locks S j)"
    unfolding rouses_def by blast+
  have len: "length (procs (shared S)) = NPROC" and f: "flag (shared S) \<longleftrightarrow> 2 \<le> k" and lo: "locks S NPROC = own lk (Wakes, k)"
    using inv a by (auto simp: wk_inv_def)
  have dr: "\<not> drowsy S j" if "4 \<le> k" "j < NPROC" for j using inv that a by (simp add: wk_inv_def scanned_def)
  have sl: "slot_ok ch (procs (shared S) ! j) (at S j)" "locks S j = own lk (at S j)" if "j < NPROC" for j
    using inv that by (simp_all add: wk_inv_def)
  have aw: "fst (at S j) \<noteq> Sleeps" if "k = 3" "j < NPROC" for j
  proof
    assume s: "fst (at S j) = Sleeps"
    have "lk \<notin> set (locks S j)" "PtableLock \<notin> set (locks S j)"
      using held_apart [OF inv _, of _ NPROC j] lo that by auto
    with sl(2) [OF that(2)] s show False by (cases "at S j") (auto split: if_splits)
  qed
  have wo: "slot_ok ch (woken ch p) pc \<and> state (woken ch p) \<noteq> SLEEPING" if "slot_ok ch p pc" "fst pc \<noteq> Sleeps" for p pc
    using that by (cases "(ch, p, pc)" rule: slot_ok.cases) (auto simp: woken_def)
  show ?thesis
  proof (rule wk_inv_put [OF inv])
    show "\<not> drowsy (put NPROC s (Wakes, Suc k) S) j" if "scanned (put NPROC s (Wakes, Suc k) S)" "j < NPROC" for j
    proof (cases "k = 3")
      case True
      then show ?thesis using wo [OF sl(1) [OF that(2)] aw [OF True that(2)]] aw [OF True that(2)] that(2) q(1) len
        by (simp add: drowsy_def put_def)
    next
      case False
      then show ?thesis using that dr [of j] q(1) by (simp add: scanned_def drowsy_def put_def)
    qed
    show "slot_ok ch (procs s ! j) (at S j)" if "j < NPROC" "j \<noteq> NPROC" for j
      using wo [OF sl(1) [OF that(1)]] aw [of j] sl(1) [OF that(1)] that(1) q(1) len by simp
    show "flag s \<longleftrightarrow> 2 \<le> snd (((at S)(NPROC := (Wakes, Suc k))) NPROC)" using f q(2) by auto
  qed (use q k len in \<open>auto simp: final_def\<close>)
qed

lemma goto_step:
  assumes inv: "wk_inv ch lk S" and i: "i < NPROC" and a: "at S i = (ph, final ph)" and ph: "ph \<noteq> Leaves"
  shows "wk_inv ch lk (S\<lparr>at := (at S)(i := (followed i (shared S) ph, 0))\<rparr>)"
proof -
  let ?p = "(followed i (shared S) ph, 0)"
  have w: "ph \<noteq> Wakes" and sl: "slot_ok ch (procs (shared S) ! i) (ph, final ph)" and lo: "locks S i = own lk (ph, final ph)"
    and f: "flag (shared S) \<longleftrightarrow> 2 \<le> snd (at S NPROC)" and len: "length (procs (shared S)) = NPROC"
    using inv i a by (auto simp: wk_inv_def)
  have dr: "\<not> drowsy S j" if "scanned S" "j < NPROC" for j using inv that by (simp add: wk_inv_def)
  have e: "S\<lparr>at := (at S)(i := ?p)\<rparr> = put i ((shared S)\<lparr>held := locks S i\<rparr>) ?p S\<lparr>shared := shared S\<rparr>"
    by (simp add: put_def)
  have o: "own lk ?p = locks S i" "slot_ok ch (procs (shared S) ! i) ?p" "fst ?p \<noteq> Wakes"
    using lo sl ph w by (cases ph; auto simp: final_def)+
  have sd: "followed i (shared S) ph \<noteq> Sleeps" if "scanned S"
    using that f dr [OF that i] a w ph by (cases ph) (auto simp: scanned_def drowsy_def)
  have T: "wk_inv ch lk (put i ((shared S)\<lparr>held := locks S i\<rparr>) ?p S)"
  proof (rule wk_inv_put [OF inv])
    show "\<not> drowsy (put i ((shared S)\<lparr>held := locks S i\<rparr>) ?p S) j"
      if "scanned (put i ((shared S)\<lparr>held := locks S i\<rparr>) ?p S)" "j < NPROC" for j
      using dr [of j] sd that i by (auto simp: scanned_def drowsy_def put_def)
  qed (use i o f len inv in \<open>auto simp: wk_inv_def\<close>)
  show ?thesis unfolding e using T by (simp add: wk_inv_def put_def scanned_def drowsy_def)
qed

text \<open>What a step does, and when there is one.\<close>

lemma wk_step_cases:
  assumes inv: "wk_inv ch lk S" and lk: "lk \<noteq> PtableLock" and st: "wk_step ch lk S S'"
  obtains i ph k where "i \<le> NPROC" "at S i = (ph, k)" "k < final ph" "at S' = (at S)(i := (ph, Suc k))" "wk_inv ch lk S'"
  | i ph where "i < NPROC" "at S i = (ph, final ph)" "ph \<noteq> Leaves" "at S' = (at S)(i := (followed i (shared S) ph, 0))" "wk_inv ch lk S'"
proof -
  have wak: "fst (at S NPROC) = Wakes" "\<And>i. i \<le> NPROC \<Longrightarrow> fst (at S i) = Wakes \<Longrightarrow> i = NPROC"
    using inv by (auto simp: wk_inv_def le_less)
  have ex: "wk_inv ch lk (put i s (ph, Suc k) S)"
    if i: "i \<le> NPROC" "at S i = (ph, k)" "k < final ph"
      and r: "(code ch lk i ph ! k) (view i S) = Ret () s \<or> (code ch lk i ph ! k) (view i S) = Stop Sleeping s" for i ph k s
  proof (cases "i = NPROC")
    case True
    with i wak(1) have "ph = Wakes" by simp
    then show ?thesis using True i r waker_runs [OF inv lk, of k] waker_step [OF inv lk, of k s] by (auto simp: final_def)
  next
    case False
    with i(1) have "i < NPROC" by simp
    then show ?thesis using i r sleeper_runs [OF inv lk _ i(2,3)] sleeper_step [OF inv _ i(2,3), of s] by auto
  qed
  show thesis using st
  proof (cases rule: wk_step.cases)
    case (runs i ph k s)
    then show thesis using ex [of i ph k s] by (intro that(1) [of i ph k]) (simp_all add: final_length [OF lk] put_def)
  next
    case (switches i ph k s)
    then show thesis using ex [of i ph k s] by (intro that(1) [of i ph k]) (simp_all add: final_length [OF lk] put_def)
  next
    case (goes_on i ph)
    then have i: "i < NPROC" "at S i = (ph, final ph)" using wak(1) by (auto simp: final_length [OF lk] le_less)
    with goes_on goto_step [OF inv i] show thesis by (intro that(2) [of i ph]) simp_all
  qed
qed

lemma wk_reach_inv: "wk_reach ch lk S \<Longrightarrow> lk \<noteq> PtableLock \<Longrightarrow> wk_inv ch lk S"
proof (induction rule: wk_reach.induct)
  case (wk_start S)
  then show ?case by (simp add: wk_init_inv)
next
  case (wk_next S S')
  then show ?case by (auto elim: wk_step_cases)
qed

definition through :: "phase \<times> nat \<Rightarrow> bool" where
  "through p \<longleftrightarrow> p = (Leaves, 1) \<or> p = (Wakes, 6)"

lemma wk_enabled:
  assumes inv: "wk_inv ch lk S" and lk: "lk \<noteq> PtableLock" and i: "i \<le> NPROC" and a: "at S i = (ph, k)" "k < final ph"
    and free: "\<And>l j. want lk (ph, k) = Some l \<Longrightarrow> j \<noteq> i \<Longrightarrow> l \<notin> set (locks S j)"
  shows "\<exists>s. wk_step ch lk S (put i s (ph, Suc k) S)"
proof -
  let ?r = "(code ch lk i ph ! k) (view i S)"
  have "(\<exists>s. ?r = Ret () s) \<or> (\<exists>s. ?r = Stop Sleeping s)"
  proof (cases "i = NPROC")
    case True
    then have "ph = Wakes" using inv a by (simp add: wk_inv_def)
    then show ?thesis using True a free waker_runs [OF inv lk, of k] by (cases ?r) (auto simp: final_def)
  next
    case False
    then have "i < NPROC" using i by simp
    then show ?thesis using a free sleeper_runs [OF inv lk _ a] by (cases ?r) auto
  qed
  with a i show ?thesis
    using wk_step.runs [of i S ph k ch lk] wk_step.switches [of i S ph k ch lk] by (auto simp: final_length [OF lk])
qed

lemma wk_can_step:
  assumes inv: "wk_inv ch lk S" and lk: "lk \<noteq> PtableLock" and i: "i \<le> NPROC" "\<not> through (at S i)"
    and free: "\<And>l j. want lk (at S i) = Some l \<Longrightarrow> j \<noteq> i \<Longrightarrow> l \<notin> set (locks S j)"
  shows "\<exists>S'. wk_step ch lk S S'"
proof -
  obtain ph k where a: "at S i = (ph, k)" by (cases "at S i")
  have "k \<le> final ph" using inv i a by (auto simp: wk_inv_def)
  then consider "k < final ph" | "k = final ph" by linarith
  then show ?thesis
  proof cases
    case 1
    with wk_enabled [OF inv lk i(1) a] free a show ?thesis by auto
  next
    case 2
    with i a have "ph \<noteq> Leaves" "ph \<noteq> Wakes" by (auto simp: through_def final_def)
    with 2 a i(1) wk_step.goes_on [of i S ph ch lk] show ?thesis by (auto simp: final_length [OF lk])
  qed
qed

text \<open>No deadlock: \<open>lk\<close> is taken before \<^verbatim>\<open>ptable.lock\<close>, so whoever holds \<^verbatim>\<open>ptable.lock\<close>, or else \<open>lk\<close>, can go on.\<close>

lemma wk_no_deadlock:
  assumes inv: "wk_inv ch lk S" and lk: "lk \<noteq> PtableLock" and i: "i \<le> NPROC" "\<not> through (at S i)"
  shows "\<exists>S'. wk_step ch lk S S'"
proof -
  have own: "locks S j = own lk (at S j)" if "j \<le> NPROC" for j using inv that by (simp add: wk_inv_def)
  have le: "j \<le> NPROC" if "l \<in> set (locks S j)" for l j using inv that by (auto simp: wk_inv_def not_le intro: ccontr)
  have h: "\<not> through p \<and> want lk p \<noteq> Some lk \<and> (PtableLock \<in> set (own lk p) \<longrightarrow> want lk p = None)"
    if "own lk p \<noteq> []" for p
    using that lk by (cases "(lk, p)" rule: own.cases) (auto simp: through_def want_def split: if_splits)
  have wl: "want lk p \<in> {None, Some lk, Some PtableLock}" for p by (simp add: want_def)
  show ?thesis
  proof (cases "\<exists>j. PtableLock \<in> set (locks S j)")
    case True
    then obtain j where j: "PtableLock \<in> set (locks S j)" by blast
    have o: "locks S j = own lk (at S j)" "own lk (at S j) \<noteq> []" using own [OF le [OF j]] j by auto
    then show ?thesis using h [OF o(2)] j by (intro wk_can_step [OF inv lk le [OF j]]) auto
  next
    case np: False
    show ?thesis
    proof (cases "\<exists>j. lk \<in> set (locks S j)")
      case True
      then obtain j where j: "lk \<in> set (locks S j)" by blast
      have "own lk (at S j) \<noteq> []" using own [OF le [OF j]] j by auto
      then show ?thesis using np h [of "at S j"] wl [of "at S j"]
        by (intro wk_can_step [OF inv lk le [OF j]]) auto
    next
      case False
      then show ?thesis using np wl [of "at S i"] by (intro wk_can_step [OF inv lk i]) auto
    qed
  qed
qed

text \<open>How many statements a CPU has left once the table has been scanned.\<close>

fun rank :: "phase \<times> nat \<Rightarrow> nat" where
  "rank (Enters, k) = 3 - k"
| "rank (Sleeps, k) = 0"
| "rank (Switched, k) = 10 - k"
| "rank (Looks, k) = 8 - k"
| "rank (Resumes, k) = 6 - k"
| "rank (Leaves, k) = 1 - k"
| "rank (Wakes, k) = 6 - k"

definition left :: "cpus_st \<Rightarrow> nat" where
  "left S = (\<Sum>i \<le> NPROC. rank (at S i))"

lemma left_less:
  assumes "at S' = (at S)(i := p)" "i \<le> NPROC" "rank p < rank (at S i)"
  shows "left S' < left S"
proof -
  have "(\<Sum>j \<in> {..NPROC} - {i}. rank (at S' j)) = (\<Sum>j \<in> {..NPROC} - {i}. rank (at S j))"
    using assms(1) by (intro sum.cong) simp_all
  then show ?thesis
    unfolding left_def using assms by (simp add: sum.remove [of "{..NPROC}" i])
qed

lemma scanned_step:
  assumes inv: "wk_inv ch lk S" and lk: "lk \<noteq> PtableLock" and sc: "scanned S" and st: "wk_step ch lk S S'"
  shows "scanned S' \<and> left S' < left S"
proof -
  have dr: "\<not> drowsy S j" if "j < NPROC" for j using inv that sc by (simp add: wk_inv_def)
  have f: "flag (shared S)" and wk: "fst (at S NPROC) = Wakes" using inv sc by (auto simp: wk_inv_def scanned_def)
  from inv lk st show ?thesis
  proof (cases rule: wk_step_cases)
    case (1 i ph k)
    have "ph \<noteq> Sleeps" using 1(1,2) dr [of i] wk by (cases "i = NPROC") (auto simp: drowsy_def)
    with 1(3) have "rank (ph, Suc k) < rank (ph, k)" by (cases ph) (auto simp: final_def)
    with 1 sc show ?thesis using left_less [OF 1(4,1)] by (auto simp: scanned_def)
  next
    case (2 i ph)
    have "slot_ok ch (procs (shared S) ! i) (ph, final ph)" "ph \<noteq> Wakes" using inv 2(1,2) by (auto simp: wk_inv_def)
    with 2(2,3) dr [OF 2(1)] f have "rank (followed i (shared S) ph, 0) < rank (ph, final ph)"
      by (cases ph) (auto simp: final_def drowsy_def)
    with 2 sc show ?thesis using left_less [OF 2(4)] by (auto simp: scanned_def)
  qed
qed

definition panics :: "uint \<Rightarrow> lockid \<Rightarrow> cpus_st \<Rightarrow> nat \<Rightarrow> bool" where
  "panics ch lk S i = (case at S i of (ph, k) \<Rightarrow> k < length (code ch lk i ph)
     \<and> (case (code ch lk i ph ! k) (view i S) of Stop (Panic m) _ \<Rightarrow> True | _ \<Rightarrow> False))"

lemma no_panic:
  assumes inv: "wk_inv ch lk S" and lk: "lk \<noteq> PtableLock" and i: "i \<le> NPROC"
  shows "\<not> panics ch lk S i"
proof -
  obtain ph k where a: "at S i = (ph, k)" by (cases "at S i")
  show ?thesis
  proof (cases "i = NPROC")
    case True
    then have "ph = Wakes" using inv a by (simp add: wk_inv_def)
    then show ?thesis using True a waker_runs [OF inv lk, of k]
      by (auto simp: panics_def final_length [OF lk] final_def split: res.splits stop.splits)
  next
    case False
    then have "i < NPROC" using i by simp
    then show ?thesis using a sleeper_runs [OF inv lk _ a]
      by (auto simp: panics_def final_length [OF lk] split: res.splits stop.splits)
  qed
qed

section \<open>No wakeup is lost\<close>

text \<open>C33: no wakeup is lost. In every interleaving of processes, up to \<^verbatim>\<open>NPROC\<close> of them, in \<^verbatim>\<open>while(!cond) sleep(chan, lk)\<close> with a CPU
  that sets the condition and calls \<^verbatim>\<open>wakeup(chan)\<close>, all under a lock \<open>lk\<close> other than \<^verbatim>\<open>ptable.lock\<close>, once \<^verbatim>\<open>wakeup1\<close> has been through the table no process is asleep or in
  \<^verbatim>\<open>sleep\<close> on its way there. From then on every step brings the processes nearer to the end of their wait, and there is a step
  until all of them are through; no CPU panics on the way.\<close>

theorem no_lost_wakeup:
  assumes "lk \<noteq> PtableLock" and "wk_reach ch lk S" and "scanned S"
  shows "(\<forall>i < NPROC. \<not> drowsy S i) \<and> (\<forall>S'. wk_step ch lk S S' \<longrightarrow> scanned S' \<and> left S' < left S)
    \<and> ((\<forall>i < NPROC. at S i = (Leaves, 1)) \<or> (\<exists>S'. wk_step ch lk S S')) \<and> (\<forall>i \<le> NPROC. \<not> panics ch lk S i)"
proof -
  have inv: "wk_inv ch lk S" using wk_reach_inv assms by blast
  have "at S i = (Leaves, 1)" if "i < NPROC" "\<not> (\<exists>S'. wk_step ch lk S S')" for i
  proof -
    have "through (at S i)" using wk_no_deadlock [OF inv assms(1), of i] that by auto
    then show ?thesis using inv that(1) by (auto simp: through_def wk_inv_def)
  qed
  then show ?thesis using inv assms(3) scanned_step [OF inv assms(1,3)] no_panic [OF inv assms(1)] by (auto simp: wk_inv_def)
qed

text \<open>Process 0 goes to sleep and is woken; the others have not started.\<close>

definition pos :: "phase \<times> nat \<Rightarrow> nat \<Rightarrow> nat \<Rightarrow> phase \<times> nat" where
  "pos p w = (\<lambda>i. (Enters, 0))(0 := p, NPROC := (Wakes, w))"

definition gets_to :: "phase \<times> nat \<Rightarrow> nat \<Rightarrow> bool" where
  "gets_to p w \<longleftrightarrow> (\<exists>S. wk_reach 5 TicksLock S \<and> at S = pos p w)"

lemma pos_locks:
  assumes "wk_reach 5 TicksLock S" "at S = pos p w"
  shows "locks S 0 = own TicksLock p" "locks S NPROC = own TicksLock (Wakes, w)" "\<And>i. i \<noteq> 0 \<Longrightarrow> i \<noteq> NPROC \<Longrightarrow> locks S i = []"
    "flag (shared S) \<longleftrightarrow> 2 \<le> w"
proof -
  note inv = wk_reach_inv [OF assms(1), simplified]
  have n: "(0 :: nat) \<noteq> NPROC" by (simp add: NPROC_def)
  show "locks S 0 = own TicksLock p" "locks S NPROC = own TicksLock (Wakes, w)" "flag (shared S) \<longleftrightarrow> 2 \<le> w"
    using inv assms(2) n by (simp_all add: wk_inv_def pos_def)
  show "locks S i = []" if "i \<noteq> 0" "i \<noteq> NPROC" for i
    using inv assms(2) that by (cases "i \<le> NPROC") (simp_all add: wk_inv_def pos_def)
qed

lemma gets_on:
  assumes "gets_to (ph, k) w" "k < final ph" "want TicksLock (ph, k) \<in> insert None (Some ` (- set (own TicksLock (Wakes, w))))"
  shows "gets_to (ph, Suc k) w"
proof -
  obtain S where S: "wk_reach 5 TicksLock S" "at S = pos (ph, k) w" using assms(1) by (auto simp: gets_to_def)
  note inv = wk_reach_inv [OF S(1), simplified]
  have n: "(0 :: nat) \<noteq> NPROC" by (simp add: NPROC_def)
  have "l \<notin> set (locks S j)" if "want TicksLock (ph, k) = Some l" "j \<noteq> 0" for l j
    using pos_locks [OF S] that assms(3) by (cases "j = NPROC") auto
  then obtain s where "wk_step 5 TicksLock S (put 0 s (ph, Suc k) S)"
    using wk_enabled [OF inv, of 0 ph k] S(2) assms(2) n by (auto simp: pos_def)
  from wk_next [OF S(1) this] have "wk_reach 5 TicksLock (put 0 s (ph, Suc k) S)" .
  moreover have "at (put 0 s (ph, Suc k) S) = pos (ph, Suc k) w" using S(2) n by (auto simp: put_def pos_def)
  ultimately show ?thesis unfolding gets_to_def by blast
qed

lemma waker_on:
  assumes "gets_to p w" "w < 6" "want TicksLock (Wakes, w) \<in> insert None (Some ` (- set (own TicksLock p)))"
  shows "gets_to p (Suc w)"
proof -
  obtain S where S: "wk_reach 5 TicksLock S" "at S = pos p w" using assms(1) by (auto simp: gets_to_def)
  note inv = wk_reach_inv [OF S(1), simplified]
  have n: "(0 :: nat) \<noteq> NPROC" by (simp add: NPROC_def)
  have "l \<notin> set (locks S j)" if "want TicksLock (Wakes, w) = Some l" "j \<noteq> NPROC" for l j
    using pos_locks [OF S] that assms(3) by (cases "j = 0") auto
  then obtain s where "wk_step 5 TicksLock S (put NPROC s (Wakes, Suc w) S)"
    using wk_enabled [OF inv, of NPROC Wakes w] S(2) assms(2) n by (auto simp: pos_def final_def)
  from wk_next [OF S(1) this] have "wk_reach 5 TicksLock (put NPROC s (Wakes, Suc w) S)" .
  moreover have "at (put NPROC s (Wakes, Suc w) S) = pos p (Suc w)" using S(2) n by (auto simp: put_def pos_def)
  ultimately show ?thesis unfolding gets_to_def by blast
qed

lemma goes_to:
  assumes "gets_to (ph, final ph) w" "ph \<noteq> Leaves" "ph \<noteq> Wakes" "ph = Enters \<and> w < 2 \<and> ph' = Sleeps \<or> ph = Sleeps \<and> ph' = Switched"
  shows "gets_to (ph', 0) w"
proof -
  obtain S where S: "wk_reach 5 TicksLock S" "at S = pos (ph, final ph) w" using assms(1) by (auto simp: gets_to_def)
  have n: "(0 :: nat) \<noteq> NPROC" by (simp add: NPROC_def)
  have "followed 0 (shared S) ph = ph'" using assms(4) pos_locks(4) [OF S] by auto
  then have "wk_step 5 TicksLock S (S\<lparr>at := (at S)(0 := (ph', 0))\<rparr>)"
    using wk_step.goes_on [of 0 S ph 5 TicksLock] S(2) assms(2,3) n by (simp add: final_length pos_def)
  from wk_next [OF S(1) this] have "wk_reach 5 TicksLock (S\<lparr>at := (at S)(0 := (ph', 0))\<rparr>)" .
  moreover have "at (S\<lparr>at := (at S)(0 := (ph', 0))\<rparr>) = pos (ph', 0) w" using S(2) n by (auto simp: pos_def)
  ultimately show ?thesis unfolding gets_to_def by blast
qed

definition sleepers :: cpus_st where
  "sleepers = \<lparr>shared = \<lparr>held = [], others = {}, mem = (\<lambda>_. 0), kend = 0x80200000, kdata = 0x80108000,
     freelist = 0, use_lock = True, procs = replicate NPROC (zero_proc\<lparr>state := RUNNING\<rparr>), initproc = None, nextpid = 1,
     cur = None, kpgdir = 0, cr3 = 0, ts_ss0 = 0, ts_esp0 = 0, ts_iomb = 0, ticks = 0, outws = [], flag = False\<rparr>,
     locks = (\<lambda>_. []), at = pos (Enters, 0) 0\<rparr>"

lemma gets_to_sleep: "gets_to (Switched, 1) 0"
proof -
  have "wk_init sleepers" by (simp add: wk_init_def sleepers_def pos_def)
  then have "gets_to (Enters, 0) 0" unfolding gets_to_def using wk_start by (intro exI [of _ sleepers]) (simp add: sleepers_def)
  then have "gets_to (Enters, Suc 0) 0" by (rule gets_on) (simp_all add: final_def want_def)
  then have "gets_to (Sleeps, 0) 0" by (intro goes_to [of Enters]) (simp_all add: final_def)
  then have "gets_to (Sleeps, Suc 0) 0" by (rule gets_on) (simp_all add: final_def want_def)
  then have "gets_to (Sleeps, Suc (Suc 0)) 0" by (rule gets_on) (simp_all add: final_def want_def)
  then have "gets_to (Sleeps, Suc (Suc (Suc 0))) 0" by (rule gets_on) (simp_all add: final_def want_def)
  then have "gets_to (Sleeps, Suc (Suc (Suc (Suc 0)))) 0" by (rule gets_on) (simp_all add: final_def want_def)
  then have "gets_to (Sleeps, Suc (Suc (Suc (Suc (Suc 0))))) 0" by (rule gets_on) (simp_all add: final_def want_def)
  then have "gets_to (Switched, 0) 0" by (intro goes_to [of Sleeps]) (simp_all add: final_def numeral_eq_Suc)
  then have "gets_to (Switched, Suc 0) 0" by (rule gets_on) (simp_all add: final_def want_def)
  then show ?thesis by simp
qed

lemma gets_woken: "gets_to (Switched, 1) 4"
proof -
  have "gets_to (Switched, 1) (Suc 0)" by (rule waker_on [OF gets_to_sleep]) (simp_all add: want_def)
  then have "gets_to (Switched, 1) (Suc (Suc 0))" by (rule waker_on) (simp_all add: want_def)
  then have "gets_to (Switched, 1) (Suc (Suc (Suc 0)))" by (rule waker_on) (simp_all add: want_def)
  then have "gets_to (Switched, 1) (Suc (Suc (Suc (Suc 0))))" by (rule waker_on) (simp_all add: want_def)
  then show ?thesis by (simp add: numeral_eq_Suc)
qed

theorem no_lost_wakeup_witness:
  "\<exists>S. wk_reach 5 TicksLock S \<and> at S 0 = (Switched, 1) \<and> scanned S \<and> \<not> drowsy S 0
     \<and> (\<exists>S'. wk_step 5 TicksLock S S' \<and> left S' < left S)"
proof -
  obtain S where S: "wk_reach 5 TicksLock S" "at S = pos (Switched, 1) 4" using gets_woken by (auto simp: gets_to_def)
  have n: "0 < NPROC" by (simp add: NPROC_def)
  have a: "at S 0 = (Switched, 1)" "scanned S" using S(2) n by (simp_all add: pos_def scanned_def)
  show ?thesis using no_lost_wakeup [OF _ S(1) a(2)] S(1) a n by (intro exI [of _ S]) auto
qed

end
