(* ===== verification/Sysproc.thy ===== *)
theory Sysproc
  imports Proc UvmAlloc
begin

unbundle bit_operations_syntax

text \<open>
  System call arguments (\<^verbatim>\<open>syscall.c\<close>) and the system calls of \<^verbatim>\<open>sysproc.c\<close> that need no file system.

  The kernel reads user memory through the page table of the running process, byte by byte; an
  address that is not mapped makes it take a page fault in kernel mode, which panics. A function
  that returns -1 or fills in its pointer argument is modelled with an option.
\<close>

section \<open>User memory\<close>

definition uld8 :: "uint \<Rightarrow> ('e ptab_scheme, uchar) km" where
  "uld8 va = with_me (\<lambda>me.
     bnd (getp me pgdir) (\<lambda>d.
     bnd (walkpgdir d va False) (\<lambda>pte.
     if pte = 0 then panic ''trap''
     else bnd (ld32 pte) (\<lambda>e.
     if e AND PTE_P = 0 then panic ''trap''
     else ld8 (P2V (PTE_ADDR e) + (va AND 0xFFF))))))"

definition ust8 :: "uint \<Rightarrow> uchar \<Rightarrow> ('e ptab_scheme, unit) km" where
  "ust8 va b = with_me (\<lambda>me.
     bnd (getp me pgdir) (\<lambda>d.
     bnd (walkpgdir d va False) (\<lambda>pte.
     if pte = 0 then panic ''trap''
     else bnd (ld32 pte) (\<lambda>e.
     if e AND PTE_P = 0 then panic ''trap''
     else st8 (P2V (PTE_ADDR e) + (va AND 0xFFF)) b))))"

fun word_of_bytes :: "uchar list \<Rightarrow> uint" where
  "word_of_bytes [] = 0"
| "word_of_bytes (b # bs) = ucast b OR push_bit 8 (word_of_bytes bs)"

fun ulds :: "uint \<Rightarrow> nat \<Rightarrow> ('e ptab_scheme, uchar list) km" where
  "ulds va 0 = ret []"
| "ulds va (Suc n) = bnd (uld8 va) (\<lambda>b. bnd (ulds (va + 1) n) (\<lambda>bs. ret (b # bs)))"

fun usts :: "uint \<Rightarrow> uchar list \<Rightarrow> ('e ptab_scheme, unit) km" where
  "usts va [] = ret ()"
| "usts va (b # bs) = thn (ust8 va b) (usts (va + 1) bs)"

definition uld32 :: "uint \<Rightarrow> ('e ptab_scheme, uint) km" where
  "uld32 va = bnd (ulds va 4) (\<lambda>bs. ret (word_of_bytes bs))"

section \<open>Arguments\<close>

definition fetchint :: "uint \<Rightarrow> ('e ptab_scheme, uint option) km" where
  "fetchint addr = with_me (\<lambda>me.
     bnd (getp me psz) (\<lambda>sz.
     if sz \<le> addr \<or> sz < addr + 4 then ret None
     else bnd (uld32 addr) (\<lambda>v. ret (Some v))))"

text \<open>
  The loop of \<^verbatim>\<open>fetchstr\<close> over at most \<open>n\<close> bytes; the value is the string, whose length the code returns.
\<close>

fun fetchstr_loop :: "nat \<Rightarrow> uint \<Rightarrow> ('e ptab_scheme, uchar list option) km" where
  "fetchstr_loop 0 s = ret None"
| "fetchstr_loop (Suc n) s =
     bnd (uld8 s) (\<lambda>c.
     if c = 0 then ret (Some [])
     else bnd (fetchstr_loop n (s + 1)) (\<lambda>r. ret (map_option ((#) c) r)))"

definition fetchstr :: "uint \<Rightarrow> ('e ptab_scheme, uchar list option) km" where
  "fetchstr addr = with_me (\<lambda>me.
     bnd (getp me psz) (\<lambda>sz.
     if sz \<le> addr then ret None else fetchstr_loop (unat (sz - addr)) addr))"

text \<open>Word \<open>k\<close> of the trap frame: \<^verbatim>\<open>eax\<close> is word 7 and \<^verbatim>\<open>esp\<close> word 17.\<close>

definition tf_get :: "nat \<Rightarrow> nat \<Rightarrow> ('e ptab_scheme, uint) km" where
  "tf_get me k = bnd (getp me tf) (\<lambda>t. ld32 (t + 4 * of_nat k))"

definition tf_set :: "nat \<Rightarrow> nat \<Rightarrow> uint \<Rightarrow> ('e ptab_scheme, unit) km" where
  "tf_set me k v = bnd (getp me tf) (\<lambda>t. st32 (t + 4 * of_nat k) v)"

abbreviation tf_eax :: nat where "tf_eax \<equiv> 7"
abbreviation tf_es :: nat where "tf_es \<equiv> 10"
abbreviation tf_ds :: nat where "tf_ds \<equiv> 11"
abbreviation tf_trapno :: nat where "tf_trapno \<equiv> 12"
abbreviation tf_eip :: nat where "tf_eip \<equiv> 14"
abbreviation tf_cs :: nat where "tf_cs \<equiv> 15"
abbreviation tf_eflags :: nat where "tf_eflags \<equiv> 16"
abbreviation tf_esp :: nat where "tf_esp \<equiv> 17"
abbreviation tf_ss :: nat where "tf_ss \<equiv> 18"

definition argint :: "nat \<Rightarrow> ('e ptab_scheme, uint option) km" where
  "argint n = with_me (\<lambda>me. bnd (tf_get me tf_esp) (\<lambda>esp. fetchint (esp + 4 + 4 * of_nat n)))"

definition argptr :: "nat \<Rightarrow> uint \<Rightarrow> ('e ptab_scheme, uint option) km" where
  "argptr n len =
     bnd (argint n) (\<lambda>r. case r of None \<Rightarrow> ret None
     | Some i \<Rightarrow> with_me (\<lambda>me.
         bnd (getp me psz) (\<lambda>sz.
         if sint len < 0 \<or> sz \<le> i \<or> sz < i + len then ret None else ret (Some i))))"

definition argstr :: "nat \<Rightarrow> ('e ptab_scheme, uchar list option) km" where
  "argstr n = bnd (argint n) (\<lambda>r. case r of None \<Rightarrow> ret None | Some addr \<Rightarrow> fetchstr addr)"

section \<open>The system calls\<close>

definition of_int32 :: "int \<Rightarrow> uint" where
  "of_int32 i = word_of_int i"

definition sys_wait :: "(nat \<Rightarrow> uint) \<Rightarrow> ('e ptab_scheme, uint) km" where
  "sys_wait chan_of = wait chan_of"

definition sys_kill :: "('e ptab_scheme, uint) km" where
  "sys_kill =
     bnd (argint 0) (\<lambda>r. case r of None \<Rightarrow> ret (-1)
     | Some n \<Rightarrow> bnd (kill n) (\<lambda>v. ret (of_int32 v)))"

definition sys_getpid :: "('e ptab_scheme, uint) km" where
  "sys_getpid = with_me (\<lambda>me. getp me pid)"

definition sys_getmemsize :: "('e ptab_scheme, uint) km" where
  "sys_getmemsize = with_me (\<lambda>me. getp me psz)"

definition sys_getvpages :: "('e ptab_scheme, uint) km" where
  "sys_getvpages = with_me (\<lambda>me. bnd (getp me psz) (\<lambda>sz. ret ((sz + PGSIZE - 1) div PGSIZE)))"

fun pte_count_loop :: "nat \<Rightarrow> uint \<Rightarrow> uint \<Rightarrow> uint \<Rightarrow> uint \<Rightarrow> ('e ptab_scheme, uint) km" where
  "pte_count_loop 0 d a sz count = stop Spin"
| "pte_count_loop (Suc n) d a sz count =
     (if a < sz then
        bnd (ld32 (d + 4 * PDX a)) (\<lambda>pde.
        if pde AND PTE_P = 0 then pte_count_loop n d (a + PGSIZE) sz count
        else bnd (ld32 (P2V (PTE_ADDR pde) + 4 * PTX a)) (\<lambda>pte.
          pte_count_loop n d (a + PGSIZE) sz (if pte AND PTE_P \<noteq> 0 then count + 1 else count)))
      else ret count)"

definition sys_getptentries :: "('e ptab_scheme, uint) km" where
  "sys_getptentries = with_me (\<lambda>me.
     bnd (getp me pgdir) (\<lambda>d.
     bnd (getp me psz) (\<lambda>sz.
     pte_count_loop (2 ^ 20 + 1) d 0 sz 0)))"

definition sys_sbrk :: "('e ptab_scheme, uint) km" where
  "sys_sbrk =
     bnd (argint 0) (\<lambda>r. case r of None \<Rightarrow> ret (-1)
     | Some n \<Rightarrow> with_me (\<lambda>me.
         bnd (getp me psz) (\<lambda>addr.
         bnd (growproc n) (\<lambda>v.
         if v < 0 then ret (-1) else ret addr))))"

text \<open>
  The loop of \<^verbatim>\<open>sys_sleep\<close>, from its test: the comparison is between unsigned numbers. A process
  that is woken comes back here with \<^verbatim>\<open>tickslock\<close> held.
\<close>

definition sleep_loop :: "uint \<Rightarrow> uint \<Rightarrow> uint \<Rightarrow> ('e ptab_scheme, uint) km" where
  "sleep_loop ticks_chan ticks0 n =
     bnd (gets ticks) (\<lambda>t.
     if t - ticks0 < n then
       with_me (\<lambda>me.
       bnd (getp me killed) (\<lambda>k.
       if k then thn (lock_release TicksLock) (ret (-1))
       else thn (sleep ticks_chan (Some TicksLock)) (ret 0)))
     else thn (lock_release TicksLock) (ret 0))"

definition sys_sleep :: "uint \<Rightarrow> ('e ptab_scheme, uint) km" where
  "sys_sleep ticks_chan =
     bnd (argint 0) (\<lambda>r. case r of None \<Rightarrow> ret (-1)
     | Some n \<Rightarrow>
         thn (lock_acquire TicksLock) (
         bnd (gets ticks) (\<lambda>ticks0. sleep_loop ticks_chan ticks0 n)))"

definition sys_uptime :: "('e ptab_scheme, uint) km" where
  "sys_uptime =
     thn (lock_acquire TicksLock) (
     bnd (gets ticks) (\<lambda>xticks.
     thn (lock_release TicksLock) (
     ret xticks)))"

definition outw :: "ushort \<Rightarrow> ushort \<Rightarrow> ('e ptab_scheme, unit) km" where
  "outw port v = upd (\<lambda>s. s\<lparr>outws := (port, v) # outws s\<rparr>)"

definition sys_shutdown :: "('e ptab_scheme, uint) km" where
  "sys_shutdown = thn (outw 0xB004 0x2000) (thn (outw 0x604 0x2000) (ret 0))"

definition sys_setpriority :: "('e ptab_scheme, uint) km" where
  "sys_setpriority =
     bnd (argint 0) (\<lambda>r. case r of None \<Rightarrow> ret (-1)
     | Some n \<Rightarrow> bnd (argint 1) (\<lambda>q. case q of None \<Rightarrow> ret (-1)
       | Some pr \<Rightarrow> bnd (setpriority n pr) (\<lambda>v. ret (of_int32 v))))"

section \<open>Reading does not change the state\<close>

lemma keeps_reads [pres]:
  "keeps (\<lambda>s. s) (getp i f)" "keeps (\<lambda>s. s) (ld32 v)" "keeps (\<lambda>s. s) (ld8 v)" "keeps (\<lambda>s. s) (walkpgdir d va False)"
  unfolding getp_def ld32_def ld8_def walkpgdir_def Let_def by (intro pres; simp)+

lemma keeps_with_me [pres]: "(\<And>me. keeps f (g me)) \<Longrightarrow> keeps f (with_me g)"
  unfolding with_me_def myproc_def by (intro pres)

lemma keeps_uld8 [pres]: "keeps (\<lambda>s. s) (uld8 va)"
  unfolding uld8_def by (intro pres)

lemma keeps_ulds [pres]: "keeps (\<lambda>s. s) (ulds va n)"
  by (induction n arbitrary: va) (unfold ulds.simps, (intro pres; assumption?)+)

lemma keeps_argint [pres]: "keeps (\<lambda>s. s) (argint n)"
  unfolding argint_def fetchint_def uld32_def tf_get_def by (intro pres)

lemma keeps_fetchstr [pres]: "keeps (\<lambda>s. s) (fetchstr a)" "keeps (\<lambda>s. s) (argstr n)"
proof -
  have l: "keeps (\<lambda>s. s) (fetchstr_loop n a)" for n a
    by (induction n arbitrary: a) (unfold fetchstr_loop.simps, (intro pres; assumption?)+)
  show "keeps (\<lambda>s. s) (fetchstr a)" for a unfolding fetchstr_def by (intro pres l)
  then show "keeps (\<lambda>s. s) (argstr n)" unfolding argstr_def by (intro pres)
qed

lemma nonneg_below:
  assumes "0 \<le> sint (x :: uint)"
  shows "unat x < 2 ^ 31"
proof -
  have "\<not> bit x 31" using assms bit_last_iff [of x] by simp
  have "take_bit 31 x = x"
  proof (rule bit_word_eqI)
    fix n assume "n < LENGTH(32)"
    with \<open>\<not> bit x 31\<close> show "bit (take_bit 31 x) n = bit x n" by (cases "n = 31") (auto simp: bit_simps)
  qed
  then have "unat x = take_bit 31 (unat x)" by (metis unsigned_take_bit_eq)
  then show ?thesis by (metis take_bit_nat_less_exp)
qed

text \<open>C36: a pointer that \<^verbatim>\<open>argptr\<close> accepts lies inside the process: the block of the given size starts and ends
  within the process's memory, without wrapping around, and asking does not change the state.\<close>

theorem argptr_in_bounds:
  assumes "cur s = Some me" and "psz (procs s ! me) \<le> KERNBASE" and "argptr n len s = Ret (Some i) s'"
  shows "s' = s \<and> unat i + unat len \<le> unat (psz (procs s ! me)) \<and> i < psz (procs s ! me)"
proof -
  from assms(3) obtain r t where r: "argint n s = Ret r t" unfolding argptr_def by (elim bnd_RetE) auto
  with keeps_Ret [OF keeps_argint] have t: "t = s" by blast
  from assms(1,3) r t have c: "0 \<le> sint len" "i < psz (procs s ! me)" "i + len \<le> psz (procs s ! me)" "s' = s"
    by (cases r; auto simp: argptr_def bnd_Ret with_me_def myproc_def getp_def not_less not_le split: if_splits)+
  have "unat len < 2 ^ 31"
    using c(1) by (rule nonneg_below)
  moreover have "unat i < 2 ^ 31"
    using c(2) assms(2) by (auto simp: word_less_nat_alt word_le_nat_alt)
  ultimately have "unat (i + len) = unat i + unat len" by (subst unat_add_lem [symmetric]) simp
  with c show ?thesis by (simp add: word_le_nat_alt)
qed

section \<open>Counting the pages of a process\<close>

definition mapped_pages :: "(nat \<Rightarrow> uint) \<Rightarrow> uint \<Rightarrow> nat \<Rightarrow> nat" where
  "mapped_pages m d n = card {k. k < n \<and> present (entry m d k)}"

lemma upages_KERNBASE: "sz \<le> KERNBASE \<Longrightarrow> upages sz \<le> 2 ^ 19"
  by (simp add: upages_def word_le_nat_alt)

lemma pte_count_loop_run:
  assumes wf: "pt_wf (kend s) (mem s) d" "KERNBASE < kend s" and sz: "sz \<le> KERNBASE"
    and "unat a mod 4096 = 0" and "vpn a \<le> upages sz" and "upages sz - vpn a < n"
  shows "pte_count_loop n d a sz c s
    = Ret (c + of_nat (card {k. vpn a \<le> k \<and> k < upages sz \<and> present (entry (mem s) d k)})) s"
  using assms(4-6)
proof (induction n arbitrary: a c)
  case 0
  then show ?case by simp
next
  case (Suc n)
  let ?P = "\<lambda>k. present (entry (mem s) d k)"
  show ?case
  proof (cases "a < sz")
    case False
    then have z: "{k. vpn a \<le> k \<and> k < upages sz \<and> ?P k} = {}" using upages_less [OF Suc.prems(1), of sz] by auto
    show ?thesis unfolding z using False by simp
  next
    case True
    then have lt: "vpn a < upages sz" using upages_less [OF Suc.prems(1), of sz] by simp
    then have v: "vpn a + 1 < 2 ^ 20" using upages_KERNBASE [OF sz] by simp
    let ?b = "a + PGSIZE"
    have b: "unat ?b mod 4096 = 0" "vpn ?b = Suc (vpn a)"
      using aligned_PGSIZE [OF Suc.prems(1) v] vpn_PGSIZE [OF v] by simp_all
    have set: "{k. vpn a \<le> k \<and> k < upages sz \<and> ?P k}
        = (if ?P (vpn a) then {vpn a} else {}) \<union> {k. vpn ?b \<le> k \<and> k < upages sz \<and> ?P k}"
      using lt b(2) by (auto simp: Suc_le_eq le_less)
    have card: "card {k. vpn a \<le> k \<and> k < upages sz \<and> ?P k}
        = (if ?P (vpn a) then 1 else 0) + card {k. vpn ?b \<le> k \<and> k < upages sz \<and> ?P k}"
      unfolding set using b(2) by (subst card_Un_disjoint) auto
    have rd: "ld32 (d + 4 * PDX a) s = Ret (pde (mem s) d (vpn a div 1024)) s"
      using wf kw_pde [of "kend s" d a] by (simp add: ld32_def pde_def pt_wf_def)
    have rs: "ld32 (P2V (PTE_ADDR (pde (mem s) d (vpn a div 1024))) + 4 * PTX a) s = Ret (mem s (slot (mem s) d (vpn a))) s"
      by (simp add: ld32_def kw_slot slot_def)
    have IH: "pte_count_loop n d ?b sz c' s
        = Ret (c' + of_nat (card {k. vpn ?b \<le> k \<and> k < upages sz \<and> ?P k})) s" for c'
      using Suc.IH [of ?b c'] b lt Suc.prems(3) by simp
    show ?thesis
      unfolding card using True by (simp add: bnd_Ret rd rs IH entry_def)
  qed
qed

text \<open>C37: the page statistics are exact. \<^verbatim>\<open>getptentries\<close> returns the number of pages below the size of the
  process that its page table maps, and \<^verbatim>\<open>getvpages\<close> the number of pages that its size takes; the two
  agree when every page is mapped. Neither changes the state.\<close>

theorem getptentries_counts:
  assumes "cur s = Some me" and "pt_wf (kend s) (mem s) (pgdir (procs s ! me))" and "KERNBASE < kend s"
    and "psz (procs s ! me) \<le> KERNBASE"
  shows "sys_getptentries s
      = Ret (of_nat (mapped_pages (mem s) (pgdir (procs s ! me)) (upages (psz (procs s ! me))))) s
    \<and> sys_getvpages s = Ret (of_nat (upages (psz (procs s ! me)))) s"
proof
  let ?sz = "psz (procs s ! me)"
  have up: "upages ?sz \<le> 2 ^ 19" using upages_KERNBASE assms(4) by simp
  show "sys_getptentries s = Ret (of_nat (mapped_pages (mem s) (pgdir (procs s ! me)) (upages ?sz))) s"
    unfolding sys_getptentries_def mapped_pages_def
    using pte_count_loop_run [OF assms(2-4), of 0 "2 ^ 20 + 1" 0] up assms(1)
    by (simp add: with_me_def myproc_def getp_def vpn_def del: pte_count_loop.simps)
  have "unat (?sz + PGSIZE - 1) = unat ?sz + 4095"
    using assms(4) by (subst add_diff_eq [symmetric], subst unat_add_lem [THEN iffD1]) (simp_all add: word_le_nat_alt)
  then have "unat ((?sz + PGSIZE - 1) div PGSIZE) = upages ?sz" by (simp add: unat_div upages_def)
  then have "(?sz + PGSIZE - 1) div PGSIZE = of_nat (upages ?sz)" 
    using up by (simp add: word_unat_eq_iff unsigned_of_nat take_bit_nat_eq_self)
  then show "sys_getvpages s = Ret (of_nat (upages ?sz)) s"
    using assms(1) by (simp add: sys_getvpages_def with_me_def myproc_def getp_def)
qed

text \<open>A process of 4000 bytes in an empty memory: nothing is mapped.\<close>

definition small_ptab :: ptab where
  "small_ptab = \<lparr>held = [], others = {}, mem = (\<lambda>_. 0), kend = 0x80200000, kdata = 0x80108000,
     freelist = 0, use_lock = True,
     procs = [\<lparr>psz = 4000, pgdir = 0x80300000, kstack = 0x80301000, state = RUNNING, pid = 1, parent = None,
       tf = 0x80301FB4, ctx = 0, chan = 0, killed = False, ofile = [], cwd = None, pname = [], priority = 10\<rparr>],
     initproc = None, nextpid = 2, cur = Some 0, kpgdir = 0x803FF000, cr3 = 0x3FF000, ts_ss0 = 0, ts_esp0 = 0,
     ts_iomb = 0, ticks = 0, outws = []\<rparr>"

theorem getptentries_counts_witness:
  "sys_getptentries small_ptab = Ret 0 small_ptab \<and> sys_getvpages small_ptab = Ret 1 small_ptab"
proof -
  have "mapped_pages (\<lambda>_. 0) 0x80300000 n = 0" for n by (simp add: mapped_pages_def entry_def pde_def)
  then show ?thesis
    using getptentries_counts [of small_ptab 0]
    by (simp add: small_ptab_def pt_wf_def pde_def page_ok_def V2P_def upages_def)
qed

section \<open>Reading mapped user memory\<close>

lemma user_byte_addr:
  "kw (P2V (PTE_ADDR e) + (va AND 0xFFF)) = frm e * 1024 + unat va mod 4096 div 4"
  "unat (V2P (P2V (PTE_ADDR e) + (va AND 0xFFF))) mod 4 = unat va mod 4"
proof -
  have "unat e < 2 ^ 32" using unsigned_less [of e] by simp
  then have "unat e div 4096 < 2 ^ 20" by (simp add: less_mult_imp_div_less)
  moreover have "unat va mod 4096 < 4096" by simp
  ultimately have "unat (PTE_ADDR e) + unat (va AND 0xFFF) < 2 ^ 32"
    unfolding unat_PTE_ADDR unat_and_mask12 by simp
  then have u: "unat (PTE_ADDR e + (va AND 0xFFF)) = frm e * 4096 + unat va mod 4096"
    by (subst unat_add_lem [THEN iffD1]) (simp_all add: unat_PTE_ADDR unat_and_mask12 frm_def)
  have f: "frm e * 4096 + unat va mod 4096 = unat va mod 4096 + 4 * (frm e * 1024)" by simp
  have v: "V2P (P2V (PTE_ADDR e) + (va AND 0xFFF)) = PTE_ADDR e + (va AND 0xFFF)" by (simp add: V2P_def P2V_def)
  show "kw (P2V (PTE_ADDR e) + (va AND 0xFFF)) = frm e * 1024 + unat va mod 4096 div 4"
    unfolding kw_def v u f by simp
  show "unat (V2P (P2V (PTE_ADDR e) + (va AND 0xFFF))) mod 4 = unat va mod 4"
    unfolding v u f mod_mult_self2 by (simp add: mod_mod_cancel)
qed

lemma uld8_run:
  assumes "cur s = Some me" and "pt_wf (kend s) (mem s) (pgdir (procs s ! me))" and "KERNBASE < kend s"
    and "entry (mem s) (pgdir (procs s ! me)) (vpn va) = e" and "present e"
  shows "uld8 va s = Ret (byte_of (unat va mod 4) (mem s (frm e * 1024 + unat va mod 4096 div 4))) s"
proof -
  let ?d = "pgdir (procs s ! me)"
  from walk_read [OF assms(2,3), of va] obtain p where p: "walkpgdir ?d va False s = Ret p s"
    "p = 0 \<longleftrightarrow> \<not> present (pde (mem s) ?d (vpn va div 1024))" "p \<noteq> 0 \<longrightarrow> kw p = slot (mem s) ?d (vpn va)" by blast
  have pr: "present (pde (mem s) ?d (vpn va div 1024))" and "mem s (slot (mem s) ?d (vpn va)) = e"
    using assms(4,5) by (auto simp: entry_def split: if_splits)
  with p have "ld32 p s = Ret e s" "p \<noteq> 0" by (auto simp: ld32_def)
  with p(1) assms(1,5) show ?thesis
    by (simp add: uld8_def with_me_def myproc_def getp_def bnd_Ret ld8_def user_byte_addr)
qed

lemma ust8_run:
  assumes "cur s = Some me" and "pt_wf (kend s) (mem s) (pgdir (procs s ! me))" and "KERNBASE < kend s"
    and "entry (mem s) (pgdir (procs s ! me)) (vpn va) = e" and "present e"
  shows "ust8 va b s = Ret () (s\<lparr>mem := (mem s)(frm e * 1024 + unat va mod 4096 div 4 :=
    set_byte (unat va mod 4) b (mem s (frm e * 1024 + unat va mod 4096 div 4)))\<rparr>)"
proof -
  let ?d = "pgdir (procs s ! me)"
  from walk_read [OF assms(2,3), of va] obtain p where p: "walkpgdir ?d va False s = Ret p s"
    "p = 0 \<longleftrightarrow> \<not> present (pde (mem s) ?d (vpn va div 1024))" "p \<noteq> 0 \<longrightarrow> kw p = slot (mem s) ?d (vpn va)" by blast
  have pr: "present (pde (mem s) ?d (vpn va div 1024))" and "mem s (slot (mem s) ?d (vpn va)) = e"
    using assms(4,5) by (auto simp: entry_def split: if_splits)
  with p have "ld32 p s = Ret e s" "p \<noteq> 0" by (auto simp: ld32_def)
  with p(1) assms(1,5) show ?thesis
    by (simp add: ust8_def with_me_def myproc_def getp_def bnd_Ret st8_def user_byte_addr)
qed

text \<open>A process whose first page is mapped, with the pointer 64 as its first argument.\<close>

definition arg_ptab :: ptab where
  "arg_ptab = small_ptab\<lparr>mem := (\<lambda>w. if w = 0x300 * 1024 then 0x303007 else if w = 0x303 * 1024 then 0x302007
     else if w = 0x301 * 1024 + 1022 then 100 else if w = 0x302 * 1024 + 26 then 64 else 0)\<rparr>"

lemma arg_ptab_table:
  "pt_wf (kend arg_ptab) (mem arg_ptab) 0x80300000" "entry (mem arg_ptab) 0x80300000 0 = 0x302007"
proof -
  have k: "kw 0x80300000 = 0x300 * 1024" "kpg 0x80300000 = 0x300" by (simp_all add: kw_def kpg_def V2P_def)
  have p: "pde (mem arg_ptab) 0x80300000 i = (if i = 0 then 0x303007 else 0)" if "i < 1024" for i
    using that by (auto simp: pde_def k arg_ptab_def)
  then show "pt_wf (kend arg_ptab) (mem arg_ptab) 0x80300000"
    unfolding pt_wf_def k by (auto simp: arg_ptab_def small_ptab_def page_ok_def V2P_def P2V_def PTE_ADDR_def frm_def)
  show "entry (mem arg_ptab) 0x80300000 0 = 0x302007"
    using p [of 0] by (simp add: entry_def slot_def frm_def) (simp add: arg_ptab_def)
qed

lemma arg_ptab_argint: "argint 0 arg_ptab = Ret (Some 64) arg_ptab"
proof -
  have s: "cur arg_ptab = Some 0" "pgdir (procs arg_ptab ! 0) = 0x80300000" "KERNBASE < kend arg_ptab"
    by (simp_all add: arg_ptab_def small_ptab_def)
  have w: "mem arg_ptab (frm 0x302007 * 1024 + 26) = 64" by (simp add: frm_def arg_ptab_def)
  have b: "uld8 va arg_ptab = Ret (byte_of (unat va mod 4) 64) arg_ptab" if "unat va div 4 = 26" for va
  proof -
    from that have "unat va < 108" by presburger
    then have "vpn va = 0" "unat va mod 4096 div 4 = 26" using that by (simp_all add: vpn_def)
    then show ?thesis using uld8_run [OF s(1), of va "0x302007"] s arg_ptab_table w by simp
  qed
  have four: "(4 :: nat) = Suc (Suc (Suc (Suc 0)))" by simp
  have "uld8 104 arg_ptab = Ret 64 arg_ptab" "uld8 105 arg_ptab = Ret 0 arg_ptab"
    "uld8 106 arg_ptab = Ret 0 arg_ptab" "uld8 107 arg_ptab = Ret 0 arg_ptab"
    using b [of 104] b [of 105] b [of 106] b [of 107] by (simp_all add: byte_of_def)
  then have "ulds 104 4 arg_ptab = Ret [64, 0, 0, 0] arg_ptab" unfolding four by (simp add: bnd_Ret)
  then have "uld32 104 arg_ptab = Ret 64 arg_ptab" by (simp add: uld32_def bnd_Ret)
  moreover have "tf_get 0 tf_esp arg_ptab = Ret 100 arg_ptab"
    by (simp add: tf_get_def getp_def ld32_def kw_def V2P_def arg_ptab_def small_ptab_def)
  moreover have "psz (procs arg_ptab ! 0) = 4000" by (simp add: arg_ptab_def small_ptab_def)
  ultimately show ?thesis
    using s by (simp add: argint_def fetchint_def with_me_def myproc_def getp_def bnd_Ret)
qed

theorem argptr_in_bounds_witness:
  "argptr 0 16 arg_ptab = Ret (Some 64) arg_ptab \<and> unat (64 :: uint) + unat (16 :: uint) \<le> 4000"
proof -
  have s: "cur arg_ptab = Some 0" "psz (procs arg_ptab ! 0) = 4000" by (simp_all add: arg_ptab_def small_ptab_def)
  then have "argptr 0 16 arg_ptab = Ret (Some 64) arg_ptab"
    using arg_ptab_argint by (simp add: argptr_def bnd_Ret with_me_def myproc_def getp_def)
  with argptr_in_bounds [of arg_ptab 0 0 16 64 arg_ptab] s show ?thesis by simp
qed

end
