(* ===== verification/Ring.thy ===== *)
theory Ring
  imports Prelude
begin

text \<open>
  Ring buffers indexed by free-running 32-bit counters: the pipe buffer of \<^verbatim>\<open>pipe.c\<close> and the input
  buffer of \<^verbatim>\<open>console.c\<close>. The counters are never reduced; only the array index is taken modulo the size. Since the
  size divides \<open>2 ^ 32\<close>, the wrap-around of the counters is harmless: the buffer always holds the
  sequence of bytes between the two counters.
\<close>

definition ring_content :: "nat \<Rightarrow> uchar list \<Rightarrow> uint \<Rightarrow> uint \<Rightarrow> uchar list" where
  "ring_content N d r e = map (\<lambda>k. d ! ((unat r + k) mod N)) [0..<unat (e - r)]"

lemma length_ring_content [simp]: "length (ring_content N d r e) = unat (e - r)"
  by (simp add: ring_content_def)

locale ring_size =
  fixes N :: nat
  assumes pos: "0 < N" and dvd: "N dvd 2 ^ 32" and small: "N < 2 ^ 32"
begin

lemma index_add: "unat (r + of_nat k :: uint) mod N = (unat r + k) mod N"
proof -
  have "unat (r + of_nat k :: uint) = (unat r + k) mod 2 ^ 32"
    by (simp add: unat_word_ariths unsigned_of_nat take_bit_eq_mod mod_add_right_eq)
  then show ?thesis using dvd by (simp add: mod_mod_cancel)
qed

lemma index_end: "unat (e :: uint) mod N = (unat r + unat (e - r)) mod N"
  using index_add [of r "unat (e - r)"] by simp

lemma count_Suc:
  assumes "unat (e - r :: uint) < N"
  shows "unat (e + 1 - r) = Suc (unat (e - r))"
proof -
  have "unat (1 + (e - r)) = Suc (unat (e - r))"
  proof (rule unatSuc, rule notI)
    assume "1 + (e - r) = 0"
    then have "e - r = - 1" by (metis add.commute eq_neg_iff_add_eq_0)
    then have "unat (e - r) = 2 ^ 32 - 1" by (simp add: unsigned_minus_1_eq_mask mask_eq_exp_minus_1)
    with assms small show False by simp
  qed
  then show ?thesis by (simp add: algebra_simps)
qed

lemma index_neq: "j < k \<Longrightarrow> k < j + N \<Longrightarrow> (x + j) mod N \<noteq> (x + k) mod N"
proof
  assume jk: "j < k" "k < j + N" and eq: "(x + j) mod N = (x + k) mod N"
  then have "N dvd (x + k) - (x + j)" by (metis mod_eq_dvd_iff_nat add_le_cancel_left less_imp_le_nat)
  then have "N dvd k - j" by simp
  with jk show False by (metis dvd_imp_le less_diff_conv2 less_imp_le_nat not_less zero_less_diff add.commute)
qed

lemma put:
  assumes len: "length d = N" and room: "unat (e - r) < N"
  shows "ring_content N (d[unat e mod N := c]) r (e + 1) = ring_content N d r e @ [c]"
proof -
  let ?n = "unat (e - r)"
  have "d[unat e mod N := c] ! ((unat r + k) mod N) = d ! ((unat r + k) mod N)" if "k < ?n" for k
    using index_neq [of k ?n "unat r"] that room len pos index_end [of e r] by (simp add: nth_list_update)
  moreover have "d[unat e mod N := c] ! ((unat r + ?n) mod N) = c"
    using index_end [of e r] len pos by simp
  ultimately show ?thesis
    unfolding ring_content_def count_Suc [OF room] by (simp add: map_append [symmetric] del: map_append) simp
qed

lemma get:
  assumes "r \<noteq> e"
  shows "ring_content N d r e = d ! (unat r mod N) # ring_content N d (r + 1) e"
    and "unat (e - r) = Suc (unat (e - (r + 1)))"
proof -
  have "e - r \<noteq> 0" using assms by simp
  then have "unat (e - r) = Suc (unat (e - r - 1))" by (simp add: unat_minus_one unat_gt_0)
  then show c: "unat (e - r) = Suc (unat (e - (r + 1)))" by (simp add: algebra_simps)
  have i: "(unat (r + 1) + k) mod N = (unat r + Suc k) mod N" for k
    using index_add [of r 1] by (metis One_nat_def add.assoc add_Suc_right mod_add_left_eq of_nat_1 plus_1_eq_Suc)
  have "[0..<unat (e - r)] = 0 # map Suc [0..<unat (e - (r + 1))]" unfolding c by (simp add: map_Suc_upt upt_conv_Cons del: upt_Suc)
  then show "ring_content N d r e = d ! (unat r mod N) # ring_content N d (r + 1) e"
    by (simp add: ring_content_def i comp_def)
qed

lemma unput:
  assumes "e \<noteq> r"
  shows "ring_content N d r (e - 1) = butlast (ring_content N d r e)"
    and "unat (e - 1 - r) = unat (e - r) - 1"
proof -
  have "e - r \<noteq> 0" using assms by simp
  then have "unat (e - r - 1) = unat (e - r) - 1" by (simp add: unat_minus_one)
  then show c: "unat (e - 1 - r) = unat (e - r) - 1" by (simp add: algebra_simps)
  show "ring_content N d r (e - 1) = butlast (ring_content N d r e)"
    unfolding ring_content_def c by (cases "unat (e - r)") (simp_all add: butlast_append)
qed

lemma full: "unat (e - r :: uint) \<le> N \<Longrightarrow> e = r + of_nat N \<longleftrightarrow> unat (e - r) = N"
proof -
  have "unat (of_nat N :: uint) = N" using small by (simp add: unsigned_of_nat take_bit_nat_eq_self)
  then show ?thesis by (metis add.commute diff_add_cancel add_diff_cancel_left' unsigned_word_eqI)
qed

lemma split:
  assumes "unat (w - r :: uint) \<le> unat (e - r)"
  shows "unat (e - w) = unat (e - r) - unat (w - r)"
    and "ring_content N d r e = ring_content N d r w @ ring_content N d w e"
proof -
  have eq: "(e - r) - (w - r) = e - w" by simp
  have "unat ((e - r) - (w - r)) = unat (e - r) - unat (w - r)"
    using assms by (intro unat_sub) (simp add: word_le_nat_alt)
  then show c: "unat (e - w) = unat (e - r) - unat (w - r)" unfolding eq .
  have s: "[0..<unat (e - r)] = [0..<unat (w - r)] @ map (\<lambda>k. k + unat (w - r)) [0..<unat (e - w)]"
    using assms c upt_add_eq_append [of 0 "unat (w - r)" "unat (e - r) - unat (w - r)"] by (simp add: map_add_upt)
  have "(unat w + k) mod N = (unat r + (k + unat (w - r))) mod N" for k
    using index_end [of w r] by (metis add.assoc add.commute mod_add_left_eq)
  then show "ring_content N d r e = ring_content N d r w @ ring_content N d w e"
    unfolding ring_content_def s by simp
qed

end

end
