(* ===== verification/Pipe.thy ===== *)
theory Pipe
  imports Sysproc Ring ProcInv
begin

text \<open>
  Pipes (\<^verbatim>\<open>pipe.c\<close>; \<^verbatim>\<open>pipealloc\<close> is with the file table). A pipe is named by the address of its page; its lock is
  \<open>PipeLock\<close> of that address, and the channels are the addresses of its counters. A writer that
  finds the buffer full, or a reader that finds it empty, sleeps; when it is woken it continues at the loop
  with the pipe's lock held (\<open>pipewrite_loop\<close>, \<open>piperead_loop\<close>).
\<close>

section \<open>State\<close>

definition PIPESIZE :: nat where
  "PIPESIZE = 512"

record pipe =
  data :: "uchar list"
  nread :: uint
  nwrite :: uint
  readopen :: bool
  writeopen :: bool

record pipest = ptab +
  pipes :: "uint \<Rightarrow> pipe"

definition upd_pipe :: "uint \<Rightarrow> (pipe \<Rightarrow> pipe) \<Rightarrow> ('e pipest_scheme, unit) km" where
  "upd_pipe p f = upd (\<lambda>s. s\<lparr>pipes := (pipes s)(p := f (pipes s p))\<rparr>)"

definition plock :: "uint \<Rightarrow> lockid" where
  "plock p = PipeLock (unat p)"

definition nread_chan :: "uint \<Rightarrow> uint" where
  "nread_chan p = p + 564"

definition nwrite_chan :: "uint \<Rightarrow> uint" where
  "nwrite_chan p = p + 568"

section \<open>The code\<close>

definition pipeclose :: "uint \<Rightarrow> bool \<Rightarrow> ('e pipest_scheme, unit) km" where
  "pipeclose p writable =
     thn (lock_acquire (plock p)) (
     thn (if writable then thn (upd_pipe p (\<lambda>q. q\<lparr>writeopen := False\<rparr>)) (wakeup (nread_chan p))
          else thn (upd_pipe p (\<lambda>q. q\<lparr>readopen := False\<rparr>)) (wakeup (nwrite_chan p))) (
     bnd (gets (\<lambda>s. pipes s p)) (\<lambda>q.
     if \<not> readopen q \<and> \<not> writeopen q then thn (lock_release (plock p)) (kfree p)
     else lock_release (plock p))))"

definition pipe_put :: "uchar \<Rightarrow> pipe \<Rightarrow> pipe" where
  "pipe_put c q = q\<lparr>data := (data q)[unat (nwrite q) mod PIPESIZE := c], nwrite := nwrite q + 1\<rparr>"

fun pipewrite_loop :: "uint \<Rightarrow> uint \<Rightarrow> nat \<Rightarrow> int \<Rightarrow> ('e pipest_scheme, int) km" where
  "pipewrite_loop p addr 0 n =
     thn (wakeup (nread_chan p)) (
     thn (lock_release (plock p)) (
     ret n))"
| "pipewrite_loop p addr (Suc k) n =
     bnd (gets (\<lambda>s. pipes s p)) (\<lambda>q.
     if nwrite q = nread q + of_nat PIPESIZE then
       with_me (\<lambda>me. bnd (getp me killed) (\<lambda>kl.
       if \<not> readopen q \<or> kl then thn (lock_release (plock p)) (ret (-1))
       else thn (wakeup (nread_chan p)) (thn (sleep (nwrite_chan p) (Some (plock p))) (ret (-1)))))
     else
       bnd (uld8 addr) (\<lambda>c.
       thn (upd_pipe p (pipe_put c)) (
       pipewrite_loop p (addr + 1) k n)))"

definition pipewrite :: "uint \<Rightarrow> uint \<Rightarrow> int \<Rightarrow> ('e pipest_scheme, int) km" where
  "pipewrite p addr n = thn (lock_acquire (plock p)) (pipewrite_loop p addr (nat n) n)"

definition pipe_get :: "pipe \<Rightarrow> uchar" where
  "pipe_get q = data q ! (unat (nread q) mod PIPESIZE)"

text \<open>The copying loop; the value is the number of bytes copied.\<close>

fun piperead_copy :: "uint \<Rightarrow> uint \<Rightarrow> nat \<Rightarrow> ('e pipest_scheme, nat) km" where
  "piperead_copy p addr 0 = ret 0"
| "piperead_copy p addr (Suc k) =
     bnd (gets (\<lambda>s. pipes s p)) (\<lambda>q.
     if nread q = nwrite q then ret 0
     else
       thn (upd_pipe p (\<lambda>q. q\<lparr>nread := nread q + 1\<rparr>)) (
       thn (ust8 addr (pipe_get q)) (
       bnd (piperead_copy p (addr + 1) k) (\<lambda>i. ret (Suc i)))))"

definition piperead_loop :: "uint \<Rightarrow> uint \<Rightarrow> int \<Rightarrow> ('e pipest_scheme, int) km" where
  "piperead_loop p addr n =
     bnd (gets (\<lambda>s. pipes s p)) (\<lambda>q.
     if nread q = nwrite q \<and> writeopen q then
       with_me (\<lambda>me. bnd (getp me killed) (\<lambda>kl.
       if kl then thn (lock_release (plock p)) (ret (-1))
       else thn (sleep (nread_chan p) (Some (plock p))) (ret (-1))))
     else
       bnd (piperead_copy p addr (nat n)) (\<lambda>i.
       thn (wakeup (nwrite_chan p)) (
       thn (lock_release (plock p)) (
       ret (int i)))))"

definition piperead :: "uint \<Rightarrow> uint \<Rightarrow> int \<Rightarrow> ('e pipest_scheme, int) km" where
  "piperead p addr n = thn (lock_acquire (plock p)) (piperead_loop p addr n)"

section \<open>The buffer as a queue\<close>

definition pipe_ok :: "pipe \<Rightarrow> bool" where
  "pipe_ok q \<longleftrightarrow> length (data q) = PIPESIZE \<and> unat (nwrite q - nread q) \<le> PIPESIZE"

definition queue :: "pipe \<Rightarrow> uchar list" where
  "queue q = ring_content PIPESIZE (data q) (nread q) (nwrite q)"

interpretation pipe_ring: ring_size PIPESIZE
  by unfold_locales (simp_all add: PIPESIZE_def)

lemma pipe_full: "pipe_ok q \<Longrightarrow> nwrite q = nread q + of_nat PIPESIZE \<longleftrightarrow> length (queue q) = PIPESIZE"
  using pipe_ring.full by (simp add: pipe_ok_def queue_def)

lemma pipe_empty: "nread q = nwrite q \<longleftrightarrow> queue q = []"
proof -
  have "unat (nwrite q - nread q) = 0 \<longleftrightarrow> nread q = nwrite q" by (auto simp: unat_eq_0)
  then show ?thesis by (simp add: queue_def flip: length_0_conv)
qed

lemma queue_put:
  assumes "pipe_ok q" and "length (queue q) < PIPESIZE"
  shows "pipe_ok (pipe_put c q)" and "queue (pipe_put c q) = queue q @ [c]"
  using assms pipe_ring.put [of "data q" "nwrite q" "nread q" c] pipe_ring.count_Suc [of "nwrite q" "nread q"]
  by (simp_all add: pipe_ok_def queue_def pipe_put_def)

lemma queue_get:
  assumes "pipe_ok q" and "nread q \<noteq> nwrite q"
  shows "queue q = pipe_get q # queue (q\<lparr>nread := nread q + 1\<rparr>)" and "pipe_ok (q\<lparr>nread := nread q + 1\<rparr>)"
  using assms pipe_ring.get(1) [OF assms(2), of "data q"] pipe_ring.get(2) [OF assms(2)]
  by (simp_all add: pipe_ok_def queue_def pipe_get_def)

section \<open>User memory does not depend on the pipes\<close>

lemma uld8_frame:
  assumes "uld8 va s = Ret b s"
  shows "uld8 va (s\<lparr>held := h\<rparr>) = Ret b (s\<lparr>held := h\<rparr>)" and "uld8 va (s\<lparr>pipes := x\<rparr>) = Ret b (s\<lparr>pipes := x\<rparr>)"
  using assms
  by (auto simp: uld8_def with_me_def myproc_def getp_def walkpgdir_def Let_def ld32_def ld8_def
      split: option.splits if_splits)

lemma ust8_mem:
  assumes "ust8 va b s = Ret () s'"
  shows "\<exists>m. s' = s\<lparr>mem := m\<rparr> \<and> (\<forall>x. ust8 va b (s\<lparr>pipes := x\<rparr>) = Ret () (s\<lparr>pipes := x, mem := m\<rparr>))"
  using assms
  by (auto simp: ust8_def with_me_def myproc_def getp_def walkpgdir_def Let_def ld32_def st8_def
      split: option.splits if_splits)

lemma ulds_Suc:
  assumes "ulds va (Suc n) s = Ret bs s"
  obtains b bs' where "bs = b # bs'" and "uld8 va s = Ret b s" and "ulds (va + 1) n s = Ret bs' s"
proof -
  from assms obtain b s1 where b: "uld8 va s = Ret b s1" "bnd (ulds (va + 1) n) (\<lambda>bs. ret (b # bs)) s1 = Ret bs s"
    unfolding ulds.simps by (rule bnd_RetE)
  have s1: "s1 = s" using keeps_Ret [OF keeps_uld8 b(1)] by simp
  with b(2) obtain bs' s2 where "ulds (va + 1) n s = Ret bs' s2" "bs = b # bs'" "s2 = s" by (auto elim!: bnd_RetE)
  with that b(1) s1 show ?thesis by blast
qed

lemma length_ulds: "ulds va n s = Ret bs s \<Longrightarrow> length bs = n"
proof (induction n arbitrary: va bs)
  case (Suc n)
  from Suc.prems obtain b bs' where "bs = b # bs'" "ulds (va + 1) n s = Ret bs' s" by (rule ulds_Suc)
  with Suc.IH show ?case by simp
qed simp

lemma ulds_transfer:
  assumes "\<And>va b. uld8 va s = Ret b s \<Longrightarrow> uld8 va t = Ret b t" and "ulds va n s = Ret bs s"
  shows "ulds va n t = Ret bs t"
  using assms(2)
proof (induction n arbitrary: va bs)
  case 0
  then show ?case by simp
next
  case (Suc n)
  from Suc.prems obtain b bs' where "bs = b # bs'" "uld8 va s = Ret b s" "ulds (va + 1) n s = Ret bs' s"
    by (rule ulds_Suc)
  with Suc.IH assms(1) show ?case by (simp add: bnd_Ret)
qed

lemma ulds_frame:
  assumes "ulds va n s = Ret bs s"
  shows "ulds va n (s\<lparr>held := h\<rparr>) = Ret bs (s\<lparr>held := h\<rparr>)" and "ulds va n (s\<lparr>pipes := x\<rparr>) = Ret bs (s\<lparr>pipes := x\<rparr>)"
  using ulds_transfer [OF uld8_frame(1) assms] ulds_transfer [OF uld8_frame(2) assms] by blast+

lemma usts_mem:
  assumes "usts va bs s = Ret () t"
  shows "\<exists>m. t = s\<lparr>mem := m\<rparr> \<and> (\<forall>x. usts va bs (s\<lparr>pipes := x\<rparr>) = Ret () (s\<lparr>pipes := x, mem := m\<rparr>))"
  using assms
proof (induction bs arbitrary: va s t)
  case Nil
  then show ?case by (intro exI [of _ "mem s"]) simp
next
  case (Cons b bs)
  then obtain s1 where s1: "ust8 va b s = Ret () s1" "usts (va + 1) bs s1 = Ret () t" by (auto elim: thn_RetE)
  from ust8_mem [OF s1(1)] obtain m where m: "s1 = s\<lparr>mem := m\<rparr>"
    "\<And>x. ust8 va b (s\<lparr>pipes := x\<rparr>) = Ret () (s\<lparr>pipes := x, mem := m\<rparr>)" by auto
  from Cons.IH [OF s1(2)] obtain m' where m': "t = s1\<lparr>mem := m'\<rparr>"
    "\<And>x. usts (va + 1) bs (s1\<lparr>pipes := x\<rparr>) = Ret () (s1\<lparr>pipes := x, mem := m'\<rparr>)" by auto
  have "usts (va + 1) bs (s\<lparr>pipes := x, mem := m\<rparr>) = Ret () (s\<lparr>pipes := x, mem := m'\<rparr>)" for x
  proof -
    have "s1\<lparr>pipes := x\<rparr> = s\<lparr>pipes := x, mem := m\<rparr>" "s1\<lparr>pipes := x, mem := m'\<rparr> = s\<lparr>pipes := x, mem := m'\<rparr>"
      by (simp_all add: m(1))
    then show ?thesis using m'(2) [of x] by simp
  qed
  with m m'(1) show ?case by (intro exI [of _ m']) (simp add: thn_Ret)
qed

section \<open>Writing and reading\<close>

lemma wakeup_run:
  assumes "lock_free PtableLock s" and "length (procs s) = NPROC"
  shows "wakeup ch s = Ret () (s\<lparr>procs := map (woken ch) (procs s)\<rparr>)"
  using assms wakeup1_run [of "s\<lparr>held := PtableLock # held s\<rparr>" ch]
  by (simp add: wakeup_unfold thn_acquire thn_Ret lock_release_def)

lemma queue_puts:
  "pipe_ok q \<Longrightarrow> length (queue q) + length bs \<le> PIPESIZE \<Longrightarrow>
    pipe_ok (fold pipe_put bs q) \<and> queue (fold pipe_put bs q) = queue q @ bs"
  by (induction bs arbitrary: q) (simp_all add: queue_put)

lemma pipewrite_loop_run:
  assumes "pipe_ok (pipes s p)" and "length (queue (pipes s p)) + k \<le> PIPESIZE" and "ulds addr k s = Ret bs s"
  shows "pipewrite_loop p addr k n s
    = pipewrite_loop p (addr + of_nat k) 0 n (s\<lparr>pipes := (pipes s)(p := fold pipe_put bs (pipes s p))\<rparr>)"
  using assms
proof (induction k arbitrary: addr bs s)
  case 0
  then show ?case by simp
next
  case (Suc k)
  from Suc.prems(3) obtain b bs' where b: "bs = b # bs'" "uld8 addr s = Ret b s" "ulds (addr + 1) k s = Ret bs' s"
    by (rule ulds_Suc)
  let ?q = "pipes s p"
  let ?s = "s\<lparr>pipes := (pipes s)(p := pipe_put b ?q)\<rparr>"
  have nf: "nwrite ?q \<noteq> nread ?q + of_nat PIPESIZE" using Suc.prems(1,2) pipe_full [of ?q] by simp
  have "pipe_ok (pipes ?s p)" "length (queue (pipes ?s p)) + k \<le> PIPESIZE"
    using queue_put [of ?q b] Suc.prems(1,2) by simp_all
  from Suc.IH [OF this ulds_frame(2) [OF b(3)]] show ?case
    using nf b by (simp add: bnd_Ret upd_pipe_def cong: if_cong)
qed

text \<open>C38: writing to a pipe appends. When the bytes fit and the user memory they come from is mapped, \<^verbatim>\<open>pipewrite\<close>
  returns their number, the queue of the pipe is extended by exactly these bytes in order, the
  readers of this pipe are woken, and nothing else changes; the wrap-around of the buffer and of the
  counters does not show.\<close>

theorem pipewrite_appends:
  assumes "lock_free (plock p) s" and "lock_free PtableLock s" and "length (procs s) = NPROC"
    and "pipe_ok (pipes s p)" and "0 \<le> n" and "length (queue (pipes s p)) + nat n \<le> PIPESIZE"
    and "ulds addr (nat n) s = Ret bs s"
  shows "\<exists>q. pipewrite p addr n s
      = Ret n (s\<lparr>pipes := (pipes s)(p := q), procs := map (woken (nread_chan p)) (procs s)\<rparr>)
    \<and> pipe_ok q \<and> queue q = queue (pipes s p) @ bs"
proof -
  let ?s = "s\<lparr>held := plock p # held s\<rparr>" and ?q = "fold pipe_put bs (pipes s p)"
  have "length bs = nat n" by (rule length_ulds [OF assms(7)])
  then have q: "pipe_ok ?q" "queue ?q = queue (pipes s p) @ bs" using queue_puts assms(4,6) by auto
  have "lock_free PtableLock (?s\<lparr>pipes := x\<rparr>)" for x using assms(2) by (simp add: lock_free_def plock_def)
  then have "wakeup ch (?s\<lparr>pipes := x\<rparr>) = Ret () (?s\<lparr>pipes := x, procs := map (woken ch) (procs s)\<rparr>)" for ch x
    using assms(3) by (subst wakeup_run) simp_all
  then have "pipewrite p addr n s
      = Ret n (s\<lparr>pipes := (pipes s)(p := ?q), procs := map (woken (nread_chan p)) (procs s)\<rparr>)"
    using pipewrite_loop_run [of ?s p "nat n" addr bs n] ulds_frame(1) [OF assms(7)] assms(1,4,6)
    by (simp add: pipewrite_def thn_acquire thn_Ret lock_release_def)
  with q show ?thesis by blast
qed

definition pipe_skip :: "nat \<Rightarrow> pipe \<Rightarrow> pipe" where
  "pipe_skip k q = q\<lparr>nread := nread q + of_nat k\<rparr>"

lemma pipe_skip_0 [simp]: "pipe_skip 0 q = q"
  by (simp add: pipe_skip_def)

lemma pipe_skip_Suc: "pipe_skip k (q\<lparr>nread := nread q + 1\<rparr>) = pipe_skip (Suc k) q"
  by (simp add: pipe_skip_def add.assoc)

lemma queue_skip:
  "pipe_ok q \<Longrightarrow> k \<le> length (queue q) \<Longrightarrow> pipe_ok (pipe_skip k q) \<and> queue (pipe_skip k q) = drop k (queue q)"
proof (induction k arbitrary: q)
  case 0
  then show ?case by simp
next
  case (Suc k)
  then have ne: "nread q \<noteq> nwrite q" by (auto simp: pipe_empty)
  note g = queue_get [OF Suc.prems(1) ne]
  from Suc.IH [OF g(2)] Suc.prems(2) g(1) show ?case by (simp add: pipe_skip_Suc [symmetric])
qed

lemma piperead_copy_run:
  assumes "pipe_ok (pipes s p)" and "usts addr (take k (queue (pipes s p))) s = Ret () t"
  shows "piperead_copy p addr k s = Ret (min k (length (queue (pipes s p))))
    (t\<lparr>pipes := (pipes s)(p := pipe_skip (min k (length (queue (pipes s p)))) (pipes s p))\<rparr>)"
  using assms
proof (induction k arbitrary: addr s t)
  case 0
  then show ?case by simp
next
  case (Suc k)
  let ?q = "pipes s p"
  show ?case
  proof (cases "nread ?q = nwrite ?q")
    case True
    then have "queue ?q = []" by (simp add: pipe_empty)
    with True Suc.prems show ?thesis by simp
  next
    case False
    let ?q1 = "?q\<lparr>nread := nread ?q + 1\<rparr>"
    note g = queue_get [OF Suc.prems(1) False]
    from Suc.prems(2) g(1) obtain s1 where s1: "ust8 addr (pipe_get ?q) s = Ret () s1"
      "usts (addr + 1) (take k (queue ?q1)) s1 = Ret () t" by (auto elim: thn_RetE)
    from ust8_mem [OF s1(1)] obtain m where m: "s1 = s\<lparr>mem := m\<rparr>"
      "\<And>x. ust8 addr (pipe_get ?q) (s\<lparr>pipes := x\<rparr>) = Ret () (s\<lparr>pipes := x, mem := m\<rparr>)" by auto
    let ?x = "(pipes s)(p := ?q1)"
    from usts_mem [OF s1(2)] obtain m' where m': "t = s1\<lparr>mem := m'\<rparr>"
      "usts (addr + 1) (take k (queue ?q1)) (s1\<lparr>pipes := ?x\<rparr>) = Ret () (s1\<lparr>pipes := ?x, mem := m'\<rparr>)" by auto
    have e: "s1\<lparr>pipes := ?x\<rparr> = s\<lparr>pipes := ?x, mem := m\<rparr>" by (simp add: m(1))
    let ?s2 = "s\<lparr>pipes := ?x, mem := m\<rparr>" and ?k = "min k (length (queue ?q1))"
    have q1: "pipes ?s2 p = ?q1" by simp
    have "piperead_copy p (addr + 1) k ?s2 = Ret ?k
        (s1\<lparr>pipes := ?x, mem := m', pipes := (pipes ?s2)(p := pipe_skip ?k ?q1)\<rparr>)"
      using Suc.IH [of ?s2 "addr + 1" "s1\<lparr>pipes := ?x, mem := m'\<rparr>", unfolded q1] g(2) m'(2) unfolding e by (simp del: fun_upd_apply)
    then show ?thesis
      using False m g(1) m'(1) by (simp add: upd_pipe_def thn_Ret bnd_Ret pipe_skip_Suc del: fun_upd_apply)
  qed
qed

text \<open>C39: reading from a pipe takes from the front. When the pipe holds bytes or has no writer left, and the user
  memory is mapped, \<^verbatim>\<open>piperead\<close> stores the first \<open>n\<close> bytes of the queue, or all of them when there are fewer, returns
  how many, removes exactly these from the queue and wakes the writers of this pipe.\<close>

theorem piperead_takes:
  assumes "lock_free (plock p) s" and "lock_free PtableLock s" and "length (procs s) = NPROC"
    and "pipe_ok (pipes s p)" and "queue (pipes s p) \<noteq> [] \<or> \<not> writeopen (pipes s p)"
    and "usts addr (take (nat n) (queue (pipes s p))) (s\<lparr>held := plock p # held s\<rparr>) = Ret () t"
  shows "\<exists>q. piperead p addr n s = Ret (int (min (nat n) (length (queue (pipes s p)))))
      (s\<lparr>mem := mem t, pipes := (pipes s)(p := q), procs := map (woken (nwrite_chan p)) (procs s)\<rparr>)
    \<and> pipe_ok q \<and> queue q = drop (nat n) (queue (pipes s p))"
proof -
  let ?k = "min (nat n) (length (queue (pipes s p)))"
  let ?s = "s\<lparr>held := plock p # held s\<rparr>" and ?q = "pipe_skip ?k (pipes s p)"
  from usts_mem [OF assms(6)] obtain m where t: "t = ?s\<lparr>mem := m\<rparr>" by auto
  have go: "\<not> (nread (pipes s p) = nwrite (pipes s p) \<and> writeopen (pipes s p))"
    using assms(5) by (auto simp: pipe_empty)
  have c: "piperead_copy p addr (nat n) ?s = Ret ?k (t\<lparr>pipes := (pipes s)(p := ?q)\<rparr>)"
    using piperead_copy_run [of ?s p addr "nat n" t] assms(4,6) by simp
  have "lock_free PtableLock (t\<lparr>pipes := x\<rparr>)" for x using assms(2) t by (simp add: lock_free_def plock_def)
  then have w: "wakeup ch (t\<lparr>pipes := x\<rparr>) = Ret () (t\<lparr>pipes := x, procs := map (woken ch) (procs s)\<rparr>)" for ch x
    using assms(3) t by (subst wakeup_run) simp_all
  define u where "u = t\<lparr>pipes := (pipes s)(p := ?q), procs := map (woken (nwrite_chan p)) (procs s)\<rparr>"
  have u: "plock p \<in> set (held u)" "remove1 (plock p) (held u) = held s" by (simp_all add: u_def t)
  have "piperead_loop p addr n ?s = thn (lock_release (plock p)) (ret (int ?k)) u"
    unfolding u_def using go by (auto simp: piperead_loop_def bnd_Ret [where m = "piperead_copy p addr (nat n)", OF c]
        thn_Ret [where m = "wakeup (nwrite_chan p)", OF w] simp del: fun_upd_apply)
  then have "piperead p addr n s = Ret (int ?k) (u\<lparr>held := held s\<rparr>)"
    using assms(1) u by (simp add: piperead_def thn_acquire thn_release)
  then have "piperead p addr n s = Ret (int ?k)
      (s\<lparr>mem := mem t, pipes := (pipes s)(p := ?q), procs := map (woken (nwrite_chan p)) (procs s)\<rparr>)"
    unfolding u_def t by simp
  moreover have "pipe_ok ?q \<and> queue ?q = drop ?k (queue (pipes s p))" using queue_skip assms(4) by simp
  moreover have "drop ?k (queue (pipes s p)) = drop (nat n) (queue (pipes s p))" by (simp add: min_def)
  ultimately show ?thesis by metis
qed

section \<open>Witnesses\<close>

text \<open>A pipe whose counters are about to wrap around, next to a process with one mapped page.\<close>

definition wrap_pipe :: pipe where
  "wrap_pipe = \<lparr>data = replicate PIPESIZE 7, nread = - 2, nwrite = - 1, readopen = True, writeopen = True\<rparr>"

definition pipe_example :: pipest where
  "pipe_example = ptab.extend (arg_ptab\<lparr>procs := procs arg_ptab @ replicate 63 zero_proc\<rparr>)
     (pipest.fields (\<lambda>_. wrap_pipe))"

lemma pipe_example_sel:
  "held pipe_example = []" "others pipe_example = {}" "length (procs pipe_example) = NPROC"
  "pipes pipe_example p = wrap_pipe" "cur pipe_example = Some 0" "mem pipe_example = mem arg_ptab"
  "kend pipe_example = kend arg_ptab" "pgdir (procs pipe_example ! 0) = 0x80300000" "KERNBASE < kend arg_ptab"
  by (simp_all add: pipe_example_def ptab.defs pipest.defs arg_ptab_def small_ptab_def NPROC_def)

lemma wrap_pipe_ok: "pipe_ok wrap_pipe" "queue wrap_pipe = [7]"
  by (simp_all add: pipe_ok_def wrap_pipe_def queue_def ring_content_def PIPESIZE_def)

lemma pipe_example_entry: "entry (mem pipe_example) (pgdir (procs pipe_example ! 0)) (vpn 104) = 0x302007"
  using arg_ptab_table(2) by (simp add: pipe_example_sel vpn_def)

theorem pipewrite_appends_witness:
  "\<exists>q s'. pipewrite 0x80400000 104 1 pipe_example = Ret 1 s' \<and> pipes s' 0x80400000 = q \<and> queue q = [7, 64]"
proof -
  have "uld8 104 pipe_example = Ret 64 pipe_example"
    using uld8_run [OF _ _ _ pipe_example_entry] arg_ptab_table(1)
    by (simp add: pipe_example_sel frm_def byte_of_def) (simp add: arg_ptab_def)
  then have "ulds 104 (nat 1) pipe_example = Ret [64] pipe_example" by (simp add: bnd_Ret)
  then show ?thesis
    using pipewrite_appends [of "0x80400000" pipe_example 1 104 "[64]"] wrap_pipe_ok
    by (auto simp: pipe_example_sel lock_free_def PIPESIZE_def)
qed

theorem piperead_takes_witness:
  "\<exists>s'. piperead 0x80400000 104 5 pipe_example = Ret 1 s' \<and> queue (pipes s' 0x80400000) = []"
proof -
  let ?s = "pipe_example\<lparr>held := [plock 0x80400000]\<rparr>"
  obtain t where "ust8 104 7 ?s = Ret () t"
    using ust8_run [of ?s 0 104 "0x302007" 7] pipe_example_entry arg_ptab_table(1) by (simp add: pipe_example_sel)
  then have "usts 104 [7] ?s = Ret () t" by (simp add: thn_Ret)
  then show ?thesis
    using piperead_takes [of "0x80400000" pipe_example 104 5 t] wrap_pipe_ok
    by (auto simp: pipe_example_sel lock_free_def)
qed

end
