(* ===== verification/Kbd.thy ===== *)
theory Kbd
  imports Prelude
begin

unbundle bit_operations_syntax

text \<open>
  The keyboard decoder (\<^verbatim>\<open>kbd.c\<close>) and its tables (\<^verbatim>\<open>kbd.h\<close>). A table with designated initialisers is
  the list of its leading entries and the entries given by index; the others are 0.
\<close>

section \<open>Tables\<close>

definition tbl :: "uchar list \<Rightarrow> (uchar \<times> uchar) list \<Rightarrow> uchar \<Rightarrow> uchar" where
  "tbl xs as d = (case map_of as d of Some c \<Rightarrow> c | None \<Rightarrow> if unat d < length xs then xs ! unat d else 0)"

abbreviation SHIFT :: uint where "SHIFT \<equiv> 1"
abbreviation CTL :: uint where "CTL \<equiv> 2"
abbreviation CAPSLOCK :: uint where "CAPSLOCK \<equiv> 8"
abbreviation E0ESC :: uint where "E0ESC \<equiv> 64"

definition shiftcode :: "uchar \<Rightarrow> uchar" where
  "shiftcode = tbl
      []
      [(0x1d, 2), (0x2a, 1), (0x36, 1), (0x38, 4), (0x9d, 2), (0xb8, 4)]"

definition togglecode :: "uchar \<Rightarrow> uchar" where
  "togglecode = tbl
      []
      [(0x3a, 8), (0x45, 16), (0x46, 32)]"

definition normalmap :: "uchar \<Rightarrow> uchar" where
  "normalmap = tbl
      [0, 27, 49, 50, 51, 52, 53, 54, 55, 56, 57, 48, 45, 61, 8, 9,
       113, 119, 101, 114, 116, 121, 117, 105, 111, 112, 91, 93, 10, 0, 97, 115,
       100, 102, 103, 104, 106, 107, 108, 59, 39, 96, 0, 92, 122, 120, 99, 118,
       98, 110, 109, 44, 46, 47, 0, 42, 0, 32, 0, 0, 0, 0, 0, 0,
       0, 0, 0, 0, 0, 0, 0, 55, 56, 57, 45, 52, 53, 54, 43, 49,
       50, 51, 48, 46, 0, 0, 0, 0]
      [(0x9c, 10), (0xb5, 47), (0xc8, 226), (0xd0, 227), (0xc9, 230), (0xd1, 231), (0xcb, 228), (0xcd, 229), (0x97, 224), (0xcf, 225), (0xd2, 232), (0xd3, 233)]"

definition shiftmap :: "uchar \<Rightarrow> uchar" where
  "shiftmap = tbl
      [0, 27, 33, 64, 35, 36, 37, 94, 38, 42, 40, 41, 95, 43, 8, 9,
       81, 87, 69, 82, 84, 89, 85, 73, 79, 80, 123, 125, 10, 0, 65, 83,
       68, 70, 71, 72, 74, 75, 76, 58, 34, 126, 0, 124, 90, 88, 67, 86,
       66, 78, 77, 60, 62, 63, 0, 42, 0, 32, 0, 0, 0, 0, 0, 0,
       0, 0, 0, 0, 0, 0, 0, 55, 56, 57, 45, 52, 53, 54, 43, 49,
       50, 51, 48, 46, 0, 0, 0, 0]
      [(0x9c, 10), (0xb5, 47), (0xc8, 226), (0xd0, 227), (0xc9, 230), (0xd1, 231), (0xcb, 228), (0xcd, 229), (0x97, 224), (0xcf, 225), (0xd2, 232), (0xd3, 233)]"

definition ctlmap :: "uchar \<Rightarrow> uchar" where
  "ctlmap = tbl
      [0, 0, 0, 0, 0, 0, 0, 0, 0, 0, 0, 0, 0, 0, 0, 0,
       17, 23, 5, 18, 20, 25, 21, 9, 15, 16, 0, 0, 13, 0, 1, 19,
       4, 6, 7, 8, 10, 11, 12, 0, 0, 0, 0, 28, 26, 24, 3, 22,
       2, 14, 13, 0, 0, 239, 0, 0]
      [(0x9c, 13), (0xb5, 239), (0xc8, 226), (0xd0, 227), (0xc9, 230), (0xd1, 231), (0xcb, 228), (0xcd, 229), (0x97, 224), (0xcf, 225), (0xd2, 232), (0xd3, 233)]"

section \<open>The decoder\<close>

text \<open>
  \<open>charcode[i]\<close> for the two modifier bits. \<open>kbd_key\<close> is the effect of one scan code on the static variable \<^verbatim>\<open>shift\<close>,
  and the character returned (0 for none).
\<close>

definition charcode :: "uint \<Rightarrow> uchar \<Rightarrow> uchar" where
  "charcode i = (if i = 0 then normalmap else if i = 1 then shiftmap else ctlmap)"

definition kbd_case :: "uint \<Rightarrow> uint \<Rightarrow> uint" where
  "kbd_case shift c =
     (if shift AND CAPSLOCK \<noteq> 0 then
        if 97 \<le> c \<and> c \<le> 122 then c + (65 - 97)
        else if 65 \<le> c \<and> c \<le> 90 then c + (97 - 65) else c
      else c)"

definition kbd_key :: "uint \<Rightarrow> uchar \<Rightarrow> uint \<times> uint" where
  "kbd_key shift data =
     (if data = 0xE0 then (shift OR E0ESC, 0)
      else if data AND 0x80 \<noteq> 0 then
        let data = (if shift AND E0ESC \<noteq> 0 then data else data AND 0x7F) in
        (shift AND NOT (ucast (shiftcode data) OR E0ESC), 0)
      else
        let (data, shift) = (if shift AND E0ESC \<noteq> 0 then (data OR 0x80, shift AND NOT E0ESC) else (data, shift));
            shift = shift OR ucast (shiftcode data);
            shift = shift XOR ucast (togglecode data);
            c = ucast (charcode (shift AND (CTL OR SHIFT)) data) in
        (shift, kbd_case shift c))"

end
