(* ===== verification/Console.thy ===== *)
theory Console
  imports Pipe Kbd Printf
begin

unbundle bit_operations_syntax

text \<open>
  The console (\<^verbatim>\<open>console.c\<close>, with the serial port of \<^verbatim>\<open>uart.c\<close>): the screen, the line editor behind the keyboard
  interrupt, and the bodies of \<^verbatim>\<open>consoleread\<close> and \<^verbatim>\<open>consolewrite\<close>; the locking of the inode around
  these is with the file table.

  Devices: the screen is the array at \<^verbatim>\<open>crt\<close> and the cursor register, the scan codes and serial bytes that wait
  to be read are lists, and what is sent to the serial port is a list, latest first.
\<close>

section \<open>State\<close>

definition INPUT_BUF :: nat where
  "INPUT_BUF = 128"

record consst = pipest +
  crt :: "nat \<Rightarrow> ushort"
  crt_pos :: nat
  uart_on :: bool
  uart_in :: "uchar list"
  uart_out :: "uchar list"
  kbd_in :: "uchar list"
  kbd_shift :: uint
  panicked :: bool
  cons_locking :: bool
  inbuf :: "uchar list"
  in_r :: uint
  in_w :: uint
  in_e :: uint

section \<open>Output\<close>

definition uartputc :: "uchar \<Rightarrow> ('e consst_scheme, unit) km" where
  "uartputc c =
     bnd (gets uart_on) (\<lambda>on.
     if on then upd (\<lambda>s. s\<lparr>uart_out := c # uart_out s\<rparr>) else ret ())"

abbreviation BACKSPACE :: uint where "BACKSPACE \<equiv> 0x100"

definition scroll_up :: "nat \<Rightarrow> (nat \<Rightarrow> ushort) \<Rightarrow> nat \<Rightarrow> ushort" where
  "scroll_up pos c i = (if pos \<le> i \<and> i < 24 * 80 then 0 else if i < 23 * 80 then c (i + 80) else c i)"

text \<open>The second half of \<^verbatim>\<open>cgaputc\<close>, from the check of the new position.\<close>

definition cga_place :: "nat \<Rightarrow> ('e consst_scheme, unit) km" where
  "cga_place pos1 =
     (if 25 * 80 < pos1 then panic ''pos under/overflow''
      else
        bnd (if 24 \<le> pos1 div 80
             then thn (upd (\<lambda>s. s\<lparr>crt := scroll_up (pos1 - 80) (crt s)\<rparr>)) (ret (pos1 - 80))
             else ret pos1) (\<lambda>pos2.
        thn (upd (\<lambda>s. s\<lparr>crt_pos := pos2\<rparr>)) (
        upd (\<lambda>s. s\<lparr>crt := (crt s)(pos2 := 0x0720)\<rparr>))))"

definition cgaputc :: "uint \<Rightarrow> ('e consst_scheme, unit) km" where
  "cgaputc c =
     bnd (gets crt_pos) (\<lambda>pos0.
     if c = 10 then cga_place (pos0 + (80 - pos0 mod 80))
     else if c = BACKSPACE then cga_place (if 0 < pos0 then pos0 - 1 else pos0)
     else thn (upd (\<lambda>s. s\<lparr>crt := (crt s)(pos0 := ucast (c AND 0xff) OR 0x0700)\<rparr>)) (cga_place (pos0 + 1)))"

definition consputc :: "uint \<Rightarrow> ('e consst_scheme, unit) km" where
  "consputc c =
     bnd (gets panicked) (\<lambda>p.
     if p then stop Spin
     else
       thn (if c = BACKSPACE then thn (uartputc 8) (thn (uartputc 32) (uartputc 8))
            else uartputc (ucast c)) (
       cgaputc c))"

text \<open>
  \<^verbatim>\<open>cprintf\<close> prints the bytes that \<open>Printf.cprintf\<close> computes, under the console lock once locking is on; a string
  argument is represented by the index of its bytes in \<open>strs\<close>. A format that runs off its arguments
  is left out of the model.
\<close>

definition kprintf :: "uchar list \<Rightarrow> uchar list list \<Rightarrow> uint list \<Rightarrow> ('e consst_scheme, unit) km" where
  "kprintf fmt strs args =
     bnd (gets cons_locking) (\<lambda>locking.
     thn (if locking then lock_acquire ConsLock else ret ()) (
     thn (case Printf.cprintf (\<lambda>a. strs ! (unat a - 1)) fmt args of
            Some bs \<Rightarrow> for_each bs (\<lambda>b. consputc (ucast b))
          | None \<Rightarrow> stop Spin) (
     if locking then lock_release ConsLock else ret ())))"

definition bytes_of :: "string \<Rightarrow> uchar list" where
  "bytes_of s = map (\<lambda>c. of_char c) s @ [0]"

section \<open>Input\<close>

text \<open>The loop of Control-U, with fuel: the current line has at most \<^verbatim>\<open>INPUT_BUF\<close> bytes.\<close>

fun kill_line :: "nat \<Rightarrow> ('e consst_scheme, unit) km" where
  "kill_line 0 = stop Spin"
| "kill_line (Suc n) =
     bnd (gets in_e) (\<lambda>e.
     bnd (gets in_w) (\<lambda>w.
     bnd (gets inbuf) (\<lambda>buf.
     if e \<noteq> w \<and> buf ! (unat (e - 1) mod INPUT_BUF) \<noteq> 10 then
       thn (upd (\<lambda>s. s\<lparr>in_e := e - 1\<rparr>)) (
       thn (consputc BACKSPACE) (
       kill_line n))
     else ret ())))"

text \<open>One round of \<^verbatim>\<open>consoleintr\<close> for the character \<open>c\<close>; \<open>r_chan\<close> is the address of \<^verbatim>\<open>input.r\<close>.\<close>

definition cons_char :: "uint \<Rightarrow> uint \<Rightarrow> ('e consst_scheme, unit) km" where
  "cons_char r_chan c =
     (if c = 16 then ret ()
      else if c = 21 then kill_line (Suc INPUT_BUF)
      else if c = 8 \<or> c = 127 then
        bnd (gets in_e) (\<lambda>e.
        bnd (gets in_w) (\<lambda>w.
        if e \<noteq> w then thn (upd (\<lambda>s. s\<lparr>in_e := e - 1\<rparr>)) (consputc BACKSPACE) else ret ()))
      else
        bnd (gets in_e) (\<lambda>e.
        bnd (gets in_r) (\<lambda>r.
        if c \<noteq> 0 \<and> e - r < of_nat INPUT_BUF then
          let c = (if c = 13 then 10 else c) in
          thn (upd (\<lambda>s. s\<lparr>inbuf := (inbuf s)[unat e mod INPUT_BUF := ucast c], in_e := e + 1\<rparr>)) (
          thn (consputc c) (
          if c = 10 \<or> c = 4 \<or> e + 1 = r + of_nat INPUT_BUF
          then thn (upd (\<lambda>s. s\<lparr>in_w := e + 1\<rparr>)) (wakeup r_chan)
          else ret ()))
        else ret ())))"

text \<open>The loop over what \<^verbatim>\<open>getc\<close> delivers, with fuel; the value says whether a process listing was asked for.\<close>

fun cons_loop :: "nat \<Rightarrow> uint \<Rightarrow> ('e consst_scheme, int) km \<Rightarrow> bool \<Rightarrow> ('e consst_scheme, bool) km" where
  "cons_loop 0 r_chan getc dump = stop Spin"
| "cons_loop (Suc n) r_chan getc dump =
     bnd getc (\<lambda>c.
     if 0 \<le> c then thn (cons_char r_chan (word_of_int c)) (cons_loop n r_chan getc (dump \<or> c = 16))
     else ret dump)"

definition state_name :: "procstate \<Rightarrow> uchar list" where
  "state_name st = bytes_of (case st of
     UNUSED \<Rightarrow> ''unused'' | EMBRYO \<Rightarrow> ''embryo'' | SLEEPING \<Rightarrow> ''sleep '' | RUNNABLE \<Rightarrow> ''runble''
   | RUNNING \<Rightarrow> ''run   '' | ZOMBIE \<Rightarrow> ''zombie'')"

definition procdump_one :: "nat \<Rightarrow> ('e consst_scheme, unit) km" where
  "procdump_one i =
     bnd (gets (\<lambda>s. procs s ! i)) (\<lambda>p.
     if state p = UNUSED then ret ()
     else
       thn (kprintf (bytes_of ''%d %s %s'') [state_name (state p), pname p] [pid p, 1, 2]) (
       thn (if state p = SLEEPING then
              bnd (ld32 (ctx p + 12)) (\<lambda>ebp.
              bnd (gets (\<lambda>s. takeWhile (\<lambda>pc. pc \<noteq> 0) (getcallerpcs (\<lambda>v. mem s (kw v)) (ebp + 8)))) (\<lambda>pcs.
              for_each pcs (\<lambda>pc. kprintf (bytes_of '' %p'') [] [pc])))
            else ret ()) (
       kprintf (bytes_of ''\<newline>'') [] [])))"

definition procdump :: "('e consst_scheme, unit) km" where
  "procdump = for_each [0..<NPROC] procdump_one"

definition consoleintr :: "nat \<Rightarrow> uint \<Rightarrow> ('e consst_scheme, int) km \<Rightarrow> ('e consst_scheme, unit) km" where
  "consoleintr n r_chan getc =
     thn (lock_acquire ConsLock) (
     bnd (cons_loop n r_chan getc False) (\<lambda>dump.
     thn (lock_release ConsLock) (
     if dump then procdump else ret ())))"

section \<open>Where the characters come from\<close>

definition kbdgetc :: "('e consst_scheme, int) km" where
  "kbdgetc =
     bnd (gets kbd_in) (\<lambda>inp. case inp of
       [] \<Rightarrow> ret (-1)
     | d # ds \<Rightarrow>
         thn (upd (\<lambda>s. s\<lparr>kbd_in := ds\<rparr>)) (
         bnd (gets kbd_shift) (\<lambda>sh.
         let (sh', c) = kbd_key sh d in
         thn (upd (\<lambda>s. s\<lparr>kbd_shift := sh'\<rparr>)) (ret (uint c)))))"

definition uartgetc :: "('e consst_scheme, int) km" where
  "uartgetc =
     bnd (gets uart_on) (\<lambda>on.
     bnd (gets uart_in) (\<lambda>inp.
     if \<not> on then ret (-1)
     else case inp of [] \<Rightarrow> ret (-1)
       | b # bs \<Rightarrow> thn (upd (\<lambda>s. s\<lparr>uart_in := bs\<rparr>)) (ret (uint b))))"

text \<open>An interrupt handler reads until the device is empty: as many rounds as there are bytes, and one.\<close>

definition kbdintr :: "uint \<Rightarrow> ('e consst_scheme, unit) km" where
  "kbdintr r_chan = bnd (gets (\<lambda>s. length (kbd_in s))) (\<lambda>n. consoleintr (Suc n) r_chan kbdgetc)"

definition uartintr :: "uint \<Rightarrow> ('e consst_scheme, unit) km" where
  "uartintr r_chan = bnd (gets (\<lambda>s. length (uart_in s))) (\<lambda>n. consoleintr (Suc n) r_chan uartgetc)"

section \<open>Reading and writing\<close>

text \<open>
  The copying loop of \<^verbatim>\<open>consoleread\<close> from its test: \<open>n\<close> bytes are still wanted, of \<open>target\<close>. The value is
  \<^verbatim>\<open>target - n\<close>, or -1. A reader that is woken continues here. The destination of \<^verbatim>\<open>consoleread\<close> is user
  memory or a variable of the kernel, so storing a byte at an offset is an argument, and so is
  loading a byte in \<^verbatim>\<open>consolewrite\<close>.
\<close>

fun consoleread_loop :: "(uint \<Rightarrow> uchar \<Rightarrow> ('e consst_scheme, unit) km) \<Rightarrow> uint \<Rightarrow> nat \<Rightarrow> uint \<Rightarrow> nat \<Rightarrow> ('e consst_scheme, int) km" where
  "consoleread_loop st r_chan target dst 0 = thn (lock_release ConsLock) (ret (int target))"
| "consoleread_loop st r_chan target dst (Suc n) =
     bnd (gets in_r) (\<lambda>r.
     bnd (gets in_w) (\<lambda>w.
     if r = w then
       with_me (\<lambda>me. bnd (getp me killed) (\<lambda>k.
       if k then thn (lock_release ConsLock) (ret (-1))
       else thn (sleep r_chan (Some ConsLock)) (ret (-1))))
     else
       bnd (gets (\<lambda>s. inbuf s ! (unat r mod INPUT_BUF))) (\<lambda>c.
       thn (upd (\<lambda>s. s\<lparr>in_r := r + 1\<rparr>)) (
       if c = 4 then
         thn (if Suc n < target then upd (\<lambda>s. s\<lparr>in_r := r\<rparr>) else ret ()) (
         thn (lock_release ConsLock) (ret (int target - int (Suc n))))
       else
         thn (st dst c) (
         if c = 10 then thn (lock_release ConsLock) (ret (int target - int n))
         else consoleread_loop st r_chan target (dst + 1) n)))))"

definition consoleread_body :: "(uint \<Rightarrow> uchar \<Rightarrow> ('e consst_scheme, unit) km) \<Rightarrow> uint \<Rightarrow> int \<Rightarrow> ('e consst_scheme, int) km" where
  "consoleread_body st r_chan n =
     thn (lock_acquire ConsLock) (consoleread_loop st r_chan (nat n) 0 (nat n))"

fun conswrite_loop :: "(uint \<Rightarrow> ('e consst_scheme, uchar) km) \<Rightarrow> uint \<Rightarrow> nat \<Rightarrow> ('e consst_scheme, unit) km" where
  "conswrite_loop ld buf 0 = ret ()"
| "conswrite_loop ld buf (Suc n) = bnd (ld buf) (\<lambda>c. thn (consputc (ucast c)) (conswrite_loop ld (buf + 1) n))"

definition consolewrite_body :: "(uint \<Rightarrow> ('e consst_scheme, uchar) km) \<Rightarrow> int \<Rightarrow> ('e consst_scheme, int) km" where
  "consolewrite_body ld n =
     thn (lock_acquire ConsLock) (
     thn (conswrite_loop ld 0 (nat n)) (
     thn (lock_release ConsLock) (
     ret n)))"

definition consoleinit :: "('e consst_scheme, unit) km" where
  "consoleinit = thn (lock_init ConsLock) (upd (\<lambda>s. s\<lparr>cons_locking := True\<rparr>))"

end
