(* ===== verification/ConsoleProps.thy ===== *)
theory ConsoleProps
  imports Console
begin

unbundle bit_operations_syntax

text \<open>
  The console input buffer implements a line editor: the bytes of finished lines, which readers take,
  and the line being typed.
\<close>

section \<open>The screen\<close>

definition screen_ok :: "'e consst_scheme \<Rightarrow> bool" where
  "screen_ok s \<longleftrightarrow> \<not> panicked s \<and> crt_pos s \<le> 24 * 80"

definition printed :: "'e consst_scheme \<Rightarrow> 'e consst_scheme \<Rightarrow> bool" where
  "printed s s' \<longleftrightarrow> (\<exists>u f p. s' = s\<lparr>uart_out := u, crt := f, crt_pos := p\<rparr>)"

lemma printedD:
  assumes "printed s s'"
  shows "in_r s' = in_r s" "in_w s' = in_w s" "in_e s' = in_e s" "inbuf s' = inbuf s" "held s' = held s"
    "others s' = others s" "procs s' = procs s" "uart_in s' = uart_in s" "uart_on s' = uart_on s"
    "kbd_in s' = kbd_in s" "panicked s' = panicked s"
  using assms by (auto simp: printed_def)

lemma uartputc_printed: "\<exists>s'. uartputc c s = Ret () s' \<and> printed s s' \<and> crt_pos s' = crt_pos s"
proof (cases "uart_on s")
  case True
  then show ?thesis
    by (auto simp: uartputc_def printed_def intro!: exI [of _ "c # uart_out s"] exI [of _ "crt s"] exI [of _ "crt_pos s"])
next
  case False
  then show ?thesis
    by (auto simp: uartputc_def printed_def intro!: exI [of _ "uart_out s"] exI [of _ "crt s"] exI [of _ "crt_pos s"])
qed

lemma printed_trans: "printed s t \<Longrightarrow> printed t u \<Longrightarrow> printed s u"
  unfolding printed_def by force

lemma cga_place_printed:
  assumes "q \<le> 25 * 80"
  shows "\<exists>s'. cga_place q s = Ret () s' \<and> printed s s' \<and> crt_pos s' \<le> 24 * 80"
proof -
  have pr: "printed s (s\<lparr>crt_pos := p, crt := f\<rparr>)" for f p
    unfolding printed_def by (intro exI [of _ "uart_out s"] exI [of _ f] exI [of _ p]) simp
  have "q \<le> 24 * 80" if "\<not> 24 \<le> q div 80" using that by linarith
  moreover have "q - 80 \<le> 24 * 80" using assms by simp
  ultimately show ?thesis using assms pr by (cases "24 \<le> q div 80") (simp_all add: cga_place_def)
qed

lemma cgaputc_printed:
  assumes "crt_pos s \<le> 24 * 80"
  shows "\<exists>s'. cgaputc c s = Ret () s' \<and> printed s s' \<and> crt_pos s' \<le> 24 * 80"
proof -
  have "80 * (crt_pos s div 80) + crt_pos s mod 80 = crt_pos s" by simp
  moreover have "crt_pos s div 80 \<le> 24" using assms by linarith
  moreover have "crt_pos s mod 80 < 80" by simp
  ultimately have nl: "crt_pos s + (80 - crt_pos s mod 80) \<le> 25 * 80" by linarith
  let ?s = "s\<lparr>crt := (crt s)(crt_pos s := ucast (c AND 0xff) OR 0x0700)\<rparr>"
  have p: "printed s ?s" unfolding printed_def
    by (intro exI [of _ "uart_out s"] exI [of _ "crt ?s"] exI [of _ "crt_pos s"]) simp
  consider "c = 10" | "c = BACKSPACE" | "c \<noteq> 10" "c \<noteq> BACKSPACE" by blast
  then show ?thesis
  proof cases
    case 1
    then show ?thesis using cga_place_printed [OF nl, of s] by (simp add: cgaputc_def)
  next
    case 2
    then show ?thesis
      using assms cga_place_printed [of "crt_pos s - 1" s] cga_place_printed [of 0 s] by (simp add: cgaputc_def)
  next
    case 3
    from assms cga_place_printed [of "crt_pos s + 1" ?s] obtain s' where
      "cgaputc c s = Ret () s'" "printed ?s s'" "crt_pos s' \<le> 24 * 80" using 3 by (auto simp: cgaputc_def)
    with printed_trans [OF p] show ?thesis by blast
  qed
qed

lemma consputc_printed:
  assumes "screen_ok s"
  shows "\<exists>s'. consputc c s = Ret () s' \<and> printed s s' \<and> screen_ok s'"
proof -
  have u: "\<exists>t. (if c = BACKSPACE then thn (uartputc 8) (thn (uartputc 32) (uartputc 8)) else uartputc (ucast c)) s = Ret () t
      \<and> printed s t \<and> crt_pos t = crt_pos s"
  proof (cases "c = BACKSPACE")
    case True
    obtain s1 s2 s3 where "uartputc 8 s = Ret () s1" "printed s s1" "crt_pos s1 = crt_pos s"
      "uartputc 32 s1 = Ret () s2" "printed s1 s2" "crt_pos s2 = crt_pos s1"
      "uartputc 8 s2 = Ret () s3" "printed s2 s3" "crt_pos s3 = crt_pos s2"
      using uartputc_printed by metis
    with True show ?thesis by (auto simp: thn_Ret intro: printed_trans)
  next
    case False
    then show ?thesis using uartputc_printed [of "ucast c" s] by simp
  qed
  then obtain t where t: "(if c = BACKSPACE then thn (uartputc 8) (thn (uartputc 32) (uartputc 8)) else uartputc (ucast c)) s
      = Ret () t" "printed s t" "crt_pos t = crt_pos s" by blast
  then obtain s' where s': "cgaputc c t = Ret () s'" "printed t s'" "crt_pos s' \<le> 24 * 80"
    using cgaputc_printed [of t c] assms by (auto simp: screen_ok_def)
  have "consputc c s = Ret () s'"
    using assms t(1) s'(1) by (simp only: consputc_def screen_ok_def bnd_prim if_False thn_Ret)
  moreover have "printed s s'" by (rule printed_trans [OF t(2) s'(2)])
  ultimately show ?thesis using s'(3) assms printedD(11) [of s s'] by (auto simp: screen_ok_def)
qed

section \<open>The line editor\<close>

interpretation input_ring: ring_size INPUT_BUF
  by unfold_locales (simp_all add: INPUT_BUF_def)

text \<open>The finished bytes and the current line, and the editor on them.\<close>

definition committed :: "'e consst_scheme \<Rightarrow> uchar list" where
  "committed s = ring_content INPUT_BUF (inbuf s) (in_r s) (in_w s)"

definition typed :: "'e consst_scheme \<Rightarrow> uchar list" where
  "typed s = ring_content INPUT_BUF (inbuf s) (in_w s) (in_e s)"

definition input_ok :: "'e consst_scheme \<Rightarrow> bool" where
  "input_ok s \<longleftrightarrow> length (inbuf s) = INPUT_BUF \<and> unat (in_e s - in_r s) \<le> INPUT_BUF
     \<and> unat (in_w s - in_r s) \<le> unat (in_e s - in_r s) \<and> 10 \<notin> set (typed s)"

definition edit :: "uchar \<Rightarrow> uchar list \<times> uchar list \<Rightarrow> uchar list \<times> uchar list" where
  "edit c = (\<lambda>(com, line).
     if c = 16 \<or> c = 0 then (com, line)
     else if c = 21 then (com, [])
     else if c = 8 \<or> c = 127 then (com, butlast line)
     else if length com + length line < INPUT_BUF then
       let c = (if c = 13 then 10 else c) in
       if c = 10 \<or> c = 4 \<or> Suc (length com + length line) = INPUT_BUF
       then (com @ line @ [c], []) else (com, line @ [c])
     else (com, line))"

definition cons_ok :: "'e consst_scheme \<Rightarrow> bool" where
  "cons_ok s \<longleftrightarrow> input_ok s \<and> screen_ok s \<and> lock_free PtableLock s \<and> length (procs s) = NPROC"

text \<open>What the editor does not touch.\<close>

definition same_dev :: "'e consst_scheme \<Rightarrow> 'e consst_scheme \<Rightarrow> bool" where
  "same_dev s s' \<longleftrightarrow> held s' = held s \<and> others s' = others s \<and> uart_in s' = uart_in s \<and> uart_on s' = uart_on s
     \<and> kbd_in s' = kbd_in s"

lemma same_dev_trans: "same_dev s t \<Longrightarrow> same_dev t u \<Longrightarrow> same_dev s u"
  by (simp add: same_dev_def)

lemma printed_input:
  assumes "printed s s'"
  shows "committed s' = committed s" "typed s' = typed s" "input_ok s' = input_ok s" "same_dev s s'"
  using printedD [OF assms] by (simp_all add: committed_def typed_def input_ok_def same_dev_def)

lemma printed_cons_ok:
  assumes "printed s s'" and "screen_ok s'"
  shows "cons_ok s' \<longleftrightarrow> input_ok s \<and> lock_free PtableLock s \<and> length (procs s) = NPROC"
  using printedD [OF assms(1)] printed_input(3) [OF assms(1)] assms(2) by (simp add: cons_ok_def lock_free_def)

text \<open>Removing the last byte of the line.\<close>

lemma rubout:
  assumes "cons_ok s" and "in_e s \<noteq> in_w s"
  shows "\<exists>s'. thn (upd (\<lambda>t. t\<lparr>in_e := in_e s - 1\<rparr>)) (consputc BACKSPACE) s = Ret () s' \<and> cons_ok s'
    \<and> committed s' = committed s \<and> typed s' = butlast (typed s) \<and> in_w s' = in_w s \<and> in_e s' = in_e s - 1
    \<and> inbuf s' = inbuf s \<and> same_dev s s'"
proof -
  let ?t = "s\<lparr>in_e := in_e s - 1\<rparr>"
  note sp = input_ring.split [of "in_w s" "in_r s" "in_e s"]
  from assms have ok: "unat (in_w s - in_r s) \<le> unat (in_e s - in_r s)" "unat (in_e s - in_r s) \<le> INPUT_BUF"
    "10 \<notin> set (typed s)" "length (inbuf s) = INPUT_BUF" by (simp_all add: cons_ok_def input_ok_def)
  note un = input_ring.unput [OF assms(2)]
  have "unat (in_e s - in_w s) \<noteq> 0" using assms(2) by (simp add: unat_eq_0)
  then have lt: "unat (in_w s - in_r s) < unat (in_e s - in_r s)" using sp(1) ok(1) by simp
  then have "in_e s \<noteq> in_r s" by auto
  note un' = input_ring.unput(2) [OF this]
  have ty: "typed ?t = butlast (typed s)" using un(1) by (simp add: typed_def)
  have "input_ok ?t"
    using ok lt un' by (simp add: input_ok_def ty) (auto dest: in_set_butlastD)
  moreover have "screen_ok ?t" using assms(1) by (simp add: cons_ok_def screen_ok_def)
  then obtain s' where s': "consputc BACKSPACE ?t = Ret () s'" "printed ?t s'" "screen_ok s'"
    using consputc_printed by blast
  ultimately have "cons_ok s'"
    using printed_cons_ok [OF s'(2,3)] assms(1) by (simp add: cons_ok_def lock_free_def)
  with s' ty printedD [OF s'(2)] printed_input [OF s'(2)] show ?thesis
    by (auto simp: committed_def same_dev_def)
qed

lemma last_typed:
  assumes "in_e s \<noteq> in_w s"
  shows "inbuf s ! (unat (in_e s - 1) mod INPUT_BUF) \<in> set (typed s)"
proof -
  have "unat (in_e s - in_w s) \<noteq> 0" using assms by (simp add: unat_eq_0)
  then have "unat (in_e s - 1 - in_w s) < unat (in_e s - in_w s)" using input_ring.unput(2) [OF assms] by simp
  moreover have "inbuf s ! (unat (in_e s - 1) mod INPUT_BUF)
      = inbuf s ! ((unat (in_w s) + unat (in_e s - 1 - in_w s)) mod INPUT_BUF)"
    using input_ring.index_end [of "in_e s - 1" "in_w s"] by (rule arg_cong)
  ultimately show ?thesis
    unfolding typed_def ring_content_def set_map set_upt by (intro image_eqI) (assumption, simp)
qed

lemma kill_line_run:
  assumes "cons_ok s" and "length (typed s) < n"
  shows "\<exists>s'. kill_line n s = Ret () s' \<and> cons_ok s' \<and> committed s' = committed s \<and> typed s' = [] \<and> same_dev s s'"
  using assms
proof (induction n arbitrary: s)
  case 0
  then show ?case by simp
next
  case (Suc n)
  show ?case
  proof (cases "in_e s = in_w s")
    case True
    then have "typed s = []" by (simp add: typed_def ring_content_def)
    with True Suc.prems show ?thesis by (intro exI [of _ s]) (simp add: same_dev_def)
  next
    case False
    then have ne: "inbuf s ! (unat (in_e s - 1) mod INPUT_BUF) \<noteq> 10"
      using last_typed [OF False] Suc.prems(1) by (auto simp: cons_ok_def input_ok_def)
    from rubout [OF Suc.prems(1) False] obtain t where
      t: "thn (upd (\<lambda>t. t\<lparr>in_e := in_e s - 1\<rparr>)) (consputc BACKSPACE) s = Ret () t" "cons_ok t"
        "committed t = committed s" "typed t = butlast (typed s)" "same_dev s t" by blast
    have "typed s \<noteq> []" using last_typed [OF False] by auto
    with t(4) Suc.prems(2) have "length (typed t) < n" by (cases "typed s") auto
    from Suc.IH [OF t(2) this] obtain s' where
      s': "kill_line n t = Ret () s'" "cons_ok s'" "committed s' = committed t" "typed s' = []" "same_dev t s'" by blast
    have "kill_line (Suc n) s = thn (thn (upd (\<lambda>t. t\<lparr>in_e := in_e s - 1\<rparr>)) (consputc BACKSPACE)) (kill_line n) s"
      using False ne by simp
    also have "\<dots> = Ret () s'" by (rule trans, rule thn_Ret, rule t(1), rule s'(1))
    finally show ?thesis using s' t(3,5) same_dev_trans by metis
  qed
qed

text \<open>Adding a byte to the line, and finishing the line.\<close>

lemma type_byte:
  assumes "cons_ok s" and "length (committed s) + length (typed s) < INPUT_BUF" and "b \<noteq> 10 \<or> done_line"
  shows "\<exists>s'. thn (upd (\<lambda>t. t\<lparr>inbuf := (inbuf t)[unat (in_e s) mod INPUT_BUF := b], in_e := in_e s + 1\<rparr>)) (
      thn (consputc c) (
      if done_line then thn (upd (\<lambda>t. t\<lparr>in_w := in_e s + 1\<rparr>)) (wakeup ch) else ret ())) s = Ret () s'
    \<and> cons_ok s' \<and> same_dev s s'
    \<and> (committed s', typed s') = (if done_line then (committed s @ typed s @ [b], []) else (committed s, typed s @ [b]))"
proof -
  let ?t = "s\<lparr>inbuf := (inbuf s)[unat (in_e s) mod INPUT_BUF := b], in_e := in_e s + 1\<rparr>"
  from assms have ok: "unat (in_w s - in_r s) \<le> unat (in_e s - in_r s)" "unat (in_e s - in_r s) \<le> INPUT_BUF"
    "10 \<notin> set (typed s)" "length (inbuf s) = INPUT_BUF" by (simp_all add: cons_ok_def input_ok_def)
  note sp = input_ring.split [OF ok(1)]
  have er: "unat (in_e s - in_r s) < INPUT_BUF"
    using assms(2) sp(1) ok(1) by (simp add: committed_def typed_def)
  have ew: "unat (in_e s - in_w s) < INPUT_BUF" using er sp(1) by simp
  note cr = input_ring.count_Suc [OF er] and cw = input_ring.count_Suc [OF ew]
  have all: "ring_content INPUT_BUF (inbuf ?t) (in_r s) (in_e s + 1) = committed s @ typed s @ [b]"
    using input_ring.put [OF ok(4) er, of b] sp(2) [of "inbuf s"] by (simp add: committed_def typed_def)
  have ty: "typed ?t = typed s @ [b]"
    using input_ring.put [OF ok(4) ew, of b] by (simp add: typed_def)
  have "unat (in_w s - in_r s) \<le> unat (in_e s + 1 - in_r s)" using cr ok(1) by simp
  from input_ring.split(2) [OF this, of "inbuf ?t"] all ty have com: "committed ?t = committed s"
    by (simp add: committed_def typed_def)
  have "screen_ok ?t" using assms(1) by (simp add: cons_ok_def screen_ok_def)
  then obtain u where u: "consputc c ?t = Ret () u" "printed ?t u" "screen_ok u" using consputc_printed by blast
  note D = printedD [OF u(2)]
  show ?thesis
  proof (cases done_line)
    case False
    have "input_ok ?t" using ok cr er ty False assms(3) by (simp add: input_ok_def)
    then have "cons_ok u" using printed_cons_ok [OF u(2,3)] assms(1) by (simp add: cons_ok_def lock_free_def)
    with False u(1) D ty com printed_input [OF u(2)] show ?thesis by (simp add: thn_Ret same_dev_def)
  next
    case True
    let ?v = "u\<lparr>in_w := in_e s + 1\<rparr>"
    let ?s = "?v\<lparr>procs := map (woken ch) (procs ?v)\<rparr>"
    have lf: "lock_free PtableLock ?v" "length (procs ?v) = NPROC"
      using assms(1) D by (simp_all add: cons_ok_def lock_free_def)
    have "committed ?s = committed s @ typed s @ [b]" "typed ?s = []"
      using all D by (simp_all add: committed_def typed_def ring_content_def)
    moreover from this have "cons_ok ?s"
      using u(3) lf D cr er ok by (simp add: cons_ok_def input_ok_def screen_ok_def lock_free_def)
    moreover have "same_dev s ?s" using D by (simp add: same_dev_def)
    ultimately show ?thesis using True u(1) wakeup_run [OF lf, of ch] by (simp add: thn_Ret)
  qed
qed

lemma byte_eq:
  fixes b :: uchar
  shows "unat (ucast b :: uint) = unat b" and "(ucast b :: uint) = ucast c \<longleftrightarrow> b = c"
proof -
  show u: "unat (ucast b :: uint) = unat b" for b :: uchar
  proof -
    have "unat b < 2 ^ 8" using unsigned_less [of b] by simp
    then show ?thesis by (simp add: unsigned_ucast_eq take_bit_nat_eq_self)
  qed
  show "(ucast b :: uint) = ucast c \<longleftrightarrow> b = c" by (metis u unsigned_word_eqI)
qed

lemma byte_eq_num:
  fixes b :: uchar
  shows "(ucast b :: uint) = 0 \<longleftrightarrow> b = 0" "(ucast b :: uint) = 4 \<longleftrightarrow> b = 4" "(ucast b :: uint) = 8 \<longleftrightarrow> b = 8"
    "(ucast b :: uint) = 10 \<longleftrightarrow> b = 10" "(ucast b :: uint) = 13 \<longleftrightarrow> b = 13" "(ucast b :: uint) = 16 \<longleftrightarrow> b = 16"
    "(ucast b :: uint) = 21 \<longleftrightarrow> b = 21" "(ucast b :: uint) = 127 \<longleftrightarrow> b = 127"
  using byte_eq(2) [of b 0] byte_eq(2) [of b 4] byte_eq(2) [of b 8] byte_eq(2) [of b 10] byte_eq(2) [of b 13]
    byte_eq(2) [of b 16] byte_eq(2) [of b 21] byte_eq(2) [of b 127] by simp_all

lemma byte_back: "ucast (ucast (b :: uchar) :: uint) = b"
  by (rule bit_word_eqI) (simp add: bit_simps)

lemma input_count:
  assumes "cons_ok s"
  shows "unat (in_e s - in_r s) = length (committed s) + length (typed s)"
    and "in_e s - in_r s < of_nat INPUT_BUF \<longleftrightarrow> length (committed s) + length (typed s) < INPUT_BUF"
proof -
  from assms have ok: "unat (in_w s - in_r s) \<le> unat (in_e s - in_r s)" by (simp add: cons_ok_def input_ok_def)
  show c: "unat (in_e s - in_r s) = length (committed s) + length (typed s)"
    using input_ring.split(1) [OF ok] ok by (simp add: committed_def typed_def)
  show "in_e s - in_r s < of_nat INPUT_BUF \<longleftrightarrow> length (committed s) + length (typed s) < INPUT_BUF"
    using c by (simp add: word_less_nat_alt INPUT_BUF_def)
qed

lemma cons_char_edits:
  assumes "cons_ok s"
  shows "\<exists>s'. cons_char ch (ucast b) s = Ret () s' \<and> cons_ok s' \<and> same_dev s s'
    \<and> (committed s', typed s') = edit b (committed s, typed s)"
proof -
  have same: "\<exists>s'. ret () s = Ret () s' \<and> cons_ok s' \<and> same_dev s s' \<and> (committed s', typed s') = (committed s, typed s)"
    using assms by (simp add: same_dev_def)
  have cnt: "length (committed s) + length (typed s) \<le> INPUT_BUF"
    using assms input_count(1) [OF assms] by (simp add: cons_ok_def input_ok_def)
  consider "b = 16 \<or> b = 0" | "b = 21" | "b = 8 \<or> b = 127" | "b \<noteq> 16" "b \<noteq> 0" "b \<noteq> 21" "b \<noteq> 8" "b \<noteq> 127"
    by blast
  then show ?thesis
  proof cases
    case 1
    with same show ?thesis by (auto simp: cons_char_def byte_eq_num edit_def)
  next
    case 2
    then show ?thesis
      using kill_line_run [OF assms, of "Suc INPUT_BUF"] cnt
      by (auto simp: cons_char_def byte_eq_num edit_def simp del: kill_line.simps)
  next
    case 3
    show ?thesis
    proof (cases "in_e s = in_w s")
      case True
      then have "typed s = []" by (simp add: typed_def ring_content_def)
      with True 3 same show ?thesis by (auto simp: cons_char_def byte_eq_num edit_def)
    next
      case False
      with 3 rubout [OF assms False] show ?thesis by (auto simp: cons_char_def byte_eq_num edit_def)
    qed
  next
    case 4
    show ?thesis
    proof (cases "length (committed s) + length (typed s) < INPUT_BUF")
      case False
      with 4 same input_count(2) [OF assms] show ?thesis by (auto simp: cons_char_def byte_eq_num edit_def)
    next
      case True
      define c where "c = (if b = 13 then 10 else b)"
      let ?d = "c = 10 \<or> c = 4 \<or> in_e s + 1 = in_r s + of_nat INPUT_BUF"
      have "unat (in_e s - in_r s) < INPUT_BUF" using True input_count(1) [OF assms] by simp
      from input_ring.count_Suc [OF this] input_ring.full [of "in_e s + 1" "in_r s"] True input_count(1) [OF assms]
      have f: "in_e s + 1 = in_r s + of_nat INPUT_BUF \<longleftrightarrow> Suc (length (committed s) + length (typed s)) = INPUT_BUF"
        by simp
      have u: "(if b = 13 then 10 else ucast b) = (ucast c :: uint)" by (simp add: c_def)
      have "c \<noteq> 10 \<or> ?d" by blast
      from type_byte [OF assms True this, of "ucast c" ch] obtain s' where
        s': "thn (upd (\<lambda>t. t\<lparr>inbuf := (inbuf t)[unat (in_e s) mod INPUT_BUF := c], in_e := in_e s + 1\<rparr>)) (
          thn (consputc (ucast c)) (
          if ?d then thn (upd (\<lambda>t. t\<lparr>in_w := in_e s + 1\<rparr>)) (wakeup ch) else ret ())) s = Ret () s'"
          "cons_ok s'" "same_dev s s'"
          "(committed s', typed s') = (if ?d then (committed s @ typed s @ [c], []) else (committed s, typed s @ [c]))"
        by blast
      have "cons_char ch (ucast b) s = Ret () s'"
        using 4 True input_count(2) [OF assms] s'(1)
        by (simp only: cons_char_def byte_eq_num u Let_def byte_back bnd_prim if_False if_True simp_thms)
      moreover have "(committed s', typed s') = edit b (committed s, typed s)"
        using 4 True s'(4) f by (simp add: edit_def Let_def c_def)
      ultimately show ?thesis using s'(2,3) by blast
    qed
  qed
qed

lemma uart_upd [simp]:
  "cons_ok (s\<lparr>uart_in := x\<rparr>) = cons_ok s" "committed (s\<lparr>uart_in := x\<rparr>) = committed s"
  "typed (s\<lparr>uart_in := x\<rparr>) = typed s"
  by (simp_all add: cons_ok_def input_ok_def screen_ok_def lock_free_def committed_def typed_def)

lemma uart_loop:
  assumes "cons_ok s" and "uart_on s" and "uart_in s = bs" and "length bs < n"
  shows "\<exists>s'. cons_loop n ch uartgetc dump s = Ret (dump \<or> 16 \<in> set bs) s' \<and> cons_ok s' \<and> uart_in s' = []
    \<and> held s' = held s \<and> others s' = others s \<and> (committed s', typed s') = fold edit bs (committed s, typed s)"
  using assms
proof (induction n arbitrary: s bs dump)
  case 0
  then show ?case by simp
next
  case (Suc n)
  show ?case
  proof (cases bs)
    case Nil
    with Suc.prems have g: "uartgetc s = Ret (-1) s" by (simp add: uartgetc_def)
    show ?thesis using Suc.prems Nil by (simp add: bnd_Ret [where m = uartgetc, OF g])
  next
    case (Cons b bs')
    let ?t = "s\<lparr>uart_in := bs'\<rparr>"
    from cons_char_edits [of ?t ch b] Suc.prems(1) obtain u where
      u: "cons_char ch (ucast b) ?t = Ret () u" "cons_ok u" "same_dev ?t u"
        "(committed u, typed u) = edit b (committed s, typed s)" by auto
    have d: "uart_on u" "uart_in u = bs'" "held u = held s" "others u = others s" using u(3) Suc.prems(2) by (simp_all add: same_dev_def)
    have "length bs' < n" using Suc.prems(4) Cons by simp
    from Suc.IH [OF u(2) d(1,2) this, of "dump \<or> b = 16"] obtain s' where
      s': "cons_loop n ch uartgetc (dump \<or> b = 16) u = Ret ((dump \<or> b = 16) \<or> 16 \<in> set bs') s'" "cons_ok s'"
        "uart_in s' = []" "held s' = held u" "others s' = others u" "(committed s', typed s') = fold edit bs' (committed u, typed u)" by blast
    have g: "uartgetc s = Ret (uint b) ?t" using Suc.prems(2,3) Cons by (simp add: uartgetc_def)
    have w: "word_of_int (uint b) = (ucast b :: uint)" by transfer simp
    have "uint b = 16 \<longleftrightarrow> b = 16" by (simp add: word_uint_eq_iff)
    then have "cons_loop (Suc n) ch uartgetc dump s = cons_loop n ch uartgetc (dump \<or> b = 16) u"
      using u(1) by (simp add: bnd_Ret [where m = uartgetc, OF g] w thn_Ret)
    with s' u(4) d(3,4) Cons show ?thesis by auto
  qed
qed

lemma cons_ok_held [simp]:
  "cons_ok (s\<lparr>held := ConsLock # ls\<rparr>) = cons_ok (s\<lparr>held := ls\<rparr>)"
  "committed (s\<lparr>held := ls\<rparr>) = committed s" "typed (s\<lparr>held := ls\<rparr>) = typed s"
  by (auto simp: cons_ok_def input_ok_def screen_ok_def lock_free_def committed_def typed_def)

text \<open>C40: The serial interrupt implements the line editor. Whatever bytes wait at the serial port (other than
  control-P, which prints the process list), \<^verbatim>\<open>uartintr\<close> returns with all of them read, the lock of the console
  free again, and the finished bytes and the current line are those of the editor run over the bytes in their
  order: backspace takes the last byte of the line only, control-U the whole line, a carriage return is a newline, a line is
  finished by a newline, control-D or a full buffer, and the buffer is never overrun.
\<close>

theorem uartintr_edits:
  assumes "cons_ok s" and "uart_on s" and "lock_free ConsLock s" and "16 \<notin> set (uart_in s)"
  shows "\<exists>s'. uartintr ch s = Ret () s' \<and> cons_ok s' \<and> uart_in s' = [] \<and> lock_free ConsLock s'
    \<and> (committed s', typed s') = fold edit (uart_in s) (committed s, typed s)"
proof -
  let ?s = "s\<lparr>held := ConsLock # held s\<rparr>"
  from uart_loop [of ?s "uart_in s" "Suc (length (uart_in s))" ch False] assms obtain t where
    t: "cons_loop (Suc (length (uart_in s))) ch uartgetc False ?s = Ret False t" "cons_ok t" "uart_in t = []"
      "held t = ConsLock # held s" "others t = others s" "(committed t, typed t) = fold edit (uart_in s) (committed s, typed s)"
    by auto
  have c: "cons_ok (t\<lparr>held := held s\<rparr>)" using t(2,4) by (simp add: cons_ok_def input_ok_def screen_ok_def lock_free_def typed_def)
  have "uartintr ch s = Ret () (t\<lparr>held := held s\<rparr>)"
    using assms(3) t(4)
    by (simp add: uartintr_def consoleintr_def thn_acquire thn_release del: cons_loop.simps
        add: bnd_Ret [where m = "cons_loop (Suc (length (uart_in s))) ch uartgetc False", OF t(1)])
  with c t assms(3) show ?thesis by (auto simp: lock_free_def)
qed

definition cons_example :: consst where
  "cons_example = pipest.extend pipe_example \<lparr>crt = (\<lambda>_. 0), crt_pos = 0, uart_on = True,
     uart_in = [108, 120, 8, 115, 13, 99], uart_out = [], kbd_in = [], kbd_shift = 0, panicked = False,
     cons_locking = True, inbuf = replicate 128 0, in_r = 0, in_w = 0, in_e = 0\<rparr>"

theorem uartintr_edits_witness:
  "\<exists>s'. uartintr 0 cons_example = Ret () s' \<and> committed s' = [108, 115, 10] \<and> typed s' = [99]"
proof -
  have i: "committed cons_example = []" "typed cons_example = []"
    by (simp_all add: committed_def typed_def ring_content_def cons_example_def pipest.defs)
  have "cons_ok cons_example"
    using i(2) pipe_example_sel(1-3)
    by (simp add: cons_ok_def input_ok_def screen_ok_def lock_free_def) (simp add: cons_example_def pipest.defs INPUT_BUF_def)
  moreover have "lock_free ConsLock cons_example"
    using pipe_example_sel(1,2) by (simp add: lock_free_def cons_example_def pipest.defs)
  moreover have "uart_on cons_example" "uart_in cons_example = [108, 120, 8, 115, 13, 99]"
    by (simp_all add: cons_example_def pipest.defs)
  ultimately show ?thesis
    using uartintr_edits [of cons_example 0] i by (auto simp: edit_def INPUT_BUF_def)
qed

end
