(* ===== verification/Bytes.thy ===== *)
theory Bytes
  imports Sysproc
begin

unbundle bit_operations_syntax

text \<open>
  Structures in disk blocks: the data of a block is a list of bytes, and the fields of the C
  structures that the code casts it to are little-endian numbers at fixed offsets.
\<close>

text \<open>\<^verbatim>\<open>memmove(data + o, bs, n)\<close> into an array, and reading \<open>n\<close> bytes at \<open>o\<close>.\<close>

definition put_at :: "nat \<Rightarrow> 'a list \<Rightarrow> 'a list \<Rightarrow> 'a list" where
  "put_at ofs bs data = take ofs data @ bs @ drop (ofs + length bs) data"

definition get_at :: "nat \<Rightarrow> nat \<Rightarrow> 'a list \<Rightarrow> 'a list" where
  "get_at ofs n data = take n (drop ofs data)"

definition bytes_of_word :: "nat \<Rightarrow> uint \<Rightarrow> uchar list" where
  "bytes_of_word n w = map (\<lambda>k. byte_of k w) [0..<n]"

definition get32 :: "nat \<Rightarrow> uchar list \<Rightarrow> uint" where
  "get32 ofs data = word_of_bytes (get_at ofs 4 data)"

definition put32 :: "nat \<Rightarrow> uint \<Rightarrow> uchar list \<Rightarrow> uchar list" where
  "put32 ofs w data = put_at ofs (bytes_of_word 4 w) data"

definition get16 :: "nat \<Rightarrow> uchar list \<Rightarrow> ushort" where
  "get16 ofs data = ucast (word_of_bytes (get_at ofs 2 data))"

definition put16 :: "nat \<Rightarrow> ushort \<Rightarrow> uchar list \<Rightarrow> uchar list" where
  "put16 ofs w data = put_at ofs (bytes_of_word 2 (ucast w)) data"

section \<open>Lengths and frames\<close>

lemma length_bytes_of_word [simp]: "length (bytes_of_word n w) = n"
  by (simp add: bytes_of_word_def)

lemma length_put_at [simp]: "ofs + length bs \<le> length data \<Longrightarrow> length (put_at ofs bs data) = length data"
  by (simp add: put_at_def)

lemma length_put32 [simp]: "ofs + 4 \<le> length data \<Longrightarrow> length (put32 ofs w data) = length data"
  by (simp add: put32_def)

lemma length_put16 [simp]: "ofs + 2 \<le> length data \<Longrightarrow> length (put16 ofs w data) = length data"
  by (simp add: put16_def)

lemma nth_put_at:
  assumes "ofs + length bs \<le> length data" and "i < length data"
  shows "put_at ofs bs data ! i = (if ofs \<le> i \<and> i < ofs + length bs then bs ! (i - ofs) else data ! i)"
  using assms by (auto simp: put_at_def nth_append)

lemma get_put_at [simp]:
  "ofs + length bs \<le> length data \<Longrightarrow> n = length bs \<Longrightarrow> get_at ofs n (put_at ofs bs data) = bs"
  by (simp add: put_at_def get_at_def)

lemma get_put_other:
  assumes "ofs + length bs \<le> length data" and "ofs' + n \<le> ofs \<or> ofs + length bs \<le> ofs'" and "ofs' + n \<le> length data"
  shows "get_at ofs' n (put_at ofs bs data) = get_at ofs' n data"
  using assms by (intro nth_equalityI) (auto simp: get_at_def nth_put_at)

section \<open>Round trips\<close>

lemma word_of_bytes_inverse:
  "word_of_bytes [byte_of 0 w, byte_of 1 w, byte_of 2 w, byte_of 3 w] = w"
proof (rule bit_word_eqI)
  fix n assume "n < LENGTH(32)"
  then consider "n < 8" | "8 \<le> n" "n < 16" | "16 \<le> n" "n < 24" | "24 \<le> n" "n < 32" by fastforce
  then show "bit (word_of_bytes [byte_of 0 w, byte_of 1 w, byte_of 2 w, byte_of 3 w]) n = bit w n"
    by cases (auto simp: byte_of_def bit_simps)
qed

lemma get_put32 [simp]: "ofs + 4 \<le> length data \<Longrightarrow> get32 ofs (put32 ofs w data) = w"
  using word_of_bytes_inverse [of w]
  by (simp add: get32_def put32_def) (simp add: bytes_of_word_def upt_rec numeral_2_eq_2 numeral_3_eq_3)

lemma get_put16 [simp]:
  assumes "ofs + 2 \<le> length data"
  shows "get16 ofs (put16 ofs w data) = w"
proof -
  have "ucast (word_of_bytes [byte_of 0 (ucast w), byte_of 1 (ucast w)]) = w"
  proof (rule bit_word_eqI)
    fix n assume "n < LENGTH(16)"
    then consider "n < 8" | "8 \<le> n" "n < 16" by fastforce
    then show "bit (ucast (word_of_bytes [byte_of 0 (ucast w), byte_of 1 (ucast w)]) :: ushort) n = bit w n"
      by cases (auto simp: byte_of_def bit_simps)
  qed
  then show ?thesis using assms by (simp add: get16_def put16_def) (simp add: bytes_of_word_def upt_rec)
qed

lemma get32_put32_other:
  "ofs + 4 \<le> length data \<Longrightarrow> ofs' + 4 \<le> length data \<Longrightarrow> ofs' + 4 \<le> ofs \<or> ofs + 4 \<le> ofs' \<Longrightarrow>
   get32 ofs' (put32 ofs w data) = get32 ofs' data"
  by (simp add: get32_def put32_def get_put_other)

end
