(* ===== verification/Bio.thy ===== *)
theory Bio
  imports Bytes Console
begin

unbundle bit_operations_syntax

text \<open>
  Sleep locks (\<^verbatim>\<open>sleeplock.c\<close>), the disk (the memory disk of \<^verbatim>\<open>memide.c\<close>) and the buffer cache (\<^verbatim>\<open>bio.c\<close>).

  A buffer is named by its index in \<^verbatim>\<open>bcache.buf\<close>. The doubly linked list of the cache is the list of
  the buffers from \<^verbatim>\<open>head.next\<close> on: most recently used first. The sleep locks are numbered, those
  of the buffers first and then those of the inodes; \<open>slk_addr\<close> gives the address of a lock, which is
  its channel, and is fixed by the linker. A process that finds a sleep lock taken stops with
  \<open>Sleeping\<close> and continues, once woken, at \<open>acquiresleep_loop\<close>.

  \<open>dtrace\<close> lists the blocks written to the disk since boot, latest first.
\<close>

section \<open>State\<close>

record sleeplock =
  sl_locked :: bool
  sl_pid :: uint

record buf =
  b_flags :: uint
  b_dev :: uint
  b_blockno :: uint
  b_refcnt :: uint
  b_data :: "uchar list"

definition NBUF :: nat where
  "NBUF = 30"

definition BSIZE :: nat where
  "BSIZE = 512"

abbreviation B_VALID :: uint where "B_VALID \<equiv> 2"
abbreviation B_DIRTY :: uint where "B_DIRTY \<equiv> 4"

record biost = consst +
  slks :: "nat \<Rightarrow> sleeplock"
  slk_addr :: "nat \<Rightarrow> uint"
  bufs :: "buf list"
  lru :: "nat list"
  disk :: "nat \<Rightarrow> uchar list"
  disksize :: uint
  dtrace :: "(nat \<times> uchar list) list"

section \<open>Sleep locks\<close>

definition upd_slk :: "nat \<Rightarrow> (sleeplock \<Rightarrow> sleeplock) \<Rightarrow> ('e biost_scheme, unit) km" where
  "upd_slk l f = upd (\<lambda>s. s\<lparr>slks := (slks s)(l := f (slks s l))\<rparr>)"

definition initsleeplock :: "nat \<Rightarrow> ('e biost_scheme, unit) km" where
  "initsleeplock l =
     thn (lock_init (SleepSpin l)) (
     thn (upd_slk l (\<lambda>k. k\<lparr>sl_locked := False\<rparr>)) (
     upd_slk l (\<lambda>k. k\<lparr>sl_pid := 0\<rparr>)))"

definition acquiresleep_loop :: "nat \<Rightarrow> ('e biost_scheme, unit) km" where
  "acquiresleep_loop l =
     bnd (gets (\<lambda>s. slks s l)) (\<lambda>k.
     bnd (gets (\<lambda>s. slk_addr s l)) (\<lambda>a.
     if sl_locked k then sleep a (Some (SleepSpin l))
     else
       thn (upd_slk l (\<lambda>k. k\<lparr>sl_locked := True\<rparr>)) (
       with_me (\<lambda>me. bnd (getp me pid) (\<lambda>p.
       thn (upd_slk l (\<lambda>k. k\<lparr>sl_pid := p\<rparr>)) (
       lock_release (SleepSpin l)))))))"

definition acquiresleep :: "nat \<Rightarrow> ('e biost_scheme, unit) km" where
  "acquiresleep l = thn (lock_acquire (SleepSpin l)) (acquiresleep_loop l)"

definition releasesleep :: "nat \<Rightarrow> ('e biost_scheme, unit) km" where
  "releasesleep l =
     thn (lock_acquire (SleepSpin l)) (
     thn (upd_slk l (\<lambda>k. k\<lparr>sl_locked := False\<rparr>)) (
     thn (upd_slk l (\<lambda>k. k\<lparr>sl_pid := 0\<rparr>)) (
     bnd (gets (\<lambda>s. slk_addr s l)) (\<lambda>a.
     thn (wakeup a) (
     lock_release (SleepSpin l))))))"

definition holdingsleep :: "nat \<Rightarrow> ('e biost_scheme, bool) km" where
  "holdingsleep l =
     thn (lock_acquire (SleepSpin l)) (
     bnd (gets (\<lambda>s. slks s l)) (\<lambda>k.
     bnd (if sl_locked k then with_me (\<lambda>me. bnd (getp me pid) (\<lambda>p. ret (sl_pid k = p))) else ret False) (\<lambda>r.
     thn (lock_release (SleepSpin l)) (
     ret r))))"

section \<open>The disk\<close>

definition getb :: "nat \<Rightarrow> (buf \<Rightarrow> 'a) \<Rightarrow> ('e biost_scheme, 'a) km" where
  "getb b f = gets (\<lambda>s. f (bufs s ! b))"

definition upd_buf :: "nat \<Rightarrow> (buf \<Rightarrow> buf) \<Rightarrow> ('e biost_scheme, unit) km" where
  "upd_buf b f = upd (\<lambda>s. s\<lparr>bufs := (bufs s)[b := f (bufs s ! b)]\<rparr>)"

text \<open>\<open>img_size\<close> is the size of the disk image in bytes, which the linker gives.\<close>

definition ideinit :: "uint \<Rightarrow> ('e biost_scheme, unit) km" where
  "ideinit img_size = upd (\<lambda>s. s\<lparr>disksize := img_size div of_nat BSIZE\<rparr>)"

definition disk_write :: "nat \<Rightarrow> uchar list \<Rightarrow> ('e biost_scheme, unit) km" where
  "disk_write n d = upd (\<lambda>s. s\<lparr>disk := (disk s)(n := d), dtrace := (n, d) # dtrace s\<rparr>)"

definition iderw :: "nat \<Rightarrow> ('e biost_scheme, unit) km" where
  "iderw b =
     bnd (holdingsleep b) (\<lambda>h.
     if \<not> h then panic ''iderw: buf not locked''
     else
       bnd (getb b b_flags) (\<lambda>fl.
       bnd (getb b b_dev) (\<lambda>dev.
       bnd (getb b b_blockno) (\<lambda>n.
       bnd (gets disksize) (\<lambda>dsz.
       if fl AND (B_VALID OR B_DIRTY) = B_VALID then panic ''iderw: nothing to do''
       else if dev \<noteq> 1 then panic ''iderw: request not for disk 1''
       else if dsz \<le> n then panic ''iderw: block out of range''
       else
         thn (if fl AND B_DIRTY \<noteq> 0 then
                thn (upd_buf b (\<lambda>x. x\<lparr>b_flags := b_flags x AND NOT B_DIRTY\<rparr>)) (
                bnd (getb b b_data) (\<lambda>d. disk_write (unat n) d))
              else
                bnd (gets (\<lambda>s. disk s (unat n))) (\<lambda>d. upd_buf b (\<lambda>x. x\<lparr>b_data := d\<rparr>))) (
         upd_buf b (\<lambda>x. x\<lparr>b_flags := b_flags x OR B_VALID\<rparr>)))))))"

section \<open>The buffer cache\<close>

definition binit :: "('e biost_scheme, unit) km" where
  "binit =
     thn (lock_init BcacheLock) (
     thn (upd (\<lambda>s. s\<lparr>lru := []\<rparr>)) (
     for_each [0..<NBUF] (\<lambda>b.
       thn (initsleeplock b) (
       upd (\<lambda>s. s\<lparr>lru := b # lru s\<rparr>)))))"

definition bget :: "uint \<Rightarrow> uint \<Rightarrow> ('e biost_scheme, nat) km" where
  "bget dev blockno =
     thn (lock_acquire BcacheLock) (
     bnd (gets (\<lambda>s. find (\<lambda>b. b_dev (bufs s ! b) = dev \<and> b_blockno (bufs s ! b) = blockno) (lru s))) (\<lambda>c.
     case c of
       Some b \<Rightarrow>
         thn (upd_buf b (\<lambda>x. x\<lparr>b_refcnt := b_refcnt x + 1\<rparr>)) (
         thn (lock_release BcacheLock) (
         thn (acquiresleep b) (
         ret b)))
     | None \<Rightarrow>
         bnd (gets (\<lambda>s. find (\<lambda>b. b_refcnt (bufs s ! b) = 0 \<and> b_flags (bufs s ! b) AND B_DIRTY = 0) (rev (lru s)))) (\<lambda>u.
         case u of
           Some b \<Rightarrow>
             thn (upd_buf b (\<lambda>x. x\<lparr>b_dev := dev, b_blockno := blockno, b_flags := 0, b_refcnt := 1\<rparr>)) (
             thn (lock_release BcacheLock) (
             thn (acquiresleep b) (
             ret b)))
         | None \<Rightarrow> panic ''bget: no buffers'')))"

definition bread :: "uint \<Rightarrow> uint \<Rightarrow> ('e biost_scheme, nat) km" where
  "bread dev blockno =
     bnd (bget dev blockno) (\<lambda>b.
     bnd (getb b b_flags) (\<lambda>fl.
     thn (if fl AND B_VALID = 0 then iderw b else ret ()) (
     ret b)))"

definition bwrite :: "nat \<Rightarrow> ('e biost_scheme, unit) km" where
  "bwrite b =
     bnd (holdingsleep b) (\<lambda>h.
     if \<not> h then panic ''bwrite''
     else
       thn (upd_buf b (\<lambda>x. x\<lparr>b_flags := b_flags x OR B_DIRTY\<rparr>)) (
       iderw b))"

definition brelse :: "nat \<Rightarrow> ('e biost_scheme, unit) km" where
  "brelse b =
     bnd (holdingsleep b) (\<lambda>h.
     if \<not> h then panic ''brelse''
     else
       thn (releasesleep b) (
       thn (lock_acquire BcacheLock) (
       thn (upd_buf b (\<lambda>x. x\<lparr>b_refcnt := b_refcnt x - 1\<rparr>)) (
       bnd (getb b b_refcnt) (\<lambda>r.
       thn (if r = 0 then upd (\<lambda>s. s\<lparr>lru := b # remove1 b (lru s)\<rparr>) else ret ()) (
       lock_release BcacheLock))))))"

end
