(* ===== verification/Log.thy ===== *)
theory Log
  imports Bio
begin

unbundle bit_operations_syntax

text \<open>
  The log (\<^verbatim>\<open>log.c\<close>), and reading the super block (\<^verbatim>\<open>readsb\<close> of \<^verbatim>\<open>fs.c\<close>).

  The numbers of the in-memory header are C integers. \<open>log_addr\<close> is the address of the variable
  \<^verbatim>\<open>log\<close>, the channel on which system calls wait for space. A store past the end of \<^verbatim>\<open>log.lh.block\<close> is
  undefined in C and stops the model with a panic of its own.
\<close>

section \<open>State\<close>

record superblock =
  sb_size :: uint
  sb_nblocks :: uint
  sb_ninodes :: uint
  sb_nlog :: uint
  sb_logstart :: uint
  sb_inodestart :: uint
  sb_bmapstart :: uint

definition superblock_of :: "uchar list \<Rightarrow> superblock" where
  "superblock_of d = \<lparr>sb_size = get32 0 d, sb_nblocks = get32 4 d, sb_ninodes = get32 8 d, sb_nlog = get32 12 d,
     sb_logstart = get32 16 d, sb_inodestart = get32 20 d, sb_bmapstart = get32 24 d\<rparr>"

definition MAXOPBLOCKS :: int where
  "MAXOPBLOCKS = 10"

definition LOGSIZE :: int where
  "LOGSIZE = MAXOPBLOCKS * 3"

record logst = biost +
  log_addr :: uint
  log_start :: uint
  log_size :: uint
  outstanding :: int
  committing :: bool
  log_dev :: uint
  lh_n :: int
  lh_block :: "uint list"

section \<open>Reading and writing the header\<close>

definition readsb :: "uint \<Rightarrow> ('e logst_scheme, superblock) km" where
  "readsb dev =
     bnd (bread dev 1) (\<lambda>bp.
     bnd (getb bp (\<lambda>b. superblock_of (b_data b))) (\<lambda>sb.
     thn (brelse bp) (
     ret sb)))"

definition set_block :: "nat \<Rightarrow> uint \<Rightarrow> ('e logst_scheme, unit) km" where
  "set_block i v =
     bnd (gets (\<lambda>s. length (lh_block s))) (\<lambda>n.
     if i < n then upd (\<lambda>s. s\<lparr>lh_block := (lh_block s)[i := v]\<rparr>) else panic ''undefined: log.lh.block'')"

definition read_head :: "('e logst_scheme, unit) km" where
  "read_head =
     bnd (gets log_dev) (\<lambda>dev.
     bnd (gets log_start) (\<lambda>start.
     bnd (bread dev start) (\<lambda>buf.
     bnd (getb buf b_data) (\<lambda>lh.
     thn (upd (\<lambda>s. s\<lparr>lh_n := sint (get32 0 lh)\<rparr>)) (
     bnd (gets lh_n) (\<lambda>n.
     thn (for_each [0..<nat n] (\<lambda>i. set_block i (get32 (4 + 4 * i) lh))) (
     brelse buf)))))))"

definition write_head :: "('e logst_scheme, unit) km" where
  "write_head =
     bnd (gets log_dev) (\<lambda>dev.
     bnd (gets log_start) (\<lambda>start.
     bnd (bread dev start) (\<lambda>buf.
     bnd (gets lh_n) (\<lambda>n.
     thn (upd_buf buf (\<lambda>b. b\<lparr>b_data := put32 0 (word_of_int n) (b_data b)\<rparr>)) (
     thn (for_each [0..<nat n] (\<lambda>i.
       bnd (gets (\<lambda>s. lh_block s ! i)) (\<lambda>v.
       upd_buf buf (\<lambda>b. b\<lparr>b_data := put32 (4 + 4 * i) v (b_data b)\<rparr>)))) (
     thn (bwrite buf) (
     brelse buf)))))))"

section \<open>Commit and recovery\<close>

definition install_one :: "nat \<Rightarrow> ('e logst_scheme, unit) km" where
  "install_one tail =
     bnd (gets log_dev) (\<lambda>dev.
     bnd (gets log_start) (\<lambda>start.
     bnd (bread dev (start + of_nat tail + 1)) (\<lambda>lbuf.
     bnd (gets (\<lambda>s. lh_block s ! tail)) (\<lambda>n.
     bnd (bread dev n) (\<lambda>dbuf.
     bnd (getb lbuf b_data) (\<lambda>d.
     thn (upd_buf dbuf (\<lambda>b. b\<lparr>b_data := d\<rparr>)) (
     thn (bwrite dbuf) (
     thn (brelse lbuf) (
     brelse dbuf)))))))))"

definition install_trans :: "('e logst_scheme, unit) km" where
  "install_trans = bnd (gets lh_n) (\<lambda>n. for_each [0..<nat n] install_one)"

definition recover_from_log :: "('e logst_scheme, unit) km" where
  "recover_from_log =
     thn read_head (
     thn install_trans (
     thn (upd (\<lambda>s. s\<lparr>lh_n := 0\<rparr>)) (
     write_head)))"

definition initlog :: "uint \<Rightarrow> ('e logst_scheme, unit) km" where
  "initlog dev =
     (if BSIZE \<le> 4 + 4 * nat LOGSIZE then panic ''initlog: too big logheader''
      else
        thn (lock_init LogLock) (
        bnd (readsb dev) (\<lambda>sb.
        thn (upd (\<lambda>s. s\<lparr>log_start := sb_logstart sb, log_size := sb_nlog sb, log_dev := dev\<rparr>)) (
        recover_from_log))))"

definition log_one :: "nat \<Rightarrow> ('e logst_scheme, unit) km" where
  "log_one tail =
     bnd (gets log_dev) (\<lambda>dev.
     bnd (gets log_start) (\<lambda>start.
     bnd (bread dev (start + of_nat tail + 1)) (\<lambda>to.
     bnd (gets (\<lambda>s. lh_block s ! tail)) (\<lambda>n.
     bnd (bread dev n) (\<lambda>from.
     bnd (getb from b_data) (\<lambda>d.
     thn (upd_buf to (\<lambda>b. b\<lparr>b_data := d\<rparr>)) (
     thn (bwrite to) (
     thn (brelse from) (
     brelse to)))))))))"

definition write_log :: "('e logst_scheme, unit) km" where
  "write_log = bnd (gets lh_n) (\<lambda>n. for_each [0..<nat n] log_one)"

definition commit :: "('e logst_scheme, unit) km" where
  "commit =
     bnd (gets lh_n) (\<lambda>n.
     if 0 < n then
       thn write_log (
       thn write_head (
       thn install_trans (
       thn (upd (\<lambda>s. s\<lparr>lh_n := 0\<rparr>)) (
       write_head))))
     else ret ())"

section \<open>Operations\<close>

text \<open>A system call that waits for space continues, once woken, at \<open>begin_op_loop\<close>.\<close>

definition begin_op_loop :: "('e logst_scheme, unit) km" where
  "begin_op_loop =
     bnd (gets log_addr) (\<lambda>ch.
     bnd (gets committing) (\<lambda>c.
     bnd (gets lh_n) (\<lambda>n.
     bnd (gets outstanding) (\<lambda>k.
     if c then sleep ch (Some LogLock)
     else if LOGSIZE < n + (k + 1) * MAXOPBLOCKS then sleep ch (Some LogLock)
     else
       thn (upd (\<lambda>s. s\<lparr>outstanding := k + 1\<rparr>)) (
       lock_release LogLock)))))"

definition begin_op :: "('e logst_scheme, unit) km" where
  "begin_op = thn (lock_acquire LogLock) begin_op_loop"

definition end_op :: "('e logst_scheme, unit) km" where
  "end_op =
     thn (lock_acquire LogLock) (
     thn (upd (\<lambda>s. s\<lparr>outstanding := outstanding s - 1\<rparr>)) (
     bnd (gets committing) (\<lambda>c.
     if c then panic ''log.committing''
     else
       bnd (gets outstanding) (\<lambda>k.
       bnd (gets log_addr) (\<lambda>ch.
       if k = 0 then
         thn (upd (\<lambda>s. s\<lparr>committing := True\<rparr>)) (
         thn (lock_release LogLock) (
         thn commit (
         thn (lock_acquire LogLock) (
         thn (upd (\<lambda>s. s\<lparr>committing := False\<rparr>)) (
         thn (wakeup ch) (
         lock_release LogLock))))))
       else
         thn (wakeup ch) (
         lock_release LogLock))))))"

text \<open>The index at which \<^verbatim>\<open>log_write\<close> records the block: where it is already, or the end.\<close>

definition log_slot :: "uint list \<Rightarrow> nat \<Rightarrow> uint \<Rightarrow> nat" where
  "log_slot bl n v = (case first_idx (\<lambda>x. x = v) (take n bl) of Some i \<Rightarrow> i | None \<Rightarrow> n)"

definition log_write :: "nat \<Rightarrow> ('e logst_scheme, unit) km" where
  "log_write b =
     bnd (gets lh_n) (\<lambda>n.
     bnd (gets (\<lambda>s. sint (log_size s))) (\<lambda>lsz.
     bnd (gets outstanding) (\<lambda>k.
     if LOGSIZE \<le> n \<or> lsz - 1 \<le> n then panic ''too big a transaction''
     else if k < 1 then panic ''log_write outside of trans''
     else
       thn (lock_acquire LogLock) (
       bnd (getb b b_blockno) (\<lambda>v.
       bnd (gets (\<lambda>s. log_slot (lh_block s) (nat n) v)) (\<lambda>i.
       thn (set_block i v) (
       thn (if int i = n then upd (\<lambda>s. s\<lparr>lh_n := n + 1\<rparr>) else ret ()) (
       thn (upd_buf b (\<lambda>x. x\<lparr>b_flags := b_flags x OR B_DIRTY\<rparr>)) (
       lock_release LogLock)))))))))"

end
