(* ===== verification/BioProps.thy ===== *)
theory BioProps
  imports Bio ProcInv
begin

unbundle bit_operations_syntax

text \<open>
  The buffer cache is transparent: seen through it, the disk is a map from block numbers to
  contents. The view of a block is the data of the buffer that caches it, or else what is on the disk.
  Reading a block returns its view and changes no view, changing the data of a held buffer changes
  the view of its block only, and recycling buffers loses nothing.
\<close>

section \<open>Running sleep locks\<close>

text \<open>Process \<open>me\<close> runs, and no spin lock is held.\<close>

definition calm :: "nat \<Rightarrow> 'e ptab_scheme \<Rightarrow> bool" where
  "calm me s \<longleftrightarrow> held s = [] \<and> others s = {} \<and> cur s = Some me \<and> me < NPROC \<and> length (procs s) = NPROC"

definition mypid :: "nat \<Rightarrow> 'e ptab_scheme \<Rightarrow> uint" where
  "mypid me s = pid (procs s ! me)"

lemma calm_free [simp]: "calm me s \<Longrightarrow> lock_free l s"
  by (simp add: calm_def lock_free_def)

lemma calm_held: "calm me s \<Longrightarrow> held s = []"
  by (simp add: calm_def)

lemma held_same: "held s = [] \<Longrightarrow> s\<lparr>held := []\<rparr> = s"
  by (cases s) simp

lemma acquiresleep_run:
  assumes "calm me s" and "\<not> sl_locked (slks s l)"
  shows "acquiresleep l s = Ret () (s\<lparr>slks := (slks s)(l := (slks s l)\<lparr>sl_locked := True, sl_pid := mypid me s\<rparr>)\<rparr>)"
  using assms
  by (simp add: calm_def acquiresleep_def acquiresleep_loop_def thn_acquire lock_free_def upd_slk_def with_me_def
      myproc_def getp_def lock_release_run mypid_def)

lemma holdingsleep_run:
  assumes "calm me s" and "sl_locked (slks s l)" and "sl_pid (slks s l) = mypid me s"
  shows "holdingsleep l s = Ret True s"
  using assms
  by (simp add: calm_def holdingsleep_def thn_acquire lock_free_def with_me_def myproc_def getp_def thn_release mypid_def)

lemma releasesleep_run:
  assumes "calm me s"
  shows "releasesleep l s = Ret () (s\<lparr>slks := (slks s)(l := (slks s l)\<lparr>sl_locked := False, sl_pid := 0\<rparr>),
    procs := map (woken (slk_addr s l)) (procs s)\<rparr>)"
proof -
  let ?t = "s\<lparr>held := [SleepSpin l], slks := (slks s)(l := (slks s l)\<lparr>sl_locked := False, sl_pid := 0\<rparr>)\<rparr>"
  have "wakeup a ?t = Ret () (?t\<lparr>procs := map (woken a) (procs s)\<rparr>)" for a
    using assms wakeup_run [of ?t a] by (simp add: calm_def lock_free_def)
  then show ?thesis
    using assms by (simp add: calm_def releasesleep_def thn_acquire lock_free_def upd_slk_def thn_Ret lock_release_run)
qed

text \<open>What running file system code leaves alone: processes may be woken.\<close>

definition roused :: "proc \<Rightarrow> proc \<Rightarrow> bool" where
  "roused p p' \<longleftrightarrow> p' = p \<or> state p = SLEEPING \<and> p' = p\<lparr>state := RUNNABLE\<rparr>"

definition awake :: "proc list \<Rightarrow> proc list \<Rightarrow> bool" where
  "awake ps ps' \<longleftrightarrow> list_all2 roused ps ps'"

lemma awake_refl [simp]: "awake ps ps"
  by (simp add: awake_def roused_def list_all2_same)

lemma awake_trans: "awake ps ps' \<Longrightarrow> awake ps' ps'' \<Longrightarrow> awake ps ps''"
  unfolding awake_def by (rule list_all2_trans [of roused roused roused]) (auto simp: roused_def)

lemma awake_woken [simp]: "awake ps (map (woken ch) ps)"
  by (auto simp: awake_def woken_def roused_def list_all2_map2 list_all2_same)

lemma awake_length: "awake ps ps' \<Longrightarrow> length ps' = length ps"
  by (simp add: awake_def list_all2_lengthD)

lemma awake_pid: "awake ps ps' \<Longrightarrow> i < length ps \<Longrightarrow> pid (ps' ! i) = pid (ps ! i)"
  unfolding awake_def using list_all2_nthD [of roused ps ps' i] by (auto simp: roused_def)

definition erase :: "'e biost_scheme \<Rightarrow> 'e biost_scheme" where
  "erase s = s\<lparr>procs := [], slks := (\<lambda>_. \<lparr>sl_locked = False, sl_pid = 0\<rparr>), bufs := [], lru := [], disk := (\<lambda>_. []), dtrace := []\<rparr>"

definition io_frame :: "'e biost_scheme \<Rightarrow> 'e biost_scheme \<Rightarrow> bool" where
  "io_frame s s' \<longleftrightarrow> erase s' = erase s \<and> awake (procs s) (procs s') \<and> (\<forall>i \<ge> NBUF. slks s' i = slks s i)"

lemma io_frame_refl [simp]: "io_frame s s"
  by (simp add: io_frame_def)

lemma io_frame_trans: "io_frame s t \<Longrightarrow> io_frame t u \<Longrightarrow> io_frame s u"
  by (auto simp: io_frame_def intro: awake_trans)

lemma io_frame_field:
  assumes "io_frame s s'" and "\<And>s. f (erase s) = f s"
  shows "f s' = f s"
  using assms unfolding io_frame_def by metis

lemma io_frame_sel:
  assumes "io_frame s s'"
  shows "held s' = held s" "others s' = others s" "cur s' = cur s" "disksize s' = disksize s" "slk_addr s' = slk_addr s"
  by (rule io_frame_field [OF assms]; simp add: erase_def)+

lemma io_frame_calm:
  assumes "io_frame s s'" and "calm me s"
  shows "calm me s'" "mypid me s' = mypid me s"
  using assms io_frame_sel [OF assms(1)] awake_length [of "procs s" "procs s'"] awake_pid [of "procs s" "procs s'" me]
  by (simp_all add: io_frame_def calm_def mypid_def)

section \<open>The invariant of the cache\<close>

text \<open>
  \<open>p\<close> is the pid of the running process. A buffer that caches a block is valid; a clean buffer that nobody
  holds has what is on the disk.
\<close>

definition buf_ok :: "uint \<Rightarrow> (nat \<Rightarrow> uchar list) \<Rightarrow> uint \<Rightarrow> sleeplock \<Rightarrow> buf \<Rightarrow> bool" where
  "buf_ok p dsk dsz k b \<longleftrightarrow> length (b_data b) = BSIZE \<and> b_flags b \<in> {0, 2, 6}
     \<and> b_refcnt b = (if sl_locked k then 1 else 0) \<and> b_dev b = (if b_flags b = 0 then 0 else 1)
     \<and> (sl_locked k \<longrightarrow> sl_pid k = p \<and> b_flags b \<noteq> 0)
     \<and> (b_flags b \<noteq> 0 \<longrightarrow> b_blockno b < dsz)
     \<and> (b_flags b = 2 \<longrightarrow> \<not> sl_locked k \<longrightarrow> b_data b = dsk (unat (b_blockno b)))"

definition caches :: "'e biost_scheme \<Rightarrow> uint \<Rightarrow> nat \<Rightarrow> bool" where
  "caches s n i \<longleftrightarrow> i < NBUF \<and> b_flags (bufs s ! i) \<noteq> 0 \<and> b_blockno (bufs s ! i) = n"

definition cache_ok :: "uint \<Rightarrow> 'e biost_scheme \<Rightarrow> bool" where
  "cache_ok p s \<longleftrightarrow> length (bufs s) = NBUF \<and> distinct (lru s) \<and> set (lru s) = {..<NBUF}
     \<and> (\<forall>i < NBUF. buf_ok p (disk s) (disksize s) (slks s i) (bufs s ! i))
     \<and> (\<forall>n i j. caches s n i \<longrightarrow> caches s n j \<longrightarrow> i = j)
     \<and> (\<forall>n < unat (disksize s). length (disk s n) = BSIZE)"

definition bufat :: "'e biost_scheme \<Rightarrow> uint \<Rightarrow> nat option" where
  "bufat s n = find (caches s n) [0..<NBUF]"

definition blk :: "'e biost_scheme \<Rightarrow> uint \<Rightarrow> uchar list" where
  "blk s n = (case bufat s n of Some i \<Rightarrow> b_data (bufs s ! i) | None \<Rightarrow> disk s (unat n))"

definition owned :: "'e biost_scheme \<Rightarrow> uint \<Rightarrow> bool" where
  "owned s n \<longleftrightarrow> (case bufat s n of Some i \<Rightarrow> sl_locked (slks s i) | None \<Rightarrow> False)"

definition dirty :: "'e biost_scheme \<Rightarrow> uint \<Rightarrow> bool" where
  "dirty s n \<longleftrightarrow> (case bufat s n of Some i \<Rightarrow> b_flags (bufs s ! i) = 6 | None \<Rightarrow> False)"

text \<open>The buffer of a held block.\<close>

definition holder :: "'e biost_scheme \<Rightarrow> uint \<Rightarrow> nat option" where
  "holder s n = (if owned s n then bufat s n else None)"

lemma owned_holder: "owned s n \<longleftrightarrow> holder s n \<noteq> None"
  by (auto simp: holder_def owned_def split: option.splits)

lemma holder_Some: "holder s n = Some i \<longleftrightarrow> bufat s n = Some i \<and> owned s n"
  by (auto simp: holder_def)

text \<open>There is room for one more block when a buffer is neither held nor dirty.\<close>

definition spare :: "'e biost_scheme \<Rightarrow> bool" where
  "spare s \<longleftrightarrow> (\<exists>i < NBUF. \<not> sl_locked (slks s i) \<and> b_flags (bufs s ! i) \<noteq> 6)"

lemma find_unique:
  assumes "i \<in> set xs" and "P i" and "\<And>j. j \<in> set xs \<Longrightarrow> P j \<Longrightarrow> j = i"
  shows "find P xs = Some i"
proof (cases "find P xs")
  case None
  with assms(1,2) show ?thesis by (simp add: find_None_iff)
next
  case (Some j)
  then have "j \<in> set xs" "P j" by (auto simp: find_Some_iff)
  with assms(3) Some show ?thesis by simp
qed

lemma bufat_Some:
  assumes "cache_ok p s"
  shows "bufat s n = Some i \<longleftrightarrow> caches s n i"
proof
  assume "bufat s n = Some i"
  then show "caches s n i" unfolding bufat_def by (auto simp: find_Some_iff)
next
  assume c: "caches s n i"
  then have "i \<in> set [0..<NBUF]" by (simp add: caches_def)
  then show "bufat s n = Some i" unfolding bufat_def
  proof (rule find_unique)
    show "caches s n i" by fact
    show "j = i" if "caches s n j" for j using assms c that unfolding cache_ok_def by blast
  qed
qed

lemma bufat_None: "bufat s n = None \<longleftrightarrow> (\<forall>i. \<not> caches s n i)"
  by (auto simp: bufat_def find_None_iff caches_def)

lemma cache_bufs: "cache_ok p s \<Longrightarrow> i < NBUF \<Longrightarrow> buf_ok p (disk s) (disksize s) (slks s i) (bufs s ! i)"
  by (simp add: cache_ok_def)

text \<open>Replacing one buffer.\<close>

lemma bufat_replace:
  assumes "cache_ok p s" and "cache_ok p' s'" and "i < NBUF" and "bufs s' = (bufs s)[i := b]"
  shows "bufat s' n = (if b_flags b \<noteq> 0 \<and> b_blockno b = n then Some i
    else if bufat s n = Some i then None else bufat s n)"
proof -
  have c: "caches s' n j \<longleftrightarrow> (if j = i then b_flags b \<noteq> 0 \<and> b_blockno b = n else caches s n j)" for j
    using assms(1,3,4) by (auto simp: caches_def cache_ok_def nth_list_update)
  show ?thesis
  proof (cases "b_flags b \<noteq> 0 \<and> b_blockno b = n")
    case True
    with c [of i] show ?thesis using bufat_Some [OF assms(2), of n i] by simp
  next
    case f: False
    show ?thesis
    proof (cases "bufat s n")
      case None
      then have "bufat s' n = None" using c f by (auto simp: bufat_None)
      with None f show ?thesis by auto
    next
      case (Some j)
      then have j: "caches s n j" using bufat_Some [OF assms(1)] by simp
      show ?thesis
      proof (cases "j = i")
        case True
        have "\<not> caches s' n k" for k
          using c [of k] f True j assms(1) unfolding cache_ok_def by metis
        then show ?thesis using Some True f by (auto simp: bufat_None)
      next
        case False
        with c [of j] j have "caches s' n j" by simp
        then show ?thesis using bufat_Some [OF assms(2)] Some False f by auto
      qed
    qed
  qed
qed

lemma cache_ok_replace:
  assumes ok: "cache_ok p s" and i: "i < NBUF" and b: "buf_ok p d (disksize s) k b"
    and new: "\<And>j. b_flags b \<noteq> 0 \<Longrightarrow> caches s (b_blockno b) j \<Longrightarrow> j = i"
    and s': "bufs s' = (bufs s)[i := b]" "slks s' = (slks s)(i := k)" "disk s' = d" "disksize s' = disksize s"
      "distinct (lru s')" "set (lru s') = {..<NBUF}"
    and d: "\<And>n. d n \<noteq> disk s n \<Longrightarrow> length (d n) = BSIZE \<and> (\<forall>j. caches s (of_nat n) j \<longrightarrow> unat (of_nat n :: uint) = n \<longrightarrow> j = i)"
  shows "cache_ok p s'"
  unfolding cache_ok_def
proof (intro conjI allI impI)
  show "length (bufs s') = NBUF" using ok s' by (simp add: cache_ok_def)
  show "distinct (lru s')" "set (lru s') = {..<NBUF}" by fact+
  show "length (disk s' n) = BSIZE" if "n < unat (disksize s')" for n
    using ok s' d [of n] that unfolding cache_ok_def by metis
  have nth: "bufs s' ! j = (if j = i then b else bufs s ! j)" if "j < NBUF" for j
    using ok i s'(1) that by (auto simp: cache_ok_def nth_list_update)
  show "buf_ok p (disk s') (disksize s') (slks s' j) (bufs s' ! j)" if j: "j < NBUF" for j
  proof (cases "j = i")
    case True
    with nth [OF j] b s' show ?thesis by simp
  next
    case False
    let ?n = "unat (b_blockno (bufs s ! j))"
    have "d ?n = disk s ?n" if "b_flags (bufs s ! j) \<noteq> 0"
      using d [of ?n] j False that by (auto simp: caches_def)
    with cache_bufs [OF ok j] nth [OF j] False s' show ?thesis by (auto simp: buf_ok_def)
  qed
  show "j = k" if "caches s' n j" "caches s' n k" for n j k
  proof -
    have u: "caches s n j \<Longrightarrow> caches s n k \<Longrightarrow> j = k" using ok unfolding cache_ok_def by blast
    have "caches s' n m \<longleftrightarrow> (if m = i then b_flags b \<noteq> 0 \<and> b_blockno b = n else caches s n m)" for m
      using nth [of m] i by (auto simp: caches_def)
    with that u new show ?thesis by (metis (full_types))
  qed
qed

section \<open>Reading a block\<close>

lemma flag_bits:
  "(0 :: uint) AND 2 = 0" "(2 :: uint) AND 2 = 2" "(6 :: uint) AND 2 = 2"
  "(0 :: uint) AND 4 = 0" "(2 :: uint) AND 4 = 0" "(6 :: uint) AND 4 = 4"
  "(2 :: uint) OR 4 = 6" "(0 :: uint) AND 6 = 0" "(2 :: uint) AND 6 = 2" "(6 :: uint) AND 6 = 6" "(0 :: uint) OR 2 = 2"
  "(6 :: uint) AND NOT 4 = 2" "(6 :: uint) OR 4 = 6" "(2 :: uint) OR 2 = 2" "(4 :: uint) AND 2 = 0"
  by simp_all

definition locked_by :: "nat \<Rightarrow> 'e biost_scheme \<Rightarrow> nat \<Rightarrow> sleeplock" where
  "locked_by me s i = (slks s i)\<lparr>sl_locked := True, sl_pid := mypid me s\<rparr>"

text \<open>The state after \<open>me\<close> has got buffer \<open>i\<close>, now with contents \<open>b\<close>.\<close>

definition got :: "nat \<Rightarrow> nat \<Rightarrow> buf \<Rightarrow> 'e biost_scheme \<Rightarrow> 'e biost_scheme" where
  "got me i b s = s\<lparr>slks := (slks s)(i := locked_by me s i), bufs := (bufs s)[i := b]\<rparr>"

lemma bread_hit:
  assumes c: "calm me s" and ok: "cache_ok (mypid me s) s" and i: "bufat s n = Some i" and free: "\<not> owned s n"
  shows "bread 1 n s = Ret i (got me i ((bufs s ! i)\<lparr>b_refcnt := 1\<rparr>) s)"
proof -
  have ci: "caches s n i" using i bufat_Some [OF ok] by simp
  then have lt: "i < NBUF" by (simp add: caches_def)
  note b = cache_bufs [OF ok lt]
  have fl: "b_flags (bufs s ! i) = 2 \<or> b_flags (bufs s ! i) = 6" using b ci by (auto simp: buf_ok_def caches_def)
  have un: "\<not> sl_locked (slks s i)" using free i by (simp add: owned_def)
  have r: "b_refcnt (bufs s ! i) + 1 = 1" using b un by (simp add: buf_ok_def)
  have len: "i < length (bufs s)" using ok lt by (simp add: cache_ok_def)
  have f: "find (\<lambda>b. b_dev (bufs s ! b) = 1 \<and> b_blockno (bufs s ! b) = n) (lru s) = Some i"
  proof (rule find_unique)
    show "i \<in> set (lru s)" using ok lt by (simp add: cache_ok_def)
    show "b_dev (bufs s ! i) = 1 \<and> b_blockno (bufs s ! i) = n" using b ci by (auto simp: buf_ok_def caches_def)
    fix j assume "j \<in> set (lru s)" "b_dev (bufs s ! j) = 1 \<and> b_blockno (bufs s ! j) = n"
    then have "caches s n j" using ok cache_bufs [OF ok, of j] by (auto simp: cache_ok_def caches_def buf_ok_def)
    with ci ok show "j = i" unfolding cache_ok_def by blast
  qed
  let ?s = "s\<lparr>bufs := (bufs s)[i := (bufs s ! i)\<lparr>b_refcnt := 1\<rparr>]\<rparr>"
  have cs: "calm me ?s" using c by (simp add: calm_def)
  have g: "bget 1 n s = Ret i (got me i ((bufs s ! i)\<lparr>b_refcnt := 1\<rparr>) s)"
    using f r acquiresleep_run [OF cs, of i] un calm_free [OF c] calm_held [OF c]
    by (simp add: bget_def thn_acquire thn_release upd_buf_def thn_Ret got_def locked_by_def mypid_def held_same)
  show ?thesis
    unfolding bread_def using fl len
    by (auto simp: bnd_Ret [where m = "bget 1 n", OF g] getb_def got_def flag_bits)
qed

lemma bread_miss:
  assumes c: "calm me s" and ok: "cache_ok (mypid me s) s" and n: "bufat s n = None" "n < disksize s" and sp: "spare s"
  obtains i where "i < NBUF" and "\<not> sl_locked (slks s i)" and "b_flags (bufs s ! i) \<noteq> 6"
    and "bread 1 n s = Ret i (got me i \<lparr>b_flags = 2, b_dev = 1, b_blockno = n, b_refcnt = 1, b_data = disk s (unat n)\<rparr> s)"
proof -
  have l: "set (lru s) = {..<NBUF}" "length (bufs s) = NBUF" using ok by (simp_all add: cache_ok_def)
  have none: "find (\<lambda>b. b_dev (bufs s ! b) = 1 \<and> b_blockno (bufs s ! b) = n) (lru s) = None"
    using n(1) l cache_bufs [OF ok] by (auto simp: find_None_iff bufat_None caches_def buf_ok_def)
  have fr: "b_refcnt (bufs s ! j) = 0 \<and> b_flags (bufs s ! j) AND B_DIRTY = 0
      \<longleftrightarrow> \<not> sl_locked (slks s j) \<and> b_flags (bufs s ! j) \<noteq> 6" if "j < NBUF" for j
    using cache_bufs [OF ok that] by (auto simp: buf_ok_def flag_bits split: if_splits)
  obtain i where i: "find (\<lambda>b. b_refcnt (bufs s ! b) = 0 \<and> b_flags (bufs s ! b) AND B_DIRTY = 0) (rev (lru s)) = Some i"
  proof (cases "find (\<lambda>b. b_refcnt (bufs s ! b) = 0 \<and> b_flags (bufs s ! b) AND B_DIRTY = 0) (rev (lru s))")
    case None
    then show ?thesis using sp fr l(1) by (auto simp: find_None_iff spare_def)
  qed
  then have lt: "i < NBUF" and p: "b_refcnt (bufs s ! i) = 0 \<and> b_flags (bufs s ! i) AND B_DIRTY = 0"
    using l(1) by (auto simp: find_Some_iff) (metis lessThan_iff nth_mem set_rev length_rev)
  then have un: "\<not> sl_locked (slks s i)" "b_flags (bufs s ! i) \<noteq> 6" using fr by simp_all
  let ?b = "(bufs s ! i)\<lparr>b_dev := 1, b_blockno := n, b_flags := 0, b_refcnt := 1\<rparr>"
  let ?s = "s\<lparr>bufs := (bufs s)[i := ?b]\<rparr>"
  have cs: "calm me ?s" using c by (simp add: calm_def)
  have g: "bget 1 n s = Ret i (got me i ?b s)"
    using none i acquiresleep_run [OF cs, of i] un calm_free [OF c] calm_held [OF c]
    by (simp add: bget_def thn_acquire thn_release upd_buf_def thn_Ret got_def locked_by_def mypid_def held_same)
  let ?t = "got me i ?b s"
  have ct: "calm me ?t" "mypid me ?t = mypid me s" using c by (simp_all add: calm_def got_def mypid_def)
  have h: "holdingsleep i ?t = Ret True ?t"
    by (rule holdingsleep_run [OF ct(1)]) (simp_all add: got_def locked_by_def mypid_def)
  have all: "x\<lparr>b_dev := 1, b_blockno := n, b_refcnt := 1, b_data := d, b_flags := 2\<rparr>
      = \<lparr>b_flags = 2, b_dev = 1, b_blockno = n, b_refcnt = 1, b_data = d\<rparr>" for x :: buf and d
    by (cases x) simp
  have "\<not> disksize s \<le> n" using n(2) by simp
  then have w: "iderw i ?t = Ret () (got me i \<lparr>b_flags = 2, b_dev = 1, b_blockno = n, b_refcnt = 1, b_data = disk s (unat n)\<rparr> s)"
    using lt l(2) unfolding iderw_def bnd_Ret [where m = "holdingsleep i", OF h]
    by (simp add: getb_def upd_buf_def got_def all)
  have "bread 1 n s = Ret i (got me i \<lparr>b_flags = 2, b_dev = 1, b_blockno = n, b_refcnt = 1, b_data = disk s (unat n)\<rparr> s)"
    unfolding bread_def using lt l(2) w
    by (simp add: bnd_Ret [where m = "bget 1 n", OF g] getb_def thn_Ret) (simp add: got_def)
  with lt un show ?thesis by (rule that)
qed

section \<open>The view through the cache\<close>

definition io_ok :: "nat \<Rightarrow> 'e biost_scheme \<Rightarrow> bool" where
  "io_ok me s \<longleftrightarrow> calm me s \<and> cache_ok (mypid me s) s"

text \<open>What clients see: the contents of blocks, which blocks are held in which buffers, which are dirty, the disk and its history.\<close>

definition absv :: "'e biost_scheme \<Rightarrow> (uint \<Rightarrow> uchar list) \<times> (uint \<Rightarrow> nat option) \<times> (uint \<Rightarrow> bool) \<times> (nat \<Rightarrow> uchar list) \<times> (nat \<times> uchar list) list" where
  "absv s = (blk s, holder s, dirty s, disk s, dtrace s)"

lemma bufat_caches: "io_ok me s \<Longrightarrow> bufat s n = Some i \<longleftrightarrow> caches s n i"
  by (auto simp: io_ok_def bufat_Some)

lemma caches_unique: "io_ok me s \<Longrightarrow> bufat s n = Some i \<Longrightarrow> caches s n j \<Longrightarrow> j = i"
  by (metis bufat_caches option.inject)

lemma io_ok_buf: "io_ok me s \<Longrightarrow> i < NBUF \<Longrightarrow> buf_ok (mypid me s) (disk s) (disksize s) (slks s i) (bufs s ! i)"
  by (simp add: io_ok_def cache_bufs)

lemma io_ok_length: "io_ok me s \<Longrightarrow> length (bufs s) = NBUF"
  by (simp add: io_ok_def cache_ok_def)

text \<open>
  One buffer is replaced, its lock and the contents of its block on the disk perhaps changed too: how the
  view changes. The old block of the buffer, if another one, was clean and free.
\<close>

lemma replace_view:
  assumes ok: "io_ok me s" "io_ok me s'" and i: "i < NBUF" "bufs s' = (bufs s)[i := b]" "slks s' = (slks s)(i := k)"
    and b: "b_flags b \<noteq> 0" "b_blockno b = n"
    and old: "bufat s n = Some i \<or> bufat s n = None \<and> \<not> sl_locked (slks s i) \<and> b_flags (bufs s ! i) \<noteq> 6"
    and d: "disk s' = (disk s)(unat n := d)"
  shows "blk s' = (blk s)(n := b_data b)" "holder s' = (holder s)(n := (if sl_locked k then Some i else None))"
    "dirty s' = (dirty s)(n := (b_flags b = 6))"
proof -
  have at: "bufat s' m = (if m = n then Some i else if bufat s m = Some i then None else bufat s m)" for m
    using bufat_replace [of "mypid me s" s "mypid me s'" s' i b m] ok i(1,2) b by (auto simp: io_ok_def)
  have nth: "bufs s' ! j = (if j = i then b else bufs s ! j)" if "j < NBUF" for j
    using i io_ok_length [OF ok(1)] that by (auto simp: nth_list_update)
  have lose: "blk s' m = blk s m \<and> \<not> owned s m \<and> \<not> dirty s m \<and> \<not> owned s' m \<and> \<not> dirty s' m"
    if m: "m \<noteq> n" "bufat s m = Some i" for m
  proof -
    have cm: "caches s m i" using m(2) bufat_caches [OF ok(1)] by simp
    have "bufat s n \<noteq> Some i" using cm m(1) bufat_caches [OF ok(1), of n i] by (auto simp: caches_def)
    then have cl: "\<not> sl_locked (slks s i)" "b_flags (bufs s ! i) \<noteq> 6" using old by auto
    then have "b_data (bufs s ! i) = disk s (unat m)"
      using io_ok_buf [OF ok(1) i(1)] cm by (auto simp: buf_ok_def caches_def)
    moreover have "unat m \<noteq> unat n" using m(1) by (simp add: word_unat_eq_iff)
    ultimately show ?thesis using m at [of m] cl d by (simp add: blk_def owned_def dirty_def)
  qed
  have keep: "blk s' m = blk s m \<and> owned s' m = owned s m \<and> dirty s' m = dirty s m" if m: "m \<noteq> n" "bufat s m \<noteq> Some i" for m
  proof (cases "bufat s m")
    case None
    with m at [of m] d show ?thesis by (simp add: blk_def owned_def dirty_def word_unat_eq_iff)
  next
    case (Some j)
    then have "j < NBUF" using bufat_caches [OF ok(1)] by (simp add: caches_def)
    with Some m at [of m] nth i(3) show ?thesis by (simp add: blk_def owned_def dirty_def)
  qed
  have new: "blk s' n = b_data b" "owned s' n = sl_locked k" "dirty s' n = (b_flags b = 6)"
    using at [of n] nth [OF i(1)] i(3) by (simp_all add: blk_def owned_def dirty_def)
  have "blk s' m = ((blk s)(n := b_data b)) m \<and> holder s' m = ((holder s)(n := (if sl_locked k then Some i else None))) m
      \<and> dirty s' m = ((dirty s)(n := (b_flags b = 6))) m" for m
    using lose [of m] keep [of m] new at [of m] by (cases "m = n"; cases "bufat s m = Some i") (simp_all add: holder_def)
  then show "blk s' = (blk s)(n := b_data b)" "holder s' = (holder s)(n := (if sl_locked k then Some i else None))"
    "dirty s' = (dirty s)(n := (b_flags b = 6))" by blast+
qed

lemma got_ok:
  assumes ok: "io_ok me s" and i: "i < NBUF" "\<not> sl_locked (slks s i)"
    and b: "b_flags b = 2 \<or> b_flags b = 6" "b_dev b = 1" "b_blockno b = n" "b_refcnt b = 1" "b_data b = blk s n"
      "length (b_data b) = BSIZE" "b_flags b = 6 \<longleftrightarrow> dirty s n"
    and n: "n < disksize s" and old: "bufat s n = Some i \<or> bufat s n = None \<and> b_flags (bufs s ! i) \<noteq> 6"
  shows "io_ok me (got me i b s)" "io_frame s (got me i b s)"
    "absv (got me i b s) = (blk s, (holder s)(n := Some i), dirty s, disk s, dtrace s)"
proof -
  let ?s = "got me i b s"
  have c: "calm me ?s" "mypid me ?s = mypid me s" using ok by (simp_all add: io_ok_def calm_def got_def mypid_def)
  have cok: "cache_ok (mypid me s) s" using ok by (simp add: io_ok_def)
  have "cache_ok (mypid me s) ?s"
  proof (rule cache_ok_replace [OF cok i(1), where b = b and k = "locked_by me s i" and d = "disk s"])
    show "buf_ok (mypid me s) (disk s) (disksize s) (locked_by me s i) b"
      using b n by (auto simp: buf_ok_def locked_by_def)
    show "j = i" if "caches s (b_blockno b) j" for j
      using that old b(3) bufat_caches [OF ok, of n] by (metis option.inject option.distinct(1))
    show "distinct (lru ?s)" "set (lru ?s) = {..<NBUF}" using cok by (simp_all add: got_def cache_ok_def)
  qed (simp_all add: got_def)
  with c show io: "io_ok me ?s" by (simp add: io_ok_def)
  show "io_frame s ?s" using i(1) by (simp add: io_frame_def got_def erase_def)
  note v = replace_view [OF ok io i(1), where b = b and k = "locked_by me s i" and n = n and d = "disk s (unat n)"]
  have "blk ?s = (blk s)(n := b_data b)" using b old i(2) by (intro v) (auto simp: got_def)
  moreover have "holder ?s = (holder s)(n := (if sl_locked (locked_by me s i) then Some i else None))" using b old i(2) by (intro v) (auto simp: got_def)
  moreover have "dirty ?s = (dirty s)(n := (b_flags b = 6))" using b old i(2) by (intro v) (auto simp: got_def)
  ultimately show "absv ?s = (blk s, (holder s)(n := Some i), dirty s, disk s, dtrace s)"
    using b by (auto simp: absv_def locked_by_def got_def)
qed

text \<open>
  The contract of \<^verbatim>\<open>bread\<close>: the buffer it returns holds the block, no view changes, and the block is now held.
\<close>

lemma bread_ok:
  assumes ok: "io_ok me s" and n: "n < disksize s" "\<not> owned s n" "bufat s n \<noteq> None \<or> spare s"
  obtains i s' where "bread 1 n s = Ret i s'" and "io_ok me s'" and "io_frame s s'"
    and "absv s' = (blk s, (holder s)(n := Some i), dirty s, disk s, dtrace s)"
proof (cases "bufat s n")
  case (Some i)
  let ?b = "(bufs s ! i)\<lparr>b_refcnt := 1\<rparr>"
  have ci: "caches s n i" using Some bufat_caches [OF ok] by simp
  then have lt: "i < NBUF" by (simp add: caches_def)
  have g: "bread 1 n s = Ret i (got me i ?b s)" using ok Some n(2) by (intro bread_hit) (simp_all add: io_ok_def)
  have un: "\<not> sl_locked (slks s i)" using Some n(2) by (simp add: owned_def)
  note r = got_ok [OF ok lt un, of ?b n]
  have p: "b_flags ?b = 2 \<or> b_flags ?b = 6" "b_dev ?b = 1" "b_blockno ?b = n" "b_refcnt ?b = 1" "b_data ?b = blk s n"
    "length (b_data ?b) = BSIZE" "b_flags ?b = 6 \<longleftrightarrow> dirty s n"
    using io_ok_buf [OF ok lt] ci Some by (auto simp: buf_ok_def caches_def blk_def dirty_def)
  show ?thesis using that [OF g] r [OF p n(1)] Some by blast
next
  case None
  with n(3) have "spare s" by simp
  with None n ok obtain i where i: "i < NBUF" "\<not> sl_locked (slks s i)" "b_flags (bufs s ! i) \<noteq> 6"
    and g: "bread 1 n s = Ret i (got me i \<lparr>b_flags = 2, b_dev = 1, b_blockno = n, b_refcnt = 1, b_data = disk s (unat n)\<rparr> s)"
    by (elim bread_miss [rotated -1]) (auto simp: io_ok_def)
  let ?b = "\<lparr>b_flags = 2, b_dev = 1, b_blockno = n, b_refcnt = 1, b_data = disk s (unat n)\<rparr> :: buf"
  have "unat n < unat (disksize s)" using n(1) by (simp add: word_less_nat_alt)
  then have len: "length (disk s (unat n)) = BSIZE" using ok by (simp add: io_ok_def cache_ok_def)
  have p: "b_flags ?b = 2 \<or> b_flags ?b = 6" "b_dev ?b = 1" "b_blockno ?b = n" "b_refcnt ?b = 1" "b_data ?b = blk s n"
    "length (b_data ?b) = BSIZE" "b_flags ?b = 6 \<longleftrightarrow> dirty s n"
    using None len by (auto simp: blk_def dirty_def)
  show ?thesis using that [OF g] got_ok [OF ok i(1,2) p n(1)] None i(3) by blast
qed

section \<open>Changing, writing and releasing a held buffer\<close>

lemma owned_buf:
  assumes ok: "io_ok me s" and h: "holder s n = Some i"
  shows "i < NBUF" "i < length (bufs s)" "sl_locked (slks s i)" "sl_pid (slks s i) = mypid me s" "b_dev (bufs s ! i) = 1"
    "b_blockno (bufs s ! i) = n" "b_refcnt (bufs s ! i) = 1" "b_data (bufs s ! i) = blk s n" "length (blk s n) = BSIZE"
    "b_flags (bufs s ! i) = (if dirty s n then 6 else 2)" "n < disksize s" "calm me s"
proof -
  have at: "bufat s n = Some i" "owned s n" using h by (simp_all add: holder_Some)
  have c: "caches s n i" using ok at(1) bufat_caches by blast
  then show lt: "i < NBUF" by (simp add: caches_def)
  then show "i < length (bufs s)" using io_ok_length [OF assms(1)] by simp
  show l: "sl_locked (slks s i)" using at by (simp add: owned_def)
  show "sl_pid (slks s i) = mypid me s" "b_dev (bufs s ! i) = 1" "b_blockno (bufs s ! i) = n" "b_refcnt (bufs s ! i) = 1"
    "b_data (bufs s ! i) = blk s n" "length (blk s n) = BSIZE" "b_flags (bufs s ! i) = (if dirty s n then 6 else 2)"
    "n < disksize s"
    using io_ok_buf [OF assms(1) lt] c l at(1) by (auto simp: buf_ok_def caches_def blk_def dirty_def)
  show "calm me s" using assms(1) by (simp add: io_ok_def)
qed

lemma held_replace:
  assumes ok: "io_ok me s" "holder s n = Some i"
    and b: "b_flags b = 2 \<or> b_flags b = 6" "b_dev b = 1" "b_blockno b = n" "b_refcnt b = 1" "length (b_data b) = BSIZE"
    and d: "length d = BSIZE"
    and s': "s' = s\<lparr>bufs := (bufs s)[i := b], disk := (disk s)(unat n := d), dtrace := tr\<rparr>"
  shows "io_ok me s'" "io_frame s s'"
    "absv s' = ((blk s)(n := b_data b), holder s, (dirty s)(n := (b_flags b = 6)), (disk s)(unat n := d), tr)"
proof -
  note o = owned_buf [OF ok]
  have at: "bufat s n = Some i" using ok(2) by (simp add: holder_Some)
  have c: "calm me s'" "mypid me s' = mypid me s" using o(12) s' by (simp_all add: calm_def mypid_def)
  have cok: "cache_ok (mypid me s) s" using ok by (simp add: io_ok_def)
  have k: "slks s' = (slks s)(i := slks s i)" using s' by simp
  have "cache_ok (mypid me s) s'"
  proof (rule cache_ok_replace [OF cok o(1), where b = b and k = "slks s i" and d = "(disk s)(unat n := d)"])
    show "buf_ok (mypid me s) ((disk s)(unat n := d)) (disksize s) (slks s i) b"
      using b o by (auto simp: buf_ok_def)
    show "j = i" if "caches s (b_blockno b) j" for j
      using that b(3) caches_unique [OF ok(1) at] by simp
    show "distinct (lru s')" "set (lru s') = {..<NBUF}" using cok s' by (simp_all add: cache_ok_def)
    show "length (((disk s)(unat n := d)) m) = BSIZE \<and>
      (\<forall>j. caches s (of_nat m) j \<longrightarrow> unat (of_nat m :: uint) = m \<longrightarrow> j = i)" if "((disk s)(unat n := d)) m \<noteq> disk s m" for m
    proof -
      have "m = unat n" using that by (auto split: if_splits)
      then show ?thesis using d caches_unique [OF ok(1) at] by simp
    qed
  qed (simp_all add: s')
  with c show io: "io_ok me s'" by (simp add: io_ok_def)
  show "io_frame s s'" by (simp add: io_frame_def s' erase_def)
  have v: "blk s' = (blk s)(n := b_data b)" "holder s' = (holder s)(n := (if sl_locked (slks s i) then Some i else None))"
    "dirty s' = (dirty s)(n := (b_flags b = 6))"
    using replace_view [OF ok(1) io o(1) _ k, where b = b and n = n and d = d] b at s' by auto
  have "(holder s)(n := Some i) = holder s" using ok(2) by (simp add: fun_upd_idem_iff)
  with v o(3) show "absv s' = ((blk s)(n := b_data b), holder s, (dirty s)(n := (b_flags b = 6)), (disk s)(unat n := d), tr)"
    by (simp add: absv_def s')
qed

lemma length_disk: "io_ok me s \<Longrightarrow> n < disksize s \<Longrightarrow> length (disk s (unat n)) = BSIZE"
  by (simp add: io_ok_def cache_ok_def word_less_nat_alt)

lemma set_data_ok:
  assumes ok: "io_ok me s" "holder s n = Some i" and f: "length (f (blk s n)) = BSIZE"
  obtains s' where "upd_buf i (\<lambda>b. b\<lparr>b_data := f (b_data b)\<rparr>) s = Ret () s'" and "io_ok me s'" and "io_frame s s'"
    and "absv s' = ((blk s)(n := f (blk s n)), holder s, dirty s, disk s, dtrace s)"
proof -
  note o = owned_buf [OF ok]
  have at: "bufat s n = Some i" using ok(2) by (simp add: holder_Some)
  let ?b = "(bufs s ! i)\<lparr>b_data := f (b_data (bufs s ! i))\<rparr>"
  let ?s = "s\<lparr>bufs := (bufs s)[i := ?b]\<rparr>"
  have s: "?s = s\<lparr>bufs := (bufs s)[i := ?b], disk := (disk s)(unat n := disk s (unat n)), dtrace := dtrace s\<rparr>" by simp
  have "upd_buf i (\<lambda>b. b\<lparr>b_data := f (b_data b)\<rparr>) s = Ret () ?s" by (simp add: upd_buf_def)
  moreover have "b_flags ?b = 2 \<or> b_flags ?b = 6" "b_dev ?b = 1" "b_blockno ?b = n" "b_refcnt ?b = 1" "length (b_data ?b) = BSIZE"
    using o f by (simp_all split: if_splits)
  note held_replace [OF ok this length_disk [OF ok(1) o(11)] s]
  moreover have "(dirty s)(n := (b_flags ?b = 6)) = dirty s" using o(10) by (simp add: fun_upd_idem_iff)
  ultimately show ?thesis using that o(8) by auto
qed

lemma set_dirty_ok:
  assumes ok: "io_ok me s" "holder s n = Some i"
  obtains s' where "upd_buf i (\<lambda>b. b\<lparr>b_flags := b_flags b OR B_DIRTY\<rparr>) s = Ret () s'" and "io_ok me s'" and "io_frame s s'"
    and "absv s' = (blk s, holder s, (dirty s)(n := True), disk s, dtrace s)"
proof -
  note o = owned_buf [OF ok]
  have at: "bufat s n = Some i" using ok(2) by (simp add: holder_Some)
  let ?b = "(bufs s ! i)\<lparr>b_flags := b_flags (bufs s ! i) OR B_DIRTY\<rparr>"
  let ?s = "s\<lparr>bufs := (bufs s)[i := ?b]\<rparr>"
  have s: "?s = s\<lparr>bufs := (bufs s)[i := ?b], disk := (disk s)(unat n := disk s (unat n)), dtrace := dtrace s\<rparr>" by simp
  have "upd_buf i (\<lambda>b. b\<lparr>b_flags := b_flags b OR B_DIRTY\<rparr>) s = Ret () ?s" by (simp add: upd_buf_def)
  moreover have fl: "b_flags ?b = 6" using o(10) by (simp split: if_splits)
  moreover have "b_flags ?b = 2 \<or> b_flags ?b = 6" "b_dev ?b = 1" "b_blockno ?b = n" "b_refcnt ?b = 1" "length (b_data ?b) = BSIZE"
    using o fl by simp_all
  note held_replace [OF ok this length_disk [OF ok(1) o(11)] s]
  moreover have "(blk s)(n := b_data ?b) = blk s" using o(8) by (simp add: fun_upd_idem_iff)
  ultimately show ?thesis using that by auto
qed

lemma bwrite_ok:
  assumes ok: "io_ok me s" "holder s n = Some i"
  obtains s' where "bwrite i s = Ret () s'" and "io_ok me s'" and "io_frame s s'"
    and "absv s' = (blk s, holder s, (dirty s)(n := False), (disk s)(unat n := blk s n), (unat n, blk s n) # dtrace s)"
proof -
  note o = owned_buf [OF ok]
  have at: "bufat s n = Some i" using ok(2) by (simp add: holder_Some)
  let ?b = "(bufs s ! i)\<lparr>b_flags := 2\<rparr>"
  let ?s = "s\<lparr>bufs := (bufs s)[i := ?b], disk := (disk s)(unat n := blk s n), dtrace := (unat n, blk s n) # dtrace s\<rparr>"
  have h: "holdingsleep i s = Ret True s" by (rule holdingsleep_run [OF o(12,3,4)])
  let ?t = "s\<lparr>bufs := (bufs s)[i := (bufs s ! i)\<lparr>b_flags := 6\<rparr>]\<rparr>"
  have h1: "holdingsleep i ?t = Ret True ?t"
    by (rule holdingsleep_run [of me]) (use o in \<open>simp_all add: calm_def mypid_def\<close>)
  have n: "\<not> disksize s \<le> n" using o(11) by simp
  have w: "iderw i ?t = Ret () ?s"
    using o(2,5,6,8) n unfolding iderw_def bnd_Ret [where m = "holdingsleep i", OF h1]
    by (simp add: getb_def upd_buf_def disk_write_def)
  have "upd_buf i (\<lambda>x. x\<lparr>b_flags := b_flags x OR B_DIRTY\<rparr>) s = Ret () ?t"
    using o(10) by (simp add: upd_buf_def split: if_splits)
  then have "bwrite i s = Ret () ?s"
    using w by (simp add: bwrite_def bnd_Ret [where m = "holdingsleep i", OF h] thn_Ret)
  moreover have "b_flags ?b = 2 \<or> b_flags ?b = 6" "b_dev ?b = 1" "b_blockno ?b = n" "b_refcnt ?b = 1" "length (b_data ?b) = BSIZE"
    using o by simp_all
  note held_replace [OF ok this o(9), of ?s "(unat n, blk s n) # dtrace s"]
  moreover have "(blk s)(n := b_data ?b) = blk s" using o(8) by (simp add: fun_upd_idem_iff)
  ultimately show ?thesis using that by auto
qed

lemma brelse_ok:
  assumes ok: "io_ok me s" "holder s n = Some i" and cl: "dirty s n \<or> blk s n = disk s (unat n)"
  obtains s' where "brelse i s = Ret () s'" and "io_ok me s'" and "io_frame s s'"
    and "absv s' = (blk s, (holder s)(n := None), dirty s, disk s, dtrace s)"
proof -
  note o = owned_buf [OF ok]
  have at: "bufat s n = Some i" using ok(2) by (simp add: holder_Some)
  let ?b = "(bufs s ! i)\<lparr>b_refcnt := 0\<rparr>"
  let ?k = "(slks s i)\<lparr>sl_locked := False, sl_pid := 0\<rparr>"
  let ?s = "s\<lparr>slks := (slks s)(i := ?k), procs := map (woken (slk_addr s i)) (procs s),
    bufs := (bufs s)[i := ?b], lru := i # remove1 i (lru s)\<rparr>"
  have h: "holdingsleep i s = Ret True s" by (rule holdingsleep_run [OF o(12,3,4)])
  have run: "brelse i s = Ret () ?s"
    using o(2,7) calm_free [OF o(12)] calm_held [OF o(12)]
    unfolding brelse_def bnd_Ret [where m = "holdingsleep i", OF h]
    by (simp add: thn_Ret [where m = "releasesleep i", OF releasesleep_run [OF o(12)]] thn_acquire lock_free_def upd_buf_def getb_def
        lock_release_run held_same)
  have c: "calm me ?s" "mypid me ?s = mypid me s" using o(12) by (simp_all add: calm_def mypid_def woken_def)
  have cok: "cache_ok (mypid me s) s" using ok by (simp add: io_ok_def)
  have "cache_ok (mypid me s) ?s"
  proof (rule cache_ok_replace [OF cok o(1), where b = ?b and k = ?k and d = "disk s"])
    show "buf_ok (mypid me s) (disk s) (disksize s) ?k ?b"
      using o cl by (auto simp: buf_ok_def split: if_splits)
    show "j = i" if "caches s (b_blockno ?b) j" for j
      using that o(6) caches_unique [OF ok(1) at] by simp
    have l: "distinct (lru s)" "set (lru s) = {..<NBUF}" using cok by (simp_all add: cache_ok_def)
    show "distinct (lru ?s)" using l by simp
    show "set (lru ?s) = {..<NBUF}" using l o(1) by auto
  qed simp_all
  with c have io: "io_ok me ?s" by (simp add: io_ok_def)
  have fr: "io_frame s ?s" using o(1) by (simp add: io_frame_def erase_def)
  have v: "blk ?s = (blk s)(n := b_data ?b)" "holder ?s = (holder s)(n := (if sl_locked ?k then Some i else None))"
    "dirty ?s = (dirty s)(n := (b_flags ?b = 6))"
    using replace_view [OF ok(1) io o(1), where b = ?b and k = ?k and n = n and d = "disk s (unat n)"] o at
    by (auto split: if_splits)
  have "(blk s)(n := blk s n) = blk s" "(dirty s)(n := dirty s n) = dirty s" by simp_all
  then have "absv ?s = (blk s, (holder s)(n := None), dirty s, disk s, dtrace s)"
    using v o by (auto simp: absv_def fun_upd_idem_iff)
  with that [OF run io fr] show ?thesis by blast
qed

section \<open>Room in the cache\<close>

definition busy :: "'e biost_scheme \<Rightarrow> uint set" where
  "busy s = {n. owned s n \<or> dirty s n}"

lemma finite_busy: "finite (busy s)"
proof -
  have "busy s \<subseteq> (\<lambda>i. b_blockno (bufs s ! i)) ` {..<NBUF}"
    by (force simp: busy_def owned_def dirty_def bufat_def caches_def find_Some_iff split: option.splits)
  then show ?thesis by (rule finite_subset) simp
qed

lemma busy_room:
  assumes ok: "io_ok me s" and room: "card (busy s) < NBUF"
  shows "spare s"
proof (rule ccontr)
  assume "\<not> spare s"
  then have all: "sl_locked (slks s i) \<or> b_flags (bufs s ! i) = 6" if "i < NBUF" for i using that by (auto simp: spare_def)
  have ca: "caches s (b_blockno (bufs s ! i)) i" if "i < NBUF" for i
    using all [OF that] io_ok_buf [OF ok that] that by (auto simp: caches_def buf_ok_def)
  have "inj_on (\<lambda>i. b_blockno (bufs s ! i)) {..<NBUF}"
    using ca ok by (intro inj_onI) (metis bufat_caches lessThan_iff option.inject)
  moreover have "b_blockno (bufs s ! i) \<in> busy s" if "i < NBUF" for i
  proof -
    have "bufat s (b_blockno (bufs s ! i)) = Some i" using ca [OF that] bufat_caches [OF ok] by simp
    with all [OF that] show ?thesis by (auto simp: busy_def owned_def dirty_def)
  qed
  then have "(\<lambda>i. b_blockno (bufs s ! i)) ` {..<NBUF} \<subseteq> busy s" by auto
  ultimately have "NBUF \<le> card (busy s)" by (metis card_image card_lessThan card_mono finite_busy)
  with room show False by simp
qed

lemma absvD:
  assumes "absv s = (a, b, c, d, e)"
  shows "blk s = a" "holder s = b" "dirty s = c" "disk s = d" "dtrace s = e"
    "owned s n \<longleftrightarrow> b n \<noteq> None" "busy s = {n. b n \<noteq> None \<or> c n}"
  using assms by (auto simp: absv_def busy_def owned_holder)

lemma dirty_cached: "dirty s n \<Longrightarrow> bufat s n \<noteq> None"
  by (auto simp: dirty_def split: option.splits)

lemma clean_disk: "io_ok me s \<Longrightarrow> \<not> owned s n \<Longrightarrow> \<not> dirty s n \<Longrightarrow> blk s n = disk s (unat n)"
proof (cases "bufat s n")
  case (Some i)
  assume a: "io_ok me s" "\<not> owned s n" "\<not> dirty s n"
  from Some have c: "caches s n i" using bufat_caches [OF a(1)] by simp
  then have "i < NBUF" by (simp add: caches_def)
  from io_ok_buf [OF a(1) this] a(2,3) Some c show ?thesis
    by (auto simp: buf_ok_def owned_def dirty_def blk_def caches_def)
qed (simp add: blk_def)

end
