(* ===== verification/LogProps.thy ===== *)
theory LogProps
  imports Log BioProps ConsoleProps
begin

unbundle bit_operations_syntax

text \<open>
  Committing is atomic: a crash at any moment leaves a disk from which recovery restores either all
  or none of the transaction. A crash keeps the blocks written so far, in the order in which
  they were written; recovery is \<^verbatim>\<open>recover_from_log\<close> run with an empty cache.
\<close>

section \<open>Frames\<close>

lemma log_frame:
  fixes s :: "'e logst_scheme"
  assumes "io_frame s s'"
  shows "lh_n s' = lh_n s" "lh_block s' = lh_block s" "log_start s' = log_start s" "log_dev s' = log_dev s"
    "log_size s' = log_size s" "outstanding s' = outstanding s" "committing s' = committing s" "log_addr s' = log_addr s"
  by (rule io_frame_field [OF assms]; simp add: erase_def)+

section \<open>Copying between a block and the log\<close>

text \<open>Nothing is held, and there is room for a held buffer besides the dirty ones.\<close>

definition idle :: "nat \<Rightarrow> 'e biost_scheme \<Rightarrow> bool" where
  "idle me s \<longleftrightarrow> io_ok me s \<and> holder s = Map.empty \<and> card (busy s) < NBUF"

text \<open>Block \<open>dst\<close> gets the contents of block \<open>src\<close>, in the cache and on the disk.\<close>

definition blk_copied :: "uint \<Rightarrow> uint \<Rightarrow> 'e biost_scheme \<Rightarrow> 'e biost_scheme \<Rightarrow> bool" where
  "blk_copied dst src s s' \<longleftrightarrow> io_frame s s' \<and>
     absv s' = ((blk s)(dst := blk s src), holder s, (dirty s)(dst := False), (disk s)(unat dst := blk s src),
       (unat dst, blk s src) # dtrace s)"

lemma idle_shrink:
  assumes "idle me s" and "io_ok me s'" and "holder s' = Map.empty" and "\<And>m. dirty s' m \<Longrightarrow> dirty s m"
  shows "idle me s'"
proof -
  have "busy s' \<subseteq> busy s" using assms(3,4) by (auto simp: busy_def owned_holder)
  then have "card (busy s') \<le> card (busy s)" by (intro card_mono finite_busy)
  with assms show ?thesis by (simp add: idle_def)
qed

lemma idle_blk_copied:
  assumes "idle me s" and "blk_copied dst src s s'" and "io_ok me s'"
  shows "idle me s'"
proof -
  have "holder s' = holder s" "dirty s' = (dirty s)(dst := False)" using assms(2) by (auto simp: blk_copied_def absv_def)
  with assms(1,3) show ?thesis by (intro idle_shrink [OF assms(1,3)]) (simp_all add: idle_def split: if_splits)
qed

lemma two_reads:
  assumes ok: "idle me s" and a: "a < disksize s" and b: "b < disksize s" "a \<noteq> b" "dirty s b \<or> card (busy s) + 1 < NBUF"
  obtains i j t u where "bread 1 a s = Ret i t" and "io_frame s t" and "bread 1 b t = Ret j u" and "io_ok me u" and "io_frame t u"
    and "absv u = (blk s, [a \<mapsto> i, b \<mapsto> j], dirty s, disk s, dtrace s)"
proof -
  have io: "io_ok me s" and o: "holder s = Map.empty" and c: "card (busy s) < NBUF" using ok by (simp_all add: idle_def)
  obtain i t where t: "bread 1 a s = Ret i t" "io_ok me t" "io_frame s t"
    "absv t = (blk s, (holder s)(a \<mapsto> i), dirty s, disk s, dtrace s)"
    using bread_ok [OF io a] o busy_room [OF io c] by (auto simp: owned_holder)
  note v = absvD [OF t(4)]
  have "busy t = insert a (busy s)" using v o by (auto simp: busy_def owned_holder)
  then have "card (busy t) \<le> card (busy s) + 1" using finite_busy by (simp add: card_insert_if)
  with b(3) have room: "bufat t b \<noteq> None \<or> spare t"
    using busy_room [OF t(2)] dirty_cached [of t b] v(3) by auto
  have "b < disksize t" "\<not> owned t b" using io_frame_sel [OF t(3)] v(2) o b by (auto simp: owned_holder)
  with room obtain j u where "bread 1 b t = Ret j u" "io_ok me u" "io_frame t u"
    "absv u = (blk t, (holder t)(b \<mapsto> j), dirty t, disk t, dtrace t)"
    using bread_ok [OF t(2)] by blast
  with t v o show ?thesis using that by simp
qed

text \<open>The rest of a copy: the data moves from buffer \<open>j\<close> to buffer \<open>i\<close>, which is written; both are released.\<close>

lemma copy_write:
  fixes u :: "'e biost_scheme"
  assumes io: "io_ok me u" and h: "holder u dst = Some i" "holder u src = Some j" "dst \<noteq> src"
  obtains w where "\<And>k :: ('e biost_scheme, unit) km. thn (upd_buf i (\<lambda>b. b\<lparr>b_data := b_data (bufs u ! j)\<rparr>)) (thn (bwrite i) k) u = k w" and "io_ok me w" and "io_frame u w"
    and "absv w = ((blk u)(dst := blk u src), holder u, (dirty u)(dst := False), (disk u)(unat dst := blk u src),
       (unat dst, blk u src) # dtrace u)"
proof -
  note o = owned_buf [OF io h(2)]
  obtain v where v: "upd_buf i (\<lambda>b. b\<lparr>b_data := b_data (bufs u ! j)\<rparr>) u = Ret () v" "io_ok me v" "io_frame u v"
    "absv v = ((blk u)(dst := blk u src), holder u, dirty u, disk u, dtrace u)"
    using set_data_ok [OF io h(1), of "\<lambda>_. b_data (bufs u ! j)"] o(8,9) by auto
  note a = absvD [OF v(4)]
  have "holder v dst = Some i" using a(2) h(1) by simp
  then obtain w where w: "bwrite i v = Ret () w" "io_ok me w" "io_frame v w"
    "absv w = (blk v, holder v, (dirty v)(dst := False), (disk v)(unat dst := blk v dst), (unat dst, blk v dst) # dtrace v)"
    using bwrite_ok [OF v(2)] by blast
  show ?thesis
    using that [of w] w io_frame_trans [OF v(3) w(3)] v(1) a by (simp add: thn_Ret)
qed

lemma two_releases:
  assumes io: "io_ok me w" and h: "holder w = [a \<mapsto> i, b \<mapsto> j]" "a \<noteq> b"
    and cl: "\<And>n. n = a \<or> n = b \<Longrightarrow> dirty w n \<or> blk w n = disk w (unat n)"
  obtains x y where "brelse j w = Ret () x" and "brelse i x = Ret () y" and "io_ok me y" and "io_frame w y"
    and "absv y = (blk w, Map.empty, dirty w, disk w, dtrace w)"
proof -
  obtain x where x: "brelse j w = Ret () x" "io_ok me x" "io_frame w x" "absv x = (blk w, (holder w)(b := None), dirty w, disk w, dtrace w)"
    using brelse_ok [OF io, of b j] h cl by auto
  note v = absvD [OF x(4)]
  have "holder x a = Some i" using v h by simp
  moreover have "dirty x a \<or> blk x a = disk x (unat a)" using cl v by simp
  ultimately obtain y where y: "brelse i x = Ret () y" "io_ok me y" "io_frame x y"
    "absv y = (blk x, (holder x)(a := None), dirty x, disk x, dtrace x)"
    using brelse_ok [OF x(2)] by blast
  have "(holder x)(a := None) = Map.empty" using v h by auto
  then have "absv y = (blk w, Map.empty, dirty w, disk w, dtrace w)" using y(4) v(1,3-5) by simp
  then show ?thesis by (rule that [OF x(1) y(1,2) io_frame_trans [OF x(3) y(3)]])
qed

lemma log_one_ok:
  fixes s :: "'e logst_scheme"
  assumes ok: "idle me s" and dev: "log_dev s = 1"
    and dst: "dst = log_start s + of_nat k + 1" "dst < disksize s"
    and src: "src = lh_block s ! k" "src < disksize s" "dst \<noteq> src" "dirty s src"
  obtains s' where "log_one k s = Ret () s'" and "io_ok me s'" and "blk_copied dst src s s'"
proof -
  obtain i j t u where r: "bread 1 dst s = Ret i t" "io_frame s t" "bread 1 src t = Ret j u" "io_ok me u" "io_frame t u"
    "absv u = (blk s, [dst \<mapsto> i, src \<mapsto> j], dirty s, disk s, dtrace s)"
    by (rule two_reads [OF ok dst(2) src(2,3) disjI1 [OF src(4)]]) (rule that)
  note a = absvD [OF r(6)]
  obtain w where w: "\<And>k :: ('e logst_scheme, unit) km. thn (upd_buf i (\<lambda>b. b\<lparr>b_data := b_data (bufs u ! j)\<rparr>)) (thn (bwrite i) k) u = k w" "io_ok me w" "io_frame u w"
    "absv w = ((blk u)(dst := blk u src), holder u, (dirty u)(dst := False), (disk u)(unat dst := blk u src),
       (unat dst, blk u src) # dtrace u)"
    by (rule copy_write [OF r(4) _ _ src(3), of i j]) (simp add: a(2) src(3), simp add: a(2), rule that)
  note b = absvD [OF w(4)]
  obtain x y where y: "brelse j w = Ret () x" "brelse i x = Ret () y" "io_ok me y" "io_frame w y"
    "absv y = (blk w, Map.empty, dirty w, disk w, dtrace w)"
    by (rule two_releases [OF w(2) _ src(3), of i j]) (simp add: b(2) a(2), use a b src(3,4) in force, rule that)
  have "io_frame s y" using r(2,5) w(3) y(4) io_frame_trans by metis
  then have "blk_copied dst src s y" using y(5) a b ok by (simp add: blk_copied_def idle_def)
  moreover have "log_one k s = Ret () y"
    using r(1,3) w(1) y(1,2) dev dst(1) src(1) log_frame [OF r(2)]
    by (simp add: log_one_def bnd_Ret thn_Ret getb_def thn_assoc)
  ultimately show ?thesis using that y(3) by blast
qed

lemma install_one_ok:
  fixes s :: "'e logst_scheme"
  assumes ok: "idle me s" and dev: "log_dev s = 1"
    and src: "src = log_start s + of_nat k + 1" "src < disksize s" "\<not> dirty s src"
    and dst: "dst = lh_block s ! k" "dst < disksize s" "src \<noteq> dst" "dirty s dst \<or> card (busy s) + 1 < NBUF"
  obtains s' where "install_one k s = Ret () s'" and "io_ok me s'" and "blk_copied dst src s s'"
proof -
  obtain i j t u where r: "bread 1 src s = Ret i t" "io_frame s t" "bread 1 dst t = Ret j u" "io_ok me u" "io_frame t u"
    "absv u = (blk s, [src \<mapsto> i, dst \<mapsto> j], dirty s, disk s, dtrace s)"
    by (rule two_reads [OF ok src(2) dst(2,3,4)]) (rule that)
  note a = absvD [OF r(6)]
  have ne: "dst \<noteq> src" using dst(3) by simp
  have hu: "holder u = [dst \<mapsto> j, src \<mapsto> i]" unfolding a(2) using ne by (rule fun_upd_twist [symmetric])
  obtain w where w: "\<And>k :: ('e logst_scheme, unit) km. thn (upd_buf j (\<lambda>b. b\<lparr>b_data := b_data (bufs u ! i)\<rparr>)) (thn (bwrite j) k) u = k w"
    "io_ok me w" "io_frame u w"
    "absv w = ((blk u)(dst := blk u src), holder u, (dirty u)(dst := False), (disk u)(unat dst := blk u src),
       (unat dst, blk u src) # dtrace u)"
    by (rule copy_write [OF r(4) _ _ ne, of j i]) (simp add: hu ne, simp add: hu, rule that)
  note b = absvD [OF w(4)]
  have d: "blk s src = disk s (unat src)" using ok src(3) by (intro clean_disk) (auto simp: idle_def owned_holder)
  have un: "unat src \<noteq> unat dst" using ne by (simp add: word_unat_eq_iff)
  have cl: "dirty w n \<or> blk w n = disk w (unat n)" if "n = dst \<or> n = src" for n
    using that d un ne a(1,4) b(1,4) by auto
  obtain x y where y: "brelse i w = Ret () x" "brelse j x = Ret () y" "io_ok me y" "io_frame w y"
    "absv y = (blk w, Map.empty, dirty w, disk w, dtrace w)"
    by (rule two_releases [OF w(2) _ ne cl, of j i]) (simp add: b(2) hu, assumption, rule that)
  have "io_frame s y" using r(2,5) w(3) y(4) io_frame_trans by metis
  then have "blk_copied dst src s y" using y(5) a b ok by (simp add: blk_copied_def idle_def)
  moreover have "install_one k s = Ret () y"
    using r(1,3) w(1) y(1,2) dev dst(1) src(1) log_frame [OF r(2)]
    by (simp add: install_one_def bnd_Ret thn_Ret getb_def thn_assoc)
  ultimately show ?thesis using that y(3) by blast
qed

section \<open>Copying many blocks\<close>

definition put_blocks :: "('n \<times> 'd) list \<Rightarrow> ('n \<Rightarrow> 'd) \<Rightarrow> 'n \<Rightarrow> 'd" where
  "put_blocks ws f = fold (\<lambda>(n, d) f. f(n := d)) ws f"

lemma put_blocks_Nil [simp]: "put_blocks [] f = f"
  by (simp add: put_blocks_def)

lemma put_blocks_snoc [simp]: "put_blocks (ws @ [(n, d)]) f = (put_blocks ws f)(n := d)"
  by (simp add: put_blocks_def)

lemma put_blocks_Cons: "put_blocks ((n, d) # ws) f = put_blocks ws (f(n := d))"
  by (simp add: put_blocks_def)

lemma put_blocks_append: "put_blocks (ws @ vs) f = put_blocks vs (put_blocks ws f)"
  by (simp add: put_blocks_def)

lemma put_blocks_other: "n \<notin> fst ` set ws \<Longrightarrow> put_blocks ws f n = f n"
  by (induction ws rule: rev_induct) auto

text \<open>The writes of a loop that copies \<open>src k\<close> to \<open>dst k\<close>.\<close>

definition copies :: "nat \<Rightarrow> (nat \<Rightarrow> 'n) \<Rightarrow> (nat \<Rightarrow> 'd) \<Rightarrow> ('n \<times> 'd) list" where
  "copies n dst d = map (\<lambda>k. (dst k, d k)) [0..<n]"

definition on_disk :: "(uint \<times> uchar list) list \<Rightarrow> (nat \<times> uchar list) list" where
  "on_disk ws = map (\<lambda>(n, d). (unat n, d)) ws"

lemma copies_Suc [simp]: "copies (Suc n) dst d = copies n dst d @ [(dst n, d n)]"
  by (simp add: copies_def)

lemma copies_0 [simp]: "copies 0 dst d = []"
  by (simp add: copies_def)

lemma on_disk_append [simp]: "on_disk (ws @ vs) = on_disk ws @ on_disk vs" "on_disk [(n, d)] = [(unat n, d)]" "on_disk [] = []"
  by (simp_all add: on_disk_def)

lemma set_copies: "fst ` set (copies n dst d) = dst ` {..<n}"
  by (auto simp: copies_def image_image)

lemma copy_loop:
  assumes ok: "idle me s"
    and step: "\<And>k t. k < n \<Longrightarrow> idle me t \<Longrightarrow> io_frame s t \<Longrightarrow> dirty t = (\<lambda>m. dirty s m \<and> m \<notin> dst ` {..<k}) \<Longrightarrow>
      \<exists>t'. body k t = Ret () t' \<and> io_ok me t' \<and> blk_copied (dst k) (src k) t t'"
    and src: "\<And>j k. j < n \<Longrightarrow> k < n \<Longrightarrow> dst j \<noteq> src k"
  shows "\<exists>s'. for_each [0..<n] body s = Ret () s' \<and> idle me s' \<and> io_frame s s' \<and>
    absv s' = (put_blocks (copies n dst (\<lambda>k. blk s (src k))) (blk s), Map.empty, (\<lambda>m. dirty s m \<and> m \<notin> dst ` {..<n}),
      put_blocks (on_disk (copies n dst (\<lambda>k. blk s (src k)))) (disk s),
      rev (on_disk (copies n dst (\<lambda>k. blk s (src k)))) @ dtrace s)"
  using step src
proof (induction n)
  case 0
  then show ?case using ok by (intro exI [of _ s]) (simp add: idle_def absv_def)
next
  case (Suc n)
  let ?ws = "copies n dst (\<lambda>k. blk s (src k))"
  have s1: "\<exists>t'. body k t = Ret () t' \<and> io_ok me t' \<and> blk_copied (dst k) (src k) t t'"
    if "k < n" "idle me t" "io_frame s t" "dirty t = (\<lambda>m. dirty s m \<and> m \<notin> dst ` {..<k})" for k t
    using Suc.prems(1) [OF less_SucI [OF that(1)] that(2-4)] .
  have s2: "dst j \<noteq> src k" if "j < n" "k < n" for j k using Suc.prems(2) that by simp
  have "\<exists>t. for_each [0..<n] body s = Ret () t \<and> idle me t \<and> io_frame s t \<and>
    absv t = (put_blocks ?ws (blk s), Map.empty, (\<lambda>m. dirty s m \<and> m \<notin> dst ` {..<n}), put_blocks (on_disk ?ws) (disk s),
      rev (on_disk ?ws) @ dtrace s)" by (rule Suc.IH [OF s1 s2])
  then obtain t where t: "for_each [0..<n] body s = Ret () t" "idle me t" "io_frame s t"
    "absv t = (put_blocks ?ws (blk s), Map.empty, (\<lambda>m. dirty s m \<and> m \<notin> dst ` {..<n}), put_blocks (on_disk ?ws) (disk s),
      rev (on_disk ?ws) @ dtrace s)" by (elim exE conjE) (rule that)
  note v = absvD [OF t(4)]
  from Suc.prems(1) [OF lessI t(2,3) v(3)] obtain u where
    u: "body n t = Ret () u" "io_ok me u" "blk_copied (dst n) (src n) t u" by blast
  have "src n \<notin> dst ` {..<n}" using Suc.prems(2) by (metis imageE lessI lessThan_iff less_SucI)
  then have b: "blk t (src n) = blk s (src n)" using v(1) put_blocks_other [of "src n" ?ws] set_copies by metis
  have d: "((\<lambda>m. dirty s m \<and> m \<notin> dst ` {..<n})(dst n := False)) = (\<lambda>m. dirty s m \<and> m \<notin> dst ` {..<Suc n})"
    by (rule ext) (simp add: lessThan_Suc)
  have "idle me u" by (rule idle_blk_copied [OF t(2) u(3,2)])
  moreover have "io_frame s u" using io_frame_trans [OF t(3)] u(3) by (simp add: blk_copied_def)
  moreover have "for_each [0..<Suc n] body s = Ret () u"
    using t(1) u(1) by (simp add: for_each_append thn_Ret [where m = "for_each [0..<n] body"] thn_Ret [where m = "body n"])
  ultimately show ?case using u(3) v(1-5) b d by (intro exI [of _ u]) (simp add: blk_copied_def, simp add: fun_upd_def)
qed

section \<open>The header\<close>

lemma caches_log_upd [simp]:
  "caches (s\<lparr>lh_n := x\<rparr>) = caches s" "caches (s\<lparr>lh_block := y\<rparr>) = caches s"
  by (auto simp: caches_def fun_eq_iff)

lemma absv_log_upd [simp]:
  "absv (s\<lparr>lh_n := x\<rparr>) = absv s" "absv (s\<lparr>lh_block := y\<rparr>) = absv s"
  by (simp_all add: absv_def blk_def holder_def owned_def dirty_def bufat_def fun_eq_iff cong: option.case_cong)

lemma io_ok_log_upd [simp]:
  "io_ok me (s\<lparr>lh_n := x\<rparr>) = io_ok me s" "io_ok me (s\<lparr>lh_block := y\<rparr>) = io_ok me s"
  by (simp_all add: io_ok_def cache_ok_def calm_def mypid_def)

lemma idle_absv: "idle me s \<longleftrightarrow> io_ok me s \<and> (case absv s of (b, h, d, dk, tr) \<Rightarrow> h = Map.empty \<and> card {n. h n \<noteq> None \<or> d n} < NBUF)"
  by (simp add: idle_def absv_def busy_def owned_holder)

lemma idle_log_upd [simp]:
  "idle me (s\<lparr>lh_n := x\<rparr>) = idle me s" "idle me (s\<lparr>lh_block := y\<rparr>) = idle me s"
  by (simp_all add: idle_absv)

definition head_bytes :: "nat \<Rightarrow> uint list \<Rightarrow> uchar list \<Rightarrow> uchar list" where
  "head_bytes n bl d = fold (\<lambda>i d. put32 (4 + 4 * i) (bl ! i) d) [0..<n] (put32 0 (of_nat n) d)"

lemma head_fold:
  assumes "length d = BSIZE" and "n < 128"
  shows "length (fold (\<lambda>i d. put32 (4 + 4 * i) (bl ! i) d) [0..<n] d) = BSIZE"
    "get32 0 (fold (\<lambda>i d. put32 (4 + 4 * i) (bl ! i) d) [0..<n] d) = get32 0 d"
    "\<And>j. j < n \<Longrightarrow> get32 (4 + 4 * j) (fold (\<lambda>i d. put32 (4 + 4 * i) (bl ! i) d) [0..<n] d) = bl ! j"
  using assms
proof (induction n)
  case (Suc n)
  {
    case 1
    then show ?case using Suc.IH(1) by (simp add: BSIZE_def)
  next
    case 2
    then show ?case using Suc.IH(1,2) by (simp add: BSIZE_def get32_put32_other)
  next
    case (3 j)
    then show ?case using Suc.IH(1) Suc.IH(3) [of j] by (cases "j = n") (simp_all add: BSIZE_def get32_put32_other)
  }
qed simp_all

lemma head_bytes_read:
  assumes "length d = BSIZE" and "n < 128"
  shows "length (head_bytes n bl d) = BSIZE" "get32 0 (head_bytes n bl d) = of_nat n"
    "\<And>j. j < n \<Longrightarrow> get32 (4 + 4 * j) (head_bytes n bl d) = bl ! j"
proof -
  have "length (put32 0 (of_nat n) d) = BSIZE" "get32 0 (put32 0 (of_nat n) d) = of_nat n" using assms(1) by (simp_all add: BSIZE_def)
  note p = this
  show "length (head_bytes n bl d) = BSIZE" "get32 0 (head_bytes n bl d) = of_nat n"
    unfolding head_bytes_def using head_fold(1,2) [OF p(1) assms(2)] p(2) by simp_all
  show "get32 (4 + 4 * j) (head_bytes n bl d) = bl ! j" if "j < n" for j
    unfolding head_bytes_def by (rule head_fold(3) [OF p(1) assms(2) that])
qed

text \<open>Storing the block numbers in the header buffer.\<close>

lemma head_store:
  assumes ok: "io_ok me s" and h: "holder s b = Some i" and n: "n < 128"
  shows "\<exists>s'. for_each [0..<n] (\<lambda>j. bnd (gets (\<lambda>s. lh_block s ! j)) (\<lambda>v. upd_buf i (\<lambda>x. x\<lparr>b_data := put32 (4 + 4 * j) v (b_data x)\<rparr>))) s = Ret () s'
    \<and> io_ok me s' \<and> io_frame s s'
    \<and> absv s' = ((blk s)(b := fold (\<lambda>i d. put32 (4 + 4 * i) (lh_block s ! i) d) [0..<n] (blk s b)), holder s, dirty s, disk s, dtrace s)"
  using n
proof (induction n)
  case 0
  then show ?case using ok by (intro exI [of _ s]) (simp add: absv_def)
next
  case (Suc n)
  let ?B = "\<lambda>j. bnd (gets (\<lambda>s. lh_block s ! j)) (\<lambda>v. upd_buf i (\<lambda>x. x\<lparr>b_data := put32 (4 + 4 * j) v (b_data x)\<rparr>))"
  let ?d = "fold (\<lambda>i d. put32 (4 + 4 * i) (lh_block s ! i) d) [0..<n] (blk s b)"
  have "n < 128" using Suc.prems by simp
  from Suc.IH [OF this] obtain t where t: "for_each [0..<n] ?B s = Ret () t" "io_ok me t" "io_frame s t"
    "absv t = ((blk s)(b := ?d), holder s, dirty s, disk s, dtrace s)" by (elim exE conjE) (rule that)
  note v = absvD [OF t(4)]
  have ht: "holder t b = Some i" using v h by simp
  have "length ?d = BSIZE" using head_fold(1) owned_buf(9) [OF ok h] Suc.prems by simp
  then have l: "length (put32 (4 + 4 * n) (lh_block s ! n) (blk t b)) = BSIZE" using v(1) Suc.prems by (simp add: BSIZE_def)
  obtain u where u: "upd_buf i (\<lambda>x. x\<lparr>b_data := put32 (4 + 4 * n) (lh_block s ! n) (b_data x)\<rparr>) t = Ret () u" "io_ok me u" "io_frame t u"
    "absv u = ((blk t)(b := put32 (4 + 4 * n) (lh_block s ! n) (blk t b)), holder t, dirty t, disk t, dtrace t)"
    by (rule set_data_ok [OF t(2) ht, where f = "put32 (4 + 4 * n) (lh_block s ! n)", OF l]) (rule that)
  have run: "for_each [0..<Suc n] ?B s = Ret () u"
    using t(1) u(1) log_frame(2) [OF t(3)]
    by (simp add: for_each_append thn_Ret [where m = "for_each [0..<n] ?B", OF t(1)] thn_Ret)
  have av: "absv u = ((blk s)(b := fold (\<lambda>i d. put32 (4 + 4 * i) (lh_block s ! i) d) [0..<Suc n] (blk s b)),
      holder s, dirty s, disk s, dtrace s)" using u(4) v(1-5) by simp
  show ?case by (rule exI [of _ u], intro conjI run av u(2) io_frame_trans [OF t(3) u(3)])
qed

lemma write_head_ok:
  fixes s :: "'e logst_scheme"
  assumes ok: "idle me s" and dev: "log_dev s = 1" and st: "b = log_start s" "b < disksize s"
    and n: "lh_n s = int n" "n < 128" and hd: "h = head_bytes n (lh_block s) (blk s b)"
  obtains s' where "write_head s = Ret () s'" and "idle me s'" and "io_frame s s'"
    and "absv s' = ((blk s)(b := h), Map.empty, (dirty s)(b := False), (disk s)(unat b := h), (unat b, h) # dtrace s)"
proof -
  have io: "io_ok me s" and o: "holder s = Map.empty" and c: "card (busy s) < NBUF" using ok by (simp_all add: idle_def)
  obtain i t where t: "bread 1 b s = Ret i t" "io_ok me t" "io_frame s t"
    "absv t = (blk s, (holder s)(b \<mapsto> i), dirty s, disk s, dtrace s)"
    using bread_ok [OF io st(2)] o busy_room [OF io c] by (auto simp: owned_holder)
  note vt = absvD [OF t(4)]
  have ht: "holder t b = Some i" using vt by simp
  have l: "length (put32 0 (word_of_int (int n)) (blk t b)) = BSIZE" using owned_buf(9) [OF t(2) ht] by (simp add: BSIZE_def)
  obtain u where u: "upd_buf i (\<lambda>x. x\<lparr>b_data := put32 0 (word_of_int (int n)) (b_data x)\<rparr>) t = Ret () u" "io_ok me u" "io_frame t u"
    "absv u = ((blk t)(b := put32 0 (word_of_int (int n)) (blk t b)), holder t, dirty t, disk t, dtrace t)"
    by (rule set_data_ok [OF t(2) ht, where f = "put32 0 (word_of_int (int n))", OF l]) (rule that)
  note vu = absvD [OF u(4)]
  have hu: "holder u b = Some i" using vu ht by simp
  let ?B = "\<lambda>j. bnd (gets (\<lambda>s. lh_block s ! j)) (\<lambda>v. upd_buf i (\<lambda>x. x\<lparr>b_data := put32 (4 + 4 * j) v (b_data x)\<rparr>))"
  obtain w where w: "for_each [0..<n] ?B u = Ret () w" "io_ok me w" "io_frame u w"
    "absv w = ((blk u)(b := fold (\<lambda>i d. put32 (4 + 4 * i) (lh_block u ! i) d) [0..<n] (blk u b)), holder u, dirty u, disk u, dtrace u)"
    using head_store [OF u(2) hu n(2)] by blast
  have lb: "lh_block u = lh_block s" using log_frame(2) [OF io_frame_trans [OF t(3) u(3)]] .
  have aw: "absv w = ((blk s)(b := h), [b \<mapsto> i], dirty s, disk s, dtrace s)"
    using w(4) vu vt o lb by (simp add: hd head_bytes_def)
  note vw = absvD [OF aw]
  have hw: "holder w b = Some i" using vw by simp
  obtain x where x: "bwrite i w = Ret () x" "io_ok me x" "io_frame w x"
    "absv x = (blk w, holder w, (dirty w)(b := False), (disk w)(unat b := blk w b), (unat b, blk w b) # dtrace w)"
    by (rule bwrite_ok [OF w(2) hw]) (rule that)
  note vx = absvD [OF x(4)]
  obtain y where y: "brelse i x = Ret () y" "io_ok me y" "io_frame x y" "absv y = (blk x, (holder x)(b := None), dirty x, disk x, dtrace x)"
    using brelse_ok [OF x(2), of b i] vx vw by auto
  have fr: "io_frame s y" using t(3) u(3) w(3) x(3) y(3) io_frame_trans by metis
  have ay: "absv y = ((blk s)(b := h), Map.empty, (dirty s)(b := False), (disk s)(unat b := h), (unat b, h) # dtrace s)"
    using y(4) vx vw by simp
  have "idle me y" using absvD(2,3) [OF ay] by (intro idle_shrink [OF ok y(2)]) (simp_all split: if_splits)
  moreover have "write_head s = Ret () y"
    using t(1) u(1) w(1) x(1) y(1) dev st(1) n log_frame [OF t(3)]
    by (simp add: write_head_def bnd_Ret [where m = "bread 1 (log_start s)"] thn_Ret)
  ultimately show ?thesis using that fr ay by blast
qed

section \<open>A transaction\<close>

definition log_blk :: "'e logst_scheme \<Rightarrow> nat \<Rightarrow> uint" where
  "log_blk s k = log_start s + of_nat k + 1"

definition in_log :: "'e logst_scheme \<Rightarrow> nat \<Rightarrow> uint \<Rightarrow> bool" where
  "in_log s n b \<longleftrightarrow> log_start s \<le> b \<and> unat b \<le> unat (log_start s) + n"

text \<open>
  The system is about to commit \<open>n\<close> blocks: they are the dirty ones, they lie outside the log, and
  the header on the disk says that the log is empty.
\<close>

definition txn :: "nat \<Rightarrow> 'e logst_scheme \<Rightarrow> nat \<Rightarrow> bool" where
  "txn me s n \<longleftrightarrow> idle me s \<and> log_dev s = 1 \<and> lh_n s = int n \<and> n < NBUF \<and> length (lh_block s) = nat LOGSIZE
     \<and> distinct (take n (lh_block s)) \<and> (\<forall>b. dirty s b \<longleftrightarrow> b \<in> set (take n (lh_block s)))
     \<and> unat (log_start s) + n < unat (disksize s)
     \<and> (\<forall>b \<in> set (take n (lh_block s)). b < disksize s \<and> \<not> in_log s n b)
     \<and> get32 0 (disk s (unat (log_start s))) = 0"

lemma unat_small: "m < 2 ^ 32 \<Longrightarrow> unat (of_nat m :: uint) = m"
  by (simp add: unsigned_of_nat take_bit_nat_eq_self)

lemma len32: "LENGTH(32) = 32"
  by simp

lemma unat_log_blk:
  assumes "unat (log_start s) + n < unat (disksize s)" and "k < n"
  shows "unat (log_blk s k) = unat (log_start s) + k + 1"
proof -
  have "unat (disksize s) < 2 ^ 32" using unsigned_less [of "disksize s"] by simp
  with assms have s: "unat (log_start s) + k + 1 < 2 ^ 32" by linarith
  then have k: "unat (of_nat (k + 1) :: uint) = k + 1" by (intro unat_small) simp
  have "log_blk s k = log_start s + of_nat (k + 1)" by (simp add: log_blk_def)
  then have "unat (log_blk s k) = unat (log_start s) + unat (of_nat (k + 1) :: uint)"
    using s k by (simp only: unat_add_lem [THEN iffD1] len32 add.assoc)
  then show ?thesis using k by simp
qed

lemma txn_facts:
  assumes "txn me s n"
  defines "B \<equiv> \<lambda>k. lh_block s ! k"
  shows "\<And>j k. j < n \<Longrightarrow> k < n \<Longrightarrow> log_blk s j \<noteq> B k" "\<And>k. k < n \<Longrightarrow> log_blk s k \<noteq> log_start s"
    "\<And>k. k < n \<Longrightarrow> B k \<noteq> log_start s" "\<And>k. k < n \<Longrightarrow> log_blk s k < disksize s" "\<And>k. k < n \<Longrightarrow> B k < disksize s"
    "\<And>k. k < n \<Longrightarrow> \<not> dirty s (log_blk s k)" "\<not> dirty s (log_start s)" "\<And>k. k < n \<Longrightarrow> dirty s (B k)"
    "inj_on (log_blk s) {..<n}" "inj_on B {..<n}" "log_start s < disksize s" "\<And>k. k < n \<Longrightarrow> in_log s n (log_blk s k)"
    "in_log s n (log_start s)" "\<And>k. k < n \<Longrightarrow> \<not> in_log s n (B k)" "B ` {..<n} = {b. dirty s b}"
proof -
  have t: "distinct (take n (lh_block s))" "\<And>b. dirty s b \<longleftrightarrow> b \<in> set (take n (lh_block s))"
    "\<And>b. b \<in> set (take n (lh_block s)) \<Longrightarrow> b < disksize s" "\<And>b. b \<in> set (take n (lh_block s)) \<Longrightarrow> \<not> in_log s n b"
    using assms(1) by (simp_all add: txn_def)
  have n: "n \<le> length (lh_block s)" using assms(1) by (simp add: txn_def NBUF_def LOGSIZE_def MAXOPBLOCKS_def)
  have lay: "unat (log_start s) + n < unat (disksize s)" using assms(1) by (simp add: txn_def)
  note u = unat_log_blk [OF lay]
  show il: "in_log s n (log_blk s k)" if "k < n" for k
    using u [OF that] that by (simp add: in_log_def word_le_nat_alt)
  show ils: "in_log s n (log_start s)" by (simp add: in_log_def)
  have Bs: "B k \<in> set (take n (lh_block s))" if "k < n" for k
    using that n by (metis B_def in_set_conv_nth length_take min.absorb2 nth_take)
  show bl: "\<not> in_log s n (B k)" if "k < n" for k using Bs [OF that] by (rule t(4))
  show "B k < disksize s" if "k < n" for k using Bs [OF that] by (rule t(3))
  show "dirty s (B k)" if "k < n" for k using Bs [OF that] t(2) by simp
  show "log_blk s j \<noteq> B k" if "j < n" "k < n" for j k using il [OF that(1)] bl [OF that(2)] by metis
  show "B k \<noteq> log_start s" if "k < n" for k using ils bl [OF that] by metis
  show "log_blk s k \<noteq> log_start s" if "k < n" for k using u [OF that] by (intro notI) simp
  show "log_blk s k < disksize s" if "k < n" for k using u [OF that] lay that by (simp add: word_less_nat_alt)
  show "log_start s < disksize s" using lay by (simp add: word_less_nat_alt)
  show "\<not> dirty s (log_blk s k)" if "k < n" for k using il [OF that] t(2,4) by metis
  show "\<not> dirty s (log_start s)" using ils t(2,4) by metis
  show "inj_on (log_blk s) {..<n}"
  proof (rule inj_onI)
    fix j k assume j: "j \<in> {..<n}" and k: "k \<in> {..<n}" and e: "log_blk s j = log_blk s k"
    have "unat (log_blk s j) = unat (log_blk s k)" by (simp only: e)
    then show "j = k" using u [OF j [simplified]] u [OF k [simplified]] by linarith
  qed
  show "inj_on B {..<n}"
    using t(1) n by (auto simp: inj_on_def B_def distinct_conv_nth)
  have "B ` {..<n} = set (take n (lh_block s))"
    using n by (simp add: B_def atLeast0LessThan flip: nth_image)
  then show "B ` {..<n} = {b. dirty s b}" using t(2) by auto
qed

lemma put_copies:
  assumes "inj_on dst {..<n}" and "k < n"
  shows "put_blocks (copies n dst d) f (dst k) = d k"
  using assms
proof (induction n)
  case (Suc n)
  show ?case
  proof (cases "k = n")
    case False
    with Suc.prems have "k < n" "dst k \<noteq> dst n" by (auto simp: inj_on_def)
    moreover have "inj_on dst {..<n}" using Suc.prems(1) by (auto simp: inj_on_def)
    ultimately show ?thesis using Suc.IH by simp
  qed simp
qed simp

definition txn_data :: "'e logst_scheme \<Rightarrow> nat \<Rightarrow> uchar list" where
  "txn_data s k = blk s (lh_block s ! k)"

lemma write_log_ok:
  assumes tx: "txn me s n"
  shows "\<exists>t. write_log s = Ret () t \<and> idle me t \<and> io_frame s t \<and>
    absv t = (put_blocks (copies n (log_blk s) (txn_data s)) (blk s), Map.empty, dirty s,
      put_blocks (on_disk (copies n (log_blk s) (txn_data s))) (disk s), rev (on_disk (copies n (log_blk s) (txn_data s))) @ dtrace s)"
proof -
  note f = txn_facts [OF tx]
  have ok: "idle me s" "log_dev s = 1" "lh_n s = int n" using tx by (simp_all add: txn_def)
  have d: "(\<lambda>m. dirty s m \<and> m \<notin> log_blk s ` {..<k}) = dirty s" if "k \<le> n" for k
    using f(6) that by (intro ext) auto
  have step: "\<exists>t'. log_one k t = Ret () t' \<and> io_ok me t' \<and> blk_copied (log_blk s k) (lh_block s ! k) t t'"
    if k: "k < n" and t: "idle me t" "io_frame s t" "dirty t = (\<lambda>m. dirty s m \<and> m \<notin> log_blk s ` {..<k})" for k t
  proof -
    note lf = log_frame [OF t(2)]
    have "dirty t = dirty s" using t(3) d [of k] k by simp
    moreover have "log_blk s k = log_start t + of_nat k + 1" "lh_block s ! k = lh_block t ! k" "log_dev t = 1" "disksize t = disksize s"
      using lf io_frame_sel(4) [OF t(2)] ok(2) by (simp_all add: log_blk_def)
    ultimately show ?thesis
      using log_one_ok [OF t(1), of "log_blk s k" k "lh_block s ! k"] f(1) [OF k k] f(4,5,8) [OF k] by metis
  qed
  have "\<exists>t. for_each [0..<n] log_one s = Ret () t \<and> idle me t \<and> io_frame s t \<and>
    absv t = (put_blocks (copies n (log_blk s) (txn_data s)) (blk s), Map.empty, (\<lambda>m. dirty s m \<and> m \<notin> log_blk s ` {..<n}),
      put_blocks (on_disk (copies n (log_blk s) (txn_data s))) (disk s), rev (on_disk (copies n (log_blk s) (txn_data s))) @ dtrace s)"
    unfolding txn_data_def [abs_def] by (rule copy_loop [OF ok(1) step f(1)])
  then show ?thesis using ok(3) by (simp add: write_log_def d)
qed

lemma install_ok:
  assumes ok: "idle me s" "log_dev s = 1" "lh_n s = int n" and lay: "unat (log_start s) + n < unat (disksize s)"
    and B: "\<And>k. k < n \<Longrightarrow> B k = lh_block s ! k \<and> B k < disksize s \<and> \<not> in_log s n (B k)"
    and room: "\<And>k. k < n \<Longrightarrow> dirty s (B k) \<and> inj_on B {..<n} \<or> dirty s = (\<lambda>_. False)"
    and clean: "\<And>k. k < n \<Longrightarrow> \<not> dirty s (log_blk s k)"
  defines "D \<equiv> \<lambda>k. blk s (log_blk s k)"
  shows "\<exists>t. install_trans s = Ret () t \<and> idle me t \<and> io_frame s t \<and>
    absv t = (put_blocks (copies n B D) (blk s), Map.empty, (\<lambda>m. dirty s m \<and> m \<notin> B ` {..<n}),
      put_blocks (on_disk (copies n B D)) (disk s), rev (on_disk (copies n B D)) @ dtrace s)"
proof -
  have il: "in_log s n (log_blk s k)" if "k < n" for k
    using unat_log_blk [OF lay that] that by (simp add: in_log_def word_le_nat_alt)
  have ne: "B j \<noteq> log_blk s k" if "j < n" "k < n" for j k using il [OF that(2)] B [OF that(1)] by metis
  have step: "\<exists>t'. install_one k t = Ret () t' \<and> io_ok me t' \<and> blk_copied (B k) (log_blk s k) t t'"
    if k: "k < n" and t: "idle me t" "io_frame s t" "dirty t = (\<lambda>m. dirty s m \<and> m \<notin> B ` {..<k})" for k t
  proof -
    note lf = log_frame [OF t(2)]
    have eq: "log_blk s k = log_start t + of_nat k + 1" "B k = lh_block t ! k" "log_dev t = 1" "disksize t = disksize s"
      using lf io_frame_sel(4) [OF t(2)] ok(2) B [OF k] by (simp_all add: log_blk_def)
    have "log_blk s k < disksize t" using unat_log_blk [OF lay k] lay k eq(4) by (simp add: word_less_nat_alt)
    moreover have "\<not> dirty t (log_blk s k)" using t(3) clean [OF k] by simp
    moreover have "log_blk s k \<noteq> B k" using ne [OF k k] by simp
    moreover have "dirty t (B k) \<or> card (busy t) + 1 < NBUF"
    proof (cases "dirty s = (\<lambda>_. False)")
      case True
      then have "busy t = {}" using t(1,3) by (auto simp: busy_def idle_def owned_holder)
      then show ?thesis by (simp add: NBUF_def)
    next
      case False
      with room [OF k] have "dirty s (B k)" "inj_on B {..<n}" by auto
      moreover from this k have "B k \<notin> B ` {..<k}" by (auto dest: inj_onD)
      ultimately show ?thesis using t(3) by simp
    qed
    ultimately show ?thesis
      using install_one_ok [OF t(1) eq(3) eq(1), of "B k"] eq(2,4) B [OF k] by metis
  qed
  have "\<exists>t. for_each [0..<n] install_one s = Ret () t \<and> idle me t \<and> io_frame s t \<and>
    absv t = (put_blocks (copies n B D) (blk s), Map.empty, (\<lambda>m. dirty s m \<and> m \<notin> B ` {..<n}),
      put_blocks (on_disk (copies n B D)) (disk s), rev (on_disk (copies n B D)) @ dtrace s)"
    unfolding D_def by (rule copy_loop [OF ok(1) step ne])
  then show ?thesis using ok(3) by (simp add: install_trans_def)
qed

section \<open>Commit\<close>

text \<open>The writes of a commit: the log blocks, the header, the home locations, the empty header.\<close>

definition full_head :: "'e logst_scheme \<Rightarrow> nat \<Rightarrow> uchar list" where
  "full_head s n = head_bytes n (lh_block s) (blk s (log_start s))"

definition empty_head :: "'e logst_scheme \<Rightarrow> nat \<Rightarrow> uchar list" where
  "empty_head s n = head_bytes 0 (lh_block s) (full_head s n)"

definition commit_writes :: "'e logst_scheme \<Rightarrow> nat \<Rightarrow> (nat \<times> uchar list) list" where
  "commit_writes s n = on_disk (copies n (log_blk s) (txn_data s)) @ [(unat (log_start s), full_head s n)]
     @ on_disk (copies n (\<lambda>k. lh_block s ! k) (txn_data s)) @ [(unat (log_start s), empty_head s n)]"

lemma copies_cong: "(\<And>k. k < n \<Longrightarrow> d k = d' k) \<Longrightarrow> copies n dst d = copies n dst d'"
  by (simp add: copies_def)

lemma commit_run:
  fixes s :: "'e logst_scheme"
  assumes tx: "txn me s n" and pos: "0 < n"
  obtains s' where "commit s = Ret () s'" and "dtrace s' = rev (commit_writes s n) @ dtrace s"
    and "disk s' = put_blocks (commit_writes s n) (disk s)" and "lh_n s' = 0" and "dirty s' = (\<lambda>_. False)" and "idle me s'"
proof -
  note f = txn_facts [OF tx]
  let ?L = "log_blk s" and ?B = "\<lambda>k. lh_block s ! k" and ?D = "txn_data s" and ?st = "log_start s"
  let ?w1 = "copies n ?L ?D"
  have ok: "log_dev s = 1" "lh_n s = int n" "n < NBUF" and lay: "unat ?st + n < unat (disksize s)" using tx by (simp_all add: txn_def)
  have n: "n < 128" using ok(3) by (simp add: NBUF_def)
  obtain t where t: "write_log s = Ret () t" "idle me t" "io_frame s t"
    "absv t = (put_blocks ?w1 (blk s), Map.empty, dirty s, put_blocks (on_disk ?w1) (disk s), rev (on_disk ?w1) @ dtrace s)"
    using write_log_ok [OF tx] by (elim exE conjE) (rule that)
  note vt = absvD [OF t(4)] and lt = log_frame [OF t(3)]
  have "?st \<notin> ?L ` {..<n}" using f(2) by force
  then have st: "blk t ?st = blk s ?st" using vt(1) set_copies put_blocks_other by metis
  have h: "full_head s n = head_bytes n (lh_block t) (blk t ?st)" by (simp add: full_head_def st lt)
  have dt: "?st < disksize t" using io_frame_sel(4) [OF t(3)] f(11) by simp
  obtain u where u: "write_head t = Ret () u" "idle me u" "io_frame t u"
    "absv u = ((blk t)(?st := full_head s n), Map.empty, (dirty t)(?st := False), (disk t)(unat ?st := full_head s n),
      (unat ?st, full_head s n) # dtrace t)"
    by (rule write_head_ok [OF t(2) _ _ dt _ n h]) (use lt ok in simp, use lt in simp, use lt ok in simp, rule that)
  note vu = absvD [OF u(4)]
  have fu: "io_frame s u" by (rule io_frame_trans [OF t(3) u(3)])
  note lu = log_frame [OF fu]
  have du: "dirty u = dirty s" using vu(3) vt(3) f(7) by (auto simp: fun_upd_idem_iff)
  have il: "in_log u n = in_log s n" "log_blk u = ?L" by (simp_all add: in_log_def log_blk_def lu fun_eq_iff)
  have Du: "blk u (?L k) = ?D k" if "k < n" for k
    using vu(1) vt(1) f(2) [OF that] put_copies [OF f(9) that] by simp
  obtain w where w: "install_trans u = Ret () w" "idle me w" "io_frame u w"
    "absv w = (put_blocks (copies n ?B (\<lambda>k. blk u (log_blk u k))) (blk u), Map.empty, (\<lambda>m. dirty u m \<and> m \<notin> ?B ` {..<n}),
      put_blocks (on_disk (copies n ?B (\<lambda>k. blk u (log_blk u k)))) (disk u), rev (on_disk (copies n ?B (\<lambda>k. blk u (log_blk u k)))) @ dtrace u)"
  proof -
    have "\<exists>w. install_trans u = Ret () w \<and> idle me w \<and> io_frame u w \<and>
      absv w = (put_blocks (copies n ?B (\<lambda>k. blk u (log_blk u k))) (blk u), Map.empty, (\<lambda>m. dirty u m \<and> m \<notin> ?B ` {..<n}),
        put_blocks (on_disk (copies n ?B (\<lambda>k. blk u (log_blk u k)))) (disk u), rev (on_disk (copies n ?B (\<lambda>k. blk u (log_blk u k)))) @ dtrace u)"
      by (rule install_ok [OF u(2)])
        (use f io_frame_sel(4) [OF fu] lu ok lay il du in \<open>simp_all\<close>)
    then show ?thesis by (elim exE conjE) (rule that)
  qed
  have cp: "copies n ?B (\<lambda>k. blk u (?L k)) = copies n ?B ?D" by (rule copies_cong) (rule Du)
  note w4 = w(4) [unfolded il(2) cp]
  note vw = absvD [OF w4]
  have fw: "io_frame s w" by (rule io_frame_trans [OF fu w(3)])
  note lw = log_frame [OF fw]
  let ?w = "w\<lparr>lh_n := 0\<rparr>"
  have "?st \<notin> ?B ` {..<n}" using f(3) by force
  then have "blk w ?st = full_head s n" using vw(1) vu(1) set_copies put_blocks_other by (metis fun_upd_same)
  moreover have bw: "blk ?w = blk w" "dirty ?w = dirty w" "disk ?w = disk w" "dtrace ?w = dtrace w"
    using absv_log_upd(1) [of 0 w] by (simp_all add: absv_def)
  ultimately have h2: "empty_head s n = head_bytes 0 (lh_block ?w) (blk ?w ?st)" by (simp add: empty_head_def lw)
  have dw: "?st < disksize ?w" using io_frame_sel(4) [OF fw] f(11) by simp
  have iw: "idle me ?w" using w(2) by simp
  obtain y where y: "write_head ?w = Ret () y" "idle me y" "io_frame ?w y"
    "absv y = ((blk ?w)(?st := empty_head s n), Map.empty, (dirty ?w)(?st := False), (disk ?w)(unat ?st := empty_head s n),
      (unat ?st, empty_head s n) # dtrace ?w)"
    by (rule write_head_ok [OF iw _ _ dw _ _ h2]) (use lw ok in simp, use lw in simp, simp, simp, rule that)
  note vy = absvD [OF y(4)]
  have run: "commit s = Ret () y"
    using t(1) u(1) w(1) y(1) ok(2) pos by (simp add: commit_def thn_Ret)
  have nd: "dirty y = (\<lambda>_. False)"
    using vy(3) bw(2) vw(3) du f(15) by (auto simp: fun_eq_iff)
  show ?thesis
  proof (rule that [OF run _ _ _ nd y(2)])
    show "dtrace y = rev (commit_writes s n) @ dtrace s"
      using vy(5) bw(4) vw(5) vu(5) vt(5) by (simp add: commit_writes_def)
    show "disk y = put_blocks (commit_writes s n) (disk s)"
      using vy(4) bw(3) vw(4) vu(4) vt(4) by (simp add: commit_writes_def put_blocks_append put_blocks_Cons)
    show "lh_n y = 0" using log_frame(1) [OF y(3)] by simp
  qed
qed

section \<open>Recovery\<close>

lemma set_block_loop:
  assumes "n \<le> length (lh_block s)"
  shows "for_each [0..<n] (\<lambda>i. set_block i (f i)) s = Ret () (s\<lparr>lh_block := map f [0..<n] @ drop n (lh_block s)\<rparr>)"
  using assms
proof (induction n)
  case 0
  then show ?case by simp
next
  case (Suc n)
  let ?t = "s\<lparr>lh_block := map f [0..<n] @ drop n (lh_block s)\<rparr>"
  have "drop n (lh_block s) = lh_block s ! n # drop (Suc n) (lh_block s)"
    using Suc.prems Cons_nth_drop_Suc [of n "lh_block s"] by simp
  then have "(map f [0..<n] @ drop n (lh_block s))[n := f n] = map f [0..<Suc n] @ drop (Suc n) (lh_block s)"
    by (simp add: list_update_append)
  then have b: "set_block n (f n) ?t = Ret () (s\<lparr>lh_block := map f [0..<Suc n] @ drop (Suc n) (lh_block s)\<rparr>)"
    using Suc.prems by (simp add: set_block_def)
  have a: "for_each [0..<n] (\<lambda>i. set_block i (f i)) s = Ret () ?t" using Suc by simp
  show ?case
    by (simp add: for_each_append thn_Ret [where m = "for_each [0..<n] (\<lambda>i. set_block i (f i))", OF a]
        thn_Ret [where m = "set_block n (f n)", OF b])
qed

lemma io_frame_log_upd:
  fixes s t :: "'e logst_scheme"
  assumes "io_frame s t"
  shows "io_frame (s\<lparr>lh_n := a, lh_block := b\<rparr>) (t\<lparr>lh_n := a, lh_block := b\<rparr>)"
proof -
  have "erase (x\<lparr>lh_n := a, lh_block := b\<rparr>) = (erase x)\<lparr>lh_n := a, lh_block := b\<rparr>" for x :: "'e logst_scheme"
    by (simp add: erase_def)
  then show ?thesis using assms by (simp add: io_frame_def)
qed

lemma read_head_ok:
  fixes s :: "'e logst_scheme"
  assumes ok: "idle me s" and dev: "log_dev s = 1" and st: "b = log_start s" "b < disksize s"
    and n: "n = nat (sint (get32 0 (blk s b)))" "n \<le> length (lh_block s)"
  obtains s' where "read_head s = Ret () s'" and "idle me s'" and "absv s' = absv s"
    and "io_frame (s\<lparr>lh_n := sint (get32 0 (blk s b)), lh_block := map (\<lambda>i. get32 (4 + 4 * i) (blk s b)) [0..<n] @ drop n (lh_block s)\<rparr>) s'"
proof -
  have io: "io_ok me s" and o: "holder s = Map.empty" and c: "card (busy s) < NBUF" using ok by (simp_all add: idle_def)
  obtain i t where t: "bread 1 b s = Ret i t" "io_ok me t" "io_frame s t"
    "absv t = (blk s, (holder s)(b \<mapsto> i), dirty s, disk s, dtrace s)"
    using bread_ok [OF io st(2)] o busy_room [OF io c] by (auto simp: owned_holder)
  note vt = absvD [OF t(4)]
  have ht: "holder t b = Some i" using vt by simp
  let ?h = "blk s b"
  have bd: "b_data (bufs t ! i) = ?h" using owned_buf(8) [OF t(2) ht] vt(1) by simp
  let ?lb = "map (\<lambda>i. get32 (4 + 4 * i) ?h) [0..<n] @ drop n (lh_block s)"
  let ?u = "t\<lparr>lh_n := sint (get32 0 ?h), lh_block := ?lb\<rparr>"
  have lp: "for_each [0..<n] (\<lambda>i. set_block i (get32 (4 + 4 * i) ?h)) (t\<lparr>lh_n := sint (get32 0 ?h)\<rparr>) = Ret () ?u"
    using set_block_loop [of n "t\<lparr>lh_n := sint (get32 0 ?h)\<rparr>"] n(2) log_frame(2) [OF t(3)] by simp
  have au: "absv ?u = (blk s, [b \<mapsto> i], dirty s, disk s, dtrace s)" using t(4) o by simp
  note vu = absvD [OF au]
  have "dirty ?u b \<or> blk ?u b = disk ?u (unat b)"
    using clean_disk [OF io, of b] o vu by (auto simp: owned_holder)
  then obtain y where y: "brelse i ?u = Ret () y" "io_ok me y" "io_frame ?u y"
    "absv y = (blk ?u, (holder ?u)(b := None), dirty ?u, disk ?u, dtrace ?u)"
    using brelse_ok [of me ?u b i] t(2) vu by auto
  have ay: "absv y = absv s" using y(4) vu o by (simp add: absv_def)
  moreover have "idle me y" using ok y(2) ay by (simp add: idle_absv)
  moreover have "read_head s = Ret () y"
    using t(1) dev st(1) lp y(1) bd n(1) by (simp add: read_head_def bnd_Ret getb_def thn_Ret)
  moreover have "io_frame (s\<lparr>lh_n := sint (get32 0 ?h), lh_block := ?lb\<rparr>) y"
    by (rule io_frame_trans [OF io_frame_log_upd [OF t(3)] y(3)])
  ultimately show ?thesis using that by blast
qed

lemma recover_ok:
  fixes s :: "'e logst_scheme"
  assumes ok: "idle me s" "dirty s = (\<lambda>_. False)" and dev: "log_dev s = 1"
    and lay: "unat (log_start s) + n < unat (disksize s)"
    and n: "sint (get32 0 (disk s (unat (log_start s)))) = int n" "n \<le> length (lh_block s)" "n < 128"
    and B: "\<And>k. k < n \<Longrightarrow> B k = get32 (4 + 4 * k) (disk s (unat (log_start s))) \<and> B k < disksize s \<and> \<not> in_log s n (B k)"
  obtains t h where "recover_from_log s = Ret () t"
    and "disk t = (put_blocks (on_disk (copies n B (\<lambda>k. disk s (unat (log_blk s k))))) (disk s))(unat (log_start s) := h)"
proof -
  let ?st = "log_start s"
  have bd: "blk s m = disk s (unat m)" for m
    using ok by (intro clean_disk [of me]) (auto simp: idle_def owned_holder)
  have st: "?st < disksize s" using lay by (simp add: word_less_nat_alt)
  let ?lb = "map (\<lambda>i. get32 (4 + 4 * i) (blk s ?st)) [0..<n] @ drop n (lh_block s)"
  let ?t = "s\<lparr>lh_n := int n, lh_block := ?lb\<rparr>"
  obtain t where t: "read_head s = Ret () t" "idle me t" "absv t = absv s" "io_frame ?t t"
    by (rule read_head_ok [OF ok(1) dev refl st _ n(2)]) (use n bd in \<open>simp, simp add: that\<close>)
  have lt: "lh_n t = int n" "lh_block t = ?lb" "log_start t = ?st" "log_dev t = 1" "disksize t = disksize s"
    using log_frame [OF t(4)] io_frame_sel [OF t(4)] dev by simp_all
  have vt: "blk t = blk s" "dirty t = dirty s" "disk t = disk s" using t(3) by (simp_all add: absv_def)
  have il: "in_log t n = in_log s n" "log_blk t = log_blk s" by (simp_all add: in_log_def log_blk_def lt fun_eq_iff)
  have Bt: "B k = lh_block t ! k \<and> B k < disksize t \<and> \<not> in_log t n (B k)" if "k < n" for k
    using B [OF that] that by (auto simp: lt il bd nth_append)
  let ?c = "copies n B (\<lambda>k. blk t (log_blk t k))"
  have "\<exists>w. install_trans t = Ret () w \<and> idle me w \<and> io_frame t w \<and>
      absv w = (put_blocks ?c (blk t), Map.empty, (\<lambda>m. dirty t m \<and> m \<notin> B ` {..<n}),
        put_blocks (on_disk ?c) (disk t), rev (on_disk ?c) @ dtrace t)"
    by (rule install_ok [OF t(2) lt(4,1) _ Bt]) (use lt lay vt ok(2) in simp_all)
  then obtain w where w: "install_trans t = Ret () w" "idle me w" "io_frame t w"
    "absv w = (put_blocks ?c (blk t), Map.empty, (\<lambda>m. dirty t m \<and> m \<notin> B ` {..<n}),
        put_blocks (on_disk ?c) (disk t), rev (on_disk ?c) @ dtrace t)" by (elim exE conjE) (rule that)
  have lw: "log_start w = ?st" "log_dev w = 1" "disksize w = disksize s"
    using log_frame [OF w(3)] io_frame_sel [OF w(3)] lt by simp_all
  let ?w = "w\<lparr>lh_n := 0\<rparr>"
  obtain y where y: "write_head ?w = Ret () y"
    "absv y = ((blk ?w)(?st := head_bytes 0 (lh_block ?w) (blk ?w ?st)), Map.empty, (dirty ?w)(?st := False),
      (disk ?w)(unat ?st := head_bytes 0 (lh_block ?w) (blk ?w ?st)), (unat ?st, head_bytes 0 (lh_block ?w) (blk ?w ?st)) # dtrace ?w)"
    by (rule write_head_ok [of me ?w ?st 0, OF _ _ _ _ _ _ refl]) (use w(2) lw st that in simp_all)
  have "recover_from_log s = Ret () y" using t(1) w(1) y(1) by (simp add: recover_from_log_def thn_Ret)
  moreover have "disk y = (put_blocks (on_disk (copies n B (\<lambda>k. disk s (unat (log_blk s k))))) (disk s))(unat ?st :=
      head_bytes 0 (lh_block ?w) (blk ?w ?st))"
    using absvD(4) [OF y(2)] absvD(4) [OF w(4)] vt bd il by simp
  ultimately show ?thesis by (rule that)
qed

section \<open>Crashes\<close>

text \<open>After a crash the machine starts again: the cache is empty, the disk as the crash left it.\<close>

definition reboot :: "(nat \<Rightarrow> uchar list) \<Rightarrow> 'e logst_scheme \<Rightarrow> 'e logst_scheme" where
  "reboot d s = s\<lparr>slks := (\<lambda>_. \<lparr>sl_locked = False, sl_pid = 0\<rparr>),
     bufs := replicate NBUF \<lparr>b_flags = 0, b_dev = 0, b_blockno = 0, b_refcnt = 0, b_data = replicate BSIZE 0\<rparr>,
     lru := rev [0..<NBUF], disk := d, lh_n := 0, lh_block := replicate (nat LOGSIZE) 0\<rparr>"

lemma reboot_sel [simp]:
  "disk (reboot d s) = d" "log_start (reboot d s) = log_start s" "log_dev (reboot d s) = log_dev s"
  "disksize (reboot d s) = disksize s" "lh_block (reboot d s) = replicate (nat LOGSIZE) 0"
  "log_blk (reboot d s) = log_blk s" "in_log (reboot d s) = in_log s"
  by (simp_all add: reboot_def log_blk_def in_log_def fun_eq_iff)

lemma reboot_idle:
  assumes "calm me s" and "\<And>m. m < unat (disksize s) \<Longrightarrow> length (d m) = BSIZE"
  shows "idle me (reboot d s)" "dirty (reboot d s) = (\<lambda>_. False)"
proof -
  have nc: "\<not> caches (reboot d s) n i" for n i by (simp add: caches_def reboot_def)
  then have at: "bufat (reboot d s) n = None" for n by (simp add: bufat_None)
  have "cache_ok p (reboot d s)" for p
    unfolding cache_ok_def using nc assms(2) by (auto simp: reboot_def buf_ok_def)
  moreover have "calm me (reboot d s)" using assms(1) by (simp add: calm_def reboot_def)
  moreover have e: "holder (reboot d s) = Map.empty" "dirty (reboot d s) = (\<lambda>_. False)"
    by (simp_all add: holder_def owned_def dirty_def at fun_eq_iff)
  moreover have "busy (reboot d s) = {}" using e by (simp add: busy_def owned_holder)
  ultimately show "idle me (reboot d s)" "dirty (reboot d s) = (\<lambda>_. False)"
    by (simp_all add: idle_def io_ok_def NBUF_def)
qed

lemma put_blocks_all:
  "\<forall>x \<in> snd ` set ws. P x \<Longrightarrow> P (f m) \<Longrightarrow> P (put_blocks ws f m)"
  by (induction ws rule: rev_induct) auto

lemma length_blk: "io_ok me s \<Longrightarrow> n < disksize s \<Longrightarrow> length (blk s n) = BSIZE"
proof (cases "bufat s n")
  case (Some i)
  assume "io_ok me s"
  with Some io_ok_buf [of me s i] bufat_caches [of me s n i] show ?thesis by (auto simp: blk_def caches_def buf_ok_def)
qed (simp add: blk_def length_disk)

lemma on_disk_copies: "on_disk (copies n dst d) = copies n (\<lambda>k. unat (dst k)) d"
  by (simp add: on_disk_def copies_def)

lemma set_on_disk: "fst ` set (on_disk (copies n dst d)) = (\<lambda>k. unat (dst k)) ` {..<n}"
  by (simp add: on_disk_copies set_copies)

lemma set_take_disk: "fst ` set (take i (on_disk (copies n dst d))) \<subseteq> (\<lambda>k. unat (dst k)) ` {..<n}"
  unfolding set_on_disk [of n dst d, symmetric] by (intro image_mono set_take_subset)

text \<open>Recovery from an empty log, and from a full one.\<close>

lemma recover_empty:
  assumes tx: "txn me s n" and len: "\<And>m. m < unat (disksize s) \<Longrightarrow> length (d m) = BSIZE"
    and h: "get32 0 (d (unat (log_start s))) = 0"
  shows "\<exists>t. recover_from_log (reboot d s) = Ret () t \<and> (\<forall>b. \<not> in_log s n b \<longrightarrow> disk t (unat b) = d (unat b))"
proof -
  have c: "calm me s" "log_dev s = 1" "unat (log_start s) + 0 < unat (disksize s)"
    using tx by (simp_all add: txn_def idle_def io_ok_def)
  note r = reboot_idle [OF c(1) len]
  have z: "sint (get32 0 (disk (reboot d s) (unat (log_start (reboot d s))))) = int 0" by (simp add: h)
  obtain t x where t: "recover_from_log (reboot d s) = Ret () t"
    "disk t = (put_blocks (on_disk (copies 0 (\<lambda>_. 0) (\<lambda>k. disk (reboot d s) (unat (log_blk (reboot d s) k))))) (disk (reboot d s)))(unat (log_start (reboot d s)) := x)"
    by (rule recover_ok [where n = 0 and B = "\<lambda>_. 0", OF r _ _ z]) (use c that in simp_all)
  have "unat b \<noteq> unat (log_start s)" if "\<not> in_log s n b" for b using that by (auto simp: in_log_def word_le_nat_alt)
  with t show ?thesis by simp
qed

lemma sint_small: "n < 2 ^ 31 \<Longrightarrow> sint (of_nat n :: uint) = int n"
  by (simp add: signed_of_nat signed_take_bit_eq_if_positive take_bit_int_eq_self bit_iff_odd)

lemma recover_full:
  assumes tx: "txn me s n" and len: "\<And>m. m < unat (disksize s) \<Longrightarrow> length (d m) = BSIZE"
    and h: "d (unat (log_start s)) = full_head s n" and L: "\<And>k. k < n \<Longrightarrow> d (unat (log_blk s k)) = txn_data s k"
    and other: "\<And>b. \<not> in_log s n b \<Longrightarrow> \<not> dirty s b \<Longrightarrow> d (unat b) = disk s (unat b)"
  shows "\<exists>t. recover_from_log (reboot d s) = Ret () t \<and> (\<forall>b. \<not> in_log s n b \<longrightarrow> disk t (unat b) = blk s b)"
proof -
  note f = txn_facts [OF tx]
  have c: "calm me s" "log_dev s = 1" "unat (log_start s) + n < unat (disksize s)" "io_ok me s" "n < 30" "holder s = Map.empty"
    using tx by (simp_all add: txn_def idle_def io_ok_def NBUF_def)
  note r = reboot_idle [OF c(1) len]
  have hb: "length (blk s (log_start s)) = BSIZE" by (rule length_blk [OF c(4) f(11)])
  have n128: "n < 128" using c(5) by simp
  note hr = head_bytes_read [OF hb n128, where bl = "lh_block s", folded full_head_def]
  have n: "sint (get32 0 (disk (reboot d s) (unat (log_start (reboot d s))))) = int n"
    using sint_small [of n] c(5) by (simp add: h hr(2))
  let ?B = "\<lambda>k. lh_block s ! k"
  have B: "?B k = get32 (4 + 4 * k) (disk (reboot d s) (unat (log_start (reboot d s)))) \<and> ?B k < disksize (reboot d s)
      \<and> \<not> in_log (reboot d s) n (?B k)" if "k < n" for k
    using f(5,14) [OF that] by (simp add: h hr(3) [OF that])
  obtain t x where t: "recover_from_log (reboot d s) = Ret () t"
    "disk t = (put_blocks (on_disk (copies n ?B (\<lambda>k. disk (reboot d s) (unat (log_blk (reboot d s) k))))) (disk (reboot d s)))(unat (log_start (reboot d s)) := x)"
    by (rule recover_ok [where n = n and B = ?B, OF r _ _ n _ n128 B])
      (use c in \<open>simp_all add: LOGSIZE_def MAXOPBLOCKS_def that\<close>)
  have cp: "copies n ?B (\<lambda>k. d (unat (log_blk s k))) = copies n ?B (txn_data s)" by (rule copies_cong) (rule L)
  have "disk t (unat b) = blk s b" if b: "\<not> in_log s n b" for b
  proof -
    have "unat b \<noteq> unat (log_start s)" using b by (auto simp: in_log_def word_le_nat_alt)
    then have e: "disk t (unat b) = put_blocks (copies n (\<lambda>k. unat (?B k)) (txn_data s)) d (unat b)"
      using t(2) cp by (simp add: on_disk_copies)
    show ?thesis
    proof (cases "dirty s b")
      case True
      then obtain k where k: "k < n" "b = ?B k" using f(15) by blast
      have "inj_on (\<lambda>k. unat (?B k)) {..<n}" using f(10) by (auto simp: inj_on_def word_unat_eq_iff)
      then have "put_blocks (copies n (\<lambda>k. unat (?B k)) (txn_data s)) d (unat (?B k)) = txn_data s k"
        using k(1) by (rule put_copies)
      then show ?thesis using e k(2) by (simp add: txn_data_def)
    next
      case False
      then have "unat b \<notin> (\<lambda>k. unat (?B k)) ` {..<n}" using f(8) by (auto simp flip: word_unat_eq_iff)
      then have "disk t (unat b) = d (unat b)" using e put_blocks_other set_copies by metis
      then show ?thesis using other [OF b False] clean_disk [OF c(4)] False c(6) by (simp add: owned_holder)
    qed
  qed
  with t(1) show ?thesis by blast
qed

text \<open>Where the writes of a commit go, as numbers of disk blocks.\<close>

lemma txn_keys:
  assumes tx: "txn me s n"
  shows "unat (log_start s) \<notin> (\<lambda>k. unat (log_blk s k)) ` {..<n}" "unat (log_start s) \<notin> (\<lambda>k. unat (lh_block s ! k)) ` {..<n}"
    "inj_on (\<lambda>k. unat (log_blk s k)) {..<n}" "inj_on (\<lambda>k. unat (lh_block s ! k)) {..<n}"
    "\<And>b. \<not> in_log s n b \<Longrightarrow> unat b \<notin> (\<lambda>k. unat (log_blk s k)) ` {..<n}"
    "\<And>b. \<not> in_log s n b \<Longrightarrow> unat b \<noteq> unat (log_start s)"
    "\<And>b. \<not> dirty s b \<Longrightarrow> unat b \<notin> (\<lambda>k. unat (lh_block s ! k)) ` {..<n}"
    "\<And>k. k < n \<Longrightarrow> unat (log_blk s k) \<notin> (\<lambda>k. unat (lh_block s ! k)) ` {..<n}"
    "\<And>k. k < n \<Longrightarrow> unat (log_blk s k) \<noteq> unat (log_start s)"
proof -
  note f = txn_facts [OF tx]
  show "unat (log_start s) \<notin> (\<lambda>k. unat (log_blk s k)) ` {..<n}" "unat (log_start s) \<notin> (\<lambda>k. unat (lh_block s ! k)) ` {..<n}"
    using f(2,3) by (force simp flip: word_unat_eq_iff)+
  show "inj_on (\<lambda>k. unat (log_blk s k)) {..<n}" "inj_on (\<lambda>k. unat (lh_block s ! k)) {..<n}"
    using f(9,10) by (auto simp: inj_on_def word_unat_eq_iff)
  show "unat b \<notin> (\<lambda>k. unat (log_blk s k)) ` {..<n}" "unat b \<noteq> unat (log_start s)" if "\<not> in_log s n b" for b
    using f(12,13) that by (force simp flip: word_unat_eq_iff)+
  show "unat b \<notin> (\<lambda>k. unat (lh_block s ! k)) ` {..<n}" if "\<not> dirty s b" for b
    using f(8) that by (auto simp flip: word_unat_eq_iff)
  show "unat (log_blk s k) \<notin> (\<lambda>k. unat (lh_block s ! k)) ` {..<n}" "unat (log_blk s k) \<noteq> unat (log_start s)" if "k < n" for k
    using f(1,2) that by (force simp flip: word_unat_eq_iff)+
qed

lemma txn_heads:
  assumes tx: "txn me s n"
  shows "length (full_head s n) = BSIZE" "length (empty_head s n) = BSIZE" "get32 0 (empty_head s n) = 0"
proof -
  have c: "io_ok me s" "n < 128" using tx by (simp_all add: txn_def idle_def NBUF_def)
  have hb: "length (blk s (log_start s)) = BSIZE" by (rule length_blk [OF c(1) txn_facts(11) [OF tx]])
  show h: "length (full_head s n) = BSIZE" unfolding full_head_def by (rule head_bytes_read(1) [OF hb c(2)])
  show "length (empty_head s n) = BSIZE" "get32 0 (empty_head s n) = 0"
    unfolding empty_head_def using head_bytes_read(1,2) [OF h, of 0] by simp_all
qed

lemma crash_length:
  assumes tx: "txn me s n" and "m < unat (disksize s)"
  shows "length (put_blocks (take j (commit_writes s n)) (disk s) m) = BSIZE"
proof (rule put_blocks_all)
  have c: "io_ok me s" using tx by (simp add: txn_def idle_def)
  have "length x = BSIZE" if "x \<in> snd ` set (commit_writes s n)" for x
    using that txn_heads [OF tx] length_blk [OF c txn_facts(5) [OF tx]]
    by (auto simp: commit_writes_def on_disk_def copies_def txn_data_def)
  then show "\<forall>x \<in> snd ` set (take j (commit_writes s n)). length x = BSIZE" by (meson image_mono set_take_subset subsetD)
  show "length (disk s m) = BSIZE" using c assms(2) by (simp add: io_ok_def cache_ok_def)
qed

text \<open>The disk after the header has been written and some blocks have been installed, and at the end.\<close>

lemma committed_disk:
  assumes tx: "txn me s n" and n1: "n < j" and n2: "j \<le> 2 * n + 1"
  defines "d \<equiv> put_blocks (take j (commit_writes s n)) (disk s)"
  shows "d (unat (log_start s)) = full_head s n" "\<And>k. k < n \<Longrightarrow> d (unat (log_blk s k)) = txn_data s k"
    "\<And>b. \<not> in_log s n b \<Longrightarrow> \<not> dirty s b \<Longrightarrow> d (unat b) = disk s (unat b)"
proof -
  note key = txn_keys [OF tx]
  let ?st = "unat (log_start s)" and ?B = "\<lambda>k. lh_block s ! k" and ?D = "txn_data s"
  let ?w1 = "on_disk (copies n (log_blk s) ?D)" and ?w3 = "on_disk (copies n ?B ?D)"
  let ?v = "take (j - n - 1) ?w3"
  have l: "length ?w1 = n" "length ?w3 = n" by (simp_all add: on_disk_def copies_def)
  have "take (j - n) ((?st, full_head s n) # ?w3 @ [(?st, empty_head s n)]) = (?st, full_head s n) # ?v"
    using n1 n2 l by (cases "j - n") auto
  then have d: "d = put_blocks ?v ((put_blocks ?w1 (disk s))(?st := full_head s n))"
    using n1 n2 l by (simp add: d_def commit_writes_def put_blocks_append put_blocks_Cons)
  have "fst ` set ?v \<subseteq> (\<lambda>k. unat (?B k)) ` {..<n}" by (rule set_take_disk)
  then have d1: "d m = ((put_blocks ?w1 (disk s))(?st := full_head s n)) m" if "m \<notin> (\<lambda>k. unat (?B k)) ` {..<n}" for m
    unfolding d using that by (intro put_blocks_other) blast
  show "d ?st = full_head s n" using d1 [OF key(2)] by simp
  show "d (unat (log_blk s k)) = ?D k" if k: "k < n" for k
    using d1 [OF key(8) [OF k]] key(9) [OF k] put_copies [OF key(3) k, of ?D "disk s"] by (simp add: on_disk_copies)
  show "d (unat b) = disk s (unat b)" if "\<not> in_log s n b" "\<not> dirty s b" for b
    using d1 [OF key(7) [OF that(2)]] key(5,6) [OF that(1)] put_blocks_other [of "unat b" ?w1] by (simp add: set_on_disk)
qed

lemma final_disk:
  assumes tx: "txn me s n" and b: "\<not> in_log s n b"
  shows "put_blocks (commit_writes s n) (disk s) (unat b) = blk s b"
proof -
  note key = txn_keys [OF tx]
  let ?st = "unat (log_start s)" and ?B = "\<lambda>k. lh_block s ! k" and ?D = "txn_data s"
  let ?w1 = "on_disk (copies n (log_blk s) ?D)"
  have d: "put_blocks (commit_writes s n) (disk s) (unat b)
      = put_blocks (copies n (\<lambda>k. unat (?B k)) ?D) ((put_blocks ?w1 (disk s))(?st := full_head s n)) (unat b)"
    using key(6) [OF b] by (simp add: commit_writes_def put_blocks_append put_blocks_Cons on_disk_copies)
  show ?thesis
  proof (cases "dirty s b")
    case True
    then obtain k where k: "k < n" "b = ?B k" using txn_facts(15) [OF tx] by blast
    show ?thesis using d put_copies [OF key(4) k(1), of ?D] k(2) by (simp add: txn_data_def)
  next
    case False
    have "io_ok me s" "holder s = Map.empty" using tx by (simp_all add: txn_def idle_def)
    then have "blk s b = disk s (unat b)" using False by (intro clean_disk) (simp_all add: owned_holder)
    then show ?thesis
      unfolding d using key(7) [OF False] key(5,6) [OF b] by (simp add: put_blocks_other set_copies set_on_disk)
  qed
qed

lemma crash_recovers:
  assumes tx: "txn me s n" and j: "j \<le> length (commit_writes s n)"
  defines "d \<equiv> put_blocks (take j (commit_writes s n)) (disk s)"
  shows "\<exists>t. recover_from_log (reboot d s) = Ret () t \<and>
    ((\<forall>b. \<not> in_log s n b \<longrightarrow> disk t (unat b) = disk s (unat b)) \<or> (\<forall>b. \<not> in_log s n b \<longrightarrow> disk t (unat b) = blk s b))"
proof -
  note key = txn_keys [OF tx] and len = crash_length [OF tx, of _ j, folded d_def]
  let ?st = "unat (log_start s)" and ?w1 = "on_disk (copies n (log_blk s) (txn_data s))"
  have l: "length ?w1 = n" by (simp add: on_disk_def copies_def)
  have lw: "length (commit_writes s n) = 2 * n + 2" by (simp add: commit_writes_def on_disk_def copies_def)
  consider "j \<le> n" | "n < j" "j \<le> 2 * n + 1" | "j = 2 * n + 2" using j lw by linarith
  then show ?thesis
  proof cases
    case 1
    then have d: "d = put_blocks (take j ?w1) (disk s)" using l by (simp add: d_def commit_writes_def)
    have "fst ` set (take j ?w1) \<subseteq> (\<lambda>k. unat (log_blk s k)) ` {..<n}" by (rule set_take_disk)
    then have d1: "d m = disk s m" if "m \<notin> (\<lambda>k. unat (log_blk s k)) ` {..<n}" for m
      unfolding d using that by (intro put_blocks_other) blast
    have "get32 0 (d ?st) = 0" using d1 [OF key(1)] tx by (simp add: txn_def)
    from recover_empty [OF tx, where d = d, OF len this] obtain t where
      "recover_from_log (reboot d s) = Ret () t" "\<And>b. \<not> in_log s n b \<Longrightarrow> disk t (unat b) = d (unat b)" by blast
    with d1 [OF key(5)] show ?thesis by auto
  next
    case 2
    then show ?thesis
      using recover_full [OF tx, where d = d, OF len] committed_disk [OF tx, of j, folded d_def] by blast
  next
    case 3
    then have d: "d = put_blocks (commit_writes s n) (disk s)" using lw by (simp add: d_def)
    have "get32 0 (d ?st) = 0" using txn_heads(3) [OF tx] by (simp add: d commit_writes_def put_blocks_append put_blocks_Cons)
    from recover_empty [OF tx, where d = d, OF len this] obtain t where
      "recover_from_log (reboot d s) = Ret () t" "\<And>b. \<not> in_log s n b \<Longrightarrow> disk t (unat b) = d (unat b)" by blast
    with final_disk [OF tx] d show ?thesis by auto
  qed
qed

text \<open>C1: committing a transaction is atomic. With \<open>n\<close> dirty blocks in the log and the log on the disk empty, \<^verbatim>\<open>commit\<close>
  returns with the log empty and every block outside the log on the disk as it was in the cache; and whenever the machine
  crashes, that is after any number \<open>j\<close> of the block writes \<open>ws\<close> that commit makes, \<^verbatim>\<open>recover_from_log\<close> returns after the
  reboot, and the blocks outside the log are either all as before the transaction or all as after it.\<close>

theorem commit_atomic:
  assumes "txn me s n"
  shows "\<exists>s' ws. commit s = Ret () s' \<and> lh_n s' = 0 \<and> dtrace s' = rev ws @ dtrace s \<and> disk s' = put_blocks ws (disk s)
    \<and> (\<forall>b. \<not> in_log s n b \<longrightarrow> disk s' (unat b) = blk s b)
    \<and> (\<forall>j \<le> length ws. \<exists>t. recover_from_log (reboot (put_blocks (take j ws) (disk s)) s) = Ret () t
        \<and> ((\<forall>b. \<not> in_log s n b \<longrightarrow> disk t (unat b) = disk s (unat b)) \<or> (\<forall>b. \<not> in_log s n b \<longrightarrow> disk t (unat b) = blk s b)))"
proof (cases "0 < n")
  case True
  from commit_run [OF assms this] obtain s' where
    "commit s = Ret () s'" "dtrace s' = rev (commit_writes s n) @ dtrace s" "disk s' = put_blocks (commit_writes s n) (disk s)"
    "lh_n s' = 0" by blast
  then show ?thesis
    using crash_recovers [OF assms] final_disk [OF assms] by (intro exI [of _ s'] exI [of _ "commit_writes s n"]) auto
next
  case False
  have c: "commit s = Ret () s" "lh_n s = 0" using False assms by (simp_all add: txn_def commit_def)
  have "io_ok me s" "holder s = Map.empty" "dirty s = (\<lambda>_. False)" "n = 0" using False assms by (auto simp: txn_def idle_def)
  then have b: "disk s (unat b) = blk s b" for b using clean_disk [of me s b] by (simp add: owned_holder)
  have "\<exists>t. recover_from_log (reboot (disk s) s) = Ret () t \<and> (\<forall>b. \<not> in_log s n b \<longrightarrow> disk t (unat b) = disk s (unat b))"
    using crash_recovers [OF assms, of 0] \<open>n = 0\<close> b by auto
  with c b show ?thesis by (intro exI [of _ s] exI [of _ "[]"]) auto
qed

text \<open>A transaction that writes one block.\<close>

definition log_example :: logst where
  "log_example = biost.extend (consst.extend cons_example
     \<lparr>slks = (\<lambda>_. \<lparr>sl_locked = False, sl_pid = 0\<rparr>), slk_addr = (\<lambda>_. 0),
      bufs = \<lparr>b_flags = 6, b_dev = 1, b_blockno = 40, b_refcnt = 0, b_data = replicate BSIZE 7\<rparr>
        # replicate 29 \<lparr>b_flags = 0, b_dev = 0, b_blockno = 0, b_refcnt = 0, b_data = replicate BSIZE 0\<rparr>,
      lru = [0..<NBUF], disk = (\<lambda>_. replicate BSIZE 0), disksize = 100, dtrace = []\<rparr>)
     \<lparr>log_addr = 0, log_start = 2, log_size = 30, outstanding = 0, committing = True, log_dev = 1, lh_n = 1,
      lh_block = 40 # replicate 29 0\<rparr>"

lemma log_example_sel:
  "slks log_example = (\<lambda>_. \<lparr>sl_locked = False, sl_pid = 0\<rparr>)"
  "bufs log_example = \<lparr>b_flags = 6, b_dev = 1, b_blockno = 40, b_refcnt = 0, b_data = replicate BSIZE 7\<rparr>
        # replicate 29 \<lparr>b_flags = 0, b_dev = 0, b_blockno = 0, b_refcnt = 0, b_data = replicate BSIZE 0\<rparr>"
  "lru log_example = [0..<NBUF]" "disk log_example = (\<lambda>_. replicate BSIZE 0)" "disksize log_example = 100"
  "log_start log_example = 2" "log_dev log_example = 1" "lh_n log_example = 1" "lh_block log_example = 40 # replicate 29 0"
  "held log_example = held cons_example" "others log_example = others cons_example" "cur log_example = cur cons_example"
  "procs log_example = procs cons_example"
  by (simp_all add: log_example_def biost.defs consst.defs)

lemma log_example_calm: "calm 0 log_example"
proof -
  have "held cons_example = []" "others cons_example = {}" "cur cons_example = Some 0" "length (procs cons_example) = NPROC"
    using pipe_example_sel(1-3,5) by (simp_all add: cons_example_def pipest.defs)
  then show ?thesis by (simp add: calm_def log_example_sel NPROC_def)
qed

lemma log_example_caches: "caches log_example n i \<longleftrightarrow> n = 40 \<and> i = 0"
  by (cases i) (auto simp: caches_def log_example_sel NBUF_def)

lemma log_example_bufat: "bufat log_example n = (if n = 40 then Some 0 else None)"
proof (cases "n = 40")
  case True
  then have "find (caches log_example n) [0..<NBUF] = Some 0"
    by (intro find_unique) (auto simp: log_example_caches NBUF_def)
  with True show ?thesis by (simp add: bufat_def)
next
  case False
  then show ?thesis by (auto simp: bufat_None log_example_caches)
qed

lemma log_example_view:
  "blk log_example = (\<lambda>_. replicate BSIZE 0)(40 := replicate BSIZE 7)" "holder log_example = Map.empty" "dirty log_example n \<longleftrightarrow> n = 40"
  by (auto simp: blk_def holder_def owned_def dirty_def log_example_bufat log_example_sel fun_eq_iff)

lemma log_example_txn: "txn 0 log_example 1"
proof -
  have "buf_ok p (disk log_example) (disksize log_example) (slks log_example i) (bufs log_example ! i)" if "i < NBUF" for p i
    using that by (cases i) (auto simp: log_example_sel buf_ok_def NBUF_def)
  then have "cache_ok p log_example" for p
    by (simp add: cache_ok_def log_example_caches) (auto simp: log_example_sel NBUF_def)
  moreover have "busy log_example = {40}" by (auto simp: busy_def owned_holder log_example_view)
  ultimately have "idle 0 log_example" using log_example_calm log_example_view(2) by (simp add: idle_def io_ok_def NBUF_def)
  moreover have "get32 0 (replicate BSIZE 0) = 0"
    by (simp add: get32_def get_at_def BSIZE_def numeral_eq_Suc)
  ultimately show ?thesis
    by (simp add: txn_def log_example_view(3)) (simp add: log_example_sel LOGSIZE_def MAXOPBLOCKS_def NBUF_def in_log_def)
qed

theorem commit_atomic_witness:
  "\<exists>s' ws. commit log_example = Ret () s' \<and> disk s' 40 = replicate BSIZE 7
    \<and> (\<forall>j \<le> length ws. \<exists>t. recover_from_log (reboot (put_blocks (take j ws) (disk log_example)) log_example) = Ret () t
        \<and> (disk t 40 = replicate BSIZE 0 \<or> disk t 40 = replicate BSIZE 7))"
proof -
  have b: "\<not> in_log log_example 1 40" by (simp add: in_log_def log_example_sel)
  have v: "disk log_example (unat (40 :: uint)) = replicate BSIZE 0" "blk log_example 40 = replicate BSIZE 7"
    by (simp_all add: log_example_sel log_example_view)
  from commit_atomic [OF log_example_txn] b show ?thesis
    unfolding v(1,2) [symmetric] by fastforce
qed

end
