(* ===== verification/LogSpace.thy ===== *)
theory LogSpace
  imports LogProps
begin

unbundle bit_operations_syntax

text \<open>
  The reservation of log space. System calls run between \<^verbatim>\<open>begin_op\<close> and \<^verbatim>\<open>end_op\<close>; each may log up to
  \<^verbatim>\<open>MAXOPBLOCKS\<close> different blocks, and \<^verbatim>\<open>begin_op\<close> lets a call in only if all running calls
  together fit in \<^verbatim>\<open>LOGSIZE\<close> blocks. The calls are interleaved as whole steps of a transition system; the theory
  shows when the reservation keeps \<^verbatim>\<open>log_write\<close> from its panic, and when not.
\<close>

section \<open>What the buffer code leaves of the log\<close>

definition log_fields :: "'e logst_scheme \<Rightarrow> int \<times> uint list \<times> int \<times> uint" where
  "log_fields s = (lh_n s, lh_block s, outstanding s, log_size s)"

lemma log_blind [simp]: "phys_blind log_fields"
  by (simp add: phys_blind_def log_fields_def)

lemma log_keeps_upd [pres]:
  "keeps log_fields (upd_proc i f)" "keeps log_fields (upd_slk l g)" "keeps log_fields (upd_buf b h)"
  "keeps log_fields (getb b j)" "keeps log_fields (disk_write n d)"
  unfolding upd_proc_def upd_slk_def upd_buf_def getb_def disk_write_def
  by (intro pres keeps_upd; simp add: log_fields_def)+

lemma log_keeps_with_me [pres]: "(\<And>i. keeps log_fields (g i)) \<Longrightarrow> keeps log_fields (with_me g)"
  unfolding with_me_def by (intro pres)

lemma log_keeps_holding [pres]: "keeps log_fields (lock_holding l)"
  unfolding lock_holding_def by (intro pres)

lemma log_keeps_sched [pres]: "keeps log_fields sched"
  unfolding sched_def by (intro pres)

lemma log_keeps_wakeup [pres]: "keeps log_fields (wakeup ch)"
  unfolding wakeup_unfold wakeup1_def by (intro pres; simp)

lemma log_keeps_sleep [pres]: "keeps log_fields (sleep ch lk)"
  unfolding sleep_unfold by (intro pres; simp)

lemma log_keeps_sleeplock [pres]:
  "keeps log_fields (acquiresleep l)" "keeps log_fields (releasesleep l)" "keeps log_fields (holdingsleep l)"
  unfolding acquiresleep_def acquiresleep_loop_def releasesleep_def holdingsleep_def by (intro pres; simp)+

lemma log_keeps_iderw [pres]: "keeps log_fields (iderw b)"
  unfolding iderw_def by (intro pres)

lemma log_keeps_bio [pres]:
  "keeps log_fields (bread dev n)" "keeps log_fields (bwrite b)" "keeps log_fields (brelse b)"
  unfolding bread_def bget_def bwrite_def brelse_def
  by (intro pres keeps_upd; simp add: log_fields_def)+

lemma log_keeps_commit [pres]:
  "keeps log_fields write_log" "keeps log_fields write_head" "keeps log_fields install_trans"
  unfolding write_log_def log_one_def write_head_def install_trans_def install_one_def by (intro pres)+

section \<open>The steps of the log\<close>

lemma begin_op_Ret:
  assumes "begin_op s = Ret () s'"
  shows "lh_n s' = lh_n s" "outstanding s' = outstanding s + 1" "log_size s' = log_size s" "lh_block s' = lh_block s"
    "lh_n s + (outstanding s + 1) * MAXOPBLOCKS \<le> LOGSIZE"
  using assms
  by (auto simp: begin_op_def begin_op_loop_def lock_acquire_def lock_release_def thn_Ret_iff bnd_Ret_iff sleep_unfold sched_def with_me_def
      split: if_splits option.splits)

lemma commit_Ret:
  assumes "commit s = Ret () s'"
  shows "log_fields s' = (if 0 < lh_n s then (0, lh_block s, outstanding s, log_size s) else log_fields s)"
proof (cases "0 < lh_n s")
  case True
  with assms obtain t u v where t: "write_log s = Ret () t" and u: "write_head t = Ret () u" and v: "install_trans u = Ret () v"
    and w: "write_head (v\<lparr>lh_n := 0\<rparr>) = Ret () s'"
    by (auto simp: commit_def elim!: thn_RetE)
  have "log_fields v = log_fields s"
    using keeps_Ret [OF log_keeps_commit(1) t] keeps_Ret [OF log_keeps_commit(2) u] keeps_Ret [OF log_keeps_commit(3) v] by simp
  moreover have "log_fields s' = log_fields (v\<lparr>lh_n := 0\<rparr>)"
    using keeps_Ret [OF log_keeps_commit(2) w] by simp
  ultimately show ?thesis using True by (simp add: log_fields_def)
qed (use assms in \<open>simp add: commit_def\<close>)

lemma end_op_Ret:
  assumes "end_op s = Ret () s'"
  shows "outstanding s' = outstanding s - 1" "log_size s' = log_size s"
    "lh_n s' = lh_n s \<or> outstanding s' = 0 \<and> lh_n s' = 0" "lh_block s' = lh_block s"
proof -
  let ?s = "s\<lparr>held := LogLock # held s, outstanding := outstanding s - 1\<rparr>"
  have "log_fields s' = log_fields ?s \<or> outstanding s = 1 \<and> log_fields s' = (0, lh_block s, 0, log_size s)"
  proof (cases "outstanding s = 1")
    case False
    with assms obtain t where t: "wakeup (log_addr s) ?s = Ret () t" "lock_release LogLock t = Ret () s'"
      by (auto simp: end_op_def lock_acquire_def bnd_Ret_iff split: if_splits elim!: thn_RetE)
    show ?thesis using keeps_Ret [OF log_keeps_wakeup t(1)] keeps_Ret [OF keeps_lock(2) t(2), of log_fields] by simp
  next
    case True
    with assms obtain r t u v where r: "lock_release LogLock (?s\<lparr>committing := True\<rparr>) = Ret () r"
      and t: "commit r = Ret () t" and u: "lock_acquire LogLock t = Ret () u"
      and v: "wakeup (log_addr s) (u\<lparr>committing := False\<rparr>) = Ret () v" "lock_release LogLock v = Ret () s'"
      by (auto simp: end_op_def lock_acquire_def bnd_Ret_iff split: if_splits elim!: thn_RetE)
    have "log_fields r = log_fields ?s" using keeps_Ret [OF keeps_lock(2) r, of log_fields] by (simp add: log_fields_def)
    moreover have "log_fields u = log_fields t" using keeps_Ret [OF keeps_lock(1) u, of log_fields] by simp
    moreover have "log_fields s' = log_fields u"
      using keeps_Ret [OF log_keeps_wakeup v(1)] keeps_Ret [OF keeps_lock(2) v(2), of log_fields] by (simp add: log_fields_def)
    ultimately show ?thesis using commit_Ret [OF t] True by (auto simp: log_fields_def)
  qed
  then show "outstanding s' = outstanding s - 1" "log_size s' = log_size s" "lh_n s' = lh_n s \<or> outstanding s' = 0 \<and> lh_n s' = 0"
    "lh_block s' = lh_block s"
    by (auto simp: log_fields_def)
qed

definition in_trans :: "uint \<Rightarrow> 'e logst_scheme \<Rightarrow> bool" where
  "in_trans v s \<longleftrightarrow> v \<in> set (take (nat (lh_n s)) (lh_block s))"

lemma log_slot_new: "v \<notin> set (take n bl) \<Longrightarrow> log_slot bl n v = n"
  using first_idx_None [of "\<lambda>x. x = v" "take n bl"] by (auto simp: log_slot_def)

lemma log_slot_old: "v \<in> set (take n bl) \<Longrightarrow> log_slot bl n v < n \<and> bl ! log_slot bl n v = v"
  using first_idx_None [of "\<lambda>x. x = v" "take n bl"]
  by (auto simp: log_slot_def first_idx_Some split: option.splits)

lemma log_write_Ret:
  assumes "log_write b s = Ret () s'" and "0 \<le> lh_n s"
  shows "outstanding s' = outstanding s" "log_size s' = log_size s" "length (lh_block s') = length (lh_block s)"
    "lh_n s' = (if in_trans (b_blockno (bufs s ! b)) s then lh_n s else lh_n s + 1)"
  using assms log_slot_new [of "b_blockno (bufs s ! b)" "nat (lh_n s)" "lh_block s"]
    log_slot_old [of "b_blockno (bufs s ! b)" "nat (lh_n s)" "lh_block s"]
  by (auto simp: log_write_def lock_acquire_def lock_release_def set_block_def upd_buf_def getb_def in_trans_def thn_Ret_iff bnd_Ret_iff
      split: if_splits)

text \<open>
  \<open>log_run s ks\<close>: the state \<open>s\<close> is reached from an empty log by system calls of which some still run; \<open>ks\<close> has, for each
  of those, how many more blocks it may log. A call that finds its block in the log already does not use up its share.
  Everything else that the kernel does leaves the fields of the log alone.
\<close>

inductive log_run :: "'e logst_scheme \<Rightarrow> nat list \<Rightarrow> bool" where
  start: "lh_n s = 0 \<Longrightarrow> outstanding s = 0 \<Longrightarrow> length (lh_block s) = nat LOGSIZE \<Longrightarrow> log_run s []"
| op_begin: "log_run s ks \<Longrightarrow> begin_op s = Ret () s' \<Longrightarrow> log_run s' (nat MAXOPBLOCKS # ks)"
| op_write: "log_run s (ks @ Suc k # ls) \<Longrightarrow> log_write b s = Ret () s' \<Longrightarrow> log_run s' (ks @ k # ls)"
| op_again: "log_run s ks \<Longrightarrow> in_trans (b_blockno (bufs s ! b)) s \<Longrightarrow> log_write b s = Ret () s' \<Longrightarrow> log_run s' ks"
| op_end: "log_run s (ks @ k # ls) \<Longrightarrow> end_op s = Ret () s' \<Longrightarrow> log_run s' (ks @ ls)"
| other: "log_run s ks \<Longrightarrow> log_fields s' = log_fields s \<Longrightarrow> log_run s' ks"

lemma shares_bound: "\<forall>k \<in> set ks. int k \<le> c \<Longrightarrow> int (sum_list ks) \<le> int (length ks) * c"
  by (induction ks) (auto simp: algebra_simps)

lemma log_run_inv:
  assumes "log_run s ks"
  shows "0 \<le> lh_n s \<and> length (lh_block s) = nat LOGSIZE \<and> outstanding s = int (length ks) \<and> lh_n s + int (sum_list ks) \<le> LOGSIZE
    \<and> (\<forall>k \<in> set ks. int k \<le> MAXOPBLOCKS)"
  using assms
proof (induction rule: log_run.induct)
  case (op_begin s ks s')
  then show ?case using begin_op_Ret [OF op_begin.hyps(2)] shares_bound [of ks MAXOPBLOCKS]
    by (simp add: MAXOPBLOCKS_def LOGSIZE_def algebra_simps)
next
  case (op_write s ks k ls b s')
  then show ?case using log_write_Ret [OF op_write.hyps(2)] by (auto simp: algebra_simps)
next
  case (op_again s ks b s')
  then show ?case using log_write_Ret [OF op_again.hyps(3)] by simp
next
  case (op_end s ks k ls s')
  then show ?case using end_op_Ret [OF op_end.hyps(2)] by (auto simp: LOGSIZE_def MAXOPBLOCKS_def)
next
  case (other s ks s')
  then show ?case by (simp add: log_fields_def)
qed (simp_all add: LOGSIZE_def MAXOPBLOCKS_def)

section \<open>When the reservation is enough\<close>

lemma log_write_run:
  assumes "0 \<le> lh_n s" "lh_n s < LOGSIZE" "lh_n s < sint (log_size s) - 1" "0 < outstanding s" "lock_free LogLock s"
    "length (lh_block s) = nat LOGSIZE"
  shows "log_write b s = Ret () (s\<lparr>
    lh_n := (if in_trans (b_blockno (bufs s ! b)) s then lh_n s else lh_n s + 1),
    lh_block := (if in_trans (b_blockno (bufs s ! b)) s then lh_block s else (lh_block s)[nat (lh_n s) := b_blockno (bufs s ! b)]),
    bufs := (bufs s)[b := (bufs s ! b)\<lparr>b_flags := b_flags (bufs s ! b) OR B_DIRTY\<rparr>]\<rparr>)"
proof -
  let ?v = "b_blockno (bufs s ! b)" and ?n = "nat (lh_n s)"
  have len: "?n < length (lh_block s)" using assms(1,2,6) by (simp add: LOGSIZE_def MAXOPBLOCKS_def)
  have g: "\<not> (LOGSIZE \<le> lh_n s \<or> sint (log_size s) - 1 \<le> lh_n s)" "\<not> outstanding s < 1" using assms by auto
  show ?thesis
  proof (cases "in_trans ?v s")
    case True
    then have "log_slot (lh_block s) ?n ?v < ?n" "lh_block s ! log_slot (lh_block s) ?n ?v = ?v"
      using log_slot_old by (auto simp: in_trans_def)
    then show ?thesis using True g len assms(1,5)
      by (simp add: log_write_def thn_acquire lock_free_def set_block_def getb_def upd_buf_def lock_release_run list_update_same_conv)
  next
    case False
    then have "log_slot (lh_block s) ?n ?v = ?n" using log_slot_new by (auto simp: in_trans_def)
    then show ?thesis using False g len assms(1,5)
      by (simp add: log_write_def thn_acquire lock_free_def set_block_def getb_def upd_buf_def lock_release_run)
  qed
qed

text \<open>C7: on a log that has a block for the header and \<^verbatim>\<open>LOGSIZE\<close> blocks for data, \<^verbatim>\<open>log_write\<close> never panics for lack of
  space: in every state that system calls reach, a call that has logged fewer than \<^verbatim>\<open>MAXOPBLOCKS\<close> blocks can log another.\<close>

theorem log_space_suffices:
  assumes "log_run s ks" and "k \<in> set ks" and "0 < k" and "LOGSIZE < sint (log_size s)" and "lock_free LogLock s"
  shows "\<exists>s'. log_write b s = Ret () s'"
proof -
  note i = log_run_inv [OF assms(1)]
  have "int k \<le> int (sum_list ks)" using assms(2) by (simp add: member_le_sum_list)
  with i assms(3) have "lh_n s < LOGSIZE" by linarith
  moreover have "0 < outstanding s" using i assms(2) by (cases ks) auto
  ultimately show ?thesis using log_write_run [of s b] i assms(4,5) by auto
qed

text \<open>Three system calls are let in, and the first logs a block.\<close>

definition space_example :: "uint \<Rightarrow> logst" where
  "space_example sz = log_example\<lparr>lh_n := 0, outstanding := 0, committing := False, log_size := sz,
     lh_block := replicate 30 0\<rparr>"

lemma space_example_sel [simp]:
  "lh_n (space_example sz) = 0" "outstanding (space_example sz) = 0" "\<not> committing (space_example sz)"
  "log_size (space_example sz) = sz" "length (lh_block (space_example sz)) = nat LOGSIZE"
  "held (space_example sz) = []" "others (space_example sz) = {}"
  using log_example_calm by (simp_all add: space_example_def log_example_sel LOGSIZE_def MAXOPBLOCKS_def calm_def)

lemma begin_op_runs:
  assumes "held s = []" "others s = {}" "\<not> committing s" "lh_n s + (outstanding s + 1) * MAXOPBLOCKS \<le> LOGSIZE"
  shows "begin_op s = Ret () (s\<lparr>outstanding := outstanding s + 1\<rparr>)"
  using assms
  by (simp add: begin_op_def begin_op_loop_def thn_acquire lock_free_def lock_release_run held_same)

lemma space_example_run: "log_run ((space_example sz)\<lparr>outstanding := 3\<rparr>) [10, 10, 10]"
proof -
  have m: "nat MAXOPBLOCKS = 10" by (simp add: MAXOPBLOCKS_def)
  have c: "0 + 1 * MAXOPBLOCKS \<le> LOGSIZE" "0 + 2 * MAXOPBLOCKS \<le> LOGSIZE" "0 + 3 * MAXOPBLOCKS \<le> LOGSIZE"
    by (simp_all add: LOGSIZE_def MAXOPBLOCKS_def)
  let ?s = "space_example sz"
  have "log_run ?s []" by (rule log_run.start) simp_all
  then have "log_run (?s\<lparr>outstanding := 1\<rparr>) [10]"
    using log_run.op_begin [of ?s "[]" "?s\<lparr>outstanding := 1\<rparr>"] begin_op_runs [of ?s] c m by simp
  then have "log_run (?s\<lparr>outstanding := 2\<rparr>) [10, 10]"
    using log_run.op_begin [of "?s\<lparr>outstanding := 1\<rparr>" "[10]" "?s\<lparr>outstanding := 2\<rparr>"] begin_op_runs [of "?s\<lparr>outstanding := 1\<rparr>"] c m
    by simp
  then show ?thesis
    using log_run.op_begin [of "?s\<lparr>outstanding := 2\<rparr>" "[10, 10]" "?s\<lparr>outstanding := 3\<rparr>"] begin_op_runs [of "?s\<lparr>outstanding := 2\<rparr>"] c m
    by simp
qed

theorem log_space_suffices_witness:
  "\<exists>s'. log_write 0 ((space_example 31)\<lparr>outstanding := 3\<rparr>) = Ret () s'"
  by (rule log_space_suffices [OF space_example_run [of 31], of 10]) (simp_all add: LOGSIZE_def MAXOPBLOCKS_def lock_free_def)

section \<open>When it is not\<close>

definition logging :: "nat \<Rightarrow> uint \<Rightarrow> logst" where
  "logging n v = (space_example 30)\<lparr>outstanding := 3, lh_n := int n,
     lh_block := map of_nat [1..<Suc n] @ replicate (30 - n) 0,
     bufs := (bufs log_example)[0 := (bufs log_example ! 0)\<lparr>b_blockno := v\<rparr>]\<rparr>"

lemma logging_sel:
  "log_fields (logging n v) = (int n, map of_nat [1..<Suc n] @ replicate (30 - n) 0, 3, 30)"
  "b_blockno (bufs (logging n v) ! 0) = v" "lock_free LogLock (logging n v)"
  "n \<le> 30 \<Longrightarrow> length (lh_block (logging n v)) = nat LOGSIZE"
  by (simp_all add: logging_def log_fields_def lock_free_def LOGSIZE_def MAXOPBLOCKS_def log_example_sel del: upt_Suc)

lemma of_nat_small_inj: "a < 2 ^ 32 \<Longrightarrow> b < 2 ^ 32 \<Longrightarrow> (of_nat a :: uint) = of_nat b \<longleftrightarrow> a = b"
  using unat_small by metis

lemma logging_fresh:
  assumes "n < 30"
  shows "\<not> in_trans (of_nat (Suc n)) (logging n v)"
proof -
  have "(of_nat (Suc n) :: uint) \<notin> of_nat ` {1..<Suc n}"
    using assms by (auto simp: of_nat_small_inj simp del: of_nat_Suc)
  moreover have "take n (map of_nat [1..<Suc n] @ replicate (30 - n) (0 :: uint)) = map of_nat [1..<Suc n]" by (simp del: upt_Suc)
  ultimately show ?thesis by (auto simp: in_trans_def logging_def simp del: upt_Suc of_nat_Suc)
qed

lemma logging_step:
  assumes "n < 29" and "log_run (logging n v) ks" and "sum_list ks = 30 - n"
  shows "\<exists>ls. log_run (logging (Suc n) v) ls \<and> sum_list ls = 30 - Suc n"
proof -
  let ?s = "logging n (of_nat (Suc n))"
  have "sum_list ks \<noteq> 0" using assms(1,3) by simp
  then have "\<exists>k \<in> set ks. k \<noteq> 0" by (simp add: sum_list_eq_0_iff)
  then obtain as k bs where ks: "ks = as @ Suc k # bs" by (metis not0_implies_Suc split_list)
  have f: "lh_n ?s = int n" "outstanding ?s = 3" "log_size ?s = 30" "lh_block ?s = map of_nat [1..<Suc n] @ replicate (30 - n) 0"
    using logging_sel(1) [of n "of_nat (Suc n)"] by (simp_all add: log_fields_def del: upt_Suc of_nat_Suc)
  have r: "log_run ?s ks" using assms(2) by (rule log_run.other) (simp add: logging_sel del: upt_Suc of_nat_Suc)
  have l: "length (lh_block ?s) = nat LOGSIZE" using assms(1) logging_sel(4) [of n "of_nat (Suc n)"] by simp
  have lt: "lh_n ?s < LOGSIZE" "lh_n ?s < sint (log_size ?s) - 1" using assms(1) f by (simp_all add: LOGSIZE_def MAXOPBLOCKS_def)
  have fr: "\<not> in_trans (of_nat (Suc n)) ?s" using assms(1) by (intro logging_fresh) simp
  obtain t where t: "log_write 0 ?s = Ret () t"
    and ft: "log_fields t = (int n + 1, (map of_nat [1..<Suc n] @ replicate (30 - n) 0)[n := of_nat (Suc n)], 3, 30)"
    using log_write_run [of ?s 0, OF _ lt _ logging_sel(3) l] f fr logging_sel(2) [of n "of_nat (Suc n)"]
    by (simp add: log_fields_def del: upt_Suc of_nat_Suc)
  have "log_run t (as @ k # bs)" using r t unfolding ks by (rule log_run.op_write)
  moreover have "log_fields (logging (Suc n) v) = log_fields t"
    using assms(1) ft by (simp add: logging_sel list_update_append upt_Suc_append Suc_diff_Suc [symmetric] del: upt_Suc of_nat_Suc)
  ultimately show ?thesis using assms(3) ks by (intro exI [of _ "as @ k # bs"]) (auto intro: log_run.other)
qed

lemma logging_reached:
  assumes "n \<le> 29"
  shows "\<exists>ks. log_run (logging n v) ks \<and> sum_list ks = 30 - n"
  using assms
proof (induction n)
  case 0
  let ?s = "(space_example 30)\<lparr>outstanding := 3\<rparr>"
  have "log_fields (logging 0 v) = log_fields ?s" by (simp add: logging_def log_fields_def space_example_def)
  with space_example_run [of 30] show ?case by (intro exI [of _ "[10, 10, 10]"]) (auto intro: log_run.other)
next
  case (Suc n)
  then obtain ks where "log_run (logging n v) ks" "sum_list ks = 30 - n" by auto
  with Suc.prems show ?case by (intro logging_step) auto
qed

text \<open>C8: on a log of \<^verbatim>\<open>LOGSIZE\<close> blocks in all, the size that \<^verbatim>\<open>mkfs.c\<close> gives it, the reservation is one block short: system
  calls that keep to their share reach a state in which a call still has a block to log, and \<^verbatim>\<open>log_write\<close> panics.\<close>

theorem log_space_short:
  "\<exists>s ks. log_run (s :: logst) ks \<and> 0 < sum_list ks \<and> sint (log_size s) = LOGSIZE
    \<and> log_write b s = Stop (Panic ''too big a transaction'') s"
proof -
  obtain ks where ks: "log_run (logging 29 0) ks" "sum_list ks = 1" using logging_reached [of 29 0] by auto
  have "lh_n (logging 29 0) = 29" "log_size (logging 29 0) = 30" by (simp_all add: logging_def)
  then have "log_write b (logging 29 0) = Stop (Panic ''too big a transaction'') (logging 29 0)"
    "sint (log_size (logging 29 0)) = LOGSIZE"
    by (simp_all add: log_write_def LOGSIZE_def MAXOPBLOCKS_def)
  with ks show ?thesis by (intro exI [of _ "logging 29 0"] exI [of _ ks]) simp
qed

end
