(* ===== verification/Fs.thy ===== *)
theory Fs
  imports Log CString
begin

unbundle bit_operations_syntax

text \<open>
  The file system (\<^verbatim>\<open>fs.c\<close>, \<^verbatim>\<open>fs.h\<close>): block allocation, inodes, their contents, directories and path names,
  and the two device functions of \<^verbatim>\<open>console.c\<close>, which lock and unlock an inode.

  An in-memory inode is named by its index in \<^verbatim>\<open>icache.inode\<close>; an inode pointer that may be null is an
  option. The fields of disk structures are read from and written to the bytes of a buffer. Where
  the code passes the address of a local structure (a directory entry, an ELF header) the
  bytes of the structure are \<open>kbuf\<close>; other addresses are in user memory or in kernel memory
  (\<open>place\<close>). \<open>input_addr\<close> is the address of \<^verbatim>\<open>input.r\<close>, the channel of the console. The only device of
  \<^verbatim>\<open>devsw\<close> is the console.
\<close>

section \<open>State\<close>

record inode =
  i_dev :: uint
  i_inum :: uint
  i_ref :: int
  i_valid :: bool
  i_type :: ushort
  i_major :: ushort
  i_minor :: ushort
  i_nlink :: ushort
  i_size :: uint
  i_addrs :: "uint list"

definition NINODE :: nat where
  "NINODE = 50"

definition NDIRECT :: nat where
  "NDIRECT = 12"

definition NINDIRECT :: nat where
  "NINDIRECT = BSIZE div 4"

definition MAXFILE :: nat where
  "MAXFILE = NDIRECT + NINDIRECT"

definition IPB :: nat where
  "IPB = BSIZE div 64"

definition BPB :: nat where
  "BPB = BSIZE * 8"

definition DIRSIZ :: nat where
  "DIRSIZ = 14"

definition ROOTDEV :: uint where
  "ROOTDEV = 1"

definition ROOTINO :: uint where
  "ROOTINO = 1"

abbreviation T_DIR :: ushort where "T_DIR \<equiv> 1"
abbreviation T_FILE :: ushort where "T_FILE \<equiv> 2"
abbreviation T_DEV :: ushort where "T_DEV \<equiv> 3"

record fsst = logst +
  sb :: superblock
  inodes :: "inode list"
  kbuf :: "nat \<Rightarrow> uchar"
  input_addr :: uint

definition IBLOCK :: "uint \<Rightarrow> superblock \<Rightarrow> uint" where
  "IBLOCK i b = i div of_nat IPB + sb_inodestart b"

definition BBLOCK :: "uint \<Rightarrow> superblock \<Rightarrow> uint" where
  "BBLOCK b sp = b div of_nat BPB + sb_bmapstart sp"

definition geti :: "nat \<Rightarrow> (inode \<Rightarrow> 'a) \<Rightarrow> ('e fsst_scheme, 'a) km" where
  "geti ip f = gets (\<lambda>s. f (inodes s ! ip))"

definition upd_inode :: "nat \<Rightarrow> (inode \<Rightarrow> inode) \<Rightarrow> ('e fsst_scheme, unit) km" where
  "upd_inode ip f = upd (\<lambda>s. s\<lparr>inodes := (inodes s)[ip := f (inodes s ! ip)]\<rparr>)"

definition inode_slk :: "nat \<Rightarrow> nat" where
  "inode_slk ip = NBUF + ip"

section \<open>Where data is copied from and to\<close>

datatype place = Local | User uint | KAddr uint

definition put_place :: "place \<Rightarrow> uint \<Rightarrow> uchar list \<Rightarrow> ('e fsst_scheme, unit) km" where
  "put_place p ofs bs =
     (case p of
        Local \<Rightarrow> upd (\<lambda>s. s\<lparr>kbuf := (\<lambda>i. if unat ofs \<le> i \<and> i < unat ofs + length bs then bs ! (i - unat ofs) else kbuf s i)\<rparr>)
      | User va \<Rightarrow> usts (va + ofs) bs
      | KAddr v \<Rightarrow> put_bytes (v + ofs) bs)"

fun klds :: "uint \<Rightarrow> nat \<Rightarrow> ('e phys_scheme, uchar list) km" where
  "klds v 0 = ret []"
| "klds v (Suc n) = bnd (ld8 v) (\<lambda>b. bnd (klds (v + 1) n) (\<lambda>bs. ret (b # bs)))"

definition get_place :: "place \<Rightarrow> uint \<Rightarrow> nat \<Rightarrow> ('e fsst_scheme, uchar list) km" where
  "get_place p ofs n =
     (case p of
        Local \<Rightarrow> gets (\<lambda>s. map (kbuf s) [unat ofs..<unat ofs + n])
      | User va \<Rightarrow> ulds (va + ofs) n
      | KAddr v \<Rightarrow> klds (v + ofs) n)"

definition kbuf_bytes :: "nat \<Rightarrow> ('e fsst_scheme, uchar list) km" where
  "kbuf_bytes n = gets (\<lambda>s. map (kbuf s) [0..<n])"

section \<open>Blocks\<close>

definition bzero :: "uint \<Rightarrow> uint \<Rightarrow> ('e fsst_scheme, unit) km" where
  "bzero dev bno =
     bnd (bread dev bno) (\<lambda>bp.
     thn (upd_buf bp (\<lambda>b. b\<lparr>b_data := replicate BSIZE 0\<rparr>)) (
     thn (log_write bp) (
     brelse bp)))"

definition bit_mask :: "nat \<Rightarrow> uchar" where
  "bit_mask bi = push_bit (bi mod 8) 1"

definition bit_free :: "uchar list \<Rightarrow> nat \<Rightarrow> bool" where
  "bit_free d bi \<longleftrightarrow> d ! (bi div 8) AND bit_mask bi = 0"

text \<open>The bits of the bitmap block that starts at block \<open>b\<close>, up to the size of the file system.\<close>

definition bmap_bits :: "superblock \<Rightarrow> nat \<Rightarrow> nat list" where
  "bmap_bits sp b = [0..<min BPB (unat (sb_size sp) - b)]"

definition bmap_starts :: "superblock \<Rightarrow> nat list" where
  "bmap_starts sp = map (\<lambda>k. k * BPB) [0..<(unat (sb_size sp) + BPB - 1) div BPB]"

fun balloc_scan :: "uint \<Rightarrow> nat list \<Rightarrow> ('e fsst_scheme, uint) km" where
  "balloc_scan dev [] = panic ''balloc: out of blocks''"
| "balloc_scan dev (b # bs) =
     bnd (gets sb) (\<lambda>sp.
     bnd (bread dev (BBLOCK (of_nat b) sp)) (\<lambda>bp.
     bnd (getb bp b_data) (\<lambda>d. case find (bit_free d) (bmap_bits sp b) of
       Some bi \<Rightarrow>
         thn (upd_buf bp (\<lambda>x. x\<lparr>b_data := (b_data x)[bi div 8 := b_data x ! (bi div 8) OR bit_mask bi]\<rparr>)) (
         thn (log_write bp) (
         thn (brelse bp) (
         thn (bzero dev (of_nat (b + bi))) (
         ret (of_nat (b + bi))))))
     | None \<Rightarrow> thn (brelse bp) (balloc_scan dev bs))))"

definition balloc :: "uint \<Rightarrow> ('e fsst_scheme, uint) km" where
  "balloc dev = bnd (gets sb) (\<lambda>sp. balloc_scan dev (bmap_starts sp))"

definition bfree :: "uint \<Rightarrow> uint \<Rightarrow> ('e fsst_scheme, unit) km" where
  "bfree dev b =
     bnd (gets sb) (\<lambda>sp.
     bnd (bread dev (BBLOCK b sp)) (\<lambda>bp.
     bnd (getb bp b_data) (\<lambda>d.
     let bi = unat b mod BPB in
     if bit_free d bi then panic ''freeing free block''
     else
       thn (upd_buf bp (\<lambda>x. x\<lparr>b_data := (b_data x)[bi div 8 := b_data x ! (bi div 8) AND NOT (bit_mask bi)]\<rparr>)) (
       thn (log_write bp) (
       brelse bp)))))"

section \<open>Inodes\<close>

definition iinit :: "uint \<Rightarrow> ('e fsst_scheme, unit) km" where
  "iinit dev =
     thn (lock_init IcacheLock) (
     thn (for_each [0..<NINODE] (\<lambda>i. initsleeplock (inode_slk i))) (
     bnd (readsb dev) (\<lambda>sp.
     thn (upd (\<lambda>s. s\<lparr>sb := sp\<rparr>)) (
     kprintf (bytes_of ''sb: size %d nblocks %d ninodes %d nlog %d logstart %d inodestart %d bmap start %d\<newline>'') []
       [sb_size sp, sb_nblocks sp, sb_ninodes sp, sb_nlog sp, sb_logstart sp, sb_inodestart sp, sb_bmapstart sp]))))"

text \<open>An on-disk inode is 64 bytes: four 16-bit fields, the size and the 13 addresses.\<close>

definition dinode_at :: "uint \<Rightarrow> nat" where
  "dinode_at inum = (unat inum mod IPB) * 64"

definition dinode_type :: "uint \<Rightarrow> uchar list \<Rightarrow> ushort" where
  "dinode_type inum d = get16 (dinode_at inum) d"

definition dinode_store :: "inode \<Rightarrow> uchar list \<Rightarrow> uchar list" where
  "dinode_store ip d =
     (let ofs = dinode_at (i_inum ip) in
      put_at (ofs + 12) (concat (map (bytes_of_word 4) (i_addrs ip))) (
      put32 (ofs + 8) (i_size ip) (
      put16 (ofs + 6) (i_nlink ip) (
      put16 (ofs + 4) (i_minor ip) (
      put16 (ofs + 2) (i_major ip) (
      put16 ofs (i_type ip) d))))))"

definition dinode_load :: "uchar list \<Rightarrow> inode \<Rightarrow> inode" where
  "dinode_load d ip =
     (let ofs = dinode_at (i_inum ip) in
      ip\<lparr>i_type := get16 ofs d, i_major := get16 (ofs + 2) d, i_minor := get16 (ofs + 4) d,
         i_nlink := get16 (ofs + 6) d, i_size := get32 (ofs + 8) d,
         i_addrs := map (\<lambda>k. get32 (ofs + 12 + 4 * k) d) [0..<NDIRECT + 1]\<rparr>)"

definition iupdate :: "nat \<Rightarrow> ('e fsst_scheme, unit) km" where
  "iupdate ip =
     bnd (gets (\<lambda>s. inodes s ! ip)) (\<lambda>i.
     bnd (gets sb) (\<lambda>sp.
     bnd (bread (i_dev i) (IBLOCK (i_inum i) sp)) (\<lambda>bp.
     thn (upd_buf bp (\<lambda>b. b\<lparr>b_data := dinode_store i (b_data b)\<rparr>)) (
     thn (log_write bp) (
     brelse bp)))))"

definition iget :: "uint \<Rightarrow> uint \<Rightarrow> ('e fsst_scheme, nat) km" where
  "iget dev inum =
     thn (lock_acquire IcacheLock) (
     bnd (gets (\<lambda>s. first_idx (\<lambda>i. 0 < i_ref i \<and> i_dev i = dev \<and> i_inum i = inum) (inodes s))) (\<lambda>c. case c of
       Some ip \<Rightarrow>
         thn (upd_inode ip (\<lambda>i. i\<lparr>i_ref := i_ref i + 1\<rparr>)) (
         thn (lock_release IcacheLock) (
         ret ip))
     | None \<Rightarrow>
         bnd (gets (\<lambda>s. first_idx (\<lambda>i. i_ref i = 0) (inodes s))) (\<lambda>e. case e of
           None \<Rightarrow> panic ''iget: no inodes''
         | Some ip \<Rightarrow>
             thn (upd_inode ip (\<lambda>i. i\<lparr>i_dev := dev, i_inum := inum, i_ref := 1, i_valid := False\<rparr>)) (
             thn (lock_release IcacheLock) (
             ret ip)))))"

fun ialloc_scan :: "uint \<Rightarrow> ushort \<Rightarrow> nat list \<Rightarrow> ('e fsst_scheme, nat) km" where
  "ialloc_scan dev ty [] = panic ''ialloc: no inodes''"
| "ialloc_scan dev ty (inum # is) =
     bnd (gets sb) (\<lambda>sp.
     bnd (bread dev (IBLOCK (of_nat inum) sp)) (\<lambda>bp.
     bnd (getb bp b_data) (\<lambda>d.
     if dinode_type (of_nat inum) d = 0 then
       thn (upd_buf bp (\<lambda>b. b\<lparr>b_data := put16 (dinode_at (of_nat inum)) ty (put_at (dinode_at (of_nat inum)) (replicate 64 0) (b_data b))\<rparr>)) (
       thn (log_write bp) (
       thn (brelse bp) (
       iget dev (of_nat inum))))
     else thn (brelse bp) (ialloc_scan dev ty is))))"

definition ialloc :: "uint \<Rightarrow> ushort \<Rightarrow> ('e fsst_scheme, nat) km" where
  "ialloc dev ty = bnd (gets sb) (\<lambda>sp. ialloc_scan dev ty [1..<unat (sb_ninodes sp)])"

definition idup :: "nat \<Rightarrow> ('e fsst_scheme, nat) km" where
  "idup ip =
     thn (lock_acquire IcacheLock) (
     thn (upd_inode ip (\<lambda>i. i\<lparr>i_ref := i_ref i + 1\<rparr>)) (
     thn (lock_release IcacheLock) (
     ret ip)))"

text \<open>\<open>ilock_body\<close> is \<^verbatim>\<open>ilock\<close> after the sleep lock has been taken.\<close>

definition ilock_body :: "nat \<Rightarrow> ('e fsst_scheme, unit) km" where
  "ilock_body ip =
     bnd (gets (\<lambda>s. inodes s ! ip)) (\<lambda>i.
     if \<not> i_valid i then
       bnd (gets sb) (\<lambda>sp.
       bnd (bread (i_dev i) (IBLOCK (i_inum i) sp)) (\<lambda>bp.
       bnd (getb bp b_data) (\<lambda>d.
       thn (upd_inode ip (dinode_load d)) (
       thn (brelse bp) (
       thn (upd_inode ip (\<lambda>i. i\<lparr>i_valid := True\<rparr>)) (
       bnd (geti ip i_type) (\<lambda>ty.
       if ty = 0 then panic ''ilock: no type'' else ret ())))))))
     else ret ())"

definition ilock :: "nat option \<Rightarrow> ('e fsst_scheme, unit) km" where
  "ilock p =
     (case p of None \<Rightarrow> panic ''ilock''
      | Some ip \<Rightarrow>
          bnd (geti ip i_ref) (\<lambda>r.
          if r < 1 then panic ''ilock''
          else
            thn (acquiresleep (inode_slk ip)) (
            ilock_body ip)))"

definition iunlock :: "nat option \<Rightarrow> ('e fsst_scheme, unit) km" where
  "iunlock p =
     (case p of None \<Rightarrow> panic ''iunlock''
      | Some ip \<Rightarrow>
          bnd (holdingsleep (inode_slk ip)) (\<lambda>h.
          bnd (geti ip i_ref) (\<lambda>r.
          if \<not> h \<or> r < 1 then panic ''iunlock''
          else releasesleep (inode_slk ip))))"

end
