(* ===== verification/Inode.thy ===== *)
theory Inode
  imports Fs
begin

unbundle bit_operations_syntax

text \<open>
  The contents of inodes (\<^verbatim>\<open>bmap\<close> to \<^verbatim>\<open>writei\<close> of \<^verbatim>\<open>fs.c\<close>), the console as a device, and the counters of
  \<^verbatim>\<open>get_fs_stats\<close>.

  The rounds of the loops of \<^verbatim>\<open>readi\<close> and \<^verbatim>\<open>writei\<close> depend on the offset and the count only: \<open>chunks\<close> lists
  them as the bytes already done, the offset in the file and the number of bytes of the round.
\<close>

section \<open>The blocks of an inode\<close>

definition bmap :: "nat \<Rightarrow> uint \<Rightarrow> ('e fsst_scheme, uint) km" where
  "bmap ip bn =
     bnd (geti ip i_dev) (\<lambda>dev.
     if unat bn < NDIRECT then
       bnd (geti ip (\<lambda>i. i_addrs i ! unat bn)) (\<lambda>addr.
       if addr = 0 then
         bnd (balloc dev) (\<lambda>addr.
         thn (upd_inode ip (\<lambda>i. i\<lparr>i_addrs := (i_addrs i)[unat bn := addr]\<rparr>)) (
         ret addr))
       else ret addr)
     else
       let bn = unat bn - NDIRECT in
       if bn < NINDIRECT then
         bnd (geti ip (\<lambda>i. i_addrs i ! NDIRECT)) (\<lambda>addr.
         bnd (if addr = 0 then
                bnd (balloc dev) (\<lambda>addr.
                thn (upd_inode ip (\<lambda>i. i\<lparr>i_addrs := (i_addrs i)[NDIRECT := addr]\<rparr>)) (
                ret addr))
              else ret addr) (\<lambda>addr.
         bnd (bread dev addr) (\<lambda>bp.
         bnd (getb bp (\<lambda>b. get32 (4 * bn) (b_data b))) (\<lambda>addr.
         bnd (if addr = 0 then
                bnd (balloc dev) (\<lambda>addr.
                thn (upd_buf bp (\<lambda>b. b\<lparr>b_data := put32 (4 * bn) addr (b_data b)\<rparr>)) (
                thn (log_write bp) (
                ret addr)))
              else ret addr) (\<lambda>addr.
         thn (brelse bp) (
         ret addr))))))
       else panic ''bmap: out of range'')"

definition itrunc :: "nat \<Rightarrow> ('e fsst_scheme, unit) km" where
  "itrunc ip =
     bnd (geti ip i_dev) (\<lambda>dev.
     thn (for_each [0..<NDIRECT] (\<lambda>i.
       bnd (geti ip (\<lambda>x. i_addrs x ! i)) (\<lambda>a.
       if a \<noteq> 0 then
         thn (bfree dev a) (
         upd_inode ip (\<lambda>x. x\<lparr>i_addrs := (i_addrs x)[i := 0]\<rparr>))
       else ret ()))) (
     bnd (geti ip (\<lambda>x. i_addrs x ! NDIRECT)) (\<lambda>ind.
     thn (if ind \<noteq> 0 then
            bnd (bread dev ind) (\<lambda>bp.
            thn (for_each [0..<NINDIRECT] (\<lambda>j.
              bnd (getb bp (\<lambda>b. get32 (4 * j) (b_data b))) (\<lambda>a.
              if a \<noteq> 0 then bfree dev a else ret ()))) (
            thn (brelse bp) (
            thn (bfree dev ind) (
            upd_inode ip (\<lambda>x. x\<lparr>i_addrs := (i_addrs x)[NDIRECT := 0]\<rparr>)))))
          else ret ()) (
     thn (upd_inode ip (\<lambda>x. x\<lparr>i_size := 0\<rparr>)) (
     iupdate ip)))))"

definition iput :: "nat \<Rightarrow> ('e fsst_scheme, unit) km" where
  "iput ip =
     thn (acquiresleep (inode_slk ip)) (
     bnd (gets (\<lambda>s. inodes s ! ip)) (\<lambda>i.
     thn (if i_valid i \<and> i_nlink i = 0 then
            thn (lock_acquire IcacheLock) (
            bnd (geti ip i_ref) (\<lambda>r.
            thn (lock_release IcacheLock) (
            if r = 1 then
              thn (itrunc ip) (
              thn (upd_inode ip (\<lambda>x. x\<lparr>i_type := 0\<rparr>)) (
              thn (iupdate ip) (
              upd_inode ip (\<lambda>x. x\<lparr>i_valid := False\<rparr>))))
            else ret ())))
          else ret ()) (
     thn (releasesleep (inode_slk ip)) (
     thn (lock_acquire IcacheLock) (
     thn (upd_inode ip (\<lambda>x. x\<lparr>i_ref := i_ref x - 1\<rparr>)) (
     lock_release IcacheLock))))))"

definition iunlockput :: "nat \<Rightarrow> ('e fsst_scheme, unit) km" where
  "iunlockput ip = thn (iunlock (Some ip)) (iput ip)"

text \<open>\<^verbatim>\<open>struct stat\<close>: type at 0, dev at 4, ino at 8, nlink at 12, size at 16.\<close>

definition stati :: "nat \<Rightarrow> place \<Rightarrow> ('e fsst_scheme, unit) km" where
  "stati ip st =
     bnd (gets (\<lambda>s. inodes s ! ip)) (\<lambda>i.
     thn (put_place st 4 (bytes_of_word 4 (i_dev i))) (
     thn (put_place st 8 (bytes_of_word 4 (i_inum i))) (
     thn (put_place st 0 (bytes_of_word 2 (ucast (i_type i)))) (
     thn (put_place st 12 (bytes_of_word 2 (ucast (i_nlink i)))) (
     put_place st 16 (bytes_of_word 4 (i_size i)))))))"

section \<open>The console as a device\<close>

definition consoleread :: "nat \<Rightarrow> place \<Rightarrow> int \<Rightarrow> ('e fsst_scheme, int) km" where
  "consoleread ip dst n =
     thn (iunlock (Some ip)) (
     bnd (gets input_addr) (\<lambda>ch.
     bnd (consoleread_body (\<lambda>ofs c. put_place dst ofs [c]) ch n) (\<lambda>r.
     thn (ilock (Some ip)) (
     ret r))))"

definition consolewrite :: "nat \<Rightarrow> place \<Rightarrow> int \<Rightarrow> ('e fsst_scheme, int) km" where
  "consolewrite ip src n =
     thn (iunlock (Some ip)) (
     bnd (consolewrite_body (\<lambda>ofs. bnd (get_place src ofs 1) (\<lambda>bs. ret (hd bs))) n) (\<lambda>r.
     thn (ilock (Some ip)) (
     ret r)))"

definition CONSOLE :: int where
  "CONSOLE = 1"

section \<open>Reading and writing\<close>

function chunks :: "nat \<Rightarrow> nat \<Rightarrow> nat \<Rightarrow> (nat \<times> nat \<times> nat) list" where
  "chunks tot ofs n =
     (if tot < n then
        let m = min (n - tot) (BSIZE - ofs mod BSIZE) in (tot, ofs, m) # chunks (tot + m) (ofs + m) n
      else [])"
  by pat_completeness auto
termination
  by (relation "measure (\<lambda>(tot, ofs, n). n - tot)") (auto simp: BSIZE_def Let_def)

declare chunks.simps [simp del]

definition readi :: "nat \<Rightarrow> place \<Rightarrow> uint \<Rightarrow> uint \<Rightarrow> ('e fsst_scheme, uint) km" where
  "readi ip dst ofs n =
     bnd (gets (\<lambda>s. inodes s ! ip)) (\<lambda>i.
     if i_type i = T_DEV then
       if sint (i_major i) = CONSOLE then bnd (consoleread ip dst (sint n)) (\<lambda>r. ret (word_of_int r))
       else ret (-1)
     else if i_size i < ofs \<or> ofs + n < ofs then ret (-1)
     else
       let n = (if i_size i < ofs + n then i_size i - ofs else n) in
       thn (for_each (chunks 0 (unat ofs) (unat n)) (\<lambda>(tot, pos, m).
         bnd (bmap ip (of_nat (pos div BSIZE))) (\<lambda>addr.
         bnd (bread (i_dev i) addr) (\<lambda>bp.
         bnd (getb bp (\<lambda>b. get_at (pos mod BSIZE) m (b_data b))) (\<lambda>bs.
         thn (put_place dst (of_nat tot) bs) (
         brelse bp)))))) (
       ret n))"

definition writei :: "nat \<Rightarrow> place \<Rightarrow> uint \<Rightarrow> uint \<Rightarrow> ('e fsst_scheme, uint) km" where
  "writei ip src ofs n =
     bnd (gets (\<lambda>s. inodes s ! ip)) (\<lambda>i.
     if i_type i = T_DEV then
       if sint (i_major i) = CONSOLE then bnd (consolewrite ip src (sint n)) (\<lambda>r. ret (word_of_int r))
       else ret (-1)
     else if i_size i < ofs \<or> ofs + n < ofs then ret (-1)
     else if of_nat (MAXFILE * BSIZE) < ofs + n then ret (-1)
     else
       thn (for_each (chunks 0 (unat ofs) (unat n)) (\<lambda>(tot, pos, m).
         bnd (bmap ip (of_nat (pos div BSIZE))) (\<lambda>addr.
         bnd (bread (i_dev i) addr) (\<lambda>bp.
         bnd (get_place src (of_nat tot) m) (\<lambda>bs.
         thn (upd_buf bp (\<lambda>b. b\<lparr>b_data := put_at (pos mod BSIZE) bs (b_data b)\<rparr>)) (
         thn (log_write bp) (
         brelse bp))))))) (
       bnd (geti ip i_size) (\<lambda>sz.
       thn (if 0 < n \<and> sz < ofs + n then
              thn (upd_inode ip (\<lambda>x. x\<lparr>i_size := ofs + n\<rparr>)) (
              iupdate ip)
            else ret ()) (
       ret n))))"

section \<open>The counters\<close>

record fsinfo =
  num_files :: uint
  num_dirs :: uint
  allocated_inodes :: uint
  free_disk_blocks :: uint

definition count_inode :: "ushort \<Rightarrow> fsinfo \<Rightarrow> fsinfo" where
  "count_inode ty f =
     (if ty \<noteq> 0 then
        let f = f\<lparr>allocated_inodes := allocated_inodes f + 1\<rparr> in
        if ty = T_FILE then f\<lparr>num_files := num_files f + 1\<rparr>
        else if ty = T_DIR then f\<lparr>num_dirs := num_dirs f + 1\<rparr>
        else f
      else f)"

fun count_inodes :: "uint \<Rightarrow> nat list \<Rightarrow> fsinfo \<Rightarrow> ('e fsst_scheme, fsinfo) km" where
  "count_inodes dev [] f = ret f"
| "count_inodes dev (i # is) f =
     bnd (gets sb) (\<lambda>sp.
     bnd (bread dev (IBLOCK (of_nat i) sp)) (\<lambda>bp.
     bnd (getb bp b_data) (\<lambda>d.
     thn (brelse bp) (
     count_inodes dev is (count_inode (dinode_type (of_nat i) d) f)))))"

fun count_blocks :: "uint \<Rightarrow> nat list \<Rightarrow> fsinfo \<Rightarrow> ('e fsst_scheme, fsinfo) km" where
  "count_blocks dev [] f = ret f"
| "count_blocks dev (b # bs) f =
     bnd (gets sb) (\<lambda>sp.
     bnd (bread dev (BBLOCK (of_nat b) sp)) (\<lambda>bp.
     bnd (getb bp b_data) (\<lambda>d.
     thn (brelse bp) (
     count_blocks dev bs
       (f\<lparr>free_disk_blocks := free_disk_blocks f + of_nat (length (filter (bit_free d) (bmap_bits sp b)))\<rparr>)))))"

text \<open>
  The counters start at 0 and are stored in \<^verbatim>\<open>*fsi\<close>. The code counts in \<^verbatim>\<open>*fsi\<close> itself; the model clears it, counts apart and stores the
  result, so that only the values in between are not stored.
\<close>

definition fs_stats :: "uint \<Rightarrow> ('e fsst_scheme, fsinfo) km" where
  "fs_stats dev =
     bnd (gets sb) (\<lambda>sp.
     bnd (count_inodes dev [1..<unat (sb_ninodes sp)]
           \<lparr>num_files = 0, num_dirs = 0, allocated_inodes = 0, free_disk_blocks = 0\<rparr>) (\<lambda>f.
     count_blocks dev (bmap_starts sp) f))"

definition get_fs_stats :: "uint \<Rightarrow> place \<Rightarrow> ('e fsst_scheme, unit) km" where
  "get_fs_stats dev fsi =
     thn (put_place fsi 0 (replicate 16 0)) (
     bnd (fs_stats dev) (\<lambda>f.
     put_place fsi 0 (bytes_of_word 4 (num_files f) @ bytes_of_word 4 (num_dirs f)
       @ bytes_of_word 4 (allocated_inodes f) @ bytes_of_word 4 (free_disk_blocks f))))"

end
