(* ===== verification/Trans.thy ===== *)
theory Trans
  imports LogSpace
begin

unbundle bit_operations_syntax

text \<open>
  What file system code relies on inside a transaction: it sees the contents of blocks through the cache, changes them by
  \<^verbatim>\<open>bread\<close>, a store, \<^verbatim>\<open>log_write\<close> and \<^verbatim>\<open>brelse\<close>, and \<^verbatim>\<open>end_op\<close> makes the changes durable. The dirty blocks are
  exactly the logged ones.
\<close>

section \<open>The invariant of a transaction\<close>

definition log_area :: "'e logst_scheme \<Rightarrow> uint \<Rightarrow> bool" where
  "log_area s b \<longleftrightarrow> unat (log_start s) \<le> unat b \<and> unat b < unat (log_start s) + unat (log_size s)"

definition log_limit :: "'e logst_scheme \<Rightarrow> int" where
  "log_limit s = min LOGSIZE (sint (log_size s) - 1)"

definition tx_ok :: "nat \<Rightarrow> 'e logst_scheme \<Rightarrow> bool" where
  "tx_ok me s \<longleftrightarrow> io_ok me s \<and> log_dev s = 1 \<and> 0 \<le> lh_n s \<and> lh_n s \<le> log_limit s \<and> length (lh_block s) = nat LOGSIZE
     \<and> distinct (take (nat (lh_n s)) (lh_block s)) \<and> (\<forall>b. dirty s b \<longleftrightarrow> in_trans b s)
     \<and> (\<forall>b. in_trans b s \<longrightarrow> b < disksize s \<and> \<not> log_area s b)
     \<and> unat (log_start s) + unat (log_size s) \<le> unat (disksize s)
     \<and> get32 0 (disk s (unat (log_start s))) = 0"

text \<open>Room for \<open>c\<close> more buffers in the cache and \<open>l\<close> more blocks in the log.\<close>

definition slots :: "'e logst_scheme \<Rightarrow> nat \<Rightarrow> nat \<Rightarrow> bool" where
  "slots s c l \<longleftrightarrow> card (busy s) + c \<le> NBUF \<and> lh_n s + int l \<le> log_limit s"

text \<open>What file system code changes of the state besides the view: the log and the cache, no other field.\<close>

definition tx_frame :: "'e logst_scheme \<Rightarrow> 'e logst_scheme \<Rightarrow> bool" where
  "tx_frame s s' \<longleftrightarrow> io_frame (s\<lparr>lh_n := 0, lh_block := []\<rparr>) (s'\<lparr>lh_n := 0, lh_block := []\<rparr>) \<and> disk s' = disk s \<and> dtrace s' = dtrace s"

lemma tx_frame_refl [simp]: "tx_frame s s"
  by (simp add: tx_frame_def)

lemma tx_frame_trans: "tx_frame s t \<Longrightarrow> tx_frame t u \<Longrightarrow> tx_frame s u"
  by (auto simp: tx_frame_def intro: io_frame_trans)

lemma tx_frame_io: "io_frame s s' \<Longrightarrow> disk s' = disk s \<Longrightarrow> dtrace s' = dtrace s \<Longrightarrow> tx_frame s s'"
  by (simp add: tx_frame_def io_frame_log_upd)

lemma tx_frame_field:
  assumes "tx_frame s s'" and "\<And>s. f (erase s) = f s" and "\<And>s x y. f (s\<lparr>lh_n := x, lh_block := y\<rparr>) = f s"
  shows "f s' = f s"
  using io_frame_field [of "s\<lparr>lh_n := 0, lh_block := []\<rparr>" "s'\<lparr>lh_n := 0, lh_block := []\<rparr>" f] assms
  by (simp add: tx_frame_def)

lemma tx_frame_sel:
  assumes "tx_frame s s'"
  shows "held s' = held s" "others s' = others s" "cur s' = cur s" "disksize s' = disksize s" "log_start s' = log_start s"
    "log_size s' = log_size s" "log_dev s' = log_dev s" "outstanding s' = outstanding s" "committing s' = committing s"
    "log_addr s' = log_addr s" "log_area s' = log_area s" "log_limit s' = log_limit s"
proof -
  show f: "held s' = held s" "others s' = others s" "cur s' = cur s" "disksize s' = disksize s" "log_start s' = log_start s"
    "log_size s' = log_size s" "log_dev s' = log_dev s" "outstanding s' = outstanding s" "committing s' = committing s"
    "log_addr s' = log_addr s"
    by (rule tx_frame_field [OF assms]; simp add: erase_def)+
  show "log_area s' = log_area s" "log_limit s' = log_limit s"
    by (simp_all add: log_area_def log_limit_def fun_eq_iff f)
qed

section \<open>The steps\<close>

lemma card_one_more: "finite A \<Longrightarrow> B \<subseteq> insert x A \<Longrightarrow> card B \<le> Suc (card A)"
  using card_mono [of "insert x A" B] by (auto simp: card_insert_if split: if_splits)

lemma busy_absv: "busy s = {n. fst (snd (absv s)) n \<noteq> None \<or> fst (snd (snd (absv s))) n}"
  by (simp add: absv_def busy_def owned_holder)

lemma tx_okI:
  assumes "tx_ok me s" and "io_ok me s'" and "io_frame s s'" and "dirty s' = dirty s" and "disk s' = disk s"
  shows "tx_ok me s'"
proof -
  note f = log_frame [OF assms(3)] io_frame_sel(4) [OF assms(3)]
  show ?thesis using assms f by (simp add: tx_ok_def in_trans_def log_area_def log_limit_def)
qed

lemma tx_bread:
  assumes ok: "tx_ok me s" and n: "n < disksize s" "holder s n = None" and room: "slots s (Suc c) l"
  obtains i s' where "bread 1 n s = Ret i s'" and "tx_ok me s'" and "tx_frame s s'" and "blk s' = blk s"
    and "holder s' = (holder s)(n := Some i)" and "dirty s' = dirty s" and "slots s' c l" and "b_data (bufs s' ! i) = blk s n" and "lh_n s' = lh_n s"
proof -
  have io: "io_ok me s" using ok by (simp add: tx_ok_def)
  have "spare s" using room by (intro busy_room [OF io]) (simp add: slots_def)
  then have sp: "\<not> owned s n" "bufat s n \<noteq> None \<or> spare s" using n(2) by (simp_all add: owned_holder)
  obtain i s' where s': "bread 1 n s = Ret i s'" "io_ok me s'" "io_frame s s'"
    "absv s' = (blk s, (holder s)(n := Some i), dirty s, disk s, dtrace s)"
    by (rule bread_ok [OF io n(1) sp]) (rule that)
  note v = absvD [OF s'(4)]
  have "busy s' \<subseteq> insert n (busy s)" by (auto simp: busy_def v owned_holder)
  then have c: "card (busy s') \<le> Suc (card (busy s))" by (rule card_one_more [OF finite_busy])
  show ?thesis
  proof (rule that [OF s'(1)])
    show "tx_ok me s'" by (rule tx_okI [OF ok s'(2,3) v(3,4)])
    show "tx_frame s s'" by (rule tx_frame_io [OF s'(3) v(4,5)])
    show "slots s' c l" using room c log_frame [OF s'(3)] by (simp add: slots_def log_limit_def)
    show "b_data (bufs s' ! i) = blk s n" using owned_buf(8) [OF s'(2), of n i] v by simp
    show "lh_n s' = lh_n s" by (rule log_frame(1) [OF s'(3)])
  qed (simp_all add: v)
qed

lemma tx_set:
  assumes ok: "tx_ok me s" "holder s n = Some i" and f: "length (f (blk s n)) = BSIZE" and room: "slots s c l"
  obtains s' where "upd_buf i (\<lambda>b. b\<lparr>b_data := f (b_data b)\<rparr>) s = Ret () s'" and "tx_ok me s'" and "tx_frame s s'"
    and "blk s' = (blk s)(n := f (blk s n))" and "holder s' = holder s" and "dirty s' = dirty s" and "slots s' c l"
proof -
  have io: "io_ok me s" using ok by (simp add: tx_ok_def)
  obtain s' where s': "upd_buf i (\<lambda>b. b\<lparr>b_data := f (b_data b)\<rparr>) s = Ret () s'" "io_ok me s'" "io_frame s s'"
    "absv s' = ((blk s)(n := f (blk s n)), holder s, dirty s, disk s, dtrace s)"
    by (rule set_data_ok [OF io ok(2), where f = f, OF f]) (rule that)
  note v = absvD [OF s'(4)]
  show ?thesis
  proof (rule that [OF s'(1)])
    show "tx_ok me s'" by (rule tx_okI [OF ok(1) s'(2,3) v(3,4)])
    show "tx_frame s s'" by (rule tx_frame_io [OF s'(3) v(4,5)])
    have "busy s' = busy s" using v(2,3) by (simp add: busy_def owned_holder)
    then show "slots s' c l" using room log_frame [OF s'(3)] by (simp add: slots_def log_limit_def)
  qed (simp_all add: v)
qed

lemma take_snoc: "n < length bl \<Longrightarrow> take (Suc n) (bl[n := v]) = take n bl @ [v]"
  by (simp add: take_Suc_conv_app_nth)

lemma tx_log_write:
  assumes ok: "tx_ok me s" "holder s n = Some i" and a: "\<not> log_area s n" and op: "0 < outstanding s" and room: "slots s c (Suc l)"
  obtains s' where "log_write i s = Ret () s'" and "tx_ok me s'" and "tx_frame s s'"
    and "blk s' = blk s" and "holder s' = holder s" and "dirty s' = (dirty s)(n := True)" and "slots s' c l"
proof -
  have io: "io_ok me s" and n0: "0 \<le> lh_n s" and len: "length (lh_block s) = nat LOGSIZE" using ok by (simp_all add: tx_ok_def)
  note o = owned_buf [OF io ok(2)]
  have lim: "lh_n s < LOGSIZE" "lh_n s < sint (log_size s) - 1" using room by (simp_all add: slots_def log_limit_def)
  let ?in = "in_trans n s"
  define n' where "n' = (if ?in then lh_n s else lh_n s + 1)"
  define bl' where "bl' = (if ?in then lh_block s else (lh_block s)[nat (lh_n s) := n])"
  obtain t where t: "upd_buf i (\<lambda>b. b\<lparr>b_flags := b_flags b OR B_DIRTY\<rparr>) s = Ret () t" "io_ok me t" "io_frame s t"
    "absv t = (blk s, holder s, (dirty s)(n := True), disk s, dtrace s)"
    by (rule set_dirty_ok [OF io ok(2)]) (rule that)
  note v = absvD [OF t(4)] and f = log_frame [OF t(3)] io_frame_sel(4) [OF t(3)]
  let ?s = "t\<lparr>lh_n := n', lh_block := bl'\<rparr>"
  have te: "t = s\<lparr>bufs := (bufs s)[i := (bufs s ! i)\<lparr>b_flags := b_flags (bufs s ! i) OR B_DIRTY\<rparr>]\<rparr>"
    using t(1) by (simp add: upd_buf_def)
  have run: "log_write i s = Ret () ?s"
    unfolding log_write_run [OF n0 lim op calm_free [OF o(12)] len] te o(6) n'_def bl'_def by simp
  have iv: "io_ok me ?s" "absv ?s = (blk s, holder s, (dirty s)(n := True), disk s, dtrace s)"
    using t(2,4) by simp_all
  note w = absvD [OF iv(2)]
  have "nat (lh_n s) < length (lh_block s)" using n0 lim len by simp
  then have tk: "set (take (nat n') bl') = insert n (set (take (nat (lh_n s)) (lh_block s)))" "distinct (take (nat n') bl')"
    using n0 ok(1) by (auto simp: n'_def bl'_def in_trans_def tx_ok_def nat_add_distrib take_snoc)
  have it: "in_trans b ?s \<longleftrightarrow> b = n \<or> in_trans b s" for b using tk(1) by (simp add: in_trans_def)
  have "lh_n s < log_limit s" using lim by (simp add: log_limit_def)
  then have tx: "tx_ok me ?s"
    using ok(1) iv(1) w(3,4) f a o(11) tk(2) it n0 len unfolding tx_ok_def
    by (auto simp: log_limit_def log_area_def n'_def bl'_def)
  have "erase (?s\<lparr>lh_n := 0, lh_block := []\<rparr>) = erase (s\<lparr>lh_n := 0, lh_block := []\<rparr>)" by (simp add: te erase_def)
  then have fr: "tx_frame s ?s" using w(4,5) te by (simp add: tx_frame_def io_frame_def)
  have "busy ?s \<subseteq> busy s" using w(7) ok(2) by (auto simp: busy_def owned_holder)
  then have "card (busy ?s) \<le> card (busy s)" by (intro card_mono finite_busy)
  then have sl: "slots ?s c l" using room f by (auto simp: slots_def log_limit_def n'_def)
  show ?thesis by (rule that [OF run tx fr w(1,2,3) sl])
qed

lemma tx_brelse:
  assumes ok: "tx_ok me s" "holder s n = Some i" and cl: "dirty s n \<or> blk s n = disk s (unat n)"
    and room: "slots s c l"
  obtains s' where "brelse i s = Ret () s'" and "tx_ok me s'" and "tx_frame s s'"
    and "blk s' = blk s" and "holder s' = (holder s)(n := None)" and "dirty s' = dirty s"
    and "slots s' (if dirty s n then c else Suc c) l" and "lh_n s' = lh_n s"
proof -
  have io: "io_ok me s" using ok by (simp add: tx_ok_def)
  obtain s' where s': "brelse i s = Ret () s'" "io_ok me s'" "io_frame s s'"
    "absv s' = (blk s, (holder s)(n := None), dirty s, disk s, dtrace s)"
    by (rule brelse_ok [OF io ok(2) cl]) (rule that)
  note v = absvD [OF s'(4)]
  have b: "busy s' = (if dirty s n then busy s else busy s - {n})" "n \<in> busy s"
    using v(7) ok(2) by (auto simp: busy_def owned_holder)
  then have "card (busy s') + (if dirty s n then 0 else 1) \<le> card (busy s)"
    using finite_busy [of s] card_Diff_singleton [OF b(2)] card_gt_0_iff [of "busy s"] by auto
  then have "slots s' (if dirty s n then c else Suc c) l"
    using room log_frame [OF s'(3)] by (auto simp: slots_def log_limit_def split: if_splits)
  then show ?thesis
    by (rule that [OF s'(1) tx_okI [OF ok(1) s'(2,3) v(3,4)] tx_frame_io [OF s'(3) v(4,5)] v(1,2,3) _ log_frame(1) [OF s'(3)]])
qed

section \<open>Reading and changing a block\<close>

lemma tx_read:
  assumes ok: "tx_ok me s" and n: "n < disksize s" "holder s n = None" and room: "slots s (Suc c) l"
  obtains i s1 s2 where "bread 1 n s = Ret i s1" and "b_data (bufs s1 ! i) = blk s n" and "brelse i s1 = Ret () s2"
    and "tx_ok me s2" and "tx_frame s s2" and "blk s2 = blk s" and "holder s2 = holder s" and "dirty s2 = dirty s" and "slots s2 (Suc c) l"
proof -
  obtain i s1 where s1: "bread 1 n s = Ret i s1" "tx_ok me s1" "tx_frame s s1" "blk s1 = blk s"
    "holder s1 = (holder s)(n := Some i)" "dirty s1 = dirty s" "slots s1 c l" "b_data (bufs s1 ! i) = blk s n" "lh_n s1 = lh_n s"
    by (rule tx_bread [OF ok n room]) (rule that)
  have "disk s1 = disk s" using s1(3) by (simp add: tx_frame_def)
  then have cl: "dirty s1 n \<or> blk s1 n = disk s1 (unat n)"
    using ok n(2) s1(4,6) clean_disk [of me s n] by (auto simp: tx_ok_def owned_holder)
  have h: "holder s1 n = Some i" using s1(5) by simp
  obtain s2 where s2: "brelse i s1 = Ret () s2" "tx_ok me s2" "tx_frame s1 s2" "blk s2 = blk s1"
    "holder s2 = (holder s1)(n := None)" "dirty s2 = dirty s1" "slots s2 (if dirty s1 n then c else Suc c) l" "lh_n s2 = lh_n s1"
    by (rule tx_brelse [OF s1(2) h cl s1(7)]) (rule that)
  have hs: "holder s2 = holder s" using s2(5) s1(5) n(2) by (simp add: fun_upd_idem_iff)
  have "busy s2 = busy s" using hs s2(6) s1(6) by (simp add: busy_def owned_holder)
  moreover have "log_limit s2 = log_limit s" using tx_frame_sel(12) [OF tx_frame_trans [OF s1(3) s2(3)]] .
  ultimately have sl: "slots s2 (Suc c) l" using room s1(9) s2(8) by (simp add: slots_def)
  have v: "blk s2 = blk s" "dirty s2 = dirty s" using s1(4,6) s2(4,6) by simp_all
  show ?thesis by (rule that [OF s1(1,8) s2(1,2) tx_frame_trans [OF s1(3) s2(3)] v(1) hs v(2) sl])
qed

text \<open>A block that is held is changed, logged and released.\<close>

lemma tx_store:
  assumes ok: "tx_ok me s" "holder s n = Some i" and f: "length (f (blk s n)) = BSIZE" and a: "\<not> log_area s n"
    and op: "0 < outstanding s" and room: "slots s c (Suc l)"
  obtains s1 s2 s3 where "upd_buf i (\<lambda>b. b\<lparr>b_data := f (b_data b)\<rparr>) s = Ret () s1" and "log_write i s1 = Ret () s2"
    and "brelse i s2 = Ret () s3" and "tx_ok me s3" and "tx_frame s s3" and "blk s3 = (blk s)(n := f (blk s n))"
    and "holder s3 = (holder s)(n := None)" and "dirty s3 = (dirty s)(n := True)" and "slots s3 c l"
proof -
  obtain s1 where s1: "upd_buf i (\<lambda>b. b\<lparr>b_data := f (b_data b)\<rparr>) s = Ret () s1" "tx_ok me s1" "tx_frame s s1"
    "blk s1 = (blk s)(n := f (blk s n))" "holder s1 = holder s" "dirty s1 = dirty s" "slots s1 c (Suc l)"
    by (rule tx_set [OF ok, where f = f, OF f room]) (rule that)
  note f1 = tx_frame_sel [OF s1(3)]
  have h1: "holder s1 n = Some i" "\<not> log_area s1 n" "0 < outstanding s1" using ok(2) a op s1(5) f1 by simp_all
  obtain s2 where s2: "log_write i s1 = Ret () s2" "tx_ok me s2" "tx_frame s1 s2" "blk s2 = blk s1" "holder s2 = holder s1"
    "dirty s2 = (dirty s1)(n := True)" "slots s2 c l"
    by (rule tx_log_write [OF s1(2) h1 s1(7)]) (rule that)
  have h2: "holder s2 n = Some i" "dirty s2 n \<or> blk s2 n = disk s2 (unat n)" using h1(1) s2(5,6) by simp_all
  obtain s3 where s3: "brelse i s2 = Ret () s3" "tx_ok me s3" "tx_frame s2 s3" "blk s3 = blk s2"
    "holder s3 = (holder s2)(n := None)" "dirty s3 = dirty s2" "slots s3 (if dirty s2 n then c else Suc c) l" "lh_n s3 = lh_n s2"
    by (rule tx_brelse [OF s2(2) h2 s2(7)]) (rule that)
  have fr: "tx_frame s s3" by (rule tx_frame_trans [OF tx_frame_trans [OF s1(3) s2(3)] s3(3)])
  have v: "blk s3 = (blk s)(n := f (blk s n))" "holder s3 = (holder s)(n := None)" "dirty s3 = (dirty s)(n := True)" "slots s3 c l"
    using s1(4,5,6) s2(4,5,6) s3(4,5,6,7) by simp_all
  show ?thesis by (rule that [OF s1(1) s2(1) s3(1,2) fr v])
qed

lemma tx_change:
  assumes ok: "tx_ok me s" and n: "n < disksize s" "holder s n = None" and f: "length (f (blk s n)) = BSIZE" and a: "\<not> log_area s n"
    and op: "0 < outstanding s" and room: "slots s (Suc c) (Suc l)"
  obtains s' where
    "bnd (bread 1 n) (\<lambda>bp. thn (upd_buf bp (\<lambda>b. b\<lparr>b_data := f (b_data b)\<rparr>)) (thn (log_write bp) (brelse bp))) s = Ret () s'"
    and "tx_ok me s'" and "tx_frame s s'" and "blk s' = (blk s)(n := f (blk s n))"
    and "holder s' = holder s" and "dirty s' = (dirty s)(n := True)" and "slots s' c l"
proof -
  obtain i t where t: "bread 1 n s = Ret i t" "tx_ok me t" "tx_frame s t" "blk t = blk s"
    "holder t = (holder s)(n := Some i)" "dirty t = dirty s" "slots t c (Suc l)" "b_data (bufs t ! i) = blk s n" "lh_n t = lh_n s"
    by (rule tx_bread [OF ok n room]) (rule that)
  note f1 = tx_frame_sel [OF t(3)]
  have h: "holder t n = Some i" "length (f (blk t n)) = BSIZE" "\<not> log_area t n" "0 < outstanding t" using t(4,5) f1 f a op by simp_all
  obtain u1 u2 u where u: "upd_buf i (\<lambda>b. b\<lparr>b_data := f (b_data b)\<rparr>) t = Ret () u1" "log_write i u1 = Ret () u2"
    "brelse i u2 = Ret () u" "tx_ok me u" "tx_frame t u" "blk u = (blk t)(n := f (blk t n))"
    "holder u = (holder t)(n := None)" "dirty u = (dirty t)(n := True)" "slots u c l"
    by (rule tx_store [OF t(2) h(1), where f = f, OF h(2-4) t(7)]) (rule that)
  have v: "blk u = (blk s)(n := f (blk s n))" "holder u = holder s" "dirty u = (dirty s)(n := True)"
    using u(6,7,8) t(4,5,6) n(2) by (simp_all add: fun_upd_idem_iff)
  show ?thesis
    by (rule that [OF _ u(4) tx_frame_trans [OF t(3) u(5)] v u(9)])
      (simp add: bnd_Ret [where m = "bread 1 n", OF t(1)] thn_Ret [where m = "upd_buf i _", OF u(1)] thn_Ret [where m = "log_write i", OF u(2)] u(3))
qed

end
