(* ===== verification/Bitmap.thy ===== *)
theory Bitmap
  imports Inode Trans
begin

unbundle bit_operations_syntax

text \<open>
  The block bitmap and the counters. A block is in use when its bit is set in the bitmap as seen through the cache;
  \<^verbatim>\<open>balloc\<close> takes the first block that is not in use, \<^verbatim>\<open>bfree\<close> gives one back, and \<^verbatim>\<open>get_fs_stats\<close> counts the
  inodes by type and the blocks that are not in use.
\<close>

section \<open>Bits\<close>

lemma bit_mask_bit: "bit (bit_mask i) k \<longleftrightarrow> k = i mod 8"
  by (auto simp: bit_mask_def bit_simps)

lemma bit_free_iff: "bit_free d i \<longleftrightarrow> \<not> bit (d ! (i div 8)) (i mod 8)"
proof -
  have "i mod 8 < 8" by simp
  then show ?thesis
    by (auto simp: bit_free_def bit_eq_iff [where 'a = "8 word"] bit_and_iff bit_mask_bit simp del: mod_less_divisor)
qed

definition set_bit_at :: "nat \<Rightarrow> uchar list \<Rightarrow> uchar list" where
  "set_bit_at i d = d[i div 8 := d ! (i div 8) OR bit_mask i]"

definition clear_bit_at :: "nat \<Rightarrow> uchar list \<Rightarrow> uchar list" where
  "clear_bit_at i d = d[i div 8 := d ! (i div 8) AND NOT (bit_mask i)]"

lemma bit_free_set:
  assumes "i div 8 < length d"
  shows "bit_free (set_bit_at i d) j \<longleftrightarrow> bit_free d j \<and> i \<noteq> j"
proof (cases "i div 8 = j div 8")
  case True
  then have "i = j \<longleftrightarrow> i mod 8 = j mod 8" by (metis div_mult_mod_eq)
  then show ?thesis using True assms by (auto simp: bit_free_iff set_bit_at_def bit_simps bit_mask_bit)
qed (auto simp: bit_free_iff set_bit_at_def)

lemma bit_free_clear:
  assumes "i div 8 < length d"
  shows "bit_free (clear_bit_at i d) j \<longleftrightarrow> bit_free d j \<or> i = j"
proof (cases "i div 8 = j div 8")
  case True
  then have "i = j \<longleftrightarrow> i mod 8 = j mod 8" by (metis div_mult_mod_eq)
  then show ?thesis using True assms by (auto simp: bit_free_iff clear_bit_at_def bit_simps bit_mask_bit)
qed (auto simp: bit_free_iff clear_bit_at_def)

lemma clear_set: "i div 8 < length d \<Longrightarrow> bit_free d i \<Longrightarrow> clear_bit_at i (set_bit_at i d) = d"
  by (auto simp: clear_bit_at_def set_bit_at_def bit_free_iff list_update_same_conv bit_mask_bit intro!: bit_word_eqI simp: bit_simps)

section \<open>The groups of a bitmap block\<close>

lemma groups_cover:
  assumes "0 < B"
  shows "concat (map (\<lambda>k. map ((+) (k * B)) [0..<min B (N - k * B)]) [0..<m]) = [0..<min N (m * B)]"
proof (induction m)
  case (Suc m)
  have "map ((+) (m * B)) [0..<min B (N - m * B)] = [m * B..<m * B + min B (N - m * B)]"
  proof -
    have "map ((+) (m * B)) [0..<min B (N - m * B)] = map (\<lambda>i. i + m * B) [0..<min B (N - m * B)]"
      by (rule map_cong) simp_all
    also have "\<dots> = [m * B..<min B (N - m * B) + m * B]" by (rule map_add_upt)
    finally show ?thesis by (simp only: add.commute)
  qed
  moreover have "[0..<min N (m * B)] @ [m * B..<m * B + min B (N - m * B)] = [0..<min N (Suc m * B)]"
  proof (cases "m * B \<le> N")
    case True
    then have a: "min N (m * B) = m * B" "min N (Suc m * B) = m * B + min B (N - m * B)" by auto
    show ?thesis unfolding a by (rule upt_add_eq_append [symmetric]) simp
  qed auto
  ultimately show ?case using Suc by simp
qed simp

lemma bmap_starts_cover:
  "concat (map (\<lambda>b. map ((+) b) (bmap_bits sp b)) (bmap_starts sp)) = [0..<unat (sb_size sp)]"
proof -
  have "unat (sb_size sp) \<le> (unat (sb_size sp) + BPB - 1) div BPB * BPB"
    by (simp add: BPB_def BSIZE_def)
  then show ?thesis
    using groups_cover [of BPB "unat (sb_size sp)" "(unat (sb_size sp) + BPB - 1) div BPB"]
    by (simp add: bmap_starts_def bmap_bits_def comp_def BPB_def BSIZE_def)
qed

section \<open>Blocks in use\<close>

definition bit_blk :: "'e fsst_scheme \<Rightarrow> nat \<Rightarrow> uint" where
  "bit_blk s b = BBLOCK (of_nat b) (sb s)"

definition in_use :: "'e fsst_scheme \<Rightarrow> nat \<Rightarrow> bool" where
  "in_use s b \<longleftrightarrow> \<not> bit_free (blk s (bit_blk s b)) (b mod BPB)"

text \<open>
  The layout: the file system fits on the disk, its bitmap is within it and outside the log, and the blocks of the bitmap and
  of the log are in use.
\<close>

definition layout_ok :: "'e fsst_scheme \<Rightarrow> bool" where
  "layout_ok s \<longleftrightarrow> unat (sb_size (sb s)) \<le> unat (disksize s)
     \<and> unat (sb_bmapstart (sb s)) + (unat (sb_size (sb s)) - 1) div BPB < unat (sb_size (sb s))
     \<and> (\<forall>b < unat (sb_size (sb s)). log_area s (of_nat b) \<longrightarrow> in_use s b)
     \<and> (\<forall>b < unat (sb_size (sb s)). in_use s (unat (bit_blk s b)) \<and> \<not> log_area s (bit_blk s b))"

text \<open>A held block is in use and not part of the bitmap.\<close>

definition held_ok :: "'e fsst_scheme \<Rightarrow> bool" where
  "held_ok s \<longleftrightarrow> (\<forall>b < unat (sb_size (sb s)). holder s (bit_blk s b) = None \<and> (holder s (of_nat b) \<noteq> None \<longrightarrow> in_use s b))"

lemma tx_frame_fs:
  fixes s :: "'e fsst_scheme"
  assumes "tx_frame s s'"
  shows "sb s' = sb s" "inodes s' = inodes s" "kbuf s' = kbuf s"
  by (rule tx_frame_field [OF assms]; simp add: erase_def)+

lemma same_view:
  fixes s :: "'e fsst_scheme"
  assumes "tx_frame s t" and "blk t = blk s" and "holder t = holder s"
  shows "bit_blk t = bit_blk s" "in_use t = in_use s" "layout_ok t = layout_ok s" "held_ok t = held_ok s"
proof -
  note f = tx_frame_fs [OF assms(1)] tx_frame_sel [OF assms(1)]
  show b: "bit_blk t = bit_blk s" by (simp add: bit_blk_def fun_eq_iff f)
  show u: "in_use t = in_use s" by (simp add: in_use_def fun_eq_iff b assms)
  show "layout_ok t = layout_ok s" "held_ok t = held_ok s" by (simp_all add: layout_ok_def held_ok_def f b u assms)
qed

lemma word_div_small:
  assumes "b < 2 ^ 32"
  shows "(of_nat b :: uint) div of_nat BPB = of_nat (b div BPB)"
proof -
  have "unat (of_nat b div of_nat BPB :: uint) = b div BPB"
    using assms by (simp add: unat_div unat_small BPB_def BSIZE_def)
  moreover have "b div BPB < 2 ^ 32" using assms by (meson div_le_dividend le_less_trans)
  ultimately show ?thesis by (simp add: word_unat_eq_iff unat_small)
qed

lemma size_bound: "b < unat (w :: uint) \<Longrightarrow> b < 2 ^ 32"
proof -
  have "unat w < 2 ^ 32" using unsigned_less [of w] by simp
  then show "b < unat w \<Longrightarrow> b < 2 ^ 32" by (rule order.strict_trans [rotated])
qed

lemma unat_of: "b < unat (w :: uint) \<Longrightarrow> unat (of_nat b :: uint) = b"
  by (intro unat_small size_bound)

lemma unat_bit_blk:
  assumes "layout_ok s" and "b < unat (sb_size (sb s))"
  shows "unat (bit_blk s b) = unat (sb_bmapstart (sb s)) + b div BPB" "unat (bit_blk s b) < unat (sb_size (sb s))"
    "bit_blk s b < disksize s"
proof -
  have lt: "b div BPB \<le> (unat (sb_size (sb s)) - 1) div BPB" using assms(2) by (intro div_le_mono) simp
  then have sm: "unat (sb_bmapstart (sb s)) + b div BPB < unat (sb_size (sb s))" using assms(1) by (simp add: layout_ok_def)
  have "b div BPB < 2 ^ 32" using size_bound [OF assms(2)] by (meson div_le_dividend le_less_trans)
  then have u: "unat (of_nat (b div BPB) :: uint) = b div BPB" by (rule unat_small)
  have e: "bit_blk s b = of_nat (b div BPB) + sb_bmapstart (sb s)"
    using size_bound [OF assms(2)] by (simp add: bit_blk_def BBLOCK_def word_div_small)
  show r: "unat (bit_blk s b) = unat (sb_bmapstart (sb s)) + b div BPB"
  proof -
    have "unat (of_nat (b div BPB) :: uint) + unat (sb_bmapstart (sb s)) < 2 ^ LENGTH(32)"
      using size_bound [OF sm] by (simp only: u len32 add.commute)
    then show ?thesis unfolding e by (simp only: unat_add_lem [THEN iffD1] u add.commute)
  qed
  show s: "unat (bit_blk s b) < unat (sb_size (sb s))" using r sm by simp
  then show "bit_blk s b < disksize s" using assms(1) by (simp add: layout_ok_def word_less_nat_alt)
qed

lemma bit_blk_group:
  assumes "BPB dvd b" and "bi < BPB" and "b + bi < 2 ^ 32"
  shows "bit_blk s (b + bi) = bit_blk s b" "(b + bi) mod BPB = bi"
proof -
  have "(b + bi) div BPB = b div BPB" using assms(1,2) by (auto elim!: dvdE)
  then show "bit_blk s (b + bi) = bit_blk s b"
    using word_div_small [of "b + bi"] word_div_small [of b] assms(3) by (simp add: bit_blk_def BBLOCK_def del: of_nat_add)
  show "(b + bi) mod BPB = bi" using assms(1,2) by (auto elim!: dvdE)
qed

section \<open>Allocation\<close>

definition allocated :: "nat \<Rightarrow> 'e fsst_scheme \<Rightarrow> 'e fsst_scheme \<Rightarrow> nat \<Rightarrow> nat \<Rightarrow> nat \<Rightarrow> bool" where
  "allocated me s s' b c l \<longleftrightarrow> tx_ok me s' \<and> tx_frame s s' \<and> holder s' = holder s \<and> slots s' c l
     \<and> blk s' = (blk s)(bit_blk s b := set_bit_at (b mod BPB) (blk s (bit_blk s b)), of_nat b := replicate BSIZE 0)"

lemma find_append: "find P (xs @ ys) = (case find P xs of None \<Rightarrow> find P ys | Some x \<Rightarrow> Some x)"
  by (induction xs) auto

lemma find_map: "find P (map f xs) = map_option f (find (\<lambda>x. P (f x)) xs)"
  by (induction xs) auto

lemma find_cong: "(\<And>x. x \<in> set xs \<Longrightarrow> P x = Q x) \<Longrightarrow> find P xs = find Q xs"
  by (induction xs) auto

lemma group_bits:
  assumes "layout_ok s" "BPB dvd b" "b < unat (sb_size (sb s))" "bi \<in> set (bmap_bits (sb s) b)"
  shows "bi < BPB" "b + bi < unat (sb_size (sb s))" "in_use s (b + bi) \<longleftrightarrow> \<not> bit_free (blk s (bit_blk s b)) bi"
    "bit_blk s (b + bi) = bit_blk s b" "(b + bi) mod BPB = bi"
proof -
  show lt: "bi < BPB" "b + bi < unat (sb_size (sb s))" using assms(4) by (auto simp: bmap_bits_def)
  note g = bit_blk_group [OF assms(2) lt(1) size_bound [OF lt(2)]]
  show "bit_blk s (b + bi) = bit_blk s b" "(b + bi) mod BPB = bi" by (simp_all only: g)
  then show "in_use s (b + bi) \<longleftrightarrow> \<not> bit_free (blk s (bit_blk s b)) bi" by (simp add: in_use_def)
qed

lemma group_find:
  assumes "layout_ok s" "BPB dvd b" "b < unat (sb_size (sb s))"
  shows "find (\<lambda>b. \<not> in_use s b) (map ((+) b) (bmap_bits (sb s) b)) = map_option ((+) b) (find (bit_free (blk s (bit_blk s b))) (bmap_bits (sb s) b))"
  unfolding find_map using group_bits(3) [OF assms] by (intro arg_cong [where f = "map_option _"] find_cong) auto

lemma length_bitmap: "tx_ok me s \<Longrightarrow> layout_ok s \<Longrightarrow> b < unat (sb_size (sb s)) \<Longrightarrow> length (blk s (bit_blk s b)) = BSIZE"
  by (rule length_blk [OF _ unat_bit_blk(3)]) (auto simp: tx_ok_def)

lemma bit_in_block: "bi < BPB \<Longrightarrow> bi div 8 < BSIZE"
  by (simp add: BPB_def less_mult_imp_div_less)

lemma take_free_bit:
  assumes ok: "tx_ok me s" "layout_ok s" "held_ok s" "0 < outstanding s" and room: "slots s (Suc (Suc c)) (Suc (Suc l))"
    and b: "BPB dvd b" "b < unat (sb_size (sb s))" and bi: "bi \<in> set (bmap_bits (sb s) b)" "bit_free (blk s (bit_blk s b)) bi"
    and r: "bread 1 (bit_blk s b) s = Ret i t" "tx_ok me t" "tx_frame s t" "blk t = blk s"
      "holder t = (holder s)(bit_blk s b := Some i)" "slots t (Suc c) (Suc (Suc l))"
  shows "\<exists>s'. thn (upd_buf i (\<lambda>x. x\<lparr>b_data := (b_data x)[bi div 8 := b_data x ! (bi div 8) OR bit_mask bi]\<rparr>)) (
         thn (log_write i) (
         thn (brelse i) (
         thn (bzero 1 (of_nat (b + bi))) (
         ret (of_nat (b + bi)))))) t = Ret (of_nat (b + bi)) s' \<and> allocated me s s' (b + bi) c l"
proof -
  note g = group_bits [OF ok(2) b bi(1)] and fr = tx_frame_sel [OF r(3)]
  let ?n = "bit_blk s b" and ?b = "of_nat (b + bi) :: uint"
  have h: "holder t ?n = Some i" "\<not> log_area t ?n" "0 < outstanding t"
    using r(5) fr(8,11) ok(2,4) b(2) by (simp_all add: layout_ok_def)
  have len: "length (set_bit_at bi (blk t ?n)) = BSIZE"
    using length_bitmap [OF ok(1,2) b(2)] r(4) by (simp add: set_bit_at_def)
  obtain u1 u2 u where u: "upd_buf i (\<lambda>x. x\<lparr>b_data := set_bit_at bi (b_data x)\<rparr>) t = Ret () u1" "log_write i u1 = Ret () u2"
    "brelse i u2 = Ret () u" "tx_ok me u" "tx_frame t u" "blk u = (blk t)(?n := set_bit_at bi (blk t ?n))"
    "holder u = (holder t)(?n := None)" "dirty u = (dirty t)(?n := True)" "slots u (Suc c) (Suc l)"
    by (rule tx_store [OF r(2) h(1), where f = "set_bit_at bi", OF len h(2,3) r(6)]) (rule that)
  have fu: "tx_frame s u" by (rule tx_frame_trans [OF r(3) u(5)])
  note fu' = tx_frame_sel [OF fu]
  have free: "\<not> in_use s (b + bi)" using g(3) bi(2) by simp
  have hu: "holder u = holder s" using u(7) r(5) ok(3) b(2) by (simp add: held_ok_def fun_upd_idem_iff)
  have z: "?b < disksize u" "holder u ?b = None" "\<not> log_area u ?b" "0 < outstanding u"
    using ok(2,3,4) g(2) free fu'(4,8,11) hu unat_of [OF g(2)]
    by (auto simp: layout_ok_def held_ok_def word_less_nat_alt simp del: of_nat_add)
  obtain s' where s': "bzero 1 ?b u = Ret () s'" "tx_ok me s'" "tx_frame u s'" "blk s' = (blk u)(?b := replicate BSIZE 0)"
    "holder s' = holder u" "dirty s' = (dirty u)(?b := True)" "slots s' c l"
    by (rule tx_change [OF u(4) z(1,2), where f = "\<lambda>_. replicate BSIZE 0", OF _ z(3,4) u(9)])
      (simp, rule that, unfold bzero_def, assumption+)
  have "allocated me s s' (b + bi) c l"
    using s'(2,4,5,7) tx_frame_trans [OF fu s'(3)] u(6) r(4) hu g(4,5) by (simp add: allocated_def del: of_nat_add)
  then show ?thesis
    using u(1) by (intro exI [of _ s']) (simp add: set_bit_at_def thn_Ret u(2,3) s'(1) del: of_nat_add)
qed

text \<open>The blocks of the groups that start at \<open>bs\<close>.\<close>

definition group_blocks :: "'e fsst_scheme \<Rightarrow> nat list \<Rightarrow> nat list" where
  "group_blocks s bs = concat (map (\<lambda>b. map ((+) b) (bmap_bits (sb s) b)) bs)"

lemma balloc_scan_ok:
  fixes s :: "'e fsst_scheme"
  assumes "tx_ok me s" "layout_ok s" "held_ok s" "0 < outstanding s" and "slots s (Suc (Suc c)) (Suc (Suc l))"
    and "\<forall>b \<in> set bs. BPB dvd b \<and> b < unat (sb_size (sb s))"
  shows "case find (\<lambda>b. \<not> in_use s b) (group_blocks s bs) of
      None \<Rightarrow> \<exists>s'. balloc_scan 1 bs s = Stop (Panic ''balloc: out of blocks'') s'
    | Some b \<Rightarrow> \<exists>s'. balloc_scan 1 bs s = Ret (of_nat b) s' \<and> allocated me s s' b c l"
  using assms
proof (induction bs arbitrary: s)
  case Nil
  then show ?case by (simp add: group_blocks_def)
next
  case (Cons b bs)
  let ?n = "bit_blk s b"
  have b: "BPB dvd b" "b < unat (sb_size (sb s))" using Cons.prems(6) by simp_all
  have n: "?n < disksize s" "holder s ?n = None" using unat_bit_blk(3) [OF Cons.prems(2) b(2)] Cons.prems(3) b(2) by (simp_all add: held_ok_def)
  have bb: "BBLOCK (of_nat b) (sb s) = ?n" by (simp add: bit_blk_def)
  note gf = group_find [OF Cons.prems(2) b]
  show ?case
  proof (cases "find (bit_free (blk s ?n)) (bmap_bits (sb s) b)")
    case (Some bi)
    obtain i t where r: "bread 1 ?n s = Ret i t" "tx_ok me t" "tx_frame s t" "blk t = blk s"
      "holder t = (holder s)(?n := Some i)" "dirty t = dirty s" "slots t (Suc c) (Suc (Suc l))" "b_data (bufs t ! i) = blk s ?n"
      "lh_n t = lh_n s"
      by (rule tx_bread [OF Cons.prems(1) n Cons.prems(5)]) (rule that)
    have bi: "bi \<in> set (bmap_bits (sb s) b)" "bit_free (blk s ?n) bi" using Some by (auto simp: find_Some_iff)
    from take_free_bit [OF Cons.prems(1-5) b bi r(1-5,7)] Some gf show ?thesis
      by (auto simp: group_blocks_def find_append bb bnd_Ret [where m = "bread 1 ?n", OF r(1)] getb_def r(8))
  next
    case None
    obtain i t u where r: "bread 1 ?n s = Ret i t" "b_data (bufs t ! i) = blk s ?n" "brelse i t = Ret () u"
      "tx_ok me u" "tx_frame s u" "blk u = blk s" "holder u = holder s" "dirty u = dirty s" "slots u (Suc (Suc c)) (Suc (Suc l))"
      by (rule tx_read [OF Cons.prems(1) n Cons.prems(5)]) (rule that)
    note v = same_view [OF r(5-7)] and fs = tx_frame_fs [OF r(5)] tx_frame_sel [OF r(5)]
    have run: "balloc_scan 1 (b # bs) s = balloc_scan 1 bs u"
      using None by (simp add: bb bnd_Ret [where m = "bread 1 ?n", OF r(1)] getb_def r(2) thn_Ret [where m = "brelse i", OF r(3)])
    have al: "allocated me u s' b' c l \<Longrightarrow> allocated me s s' b' c l" for s' b'
      using r(5) by (auto simp: allocated_def r(6,7) v fs intro: tx_frame_trans)
    have "group_blocks s (b # bs) = map ((+) b) (bmap_bits (sb s) b) @ group_blocks u bs" by (simp add: group_blocks_def fs)
    then have gb: "find (\<lambda>b. \<not> in_use s b) (group_blocks s (b # bs)) = find (\<lambda>b. \<not> in_use u b) (group_blocks u bs)"
      using None gf by (simp add: find_append v)
    have "case find (\<lambda>b. \<not> in_use u b) (group_blocks u bs) of
        None \<Rightarrow> \<exists>s'. balloc_scan 1 bs u = Stop (Panic ''balloc: out of blocks'') s'
      | Some b \<Rightarrow> \<exists>s'. balloc_scan 1 bs u = Ret (of_nat b) s' \<and> allocated me u s' b c l"
      using Cons.prems by (intro Cons.IH r) (simp_all add: v fs)
    then show ?thesis unfolding run gb using al by (auto split: option.splits)
  qed
qed

lemma starts_in:
  assumes "b \<in> set (bmap_starts sp)"
  shows "BPB dvd b \<and> b < unat (sb_size sp)"
proof -
  have "\<exists>k. b = k * BPB \<and> k < (unat (sb_size sp) + BPB - 1) div BPB" using assms by (auto simp: bmap_starts_def)
  then obtain k where k: "b = k * BPB" "k < (unat (sb_size sp) + BPB - 1) div BPB" by blast
  have "Suc k * BPB \<le> unat (sb_size sp) + BPB - 1"
    using k(2) by (meson Suc_leI div_times_less_eq_dividend le_trans mult_le_mono1)
  then show ?thesis using k(1) by (simp add: BPB_def BSIZE_def)
qed

lemma balloc_ok:
  assumes "tx_ok me s" "layout_ok s" "held_ok s" "0 < outstanding s" and "slots s (Suc (Suc c)) (Suc (Suc l))"
  shows "case find (\<lambda>b. \<not> in_use s b) [0..<unat (sb_size (sb s))] of
      None \<Rightarrow> \<exists>s'. balloc 1 s = Stop (Panic ''balloc: out of blocks'') s'
    | Some b \<Rightarrow> \<exists>s'. balloc 1 s = Ret (of_nat b) s' \<and> allocated me s s' b c l"
proof -
  have "group_blocks s (bmap_starts (sb s)) = [0..<unat (sb_size (sb s))]"
    by (simp add: group_blocks_def bmap_starts_cover)
  with balloc_scan_ok [OF assms, of "bmap_starts (sb s)"] starts_in show ?thesis
    unfolding balloc_def bnd_prim by simp
qed

lemma of_nat_eq:
  "a < unat (w :: uint) \<Longrightarrow> b < unat w \<Longrightarrow> (of_nat a :: uint) = of_nat b \<longleftrightarrow> a = b"
  by (intro of_nat_small_inj size_bound)

lemma bitmap_not_free: "layout_ok s \<Longrightarrow> a < unat (sb_size (sb s)) \<Longrightarrow> \<not> in_use s a \<Longrightarrow> b < unat (sb_size (sb s)) \<Longrightarrow> bit_blk s b \<noteq> of_nat a"
  using unat_of [of a "sb_size (sb s)"] by (metis layout_ok_def)

lemma same_group: "layout_ok s \<Longrightarrow> a < unat (sb_size (sb s)) \<Longrightarrow> b < unat (sb_size (sb s)) \<Longrightarrow> bit_blk s a = bit_blk s b \<longleftrightarrow> a div BPB = b div BPB"
  using unat_bit_blk(1) [of s a] unat_bit_blk(1) [of s b] by (simp add: word_unat_eq_iff)

lemma same_bit: "a = b \<longleftrightarrow> a div BPB = b div BPB \<and> a mod BPB = b mod BPB"
  by (metis div_mult_mod_eq)

lemma allocated_view:
  assumes al: "allocated me s s' a c l" and ok: "tx_ok me s" "layout_ok s" "held_ok s" and a: "a < unat (sb_size (sb s))" "\<not> in_use s a"
  shows "\<And>b. b < unat (sb_size (sb s)) \<Longrightarrow> in_use s' b \<longleftrightarrow> in_use s b \<or> b = a"
    and "blk s' (of_nat a) = replicate BSIZE 0" and "\<And>n. n \<noteq> of_nat a \<Longrightarrow> n \<noteq> bit_blk s a \<Longrightarrow> blk s' n = blk s n"
    and "bit_blk s' = bit_blk s" and "layout_ok s'" and "held_ok s'"
proof -
  have fr: "tx_frame s s'" and bl: "blk s' = (blk s)(bit_blk s a := set_bit_at (a mod BPB) (blk s (bit_blk s a)), of_nat a := replicate BSIZE 0)"
    and h: "holder s' = holder s" using al by (simp_all add: allocated_def)
  note f = tx_frame_fs [OF fr] tx_frame_sel [OF fr]
  show bb: "bit_blk s' = bit_blk s" by (simp add: bit_blk_def fun_eq_iff f)
  show "blk s' (of_nat a) = replicate BSIZE 0" "\<And>n. n \<noteq> of_nat a \<Longrightarrow> n \<noteq> bit_blk s a \<Longrightarrow> blk s' n = blk s n"
    by (simp_all add: bl)
  have len: "a mod BPB div 8 < length (blk s (bit_blk s a))"
    using length_bitmap [OF ok(1,2) a(1)] by (simp add: bit_in_block BPB_def BSIZE_def)
  show iu: "in_use s' b \<longleftrightarrow> in_use s b \<or> b = a" if b: "b < unat (sb_size (sb s))" for b
  proof -
    have "bit_blk s b \<noteq> of_nat a" using bitmap_not_free [OF ok(2) a b] .
    then show ?thesis
      using same_group [OF ok(2) b a(1)] same_bit [of b a] bit_free_set [OF len, of "b mod BPB"]
      by (auto simp: in_use_def bb bl)
  qed
  show "layout_ok s'" "held_ok s'"
    using ok(2,3) iu unat_bit_blk(2) [OF ok(2)] by (auto simp: layout_ok_def held_ok_def f bb h)
qed

text \<open>C5: \<^verbatim>\<open>balloc\<close> inside a transaction returns the first block that is not in use, marks it and no other block in use, zeroes
  it, and changes no other block but the one of the bitmap; if every block is in use it panics.\<close>

theorem balloc_first_free:
  assumes "tx_ok me s" "layout_ok s" "held_ok s" "0 < outstanding s" "slots s 2 2"
  shows "if \<exists>b < unat (sb_size (sb s)). \<not> in_use s b
    then \<exists>a s'. balloc 1 s = Ret (of_nat a) s' \<and> a < unat (sb_size (sb s)) \<and> \<not> in_use s a \<and> (\<forall>b < a. in_use s b)
      \<and> (\<forall>b < unat (sb_size (sb s)). in_use s' b \<longleftrightarrow> in_use s b \<or> b = a)
      \<and> blk s' (of_nat a) = replicate BSIZE 0 \<and> (\<forall>n. n \<noteq> of_nat a \<longrightarrow> n \<noteq> bit_blk s a \<longrightarrow> blk s' n = blk s n)
      \<and> tx_ok me s' \<and> layout_ok s'
    else \<exists>s'. balloc 1 s = Stop (Panic ''balloc: out of blocks'') s'"
proof (cases "find (\<lambda>b. \<not> in_use s b) [0..<unat (sb_size (sb s))]")
  case None
  then have "\<not> (\<exists>b < unat (sb_size (sb s)). \<not> in_use s b)" by (auto simp: find_None_iff)
  moreover have "\<exists>s'. balloc 1 s = Stop (Panic ''balloc: out of blocks'') s'"
    using balloc_ok [OF assms(1-4), of 0 0] assms(5) None by (simp add: numeral_2_eq_2)
  ultimately show ?thesis by (simp only: if_False)
next
  case (Some a)
  then have a: "a < unat (sb_size (sb s))" "\<not> in_use s a" "\<forall>b < a. in_use s b"
    by (auto simp: find_Some_iff)
  obtain s' where s': "balloc 1 s = Ret (of_nat a) s'" "allocated me s s' a 0 0"
    using balloc_ok [OF assms(1-4), of 0 0] assms(5) Some by (auto simp: numeral_2_eq_2)
  note v = allocated_view [OF s'(2) assms(1-3) a(1,2)]
  have "tx_ok me s'" using s'(2) by (simp add: allocated_def)
  with s'(1) a v show ?thesis by (auto intro!: exI [of _ a] exI [of _ s'])
qed

section \<open>Freeing\<close>

lemma bfree_run:
  assumes ok: "tx_ok me s" "layout_ok s" "held_ok s" "0 < outstanding s" and room: "slots s (Suc c) (Suc l)"
    and a: "a < unat (sb_size (sb s))" "in_use s a"
  obtains s' where "bfree 1 (of_nat a) s = Ret () s'" and "tx_ok me s'" and "tx_frame s s'" and "holder s' = holder s" and "slots s' c l"
    and "blk s' = (blk s)(bit_blk s a := clear_bit_at (a mod BPB) (blk s (bit_blk s a)))"
proof -
  let ?n = "bit_blk s a" and ?bi = "a mod BPB"
  have n: "?n < disksize s" "holder s ?n = None" using unat_bit_blk(3) [OF ok(2) a(1)] ok(3) a(1) by (simp_all add: held_ok_def)
  have bb: "BBLOCK (of_nat a) (sb s) = ?n" "unat (of_nat a :: uint) = a" using unat_of [OF a(1)] by (simp_all add: bit_blk_def)
  have nf: "\<not> bit_free (blk s ?n) ?bi" using a(2) by (simp add: in_use_def)
  obtain i t where r: "bread 1 ?n s = Ret i t" "tx_ok me t" "tx_frame s t" "blk t = blk s"
    "holder t = (holder s)(?n := Some i)" "dirty t = dirty s" "slots t c (Suc l)" "b_data (bufs t ! i) = blk s ?n" "lh_n t = lh_n s"
    by (rule tx_bread [OF ok(1) n room]) (rule that)
  note fr = tx_frame_sel [OF r(3)]
  have h: "holder t ?n = Some i" "\<not> log_area t ?n" "0 < outstanding t"
    using r(5) fr(8,11) ok(2,4) a(1) by (simp_all add: layout_ok_def)
  have len: "length (clear_bit_at ?bi (blk t ?n)) = BSIZE"
    using length_bitmap [OF ok(1,2) a(1)] r(4) by (simp add: clear_bit_at_def)
  obtain u1 u2 u where u: "upd_buf i (\<lambda>x. x\<lparr>b_data := clear_bit_at ?bi (b_data x)\<rparr>) t = Ret () u1" "log_write i u1 = Ret () u2"
    "brelse i u2 = Ret () u" "tx_ok me u" "tx_frame t u" "blk u = (blk t)(?n := clear_bit_at ?bi (blk t ?n))"
    "holder u = (holder t)(?n := None)" "dirty u = (dirty t)(?n := True)" "slots u c l"
    by (rule tx_store [OF r(2) h(1), where f = "clear_bit_at ?bi", OF len h(2,3) r(7)]) (rule that)
  have "bfree 1 (of_nat a) s = Ret () u"
    using u(1) nf by (simp add: bfree_def bb bnd_Ret [where m = "bread 1 ?n", OF r(1)] getb_def r(8) clear_bit_at_def Let_def thn_Ret u(2,3))
  moreover have "holder u = holder s" using u(7) r(5) n(2) by (simp add: fun_upd_idem_iff)
  ultimately show ?thesis using u(6) r(4) by (intro that [OF _ u(4) tx_frame_trans [OF r(3) u(5)] _ u(9)]) simp_all
qed

lemma bfree_panics:
  assumes ok: "tx_ok me s" "layout_ok s" "held_ok s" and room: "slots s (Suc c) l" and a: "a < unat (sb_size (sb s))" "\<not> in_use s a"
  shows "\<exists>s'. bfree 1 (of_nat a) s = Stop (Panic ''freeing free block'') s'"
proof -
  let ?n = "bit_blk s a"
  have n: "?n < disksize s" "holder s ?n = None" using unat_bit_blk(3) [OF ok(2) a(1)] ok(3) a(1) by (simp_all add: held_ok_def)
  have bb: "BBLOCK (of_nat a) (sb s) = ?n" "unat (of_nat a :: uint) = a" using unat_of [OF a(1)] by (simp_all add: bit_blk_def)
  obtain i t where r: "bread 1 ?n s = Ret i t" "b_data (bufs t ! i) = blk s ?n"
    by (rule tx_bread [OF ok(1) n room]) (rule that)
  show ?thesis
    using a(2) by (simp add: bfree_def bb bnd_Ret [where m = "bread 1 ?n", OF r(1)] getb_def r(2) Let_def in_use_def)
qed

lemma balloc_Ret:
  assumes "tx_ok me s" "layout_ok s" "held_ok s" "0 < outstanding s" "slots s (Suc (Suc c)) (Suc (Suc l))" and "balloc 1 s = Ret r s'"
  obtains a where "r = of_nat a" and "a < unat (sb_size (sb s))" and "\<not> in_use s a" and "allocated me s s' a c l"
proof (cases "find (\<lambda>b. \<not> in_use s b) [0..<unat (sb_size (sb s))]")
  case None
  then show ?thesis using balloc_ok [OF assms(1-5)] assms(6) by auto
next
  case (Some a)
  then have a: "a < unat (sb_size (sb s))" "\<not> in_use s a" by (auto simp: find_Some_iff)
  show ?thesis using balloc_ok [OF assms(1-5)] assms(6) Some by (intro that [of a] a) simp_all
qed

text \<open>C9: freeing a block that was just allocated restores the bitmap bit by bit (the block itself stays zeroed), and freeing it a
  second time panics.\<close>

theorem bfree_undoes_balloc:
  assumes "tx_ok me s" "layout_ok s" "held_ok s" "0 < outstanding s" "slots s 4 4" and "balloc 1 s = Ret a s'"
  shows "\<exists>s'' t. bfree 1 a s' = Ret () s'' \<and> tx_ok me s'' \<and> blk s'' = (blk s)(a := replicate BSIZE 0)
    \<and> bfree 1 a s'' = Stop (Panic ''freeing free block'') t"
proof -
  have sl: "slots s (Suc (Suc 2)) (Suc (Suc 2))" using assms(5) by (simp add: numeral_eq_Suc)
  from balloc_Ret [OF assms(1-4) sl assms(6)] obtain k where k: "a = of_nat k" "k < unat (sb_size (sb s))" "\<not> in_use s k"
    and al: "allocated me s s' k 2 2" by blast
  note v = allocated_view [OF al assms(1-3) k(2,3)]
  have tx: "tx_ok me s'" "tx_frame s s'" "slots s' (Suc 1) (Suc 1)" using al by (simp_all add: allocated_def numeral_eq_Suc)
  note f = tx_frame_fs [OF tx(2)] tx_frame_sel [OF tx(2)]
  have o: "0 < outstanding s'" "k < unat (sb_size (sb s'))" "in_use s' k" using assms(4) f k(2) v(1) by simp_all
  obtain s'' where s'': "bfree 1 (of_nat k) s' = Ret () s''" "tx_ok me s''" "tx_frame s' s''" "holder s'' = holder s'" "slots s'' (Suc 0) 1"
    "blk s'' = (blk s')(bit_blk s' k := clear_bit_at (k mod BPB) (blk s' (bit_blk s' k)))"
    by (rule bfree_run [OF tx(1) v(5,6) o(1) tx(3) o(2,3)]) (simp add: that)
  have ne: "bit_blk s k \<noteq> of_nat k" using bitmap_not_free [OF assms(2) k(2,3,2)] .
  have len: "k mod BPB div 8 < length (blk s (bit_blk s k))"
    using length_bitmap [OF assms(1,2) k(2)] by (simp add: bit_in_block BPB_def BSIZE_def)
  have bl: "blk s'' = (blk s)(of_nat k := replicate BSIZE 0)"
    using s''(6) al ne clear_set [OF len] k(3) by (auto simp: v(4) allocated_def fun_eq_iff in_use_def)
  have fr: "tx_frame s s''" by (rule tx_frame_trans [OF tx(2) s''(3)])
  note f'' = tx_frame_fs [OF fr] tx_frame_sel [OF fr]
  have bb: "bit_blk s'' = bit_blk s" by (simp add: bit_blk_def fun_eq_iff f'')
  have h: "holder s'' = holder s" using s''(4) al by (simp add: allocated_def)
  have iu: "in_use s'' b \<longleftrightarrow> in_use s b" if "b < unat (sb_size (sb s))" for b
    using bitmap_not_free [OF assms(2) k(2,3) that] by (simp add: in_use_def bb bl)
  have "layout_ok s''" "held_ok s''"
    using assms(2,3) iu unat_bit_blk(2) [OF assms(2)] by (auto simp: layout_ok_def held_ok_def f'' bb h)
  moreover have "k < unat (sb_size (sb s''))" "\<not> in_use s'' k" using k(2,3) iu f''(1) by simp_all
  ultimately obtain t where "bfree 1 (of_nat k) s'' = Stop (Panic ''freeing free block'') t"
    using bfree_panics [OF s''(2) _ _ s''(5), of k] by blast
  with s''(1,2) bl show ?thesis unfolding k(1) by blast
qed

section \<open>The counters\<close>

definition inode_type :: "'e fsst_scheme \<Rightarrow> nat \<Rightarrow> ushort" where
  "inode_type s i = dinode_type (of_nat i) (blk s (IBLOCK (of_nat i) (sb s)))"

definition inodes_ok :: "'e fsst_scheme \<Rightarrow> bool" where
  "inodes_ok s \<longleftrightarrow> (\<forall>i < unat (sb_ninodes (sb s)). IBLOCK (of_nat i) (sb s) < disksize s)"

definition counted :: "(nat \<Rightarrow> ushort) \<Rightarrow> nat list \<Rightarrow> fsinfo \<Rightarrow> fsinfo" where
  "counted ty is f = f\<lparr>num_files := num_files f + of_nat (length (filter (\<lambda>i. ty i = T_FILE) is)),
     num_dirs := num_dirs f + of_nat (length (filter (\<lambda>i. ty i = T_DIR) is)),
     allocated_inodes := allocated_inodes f + of_nat (length (filter (\<lambda>i. ty i \<noteq> 0) is))\<rparr>"

lemma counted_Cons: "counted ty (i # is) f = counted ty is (count_inode (ty i) f)"
  by (simp add: counted_def count_inode_def Let_def)

lemma count_inodes_ok:
  fixes s :: "'e fsst_scheme"
  assumes "tx_ok me s" "holder s = Map.empty" "slots s (Suc c) l" "inodes_ok s" "\<forall>i \<in> set is. i < unat (sb_ninodes (sb s))"
  shows "\<exists>s'. count_inodes 1 is f s = Ret (counted (inode_type s) is f) s' \<and> tx_ok me s' \<and> tx_frame s s'
    \<and> blk s' = blk s \<and> holder s' = holder s \<and> slots s' (Suc c) l"
  using assms
proof (induction "is" arbitrary: s f)
  case Nil
  then show ?case by (auto simp: counted_def)
next
  case (Cons i "is")
  let ?n = "IBLOCK (of_nat i) (sb s)"
  have n: "?n < disksize s" "holder s ?n = None" using Cons.prems by (simp_all add: inodes_ok_def)
  obtain b t u where r: "bread 1 ?n s = Ret b t" "b_data (bufs t ! b) = blk s ?n" "brelse b t = Ret () u"
    "tx_ok me u" "tx_frame s u" "blk u = blk s" "holder u = holder s" "dirty u = dirty s" "slots u (Suc c) l"
    by (rule tx_read [OF Cons.prems(1) n Cons.prems(3)]) (rule that)
  note f = tx_frame_fs [OF r(5)] tx_frame_sel [OF r(5)]
  have ty: "inode_type u = inode_type s" by (simp add: inode_type_def fun_eq_iff f r(6))
  have run: "count_inodes 1 (i # is) f s = count_inodes 1 is (count_inode (inode_type s i) f) u"
    by (simp add: bnd_Ret [where m = "bread 1 ?n", OF r(1)] getb_def r(2) thn_Ret [where m = "brelse b", OF r(3)] inode_type_def)
  have "\<exists>s'. count_inodes 1 is (count_inode (inode_type s i) f) u = Ret (counted (inode_type u) is (count_inode (inode_type s i) f)) s'
    \<and> tx_ok me s' \<and> tx_frame u s' \<and> blk s' = blk u \<and> holder s' = holder u \<and> slots s' (Suc c) l"
    using Cons.prems by (intro Cons.IH r) (simp_all add: f r(7) inodes_ok_def)
  then show ?case unfolding run counted_Cons ty using tx_frame_trans [OF r(5)] r(6,7) by auto
qed

lemma count_blocks_ok:
  fixes s :: "'e fsst_scheme"
  assumes "tx_ok me s" "holder s = Map.empty" "slots s (Suc c) l" "layout_ok s" "\<forall>b \<in> set bs. BPB dvd b \<and> b < unat (sb_size (sb s))"
  shows "\<exists>s'. count_blocks 1 bs f s = Ret (f\<lparr>free_disk_blocks := free_disk_blocks f + of_nat (length (filter (\<lambda>b. \<not> in_use s b) (group_blocks s bs)))\<rparr>) s'
    \<and> tx_ok me s' \<and> tx_frame s s' \<and> blk s' = blk s \<and> holder s' = holder s \<and> slots s' (Suc c) l"
  using assms
proof (induction bs arbitrary: s f)
  case Nil
  then show ?case by (auto simp: group_blocks_def)
next
  case (Cons b bs)
  let ?n = "bit_blk s b" and ?k = "length (filter (bit_free (blk s (bit_blk s b))) (bmap_bits (sb s) b))"
  have b: "BPB dvd b" "b < unat (sb_size (sb s))" using Cons.prems(5) by simp_all
  have n: "?n < disksize s" "holder s ?n = None" "BBLOCK (of_nat b) (sb s) = ?n"
    using unat_bit_blk(3) [OF Cons.prems(4) b(2)] Cons.prems(2) by (simp_all add: bit_blk_def)
  obtain i t u where r: "bread 1 ?n s = Ret i t" "b_data (bufs t ! i) = blk s ?n" "brelse i t = Ret () u"
    "tx_ok me u" "tx_frame s u" "blk u = blk s" "holder u = holder s" "dirty u = dirty s" "slots u (Suc c) l"
    by (rule tx_read [OF Cons.prems(1) n(1,2) Cons.prems(3)]) (rule that)
  note fs = tx_frame_fs [OF r(5)] tx_frame_sel [OF r(5)] and v = same_view [OF r(5-7)]
  have "filter (\<lambda>b. \<not> in_use s b) (map ((+) b) (bmap_bits (sb s) b)) = map ((+) b) (filter (bit_free (blk s ?n)) (bmap_bits (sb s) b))"
    using group_bits(3) [OF Cons.prems(4) b] by (auto simp: filter_map comp_def intro!: arg_cong [where f = "map _"] filter_cong)
  then have k: "length (filter (\<lambda>b. \<not> in_use s b) (group_blocks s (b # bs))) = ?k + length (filter (\<lambda>b. \<not> in_use u b) (group_blocks u bs))"
    by (simp add: group_blocks_def fs v)
  let ?f = "f\<lparr>free_disk_blocks := free_disk_blocks f + of_nat ?k\<rparr>"
  have run: "count_blocks 1 (b # bs) f s = count_blocks 1 bs ?f u"
    by (simp add: n(3) bnd_Ret [where m = "bread 1 ?n", OF r(1)] getb_def r(2) thn_Ret [where m = "brelse i", OF r(3)])
  have "\<exists>s'. count_blocks 1 bs ?f u = Ret (?f\<lparr>free_disk_blocks := free_disk_blocks ?f + of_nat (length (filter (\<lambda>b. \<not> in_use u b) (group_blocks u bs)))\<rparr>) s'
    \<and> tx_ok me s' \<and> tx_frame u s' \<and> blk s' = blk u \<and> holder s' = holder u \<and> slots s' (Suc c) l"
    using Cons.prems by (intro Cons.IH r) (simp_all add: v fs r(7))
  then show ?case unfolding run k using tx_frame_trans [OF r(5)] r(6,7) by (auto simp: algebra_simps)
qed

text \<open>C6: \<^verbatim>\<open>get_fs_stats\<close> counts, in the file system as seen through the cache, the files, the directories and all allocated
  inodes, and the blocks whose bit in the bitmap is clear; it changes nothing.\<close>

theorem fs_stats_counts:
  assumes "tx_ok me s" "holder s = Map.empty" "slots s 1 0" "layout_ok s" "inodes_ok s"
  shows "\<exists>f s'. fs_stats 1 s = Ret f s' \<and> blk s' = blk s
    \<and> num_files f = of_nat (length (filter (\<lambda>i. inode_type s i = T_FILE) [1..<unat (sb_ninodes (sb s))]))
    \<and> num_dirs f = of_nat (length (filter (\<lambda>i. inode_type s i = T_DIR) [1..<unat (sb_ninodes (sb s))]))
    \<and> allocated_inodes f = of_nat (length (filter (\<lambda>i. inode_type s i \<noteq> 0) [1..<unat (sb_ninodes (sb s))]))
    \<and> free_disk_blocks f = of_nat (length (filter (\<lambda>b. \<not> in_use s b) [0..<unat (sb_size (sb s))]))"
proof -
  let ?f = "\<lparr>num_files = 0, num_dirs = 0, allocated_inodes = 0, free_disk_blocks = 0\<rparr>"
  let ?is = "[1..<unat (sb_ninodes (sb s))]"
  obtain t where t: "count_inodes 1 ?is ?f s = Ret (counted (inode_type s) ?is ?f) t" "tx_ok me t" "tx_frame s t" "blk t = blk s"
    "holder t = holder s" "slots t (Suc 0) 0"
    using count_inodes_ok [OF assms(1,2) _ assms(5), of 0 0 ?is ?f] assms(3) by auto
  note fs = tx_frame_fs [OF t(3)] and v = same_view [OF t(3-5)]
  have st: "\<forall>b \<in> set (bmap_starts (sb s)). BPB dvd b \<and> b < unat (sb_size (sb t))" using starts_in fs by simp
  have gb: "group_blocks t (bmap_starts (sb s)) = [0..<unat (sb_size (sb s))]"
    by (simp add: group_blocks_def bmap_starts_cover fs)
  from count_blocks_ok [OF t(2) _ t(6) _ st, of "counted (inode_type s) ?is ?f"] assms(2,4) t(5) v obtain u where
    u: "count_blocks 1 (bmap_starts (sb s)) (counted (inode_type s) ?is ?f) t = Ret ((counted (inode_type s) ?is ?f)\<lparr>free_disk_blocks :=
      free_disk_blocks (counted (inode_type s) ?is ?f) + of_nat (length (filter (\<lambda>b. \<not> in_use s b) [0..<unat (sb_size (sb s))]))\<rparr>) u" "blk u = blk t"
    unfolding gb by auto
  have "fs_stats 1 s = count_blocks 1 (bmap_starts (sb s)) (counted (inode_type s) ?is ?f) t"
    unfolding fs_stats_def bnd_prim by (rule bnd_Ret [where m = "count_inodes 1 ?is ?f", OF t(1)])
  with u t(4) show ?thesis by (simp add: counted_def)
qed

section \<open>An example\<close>

text \<open>
  A file system of 100 blocks: the log in blocks 2 to 31, 200 inodes from block 32 on, the bitmap in block 58, which has the first 64 blocks in
  use. One system call runs; the cache is empty.
\<close>

definition fs_disk :: "nat \<Rightarrow> uchar list" where
  "fs_disk n = (if n = 58 then replicate 8 255 @ replicate 504 0 else replicate BSIZE 0)"

definition fs_example :: fsst where
  "fs_example = logst.extend (biost.extend (consst.extend cons_example
     \<lparr>slks = (\<lambda>_. \<lparr>sl_locked = False, sl_pid = 0\<rparr>), slk_addr = (\<lambda>_. 0),
      bufs = replicate NBUF \<lparr>b_flags = 0, b_dev = 0, b_blockno = 0, b_refcnt = 0, b_data = replicate BSIZE 0\<rparr>,
      lru = [0..<NBUF], disk = fs_disk, disksize = 100, dtrace = []\<rparr>)
     \<lparr>log_addr = 0, log_start = 2, log_size = 30, outstanding = 1, committing = False, log_dev = 1, lh_n = 0,
      lh_block = replicate 30 0\<rparr>)
     \<lparr>sb = \<lparr>sb_size = 100, sb_nblocks = 41, sb_ninodes = 200, sb_nlog = 30, sb_logstart = 2, sb_inodestart = 32, sb_bmapstart = 58\<rparr>,
      inodes = replicate NINODE \<lparr>i_dev = 0, i_inum = 0, i_ref = 0, i_valid = False, i_type = 0, i_major = 0, i_minor = 0, i_nlink = 0,
        i_size = 0, i_addrs = replicate 13 0\<rparr>, kbuf = (\<lambda>_. 0), input_addr = 0\<rparr>"

lemma fs_example_sel:
  "slks fs_example = (\<lambda>_. \<lparr>sl_locked = False, sl_pid = 0\<rparr>)"
  "bufs fs_example = replicate NBUF \<lparr>b_flags = 0, b_dev = 0, b_blockno = 0, b_refcnt = 0, b_data = replicate BSIZE 0\<rparr>"
  "lru fs_example = [0..<NBUF]" "disk fs_example = fs_disk" "disksize fs_example = 100"
  "log_start fs_example = 2" "log_size fs_example = 30" "log_dev fs_example = 1" "lh_n fs_example = 0" "lh_block fs_example = replicate 30 0"
  "outstanding fs_example = 1" "committing fs_example = False"
  "held fs_example = held cons_example" "others fs_example = others cons_example" "cur fs_example = cur cons_example"
  "procs fs_example = procs cons_example"
  "sb fs_example = \<lparr>sb_size = 100, sb_nblocks = 41, sb_ninodes = 200, sb_nlog = 30, sb_logstart = 2, sb_inodestart = 32, sb_bmapstart = 58\<rparr>"
  by (simp_all add: fs_example_def logst.defs biost.defs consst.defs)

lemma fs_example_calm: "calm 0 fs_example"
  using log_example_calm by (simp add: calm_def fs_example_sel log_example_sel)

lemma fs_example_view:
  "caches fs_example n i = False" "bufat fs_example n = None" "blk fs_example n = fs_disk (unat n)" "holder fs_example = Map.empty"
  "dirty fs_example n = False" "busy fs_example = {}"
proof -
  show c: "caches fs_example n i = False" for n i by (simp add: caches_def fs_example_sel)
  show b: "bufat fs_example n = None" for n by (simp add: bufat_None c)
  show "blk fs_example n = fs_disk (unat n)" by (simp add: blk_def b fs_example_sel)
  show h: "holder fs_example = Map.empty" by (simp add: holder_def b fun_eq_iff)
  show d: "dirty fs_example n = False" for n by (simp add: dirty_def b)
  show "busy fs_example = {}" by (simp add: busy_def owned_holder h d)
qed

lemma fs_example_ok: "tx_ok 0 fs_example" "slots fs_example 29 29" "held_ok fs_example"
proof -
  have "cache_ok p fs_example" for p
    by (auto simp: cache_ok_def fs_example_view(1)) (auto simp: fs_example_sel buf_ok_def fs_disk_def BSIZE_def NBUF_def)
  then have "io_ok 0 fs_example" using fs_example_calm by (simp add: io_ok_def)
  moreover have "get32 0 (fs_disk 2) = 0" by (simp add: fs_disk_def get32_def get_at_def BSIZE_def numeral_eq_Suc)
  ultimately show "tx_ok 0 fs_example"
    by (simp add: tx_ok_def fs_example_sel fs_example_view in_trans_def log_limit_def LOGSIZE_def MAXOPBLOCKS_def)
  show "slots fs_example 29 29" by (simp add: slots_def fs_example_sel fs_example_view log_limit_def LOGSIZE_def MAXOPBLOCKS_def NBUF_def)
  show "held_ok fs_example" by (simp add: held_ok_def fs_example_view)
qed

lemma fs_example_bit_blk: "b < 100 \<Longrightarrow> bit_blk fs_example b = 58"
  using word_div_small [of b] by (simp add: bit_blk_def BBLOCK_def fs_example_sel BPB_def BSIZE_def)

lemma fs_example_in_use:
  assumes "b < 100"
  shows "in_use fs_example b \<longleftrightarrow> b < 64"
proof -
  have "bit (255 :: uchar) (b mod 8)"
  proof -
    have "(255 :: uchar) = mask 8" by (simp add: mask_eq_exp_minus_1)
    then show ?thesis by (simp only: bit_mask_iff possible_bit_word) simp
  qed
  moreover have "b mod BPB = b" "b div 8 < 512" using assms by (simp_all add: BPB_def BSIZE_def)
  moreover have "(replicate 8 x @ replicate 504 y) ! (b div 8) = (if b < 64 then x else y)" for x y :: uchar
    using \<open>b div 8 < 512\<close> by (auto simp: nth_append)
  ultimately show ?thesis
    using assms by (simp add: in_use_def bit_free_iff fs_example_bit_blk fs_example_view fs_disk_def)
qed

lemma fs_example_iblock:
  assumes "i < 200"
  shows "IBLOCK (of_nat i) (sb fs_example) = of_nat (i div 8 + 32)"
proof -
  have "(of_nat i :: uint) div of_nat IPB = of_nat (i div 8)"
    using assms by (simp add: word_unat_eq_iff unat_div unat_small IPB_def BSIZE_def)
  then show ?thesis by (simp add: IBLOCK_def fs_example_sel)
qed

lemma fs_example_layout: "layout_ok fs_example" "inodes_ok fs_example"
proof -
  have "log_area fs_example (of_nat b) \<longleftrightarrow> 2 \<le> b \<and> b < 32" if "b < 100" for b
    using that unat_small [of b] by (simp add: log_area_def fs_example_sel)
  moreover have "\<not> log_area fs_example 58" by (simp add: log_area_def fs_example_sel)
  ultimately show "layout_ok fs_example"
    by (auto simp: layout_ok_def fs_example_sel fs_example_in_use fs_example_bit_blk BPB_def BSIZE_def)
  have "IBLOCK (of_nat i) (sb fs_example) < 100" if "i < 200" for i
    using that unat_small [of "i div 8 + 32"] by (simp add: fs_example_iblock word_less_nat_alt del: of_nat_add)
  then show "inodes_ok fs_example" by (simp add: inodes_ok_def) (simp add: fs_example_sel)
qed

theorem balloc_first_free_witness:
  "\<exists>s'. balloc 1 fs_example = Ret 64 s' \<and> in_use s' 64 \<and> blk s' 64 = replicate BSIZE 0"
proof -
  have u: "\<exists>b < unat (sb_size (sb fs_example)). \<not> in_use fs_example b"
    by (rule exI [of _ 64]) (simp add: fs_example_sel fs_example_in_use)
  have s: "slots fs_example 2 2" using fs_example_ok(2) by (simp add: slots_def)
  have o: "0 < outstanding fs_example" by (simp add: fs_example_sel)
  from balloc_first_free [OF fs_example_ok(1) fs_example_layout(1) fs_example_ok(3) o s] u obtain a s' where
    a: "balloc 1 fs_example = Ret (of_nat a) s'" "a < 100" "\<not> in_use fs_example a" "\<forall>b < a. in_use fs_example b"
    "\<forall>b < 100. in_use s' b \<longleftrightarrow> in_use fs_example b \<or> b = a" "blk s' (of_nat a) = replicate BSIZE 0"
    by (auto simp: fs_example_sel(17))
  have "\<not> a < 64" using a(2,3) fs_example_in_use by blast
  moreover have "\<not> 64 < a" using a(4) fs_example_in_use [of 64] by auto
  ultimately have "a = 64" by simp
  with a show ?thesis by simp
qed

theorem bfree_undoes_balloc_witness:
  "\<exists>a s' s'' t. balloc 1 fs_example = Ret a s' \<and> bfree 1 a s' = Ret () s'' \<and> blk s'' = (blk fs_example)(a := replicate BSIZE 0)
    \<and> bfree 1 a s'' = Stop (Panic ''freeing free block'') t"
proof -
  have s: "slots fs_example 4 4" "slots fs_example (Suc (Suc 0)) (Suc (Suc 0))" using fs_example_ok(2) by (simp_all add: slots_def)
  have o: "0 < outstanding fs_example" by (simp add: fs_example_sel)
  note ok = fs_example_ok(1) fs_example_layout(1) fs_example_ok(3) o
  have "find (\<lambda>b. \<not> in_use fs_example b) [0..<unat (sb_size (sb fs_example))] \<noteq> None"
    by (auto simp: find_None_iff fs_example_sel fs_example_in_use intro!: bexI [of _ 64] exI [of _ 64])
  then obtain a s' where "balloc 1 fs_example = Ret a s'"
    using balloc_ok [OF ok s(2)] by (auto split: option.splits)
  with bfree_undoes_balloc [OF ok s(1) this] show ?thesis by blast
qed

theorem fs_stats_counts_witness:
  "\<exists>f s'. fs_stats 1 fs_example = Ret f s' \<and> num_files f = 0 \<and> free_disk_blocks f = 36"
proof -
  have s: "slots fs_example 1 0" using fs_example_ok(2) by (simp add: slots_def)
  have t: "inode_type fs_example i = 0" if "i < 200" for i
  proof -
    have "dinode_at (of_nat i) \<le> 448" by (simp add: dinode_at_def IPB_def BSIZE_def)
    then have "get_at (dinode_at (of_nat i)) 2 (replicate BSIZE 0) = replicate 2 (0 :: uchar)"
      by (simp add: get_at_def BSIZE_def)
    moreover have "unat (IBLOCK (of_nat i) (sb fs_example)) \<noteq> 58"
      using that unat_small [of "i div 8 + 32"] by (simp add: fs_example_iblock del: of_nat_add)
    ultimately show ?thesis
      by (simp add: inode_type_def dinode_type_def fs_example_view fs_disk_def get16_def numeral_2_eq_2)
  qed
  have "filter (\<lambda>i. inode_type fs_example i = T_FILE) [1..<200] = []" using t by (auto simp: filter_empty_conv)
  moreover have "filter (\<lambda>b. \<not> in_use fs_example b) [0..<100] = [64..<100]"
  proof -
    have "filter (\<lambda>b. \<not> in_use fs_example b) [0..<100] = filter (\<lambda>b. \<not> b < 64) [0..<100]"
      by (intro filter_cong) (simp_all add: fs_example_in_use)
    moreover have "[0..<100] = [0..<64] @ [64..<100 :: nat]" using upt_add_eq_append [of 0 64 36] by simp
    ultimately show ?thesis by (simp only: filter_append) (simp add: filter_empty_conv filter_id_conv)
  qed
  ultimately show ?thesis
    using fs_stats_counts [OF fs_example_ok(1) fs_example_view(4) s fs_example_layout] by (auto simp: fs_example_sel(17))
qed

end
