(* ===== verification/Contents.thy ===== *)
theory Contents
  imports Bitmap
begin

unbundle bit_operations_syntax

text \<open>
  The contents of a file. The block pointers of an inode, direct and through the indirect block, are a function from file blocks to
  disk blocks; \<^verbatim>\<open>bmap\<close> extends it by fresh blocks and changes no byte of any file, \<^verbatim>\<open>writei\<close> replaces the bytes of its range,
  and \<^verbatim>\<open>readi\<close> copies them out.
\<close>

section \<open>The blocks of a file\<close>

definition indirect :: "'e fsst_scheme \<Rightarrow> nat \<Rightarrow> uint" where
  "indirect s ip = i_addrs (inodes s ! ip) ! NDIRECT"

text \<open>The block of the disk for a block of the file, or 0; \<open>MAXFILE\<close> stands for the indirect block itself.\<close>

definition ptr :: "'e fsst_scheme \<Rightarrow> nat \<Rightarrow> nat \<Rightarrow> uint" where
  "ptr s ip k =
     (if k < NDIRECT then i_addrs (inodes s ! ip) ! k
      else if k < MAXFILE then if indirect s ip = 0 then 0 else get32 (4 * (k - NDIRECT)) (blk s (indirect s ip))
      else if k = MAXFILE then indirect s ip
      else 0)"

text \<open>A block that is not mapped has zeroes.\<close>

definition fblock :: "'e fsst_scheme \<Rightarrow> nat \<Rightarrow> nat \<Rightarrow> uchar list" where
  "fblock s ip k = (if ptr s ip k = 0 then replicate BSIZE 0 else blk s (ptr s ip k))"

definition fbyte :: "'e fsst_scheme \<Rightarrow> nat \<Rightarrow> nat \<Rightarrow> uchar" where
  "fbyte s ip i = fblock s ip (i div BSIZE) ! (i mod BSIZE)"

text \<open>A block for data: within the file system, in use, and neither of the log nor of the bitmap.\<close>

definition data_block :: "'e fsst_scheme \<Rightarrow> uint \<Rightarrow> bool" where
  "data_block s n \<longleftrightarrow> unat n < unat (sb_size (sb s)) \<and> in_use s (unat n) \<and> \<not> log_area s n
     \<and> (\<forall>b < unat (sb_size (sb s)). bit_blk s b \<noteq> n)"

text \<open>The pointers of a file are data blocks, each of them used once; block 0 is never free.\<close>

definition file_ok :: "'e fsst_scheme \<Rightarrow> nat \<Rightarrow> bool" where
  "file_ok s ip \<longleftrightarrow> ip < length (inodes s) \<and> i_dev (inodes s ! ip) = 1 \<and> length (i_addrs (inodes s ! ip)) = NDIRECT + 1
     \<and> in_use s 0 \<and> (\<forall>k. ptr s ip k \<noteq> 0 \<longrightarrow> data_block s (ptr s ip k))
     \<and> (\<forall>j k. ptr s ip j = ptr s ip k \<longrightarrow> ptr s ip j \<noteq> 0 \<longrightarrow> j = k)"

text \<open>A data block that is not of this file.\<close>

definition foreign :: "'e fsst_scheme \<Rightarrow> nat \<Rightarrow> uint \<Rightarrow> bool" where
  "foreign s ip n \<longleftrightarrow> data_block s n \<and> (\<forall>k. ptr s ip k \<noteq> n)"

definition free_blocks :: "'e fsst_scheme \<Rightarrow> nat" where
  "free_blocks s = card {b. b < unat (sb_size (sb s)) \<and> \<not> in_use s b}"

section \<open>Frames\<close>

lemma fs_upd:
  fixes s :: "'e fsst_scheme"
  shows "blk (s\<lparr>inodes := x, kbuf := y\<rparr>) = blk s" "holder (s\<lparr>inodes := x, kbuf := y\<rparr>) = holder s" "dirty (s\<lparr>inodes := x, kbuf := y\<rparr>) = dirty s"
    "busy (s\<lparr>inodes := x, kbuf := y\<rparr>) = busy s" "io_ok me (s\<lparr>inodes := x, kbuf := y\<rparr>) = io_ok me s" "tx_ok me (s\<lparr>inodes := x, kbuf := y\<rparr>) = tx_ok me s"
    "slots (s\<lparr>inodes := x, kbuf := y\<rparr>) = slots s" "log_area (s\<lparr>inodes := x, kbuf := y\<rparr>) = log_area s" "bit_blk (s\<lparr>inodes := x, kbuf := y\<rparr>) = bit_blk s"
    "in_use (s\<lparr>inodes := x, kbuf := y\<rparr>) = in_use s" "layout_ok (s\<lparr>inodes := x, kbuf := y\<rparr>) = layout_ok s" "held_ok (s\<lparr>inodes := x, kbuf := y\<rparr>) = held_ok s"
    "data_block (s\<lparr>inodes := x, kbuf := y\<rparr>) = data_block s" "free_blocks (s\<lparr>inodes := x, kbuf := y\<rparr>) = free_blocks s"
proof -
  have c: "caches (s\<lparr>inodes := x, kbuf := y\<rparr>) = caches s" by (simp add: caches_def fun_eq_iff)
  have b: "bufat (s\<lparr>inodes := x, kbuf := y\<rparr>) = bufat s" by (simp add: bufat_def c fun_eq_iff)
  show k: "blk (s\<lparr>inodes := x, kbuf := y\<rparr>) = blk s" by (simp add: blk_def b fun_eq_iff cong: option.case_cong)
  have o: "owned (s\<lparr>inodes := x, kbuf := y\<rparr>) = owned s" by (simp add: owned_def b fun_eq_iff cong: option.case_cong)
  show h: "holder (s\<lparr>inodes := x, kbuf := y\<rparr>) = holder s" by (simp add: holder_def b o fun_eq_iff)
  show d: "dirty (s\<lparr>inodes := x, kbuf := y\<rparr>) = dirty s" by (simp add: dirty_def b fun_eq_iff cong: option.case_cong)
  show bu: "busy (s\<lparr>inodes := x, kbuf := y\<rparr>) = busy s" by (simp add: busy_def o d)
  show io: "io_ok me (s\<lparr>inodes := x, kbuf := y\<rparr>) = io_ok me s" by (simp add: io_ok_def calm_def mypid_def cache_ok_def c)
  show la: "log_area (s\<lparr>inodes := x, kbuf := y\<rparr>) = log_area s" by (simp add: log_area_def fun_eq_iff)
  have ll: "log_limit (s\<lparr>inodes := x, kbuf := y\<rparr>) = log_limit s" by (simp add: log_limit_def)
  show "tx_ok me (s\<lparr>inodes := x, kbuf := y\<rparr>) = tx_ok me s" by (simp add: tx_ok_def io d in_trans_def la ll)
  show "slots (s\<lparr>inodes := x, kbuf := y\<rparr>) = slots s" by (simp add: slots_def bu ll fun_eq_iff)
  show bb: "bit_blk (s\<lparr>inodes := x, kbuf := y\<rparr>) = bit_blk s" by (simp add: bit_blk_def fun_eq_iff)
  show u: "in_use (s\<lparr>inodes := x, kbuf := y\<rparr>) = in_use s" by (simp add: in_use_def k bb fun_eq_iff)
  show "layout_ok (s\<lparr>inodes := x, kbuf := y\<rparr>) = layout_ok s" "held_ok (s\<lparr>inodes := x, kbuf := y\<rparr>) = held_ok s"
    by (simp_all add: layout_ok_def held_ok_def la bb u h)
  show "free_blocks (s\<lparr>inodes := x, kbuf := y\<rparr>) = free_blocks s" by (simp add: free_blocks_def u)
  show "data_block (s\<lparr>inodes := x, kbuf := y\<rparr>) = data_block s" by (simp add: data_block_def la bb u fun_eq_iff)
qed

lemma inodes_upd [simp]:
  fixes s :: "'e fsst_scheme"
  shows "blk (s\<lparr>inodes := x\<rparr>) = blk s" "holder (s\<lparr>inodes := x\<rparr>) = holder s" "dirty (s\<lparr>inodes := x\<rparr>) = dirty s"
    "busy (s\<lparr>inodes := x\<rparr>) = busy s" "io_ok me (s\<lparr>inodes := x\<rparr>) = io_ok me s" "tx_ok me (s\<lparr>inodes := x\<rparr>) = tx_ok me s"
    "slots (s\<lparr>inodes := x\<rparr>) = slots s" "log_area (s\<lparr>inodes := x\<rparr>) = log_area s" "bit_blk (s\<lparr>inodes := x\<rparr>) = bit_blk s"
    "in_use (s\<lparr>inodes := x\<rparr>) = in_use s" "layout_ok (s\<lparr>inodes := x\<rparr>) = layout_ok s" "held_ok (s\<lparr>inodes := x\<rparr>) = held_ok s"
    "data_block (s\<lparr>inodes := x\<rparr>) = data_block s" "free_blocks (s\<lparr>inodes := x\<rparr>) = free_blocks s"
  using fs_upd [where s = s and x = x and y = "kbuf s"] by simp_all

lemma kbuf_upd [simp]:
  fixes s :: "'e fsst_scheme"
  shows "blk (s\<lparr>kbuf := y\<rparr>) = blk s" "holder (s\<lparr>kbuf := y\<rparr>) = holder s" "dirty (s\<lparr>kbuf := y\<rparr>) = dirty s"
    "busy (s\<lparr>kbuf := y\<rparr>) = busy s" "io_ok me (s\<lparr>kbuf := y\<rparr>) = io_ok me s" "tx_ok me (s\<lparr>kbuf := y\<rparr>) = tx_ok me s"
    "slots (s\<lparr>kbuf := y\<rparr>) = slots s" "log_area (s\<lparr>kbuf := y\<rparr>) = log_area s" "bit_blk (s\<lparr>kbuf := y\<rparr>) = bit_blk s"
    "in_use (s\<lparr>kbuf := y\<rparr>) = in_use s" "layout_ok (s\<lparr>kbuf := y\<rparr>) = layout_ok s" "held_ok (s\<lparr>kbuf := y\<rparr>) = held_ok s"
    "data_block (s\<lparr>kbuf := y\<rparr>) = data_block s" "free_blocks (s\<lparr>kbuf := y\<rparr>) = free_blocks s"
  using fs_upd [where s = s and x = "inodes s" and y = y] by simp_all

text \<open>What work on a file changes of the state besides blocks: the log, the cache, and the addresses of the inode.\<close>

definition file_frame :: "nat \<Rightarrow> 'e fsst_scheme \<Rightarrow> 'e fsst_scheme \<Rightarrow> bool" where
  "file_frame ip s s' \<longleftrightarrow> tx_frame s (s'\<lparr>inodes := inodes s\<rparr>)
     \<and> (\<exists>as. inodes s' = (inodes s)[ip := (inodes s ! ip)\<lparr>i_addrs := as\<rparr>])"

lemma tx_frame_inodes:
  fixes s :: "'e fsst_scheme"
  assumes "tx_frame s t"
  shows "tx_frame (s\<lparr>inodes := x\<rparr>) (t\<lparr>inodes := x\<rparr>)"
proof -
  have e: "erase (u\<lparr>inodes := x, lh_n := 0, lh_block := []\<rparr>) = (erase (u\<lparr>lh_n := 0, lh_block := []\<rparr>))\<lparr>inodes := x\<rparr>" for u :: "'e fsst_scheme"
    by (simp add: erase_def)
  show ?thesis using assms by (simp add: tx_frame_def io_frame_def e)
qed

lemma file_frame_tx:
  assumes "tx_frame s t"
  shows "file_frame ip s t"
proof -
  note f = tx_frame_fs [OF assms]
  then have "t\<lparr>inodes := inodes s\<rparr> = t" by simp
  moreover have "inodes t = (inodes s)[ip := (inodes s ! ip)\<lparr>i_addrs := i_addrs (inodes s ! ip)\<rparr>]" using f by simp
  ultimately show ?thesis using assms unfolding file_frame_def by metis
qed

lemma file_frame_trans:
  assumes "file_frame ip s t" "file_frame ip t u" "ip < length (inodes s)"
  shows "file_frame ip s u"
proof -
  have "tx_frame (t\<lparr>inodes := inodes s\<rparr>) (u\<lparr>inodes := inodes s\<rparr>)"
    using tx_frame_inodes [of t "u\<lparr>inodes := inodes t\<rparr>" "inodes s"] assms(2) by (simp add: file_frame_def)
  then have "tx_frame s (u\<lparr>inodes := inodes s\<rparr>)" using assms(1) by (auto simp: file_frame_def intro: tx_frame_trans)
  moreover have "\<exists>as. inodes u = (inodes s)[ip := (inodes s ! ip)\<lparr>i_addrs := as\<rparr>]"
    using assms by (auto simp: file_frame_def)
  ultimately show ?thesis by (simp add: file_frame_def)
qed

lemma file_frame_sel:
  assumes "file_frame ip s t" "ip < length (inodes s)"
  shows "sb t = sb s" "kbuf t = kbuf s" "outstanding t = outstanding s" "disksize t = disksize s" "log_area t = log_area s" "bit_blk t = bit_blk s"
    "length (inodes t) = length (inodes s)" "j \<noteq> ip \<Longrightarrow> inodes t ! j = inodes s ! j" "i_dev (inodes t ! ip) = i_dev (inodes s ! ip)" "i_type (inodes t ! ip) = i_type (inodes s ! ip)"
    "i_size (inodes t ! ip) = i_size (inodes s ! ip)" "i_inum (inodes t ! ip) = i_inum (inodes s ! ip)"
proof -
  have f: "tx_frame s (t\<lparr>inodes := inodes s\<rparr>)" using assms(1) by (simp add: file_frame_def)
  note g = tx_frame_fs [OF f] tx_frame_sel [OF f]
  show "sb t = sb s" "kbuf t = kbuf s" "outstanding t = outstanding s" "disksize t = disksize s" "log_area t = log_area s"
    using g by simp_all
  then show "bit_blk t = bit_blk s" by (simp add: bit_blk_def fun_eq_iff)
  show "length (inodes t) = length (inodes s)" "j \<noteq> ip \<Longrightarrow> inodes t ! j = inodes s ! j" "i_dev (inodes t ! ip) = i_dev (inodes s ! ip)"
    "i_type (inodes t ! ip) = i_type (inodes s ! ip)" "i_size (inodes t ! ip) = i_size (inodes s ! ip)" "i_inum (inodes t ! ip) = i_inum (inodes s ! ip)"
    using assms by (auto simp: file_frame_def)
qed

section \<open>A file in a transaction\<close>

definition file_tx :: "nat \<Rightarrow> nat \<Rightarrow> 'e fsst_scheme \<Rightarrow> bool" where
  "file_tx me ip s \<longleftrightarrow> tx_ok me s \<and> layout_ok s \<and> held_ok s \<and> 0 < outstanding s \<and> file_ok s ip"

text \<open>Blocks that are not of the file, and pointers that are set, stay.\<close>

definition kept :: "nat \<Rightarrow> 'e fsst_scheme \<Rightarrow> 'e fsst_scheme \<Rightarrow> bool" where
  "kept ip s t \<longleftrightarrow> ip < length (inodes s) \<and> file_frame ip s t \<and> holder t = holder s
     \<and> (\<forall>n. foreign s ip n \<longrightarrow> foreign t ip n \<and> blk t n = blk s n) \<and> (\<forall>k. ptr s ip k \<noteq> 0 \<longrightarrow> ptr t ip k = ptr s ip k)"

lemma kept_trans: "kept ip s t \<Longrightarrow> kept ip t u \<Longrightarrow> kept ip s u"
  using file_frame_trans [of ip s t u] unfolding kept_def by metis

lemma same_file:
  fixes s :: "'e fsst_scheme"
  assumes "tx_frame s t" "blk t = blk s"
  shows "ptr t = ptr s" "fblock t = fblock s" "data_block t = data_block s" "file_ok t = file_ok s" "foreign t = foreign s" "in_use t = in_use s"
    "free_blocks t = free_blocks s"
proof -
  note f = tx_frame_fs [OF assms(1)] tx_frame_sel [OF assms(1)]
  have b: "bit_blk t = bit_blk s" by (simp add: bit_blk_def fun_eq_iff f)
  show u: "in_use t = in_use s" by (simp add: in_use_def fun_eq_iff b assms)
  show "free_blocks t = free_blocks s" by (simp add: free_blocks_def u f)
  have "indirect t = indirect s" by (simp add: indirect_def fun_eq_iff f)
  then show p: "ptr t = ptr s" by (simp add: ptr_def fun_eq_iff f assms(2))
  show "fblock t = fblock s" by (simp add: fblock_def fun_eq_iff p assms(2))
  show d: "data_block t = data_block s" by (simp add: data_block_def fun_eq_iff f b u)
  show "file_ok t = file_ok s" "foreign t = foreign s" by (simp_all add: file_ok_def foreign_def fun_eq_iff f p d u)
qed

lemma kept_same:
  fixes s :: "'e fsst_scheme"
  assumes "tx_frame s t" "blk t = blk s" "holder t = holder s" "ip < length (inodes s)"
  shows "kept ip s t"
  using assms same_file [OF assms(1,2)] by (simp add: kept_def file_frame_tx)

text \<open>A pointer that was not set gets a block that was free.\<close>

lemma grow:
  assumes ok: "file_ok s ip" "ptr s ip k = 0" and a: "a \<noteq> 0" "\<not> data_block s a"
    and t: "\<And>n. data_block t n \<longleftrightarrow> data_block s n \<or> n = a" "ptr t ip = (ptr s ip)(k := a)" "in_use t 0" "file_frame ip s t" "length (i_addrs (inodes t ! ip)) = NDIRECT + 1"
  shows "file_ok t ip" and "\<And>n. foreign s ip n \<Longrightarrow> foreign t ip n" and "\<And>j. ptr s ip j \<noteq> 0 \<Longrightarrow> ptr t ip j = ptr s ip j"
proof -
  have ip: "ip < length (inodes s)" using ok by (simp add: file_ok_def)
  note f = file_frame_sel [OF t(4) ip]
  have p: "ptr s ip j \<noteq> a" for j using ok(1) a by (auto simp: file_ok_def)
  show "ptr s ip j \<noteq> 0 \<Longrightarrow> ptr t ip j = ptr s ip j" for j using ok(2) t(2) by auto
  show "foreign s ip n \<Longrightarrow> foreign t ip n" for n using a(2) by (auto simp: foreign_def t(1,2))
  show "file_ok t ip"
    using ok p ip a(1) t(3,5) f unfolding file_ok_def t(2) by (auto simp: t(1))
qed

lemma grow_fblock:
  assumes "file_ok s ip" "ptr s ip k = 0" "a \<noteq> 0" "ptr t ip = (ptr s ip)(k := a)" "blk t a = replicate BSIZE 0"
    and b: "\<And>n. data_block s n \<Longrightarrow> n \<noteq> indirect s ip \<Longrightarrow> blk t n = blk s n" and j: "j < MAXFILE"
  shows "fblock t ip j = fblock s ip j"
proof (cases "j = k \<or> ptr s ip j = 0")
  case False
  have "ptr s ip MAXFILE = indirect s ip" by (simp add: ptr_def MAXFILE_def NDIRECT_def)
  then have "ptr s ip j \<noteq> indirect s ip" using assms(1) False j unfolding file_ok_def by (metis less_irrefl)
  then show ?thesis using False b [of "ptr s ip j"] assms(1,4) by (auto simp: fblock_def file_ok_def)
qed (use assms in \<open>auto simp: fblock_def\<close>)

section \<open>Allocating blocks of a file\<close>

text \<open>What an allocation does for a file whose pointers are not changed yet.\<close>

lemma balloc_file:
  fixes s :: "'e fsst_scheme"
  assumes tx: "file_tx me ip s" and room: "slots s (Suc (Suc c)) (Suc (Suc l))" and r: "balloc 1 s = Ret a s'"
  shows "tx_ok me s'" "layout_ok s'" "held_ok s'" "tx_frame s s'" "holder s' = holder s" "slots s' c l" "a \<noteq> 0" "\<not> data_block s a"
    "\<And>n. data_block s' n \<longleftrightarrow> data_block s n \<or> n = a" "in_use s' 0" "blk s' a = replicate BSIZE 0" "\<And>n. data_block s n \<Longrightarrow> blk s' n = blk s n"
    "ptr s' ip = ptr s ip" "indirect s' ip = indirect s ip" "\<And>n. data_block s n \<Longrightarrow> in_use s' (unat n)"
    "indirect s ip \<noteq> 0 \<Longrightarrow> blk s' (indirect s ip) = blk s (indirect s ip)" "free_blocks s = Suc (free_blocks s')"
proof -
  have ok: "tx_ok me s" "layout_ok s" "held_ok s" "0 < outstanding s" "file_ok s ip" using tx by (simp_all add: file_tx_def)
  obtain b where b: "a = of_nat b" "b < unat (sb_size (sb s))" "\<not> in_use s b" and al: "allocated me s s' b c l"
    by (rule balloc_Ret [OF ok(1-4) room r]) (rule that)
  note v = allocated_view [OF al ok(1-3) b(2,3)]
  show t: "tx_ok me s'" "tx_frame s s'" "holder s' = holder s" "slots s' c l" using al by (simp_all add: allocated_def)
  show "layout_ok s'" "held_ok s'" by (rule v)+
  note f = tx_frame_fs [OF t(2)] tx_frame_sel [OF t(2)]
  have ub: "unat a = b" using unat_of [OF b(2)] b(1) by simp
  have z: "in_use s 0" using ok(5) by (simp add: file_ok_def)
  show "a \<noteq> 0" using ub z b(3) by auto
  have "{x. x < unat (sb_size (sb s)) \<and> \<not> in_use s x} = insert b {x. x < unat (sb_size (sb s')) \<and> \<not> in_use s' x}"
    using v(1) b f(1) by auto
  moreover have "b \<notin> {x. x < unat (sb_size (sb s')) \<and> \<not> in_use s' x}" using v(1) [OF b(2)] by simp
  ultimately show "free_blocks s = Suc (free_blocks s')" by (simp add: free_blocks_def)
  have sz: "0 < unat (sb_size (sb s))" using b(2) by simp
  show "in_use s' 0" using v(1) [OF sz] z by simp
  show nd: "\<not> data_block s a" using b(3) ub by (simp add: data_block_def)
  have nl: "\<not> log_area s a" using ok(2) b by (auto simp: layout_ok_def)
  have nb: "bit_blk s k \<noteq> a" if "k < unat (sb_size (sb s))" for k using bitmap_not_free [OF ok(2) b(2,3) that] b(1) by simp
  show d: "data_block s' n \<longleftrightarrow> data_block s n \<or> n = a" for n
  proof (cases "n = a")
    case True
    then show ?thesis using v(1) [OF b(2)] nl nb b(2) ub unfolding data_block_def f v(4) by auto
  next
    case False
    then have "unat n \<noteq> b" using ub by (auto simp: word_unat_eq_iff)
    then show ?thesis using v(1) [of "unat n"] False unfolding data_block_def f v(4) by auto
  qed
  then show "\<And>n. data_block s n \<Longrightarrow> in_use s' (unat n)" by (auto simp: data_block_def)
  show bl: "blk s' n = blk s n" if "data_block s n" for n
    using that v(3) [of n] nd b(2) by (auto simp: data_block_def b(1) [symmetric])
  show "blk s' a = replicate BSIZE 0" using v(2) b(1) by simp
  show i: "indirect s' ip = indirect s ip" by (simp add: indirect_def f)
  have "ptr s ip MAXFILE = indirect s ip" by (simp add: ptr_def MAXFILE_def NDIRECT_def)
  then have "indirect s ip = 0 \<or> data_block s (indirect s ip)" using ok(5) unfolding file_ok_def by metis
  then show "indirect s ip \<noteq> 0 \<Longrightarrow> blk s' (indirect s ip) = blk s (indirect s ip)" "ptr s' ip = ptr s ip" using bl by (auto simp: ptr_def fun_eq_iff i f)
qed

lemma get32_zeros:
  assumes "m < NINDIRECT"
  shows "get32 (4 * m) (replicate BSIZE 0) = 0"
proof -
  have "4 \<le> 512 - 4 * m" using assms by (simp add: NINDIRECT_def BSIZE_def)
  then have "get_at (4 * m) 4 (replicate BSIZE (0 :: uchar)) = replicate 4 0" by (simp add: get_at_def BSIZE_def)
  moreover have "replicate 4 (0 :: uchar) = [0, 0, 0, 0]" by (simp add: numeral_eq_Suc)
  ultimately show ?thesis by (simp add: get32_def)
qed

text \<open>A direct pointer, or the pointer to the indirect block, is set to a block that was just allocated.\<close>

lemma set_pointer:
  fixes s :: "'e fsst_scheme"
  assumes tx: "file_tx me ip s" and room: "slots s (Suc (Suc c)) (Suc (Suc l))" and r: "balloc 1 s = Ret a s'"
    and k: "k \<le> NDIRECT" "i_addrs (inodes s ! ip) ! k = 0"
  defines "t \<equiv> s'\<lparr>inodes := (inodes s')[ip := (inodes s' ! ip)\<lparr>i_addrs := (i_addrs (inodes s' ! ip))[k := a]\<rparr>]\<rparr>"
  shows "file_tx me ip t" "slots t c l" "kept ip s t" "i_addrs (inodes t ! ip) ! k = a" "a \<noteq> 0" "\<And>j. j < MAXFILE \<Longrightarrow> fblock t ip j = fblock s ip j"
    "\<And>j. j < MAXFILE \<Longrightarrow> j \<noteq> k \<or> k = NDIRECT \<Longrightarrow> ptr t ip j = ptr s ip j"
    "free_blocks s = Suc (free_blocks t)"
proof -
  note b = balloc_file [OF assms(1-3)]
  have ok: "file_ok s ip" "0 < outstanding s" using tx by (simp_all add: file_tx_def)
  have ip: "ip < length (inodes s)" "length (i_addrs (inodes s ! ip)) = NDIRECT + 1" using ok by (simp_all add: file_ok_def)
  note f = tx_frame_fs [OF b(4)] tx_frame_sel [OF b(4)]
  have it: "inodes t = (inodes s)[ip := (inodes s ! ip)\<lparr>i_addrs := (i_addrs (inodes s ! ip))[k := a]\<rparr>]" by (simp add: t_def f)
  define k' where "k' = (if k < NDIRECT then k else MAXFILE)"
  have ff: "file_frame ip s t"
  proof -
    have "t\<lparr>inodes := inodes s\<rparr> = s'" by (simp add: t_def f(2) [symmetric])
    then show ?thesis using b(4) it by (auto simp: file_frame_def)
  qed
  have p0: "ptr s ip k' = 0" using k by (auto simp: ptr_def k'_def MAXFILE_def NDIRECT_def indirect_def)
  have bt: "blk t = blk s'" "data_block t = data_block s'" "in_use t = in_use s'" by (simp_all add: t_def)
  have pt: "ptr t ip = (ptr s ip)(k' := a)"
  proof
    fix j
    show "ptr t ip j = ((ptr s ip)(k' := a)) j"
      using k ip b(11,13,14) b(7) get32_zeros [of "j - NDIRECT"] b(16)
      by (auto simp: ptr_def indirect_def it bt k'_def MAXFILE_def nth_list_update f)
  qed
  show "ptr t ip j = ptr s ip j" if "j < MAXFILE" "j \<noteq> k \<or> k = NDIRECT" for j using pt that by (auto simp: k'_def)
  note g = grow [OF ok(1) p0 b(7,8), of t]
  have len: "length (i_addrs (inodes t ! ip)) = NDIRECT + 1" using ip it by simp
  have g': "file_ok t ip" "\<And>n. foreign s ip n \<Longrightarrow> foreign t ip n" "\<And>j. ptr s ip j \<noteq> 0 \<Longrightarrow> ptr t ip j = ptr s ip j"
    using b(9,10) bt pt ff len by (intro g; simp)+
  show "file_tx me ip t" using g'(1) b(1-3) ok(2) f by (simp add: file_tx_def t_def)
  show "slots t c l" "free_blocks s = Suc (free_blocks t)" using b(6,17) by (simp_all add: t_def)
  show "kept ip s t" using g' ff ip(1) b(5,12) bt by (auto simp: kept_def foreign_def t_def)
  show "i_addrs (inodes t ! ip) ! k = a" using it ip k by simp
  show "a \<noteq> 0" by (rule b(7))
  show "fblock t ip j = fblock s ip j" if "j < MAXFILE" for j
    using grow_fblock [OF ok(1) p0 b(7) pt _ _ that] b(11,12) bt by simp
qed

text \<open>A data block changes, or is taken.\<close>

lemma change_data:
  fixes s :: "'e fsst_scheme"
  assumes "tx_frame s t" "blk t = (blk s)(n := d)" "data_block s n"
  shows "b < unat (sb_size (sb s)) \<Longrightarrow> in_use t b = in_use s b" "data_block t = data_block s" "layout_ok t \<longleftrightarrow> layout_ok s"
    "held_ok s \<Longrightarrow> (\<And>m. m \<noteq> n \<Longrightarrow> holder t m = holder s m) \<Longrightarrow> held_ok t" "free_blocks t = free_blocks s"
proof -
  note f = tx_frame_fs [OF assms(1)] tx_frame_sel [OF assms(1)]
  have bb: "bit_blk t = bit_blk s" by (simp add: bit_blk_def fun_eq_iff f)
  have n: "unat n < unat (sb_size (sb s))" "in_use s (unat n)" "\<And>b. b < unat (sb_size (sb s)) \<Longrightarrow> bit_blk s b \<noteq> n"
    using assms(3) by (auto simp: data_block_def)
  show u: "in_use t b = in_use s b" if "b < unat (sb_size (sb s))" for b using n(3) [OF that] assms(2) by (simp add: in_use_def bb)
  show "data_block t = data_block s" using u by (auto simp: data_block_def fun_eq_iff f bb)
  show "free_blocks t = free_blocks s" using u f by (auto simp: free_blocks_def intro!: arg_cong [where f = card])
  show "layout_ok t \<longleftrightarrow> layout_ok s"
  proof -
    have "\<forall>b < unat (sb_size (sb s)). unat (bit_blk s b) < unat (sb_size (sb s))" if "layout_ok s \<or> layout_ok t"
    proof -
      have "layout_ok x \<Longrightarrow> sb x = sb s \<Longrightarrow> bit_blk x = bit_blk s \<Longrightarrow> ?thesis" for x :: "'e fsst_scheme"
        using unat_bit_blk(2) [of x] by auto
      then show ?thesis using that f bb by blast
    qed
    then show ?thesis using u by (auto simp: layout_ok_def f bb)
  qed
  show "held_ok t" if h: "held_ok s" "\<And>m. m \<noteq> n \<Longrightarrow> holder t m = holder s m"
    unfolding held_ok_def
  proof (intro allI impI conjI)
    fix b assume "b < unat (sb_size (sb t))"
    then have b: "b < unat (sb_size (sb s))" using f by simp
    show "holder t (bit_blk t b) = None" using n(3) [OF b] h b by (simp add: held_ok_def bb)
    show "in_use t b" if "holder t (of_nat b) \<noteq> None"
    proof (cases "of_nat b = n")
      case True
      then show ?thesis using n(2) u [OF b] unat_of [OF b] by auto
    next
      case False
      then show ?thesis using h that b u [OF b] by (simp add: held_ok_def)
    qed
  qed
qed

lemma change_file:
  fixes s :: "'e fsst_scheme"
  assumes "tx_frame s t" "blk t = blk s" "data_block s n" "\<And>m. m \<noteq> n \<Longrightarrow> holder t m = holder s m" "file_tx me ip s" "tx_ok me t"
  shows "file_tx me ip t"
proof -
  have "blk t = (blk s)(n := blk s n)" using assms(2) by simp
  note c = change_data [OF assms(1) this assms(3)]
  have "layout_ok t" "held_ok t" using c(3,4) assms by (auto simp: file_tx_def)
  then show ?thesis using assms same_file [OF assms(1,2)] tx_frame_sel [OF assms(1)] by (simp add: file_tx_def)
qed

section \<open>Mapping a block\<close>

text \<open>\<open>f\<close> is the number of free blocks that are enough.\<close>

definition mapped :: "nat \<Rightarrow> nat \<Rightarrow> nat \<Rightarrow> nat \<Rightarrow> nat \<Rightarrow> nat \<Rightarrow> 'e fsst_scheme \<Rightarrow> (uint, 'e fsst_scheme) res \<Rightarrow> bool" where
  "mapped me ip k c l f s r \<longleftrightarrow>
     (case r of
        Ret a t \<Rightarrow> a \<noteq> 0 \<and> ptr t ip k = a \<and> file_tx me ip t \<and> kept ip s t \<and> slots t c l \<and> free_blocks s \<le> free_blocks t + f
          \<and> (\<forall>j < MAXFILE. fblock t ip j = fblock s ip j) \<and> (ptr s ip k \<noteq> 0 \<longrightarrow> inodes t = inodes s)
      | Stop e t \<Rightarrow> e = Panic ''balloc: out of blocks'' \<and> free_blocks s < f)"

lemma balloc_cases:
  assumes "file_tx me ip s" "slots s (Suc (Suc c)) (Suc (Suc l))"
  obtains a t where "balloc 1 s = Ret a t" | t where "balloc 1 s = Stop (Panic ''balloc: out of blocks'') t" "free_blocks s = 0"
proof (cases "find (\<lambda>b. \<not> in_use s b) [0..<unat (sb_size (sb s))]")
  case None
  then have "free_blocks s = 0" by (auto simp: free_blocks_def find_None_iff)
  then show ?thesis using balloc_ok [of me s c l] assms None that(2) by (auto simp: file_tx_def)
next
  case (Some b)
  then show ?thesis using balloc_ok [of me s c l] assms that(1) by (auto simp: file_tx_def)
qed

lemma slots_mono: "slots s c l \<Longrightarrow> c' \<le> c \<Longrightarrow> l' \<le> l \<Longrightarrow> slots s c' l'"
  by (simp add: slots_def)

lemma indirect_data: "file_ok s ip \<Longrightarrow> indirect s ip \<noteq> 0 \<Longrightarrow> data_block s (indirect s ip)"
proof -
  have "ptr s ip MAXFILE = indirect s ip" by (simp add: ptr_def MAXFILE_def NDIRECT_def)
  then show "file_ok s ip \<Longrightarrow> indirect s ip \<noteq> 0 \<Longrightarrow> data_block s (indirect s ip)" unfolding file_ok_def by metis
qed

lemma data_disk: "layout_ok s \<Longrightarrow> data_block s n \<Longrightarrow> n < disksize s"
  by (auto simp: layout_ok_def data_block_def word_less_nat_alt)

lemma length_data: "tx_ok me s \<Longrightarrow> layout_ok s \<Longrightarrow> data_block s n \<Longrightarrow> length (blk s n) = BSIZE"
  by (rule length_blk [OF _ data_disk]) (auto simp: tx_ok_def)

text \<open>\<^verbatim>\<open>bmap\<close> once there is an indirect block.\<close>

definition through :: "nat \<Rightarrow> uint \<Rightarrow> ('e fsst_scheme, uint) km" where
  "through m ind =
     bnd (bread 1 ind) (\<lambda>bp.
     bnd (getb bp (\<lambda>b. get32 (4 * m) (b_data b))) (\<lambda>addr.
     bnd (if addr = 0 then
            bnd (balloc 1) (\<lambda>addr.
            thn (upd_buf bp (\<lambda>b. b\<lparr>b_data := put32 (4 * m) addr (b_data b)\<rparr>)) (
            thn (log_write bp) (
            ret addr)))
          else ret addr) (\<lambda>addr.
     thn (brelse bp) (
     ret addr))))"

lemma bnd_ret: "bnd (ret x) f = f x"
  by (simp add: fun_eq_iff)

lemma ptr_through: "m < NINDIRECT \<Longrightarrow> indirect s ip \<noteq> 0 \<Longrightarrow> ptr s ip (NDIRECT + m) = get32 (4 * m) (blk s (indirect s ip))"
  by (simp add: ptr_def MAXFILE_def)

lemma through_hit:
  assumes "tx_ok me s" "layout_ok s" "holder s = Map.empty" "file_ok s ip" "indirect s ip \<noteq> 0" "m < NINDIRECT" "ptr s ip (NDIRECT + m) \<noteq> 0" "slots s (Suc c) l"
  obtains t where "through m (indirect s ip) s = Ret (ptr s ip (NDIRECT + m)) t" "tx_ok me t" "tx_frame s t" "blk t = blk s" "holder t = holder s" "slots t (Suc c) l"
proof -
  have n: "indirect s ip < disksize s" "holder s (indirect s ip) = None"
    using data_disk [OF assms(2) indirect_data [OF assms(4,5)]] assms(3) by simp_all
  obtain i u t where r: "bread 1 (indirect s ip) s = Ret i u" "b_data (bufs u ! i) = blk s (indirect s ip)" "brelse i u = Ret () t"
    "tx_ok me t" "tx_frame s t" "blk t = blk s" "holder t = holder s" "dirty t = dirty s" "slots t (Suc c) l"
    by (rule tx_read [OF assms(1) n assms(8)]) (rule that)
  have "through m (indirect s ip) s = Ret (ptr s ip (NDIRECT + m)) t"
    using assms(7) unfolding through_def ptr_through [OF assms(6,5)]
    by (simp add: bnd_Ret [where m = "bread 1 _", OF r(1)] getb_def r(2) thn_Ret [where m = "brelse i", OF r(3)])
  then show ?thesis by (rule that [OF _ r(4-7,9)])
qed

text \<open>An entry of the indirect block is set.\<close>

lemma set_entry:
  assumes tx: "file_tx me ip s" and m: "indirect s ip \<noteq> 0" "m < NINDIRECT" "ptr s ip (NDIRECT + m) = 0" and a: "a \<noteq> 0" "\<not> data_block s a"
    and w: "tx_frame s w" "\<And>k. data_block w k \<longleftrightarrow> data_block s k \<or> k = a" "in_use w 0" "holder w = holder s"
      "blk w (indirect s ip) = put32 (4 * m) a (blk s (indirect s ip))" "blk w a = replicate BSIZE 0"
      "\<And>k. data_block s k \<Longrightarrow> k \<noteq> indirect s ip \<Longrightarrow> blk w k = blk s k"
  shows "file_ok w ip" "ptr w ip (NDIRECT + m) = a" "kept ip s w" "\<And>j. j < MAXFILE \<Longrightarrow> fblock w ip j = fblock s ip j"
proof -
  let ?n = "indirect s ip"
  have ok: "tx_ok me s" "layout_ok s" "file_ok s ip" using tx by (simp_all add: file_tx_def)
  have ip: "ip < length (inodes s)" "length (i_addrs (inodes w ! ip)) = NDIRECT + 1"
    using ok(3) tx_frame_fs [OF w(1)] by (simp_all add: file_ok_def)
  have len: "length (blk s ?n) = BSIZE" "4 * m + 4 \<le> BSIZE"
    using length_data [OF ok(1,2) indirect_data [OF ok(3) m(1)]] m(2) by (auto simp: NINDIRECT_def BSIZE_def)
  have iw: "indirect w ip = ?n" using tx_frame_fs [OF w(1)] by (simp add: indirect_def)
  have pw: "ptr w ip = (ptr s ip)(NDIRECT + m := a)"
  proof
    fix j
    have "get32 (4 * (j - NDIRECT)) (put32 (4 * m) a (blk s ?n)) = get32 (4 * (j - NDIRECT)) (blk s ?n)"
      if "NDIRECT \<le> j" "j < MAXFILE" "j \<noteq> NDIRECT + m"
      using that len by (intro get32_put32_other) (auto simp: MAXFILE_def NINDIRECT_def BSIZE_def)
    then show "ptr w ip j = ((ptr s ip)(NDIRECT + m := a)) j"
      using m len tx_frame_fs [OF w(1)] by (auto simp: ptr_def iw w(5) MAXFILE_def)
  qed
  then show "ptr w ip (NDIRECT + m) = a" by simp
  note g = grow [OF ok(3) m(3) a w(2) pw w(3) file_frame_tx [OF w(1)] ip(2)]
  show "file_ok w ip" by (rule g(1))
  have "k \<noteq> ?n" if "foreign s ip k" for k
    using that ptr_def [of s ip MAXFILE] by (auto simp: foreign_def MAXFILE_def NDIRECT_def)
  then show "kept ip s w" using g(2,3) ip file_frame_tx [OF w(1)] w(4,7) by (auto simp: kept_def foreign_def)
  show "fblock w ip j = fblock s ip j" if "j < MAXFILE" for j by (rule grow_fblock [OF ok(3) m(3) a(1) pw w(6,7) that])
qed

lemma through_new:
  assumes tx: "file_tx me ip s" "holder s = Map.empty" and m: "indirect s ip \<noteq> 0" "m < NINDIRECT" "ptr s ip (NDIRECT + m) = 0"
    and room: "slots s (c + 3) (l + 3)"
  shows "mapped me ip (NDIRECT + m) c l 1 s (through m (indirect s ip) s)"
proof -
  let ?n = "indirect s ip"
  have ok: "tx_ok me s" "layout_ok s" "held_ok s" "file_ok s ip" "0 < outstanding s" using tx(1) by (simp_all add: file_tx_def)
  have ip: "ip < length (inodes s)" using ok(4) by (simp add: file_ok_def)
  note dn = indirect_data [OF ok(4) m(1)]
  have n: "?n < disksize s" "holder s ?n = None" using data_disk [OF ok(2) dn] tx(2) by simp_all
  have sl: "slots s (Suc (Suc (Suc c))) (Suc (Suc (Suc l)))" using room by (simp add: numeral_3_eq_3)
  obtain i u where r: "bread 1 ?n s = Ret i u" "tx_ok me u" "tx_frame s u" "blk u = blk s" "holder u = (holder s)(?n := Some i)"
    "dirty u = dirty s" "slots u (Suc (Suc c)) (Suc (Suc (Suc l)))" "b_data (bufs u ! i) = blk s ?n" "lh_n u = lh_n s"
    by (rule tx_bread [OF ok(1) n sl]) (rule that)
  have ftu: "file_tx me ip u" by (rule change_file [OF r(3,4) dn _ tx(1) r(2)]) (simp add: r(5))
  note same = same_file [OF r(3,4)]
  have iu: "indirect u ip = ?n" using tx_frame_fs [OF r(3)] by (simp add: indirect_def)
  have run: "through m ?n s = bnd (balloc 1) (\<lambda>addr. thn (upd_buf i (\<lambda>b. b\<lparr>b_data := put32 (4 * m) addr (b_data b)\<rparr>)) (
      thn (log_write i) (thn (brelse i) (ret addr)))) u"
    using m(3) unfolding through_def ptr_through [OF m(2,1)]
    by (simp add: bnd_Ret [where m = "bread 1 _", OF r(1)] getb_def r(8) bnd_ret)
  show ?thesis
  proof (rule balloc_cases [OF ftu r(7)])
    fix t assume "balloc 1 u = Stop (Panic ''balloc: out of blocks'') t" "free_blocks u = 0"
    then show ?thesis unfolding run using same(7) by (simp add: bnd_Stop mapped_def)
  next
    fix a v assume al: "balloc 1 u = Ret a v"
    note b = balloc_file [OF ftu r(7) al]
    have dv: "data_block v ?n" using b(9) dn same(3) by simp
    have h: "holder v ?n = Some i" "\<not> log_area v ?n" "0 < outstanding v"
      using b(5) r(5) dv ok(5) tx_frame_sel(8) [OF tx_frame_trans [OF r(3) b(4)]] by (simp_all add: data_block_def)
    have bn: "blk v ?n = blk s ?n" using b(16) iu m(1) r(4) by simp
    have len: "length (blk s ?n) = BSIZE" "4 * m + 4 \<le> BSIZE" using length_data [OF ok(1,2) dn] m(2) by (auto simp: NINDIRECT_def BSIZE_def)
    have lf: "length (put32 (4 * m) a (blk v ?n)) = BSIZE" using len bn by simp
    obtain u1 u2 w where w: "upd_buf i (\<lambda>x. x\<lparr>b_data := put32 (4 * m) a (b_data x)\<rparr>) v = Ret () u1" "log_write i u1 = Ret () u2"
      "brelse i u2 = Ret () w" "tx_ok me w" "tx_frame v w" "blk w = (blk v)(?n := put32 (4 * m) a (blk v ?n))"
      "holder w = (holder v)(?n := None)" "dirty w = (dirty v)(?n := True)" "slots w c l"
      by (rule tx_store [OF b(1) h(1), where f = "put32 (4 * m) a", OF lf h(2,3)])
        (use b(6) in \<open>simp add: slots_mono\<close>, rule that)
    have fr: "tx_frame s w" by (rule tx_frame_trans [OF tx_frame_trans [OF r(3) b(4)] w(5)])
    have bw: "blk w k = blk v k" if "k \<noteq> ?n" for k using w(6) that by simp
    note cd = change_data [OF w(5,6) dv]
    have hw: "holder w = holder s" using w(7) b(5) r(5) n(2) by (simp add: fun_upd_idem_iff)
    have dw: "data_block w k \<longleftrightarrow> data_block s k \<or> k = a" for k using cd(2) b(9) same(3) by simp
    have na: "a \<noteq> 0" "\<not> data_block s a" "a \<noteq> ?n" using b(7,8) same(3) dn by auto
    have u0: "in_use w 0"
    proof -
      have "0 < unat (sb_size (sb v))" using dv by (auto simp: data_block_def)
      then show ?thesis using cd(1) [of 0] b(10) by simp
    qed
    have bs: "blk w k = blk s k" if "data_block s k" "k \<noteq> ?n" for k
      using that bw b(12) [of k] same(3) r(4) by simp
    have "blk w ?n = put32 (4 * m) a (blk s ?n)" "blk w a = replicate BSIZE 0" using w(6) bn b(11) bw [OF na(3)] by simp_all
    note g = set_entry [OF tx(1) m na(1,2) fr dw u0 hw this bs]
    have "file_tx me ip w"
    proof -
      have "layout_ok w" using cd(3) b(2) by simp
      moreover have "held_ok w" by (rule cd(4) [OF b(3)]) (simp add: w(7))
      ultimately show ?thesis using g(1) w(4) ok(5) tx_frame_sel [OF fr] by (simp add: file_tx_def)
    qed
    moreover have "through m ?n s = Ret a w" unfolding run using w(1) by (simp add: bnd_Ret [where m = "balloc 1", OF al] thn_Ret w(2,3))
    moreover have "free_blocks s = Suc (free_blocks w)" using b(17) cd(5) same(7) by simp
    ultimately show ?thesis using na(1) w(9) g(2-4) m(3) by (simp add: mapped_def)
  qed
qed

lemma small_block: "k < MAXFILE \<Longrightarrow> unat (of_nat k :: uint) = k"
  by (rule unat_small) (simp add: MAXFILE_def NDIRECT_def NINDIRECT_def BSIZE_def)

lemma bmap_direct:
  assumes "i_dev (inodes s ! ip) = 1" "k < NDIRECT"
  shows "bmap ip (of_nat k) s =
    (if i_addrs (inodes s ! ip) ! k = 0 then
       bnd (balloc 1) (\<lambda>a. thn (upd_inode ip (\<lambda>i. i\<lparr>i_addrs := (i_addrs i)[k := a]\<rparr>)) (ret a)) s
     else Ret (i_addrs (inodes s ! ip) ! k) s)"
  using assms small_block [of k] by (simp add: bmap_def geti_def MAXFILE_def)

lemma bmap_indirect:
  assumes "i_dev (inodes s ! ip) = 1" "m < NINDIRECT"
  shows "bmap ip (of_nat (NDIRECT + m)) s =
    (if indirect s ip = 0 then
       bnd (balloc 1) (\<lambda>a. thn (upd_inode ip (\<lambda>i. i\<lparr>i_addrs := (i_addrs i)[NDIRECT := a]\<rparr>)) (through m a)) s
     else through m (indirect s ip) s)"
proof -
  have "unat (of_nat (NDIRECT + m) :: uint) = NDIRECT + m" using assms(2) by (intro small_block) (simp add: MAXFILE_def)
  then show ?thesis
    using assms(2) unfolding bmap_def geti_def bnd_prim assms(1)
    by (simp add: through_def indirect_def bnd_ret Let_def bnd_if del: of_nat_add)
qed

text \<open>A block that is mapped is found, and nothing changes.\<close>

lemma bmap_hit:
  assumes ok: "tx_ok me s" "layout_ok s" "holder s = Map.empty" "file_ok s ip" and k: "k < MAXFILE" "ptr s ip k \<noteq> 0" and room: "slots s (Suc c) l"
  obtains t where "bmap ip (of_nat k) s = Ret (ptr s ip k) t" "tx_ok me t" "tx_frame s t" "blk t = blk s" "holder t = holder s" "slots t (Suc c) l"
proof -
  have dev: "i_dev (inodes s ! ip) = 1" using ok(4) by (simp add: file_ok_def)
  show ?thesis
  proof (cases "k < NDIRECT")
    case True
    then have "bmap ip (of_nat k) s = Ret (ptr s ip k) s" using k(2) by (simp add: bmap_direct [OF dev] ptr_def)
    then show ?thesis using ok(1) room by (intro that) simp_all
  next
    case False
    then obtain m where m: "k = NDIRECT + m" "m < NINDIRECT" using k(1) by (auto simp: MAXFILE_def dest!: leI le_Suc_ex)
    have i: "indirect s ip \<noteq> 0" using k m by (auto simp: ptr_def MAXFILE_def)
    have p: "ptr s ip (NDIRECT + m) \<noteq> 0" using k(2) m(1) by simp
    obtain t where t: "through m (indirect s ip) s = Ret (ptr s ip (NDIRECT + m)) t" "tx_ok me t" "tx_frame s t" "blk t = blk s"
      "holder t = holder s" "slots t (Suc c) l"
      by (rule through_hit [OF ok i m(2) p room]) (rule that)
    have "bmap ip (of_nat k) s = Ret (ptr s ip k) t" using t(1) i unfolding m(1) by (simp add: bmap_indirect [OF dev m(2)] del: of_nat_add)
    then show ?thesis by (rule that [OF _ t(2-6)])
  qed
qed

lemma mapped_mono: "mapped me ip k c l f s r \<Longrightarrow> f \<le> f' \<Longrightarrow> mapped me ip k c l f' s r"
  by (auto simp: mapped_def split: res.splits)

lemma mapped_trans:
  assumes "kept ip s t" "\<And>j. j < MAXFILE \<Longrightarrow> fblock t ip j = fblock s ip j" "free_blocks s = Suc (free_blocks t)" "ptr s ip k = 0"
    and "mapped me ip k c l 1 t r"
  shows "mapped me ip k c l 2 s r"
  using assms kept_trans [OF assms(1)] by (auto simp: mapped_def split: res.splits)

lemma bmap_ok:
  assumes tx: "file_tx me ip s" "holder s = Map.empty" and k: "k < MAXFILE" and room: "slots s (c + 5) (l + 5)"
  shows "mapped me ip k c l 2 s (bmap ip (of_nat k) s)"
proof -
  have ok: "tx_ok me s" "layout_ok s" "file_ok s ip" using tx(1) by (simp_all add: file_tx_def)
  have ip: "ip < length (inodes s)" "i_dev (inodes s ! ip) = 1" using ok(3) by (simp_all add: file_ok_def)
  show ?thesis
  proof (cases "ptr s ip k = 0")
    case False
    have sl: "slots s (Suc c) l" using room by (rule slots_mono) simp_all
    obtain t where t: "bmap ip (of_nat k) s = Ret (ptr s ip k) t" "tx_ok me t" "tx_frame s t" "blk t = blk s" "holder t = holder s" "slots t (Suc c) l"
      by (rule bmap_hit [OF ok(1,2) tx(2) ok(3) k False sl]) (rule that)
    have "file_tx me ip t"
      using tx(1) t(2) same_file [OF t(3,4)] same_view [OF t(3-5)] tx_frame_sel [OF t(3)] by (simp add: file_tx_def)
    then show ?thesis
      using False same_file [OF t(3,4)] tx_frame_fs [OF t(3)] kept_same [OF t(3-5) ip(1)] slots_mono [OF t(6), of c l] by (simp add: mapped_def t(1))
  next
    case True
    have sl: "slots s (Suc (Suc (c + 3))) (Suc (Suc (l + 3)))" "slots s (c + 3) (l + 3)" using room by (auto intro: slots_mono)
    show ?thesis
    proof (cases "k < NDIRECT")
      case direct: True
      then have p: "i_addrs (inodes s ! ip) ! k = 0" using True by (simp add: ptr_def)
      show ?thesis
      proof (rule balloc_cases [OF tx(1) sl(1)])
        fix a t assume r: "balloc 1 s = Ret a t"
        note g = set_pointer [OF tx(1) sl(1) r _ p]
        let ?t = "t\<lparr>inodes := (inodes t)[ip := (inodes t ! ip)\<lparr>i_addrs := (i_addrs (inodes t ! ip))[k := a]\<rparr>]\<rparr>"
        have "bmap ip (of_nat k) s = Ret a ?t" by (simp add: bmap_direct [OF ip(2) direct] p bnd_Ret [where m = "balloc 1", OF r] upd_inode_def)
        moreover have "ptr ?t ip k = a" using g(4) direct by (simp add: ptr_def)
        ultimately show ?thesis using g direct slots_mono [OF g(2), of c l] True by (simp add: mapped_def)
      next
        fix t assume "balloc 1 s = Stop (Panic ''balloc: out of blocks'') t" "free_blocks s = 0"
        then show ?thesis by (simp add: bmap_direct [OF ip(2) direct] p bnd_Stop mapped_def)
      qed
    next
      case False
      then obtain m where m: "k = NDIRECT + m" "m < NINDIRECT" using k by (auto simp: MAXFILE_def dest!: leI le_Suc_ex)
      note run = bmap_indirect [OF ip(2) m(2)]
      show ?thesis
      proof (cases "indirect s ip = 0")
        case i: True
        then have p: "i_addrs (inodes s ! ip) ! NDIRECT = 0" by (simp add: indirect_def)
        show ?thesis
        proof (rule balloc_cases [OF tx(1) sl(1)])
          fix a t assume r: "balloc 1 s = Ret a t"
          note g = set_pointer [OF tx(1) sl(1) r order.refl p]
          let ?t = "t\<lparr>inodes := (inodes t)[ip := (inodes t ! ip)\<lparr>i_addrs := (i_addrs (inodes t ! ip))[NDIRECT := a]\<rparr>]\<rparr>"
          have h: "holder ?t = Map.empty" using g(3) tx(2) by (simp add: kept_def)
          have ia: "indirect ?t ip = a" using g(4) by (simp add: indirect_def)
          have e: "bmap ip (of_nat k) s = through m a ?t" using i by (simp add: m(1) run bnd_Ret [where m = "balloc 1", OF r] upd_inode_def del: of_nat_add)
          show ?thesis
          proof (rule mapped_trans [OF g(3,6,8) True])
            have "ptr ?t ip k = 0" using g(7) [OF k] True by (simp only: simp_thms)
            then show "mapped me ip k c l 1 ?t (bmap ip (of_nat k) s)"
              using through_new [OF g(1) h _ m(2) _ g(2)] g(5) ia unfolding e unfolding m(1) by simp
          qed
        next
          fix t assume "balloc 1 s = Stop (Panic ''balloc: out of blocks'') t" "free_blocks s = 0"
          then show ?thesis using i by (simp add: m(1) run bnd_Stop mapped_def del: of_nat_add)
        qed
      next
        case i: False
        then show ?thesis
          using mapped_mono [OF through_new [OF tx i m(2) _ sl(2)], of 2] True m(1) by (simp add: run del: of_nat_add)
      qed
    qed
  qed
qed

end
