(* ===== verification/ReadWrite.thy ===== *)
theory ReadWrite
  imports Contents
begin

unbundle bit_operations_syntax

text \<open>
  Reading and writing files: \<^verbatim>\<open>writei\<close> replaces the bytes of its range and extends the file, \<^verbatim>\<open>readi\<close> copies bytes out, and the inode
  on the disk follows the one in memory.
\<close>

section \<open>One round of writing\<close>

definition wround :: "nat \<Rightarrow> place \<Rightarrow> nat \<times> nat \<times> nat \<Rightarrow> ('e fsst_scheme, unit) km" where
  "wround ip src = (\<lambda>(tot, pos, m).
     bnd (bmap ip (of_nat (pos div BSIZE))) (\<lambda>addr.
     bnd (bread 1 addr) (\<lambda>bp.
     bnd (get_place src (of_nat tot) m) (\<lambda>bs.
     thn (upd_buf bp (\<lambda>b. b\<lparr>b_data := put_at (pos mod BSIZE) bs (b_data b)\<rparr>)) (
     thn (log_write bp) (
     brelse bp))))))"

text \<open>The bytes after \<open>bs\<close> has been written at \<open>pos\<close>.\<close>

definition overwrite :: "nat \<Rightarrow> nat \<Rightarrow> (nat \<Rightarrow> uchar) \<Rightarrow> (nat \<Rightarrow> uchar) \<Rightarrow> nat \<Rightarrow> uchar" where
  "overwrite pos m bs g k = (if pos \<le> k \<and> k < pos + m then bs (k - pos) else g k)"

text \<open>The outcome of writing \<open>m\<close> bytes at \<open>pos\<close>.\<close>

definition written :: "nat \<Rightarrow> nat \<Rightarrow> nat \<Rightarrow> nat \<Rightarrow> nat \<Rightarrow> nat \<Rightarrow> nat \<Rightarrow> (nat \<Rightarrow> uchar) \<Rightarrow> 'e fsst_scheme \<Rightarrow> (unit, 'e fsst_scheme) res \<Rightarrow> bool" where
  "written me ip c l f pos m bs s r \<longleftrightarrow>
     (case r of
        Ret _ t \<Rightarrow> file_tx me ip t \<and> kept ip s t \<and> slots t c l \<and> free_blocks s \<le> free_blocks t + f
          \<and> (\<forall>k < MAXFILE * BSIZE. fbyte t ip k = overwrite pos m bs (fbyte s ip) k)
          \<and> (\<forall>k. pos \<le> k \<and> k < pos + m \<longrightarrow> ptr t ip (k div BSIZE) \<noteq> 0)
          \<and> ((\<forall>k. pos \<le> k \<and> k < pos + m \<longrightarrow> ptr s ip (k div BSIZE) \<noteq> 0) \<longrightarrow> inodes t = inodes s)
      | Stop e t \<Rightarrow> e = Panic ''balloc: out of blocks'' \<and> free_blocks s < f)"

lemma within_block:
  assumes "pos mod BSIZE + m \<le> BSIZE" "pos \<le> k" "k < pos + m"
  shows "k div BSIZE = pos div BSIZE" "k mod BSIZE = pos mod BSIZE + (k - pos)"
proof -
  have k: "k = pos mod BSIZE + (k - pos) + pos div BSIZE * BSIZE" using assms(2) by simp
  have lt: "pos mod BSIZE + (k - pos) < BSIZE" using assms by linarith
  have "(pos mod BSIZE + (k - pos) + pos div BSIZE * BSIZE) div BSIZE = pos div BSIZE"
    "(pos mod BSIZE + (k - pos) + pos div BSIZE * BSIZE) mod BSIZE = pos mod BSIZE + (k - pos)"
    using lt by (simp_all only: div_mult_self1 mod_mult_self1 div_less mod_less)
  then show "k div BSIZE = pos div BSIZE" "k mod BSIZE = pos mod BSIZE + (k - pos)" by (simp_all only: k [symmetric])
qed

lemma fblock_length: "file_tx me ip s \<Longrightarrow> length (fblock s ip k) = BSIZE"
  using length_data [of me s "ptr s ip k"] by (auto simp: fblock_def file_tx_def file_ok_def)

lemma overwrite_block:
  assumes "0 < m" "pos mod BSIZE + m \<le> BSIZE" and len: "length (fblock s ip (pos div BSIZE)) = BSIZE" "length bs = m"
    and fb: "\<And>j. j < MAXFILE \<Longrightarrow> fblock t ip j = (if j = pos div BSIZE then put_at (pos mod BSIZE) bs (fblock s ip j) else fblock s ip j)"
    and k: "k < MAXFILE * BSIZE"
  shows "fbyte t ip k = overwrite pos m ((!) bs) (fbyte s ip) k"
proof -
  have kb: "k div BSIZE < MAXFILE" "k mod BSIZE < BSIZE" using k by (simp_all add: less_mult_imp_div_less BSIZE_def)
  show ?thesis
  proof (cases "k div BSIZE = pos div BSIZE")
    case True
    then have "k = pos div BSIZE * BSIZE + k mod BSIZE" "pos = pos div BSIZE * BSIZE + pos mod BSIZE" by (metis div_mult_mod_eq)+
    then have "pos \<le> k \<and> k < pos + m \<longleftrightarrow> pos mod BSIZE \<le> k mod BSIZE \<and> k mod BSIZE < pos mod BSIZE + m" "k mod BSIZE - pos mod BSIZE = k - pos"
      by linarith+
    then show ?thesis using assms True kb by (simp add: fbyte_def overwrite_def nth_put_at)
  next
    case False
    then have "\<not> (pos \<le> k \<and> k < pos + m)" using within_block(1) [OF assms(2)] by blast
    then show ?thesis using False fb [OF kb(1)] by (auto simp: fbyte_def overwrite_def)
  qed
qed

text \<open>A block of the file gets new contents.\<close>

lemma store_block:
  assumes tx: "file_tx me ip s" and k: "k < MAXFILE" "ptr s ip k = a" "a \<noteq> 0"
    and t: "tx_frame s t" "blk t = (blk s)(a := d)" "holder t = holder s" "tx_ok me t"
  shows "file_tx me ip t" "kept ip s t" "\<And>j. j < MAXFILE \<Longrightarrow> fblock t ip j = (if j = k then d else fblock s ip j)" "ptr t ip = ptr s ip"
    "free_blocks t = free_blocks s"
proof -
  have ok: "layout_ok s" "held_ok s" "file_ok s ip" "0 < outstanding s" using tx by (simp_all add: file_tx_def)
  have da: "data_block s a" using ok(3) k unfolding file_ok_def by metis
  have ip: "ip < length (inodes s)" using ok(3) by (simp add: file_ok_def)
  note c = change_data [OF t(1,2) da] and f = tx_frame_fs [OF t(1)] tx_frame_sel [OF t(1)]
  have u: "j = k" if "ptr s ip j = a" for j using ok(3) k that unfolding file_ok_def by metis
  have "ptr s ip MAXFILE = indirect s ip" by (simp add: ptr_def MAXFILE_def NDIRECT_def)
  then have "indirect s ip \<noteq> a" using u [of MAXFILE] k(1) by auto
  moreover have "indirect t ip = indirect s ip" by (simp add: indirect_def f)
  ultimately show p: "ptr t ip = ptr s ip" by (auto simp: ptr_def fun_eq_iff f t(2))
  show "fblock t ip j = (if j = k then d else fblock s ip j)" for j
  proof (cases "j = k")
    case True
    then show ?thesis using k(2,3) by (simp add: fblock_def p t(2))
  next
    case False
    then have "ptr s ip j \<noteq> a" using u by blast
    then show ?thesis using False by (simp add: fblock_def p t(2))
  qed
  have "in_use t 0"
  proof -
    have "0 < unat (sb_size (sb s))" using da by (auto simp: data_block_def)
    then show ?thesis using c(1) [of 0] ok(3) by (simp add: file_ok_def)
  qed
  then have "file_ok t ip" using ok(3) by (simp add: file_ok_def p f c(2))
  then show "file_tx me ip t" using c(3,4) t(3,4) ok f by (simp add: file_tx_def)
  show "kept ip s t" using file_frame_tx [OF t(1)] t(2,3) ip k by (auto simp: kept_def foreign_def p c(2))
  show "free_blocks t = free_blocks s" by (rule c(5))
qed

lemma get_local:
  assumes "tot + m < 2 ^ 32"
  shows "get_place Local (of_nat tot) m s = Ret (map (kbuf s) [tot..<tot + m]) s"
  using unat_small [of tot] assms by (simp add: get_place_def)

lemma wround_ok:
  assumes tx: "file_tx me ip s" "holder s = Map.empty" and pos: "pos div BSIZE < MAXFILE" "0 < m" "pos mod BSIZE + m \<le> BSIZE" "tot + m < 2 ^ 32"
    and room: "slots s (c + 6) (l + 6)"
  shows "written me ip c l 2 pos m (\<lambda>j. kbuf s (tot + j)) s (wround ip Local (tot, pos, m) s)"
proof -
  let ?k = "pos div BSIZE" and ?bs = "map (kbuf s) [tot..<tot + m]"
  have sl: "slots s ((c + 1) + 5) ((l + 1) + 5)" using room by (simp add: ac_simps)
  note b = bmap_ok [OF tx pos(1) sl]
  show ?thesis
  proof (cases "bmap ip (of_nat ?k) s")
    case (Stop e t)
    then show ?thesis using b by (simp add: written_def mapped_def wround_def bnd_Stop)
  next
    case (Ret a t)
    then have t: "a \<noteq> 0" "ptr t ip ?k = a" "file_tx me ip t" "kept ip s t" "slots t (Suc c) (Suc l)" "free_blocks s \<le> free_blocks t + 2"
      "\<And>j. j < MAXFILE \<Longrightarrow> fblock t ip j = fblock s ip j" "ptr s ip ?k \<noteq> 0 \<Longrightarrow> inodes t = inodes s"
      using b by (simp_all add: mapped_def)
    have ok: "tx_ok me t" "layout_ok t" "held_ok t" "file_ok t ip" "0 < outstanding t" using t(3) by (simp_all add: file_tx_def)
    have da: "data_block t a" using ok(4) t(1,2) unfolding file_ok_def by metis
    have ip: "ip < length (inodes s)" using t(4) by (simp add: kept_def)
    have kb: "kbuf t = kbuf s" using file_frame_sel(2) [OF _ ip] t(4) by (auto simp: kept_def)
    have h: "holder t = Map.empty" "\<not> log_area t a" "a < disksize t"
      using t(4) tx(2) da data_disk [OF ok(2) da] by (simp_all add: kept_def data_block_def)
    have ha: "holder t a = None" using h(1) by simp
    obtain i u where u: "bread 1 a t = Ret i u" "tx_ok me u" "tx_frame t u" "blk u = blk t" "holder u = (holder t)(a := Some i)"
      "dirty u = dirty t" "slots u c (Suc l)" "b_data (bufs u ! i) = blk t a" "lh_n u = lh_n t"
      by (rule tx_bread [OF ok(1) h(3) ha t(5)]) (rule that)
    have o: "holder u a = Some i" "\<not> log_area u a" "0 < outstanding u" using u(5) h(2) ok(5) tx_frame_sel [OF u(3)] by simp_all
    let ?f = "put_at (pos mod BSIZE) ?bs"
    have len: "length (blk t a) = BSIZE" "length (?f (blk u a)) = BSIZE" using length_data [OF ok(1,2) da] pos(3) u(4) by simp_all
    obtain u1 u2 w where w: "upd_buf i (\<lambda>b. b\<lparr>b_data := ?f (b_data b)\<rparr>) u = Ret () u1" "log_write i u1 = Ret () u2"
      "brelse i u2 = Ret () w" "tx_ok me w" "tx_frame u w" "blk w = (blk u)(a := ?f (blk u a))" "holder w = (holder u)(a := None)"
      "dirty w = (dirty u)(a := True)" "slots w c l"
      by (rule tx_store [OF u(2) o(1), where f = ?f, OF len(2) o(2,3) u(7)]) (rule that)
    have fr: "tx_frame t w" "blk w = (blk t)(a := ?f (blk t a))" "holder w = holder t"
      using tx_frame_trans [OF u(3) w(5)] w(6,7) u(4,5) ha by (simp_all add: fun_upd_idem_iff)
    note st = store_block [OF t(3) pos(1) t(2,1) fr w(4)]
    have run: "wround ip Local (tot, pos, m) s = Ret () w"
      using w(1) tx_frame_fs(3) [OF u(3)] kb
      by (simp add: wround_def bnd_Ret [where m = "bmap ip _", OF Ret] bnd_Ret [where m = "bread 1 a", OF u(1)]
          bnd_Ret [where m = "get_place Local _ _", OF get_local [OF pos(4)]] thn_Ret w(2,3))
    have fk: "fblock s ip ?k = blk t a" using t(7) [OF pos(1)] t(1,2) by (simp add: fblock_def)
    have "fbyte w ip k = overwrite pos m (\<lambda>j. kbuf s (tot + j)) (fbyte s ip) k" if k: "k < MAXFILE * BSIZE" for k
    proof -
      have "fbyte w ip k = overwrite pos m ((!) ?bs) (fbyte s ip) k"
        using len(1) st(3) t(7) fk by (intro overwrite_block [OF pos(2,3) _ _ _ k]) simp_all
      moreover have "?bs ! (k - pos) = kbuf s (tot + (k - pos))" if "pos \<le> k" "k < pos + m"
      proof -
        have "k - pos < m" using that by linarith
        then show ?thesis by simp
      qed
      ultimately show ?thesis by (auto simp: overwrite_def)
    qed
    moreover have "ptr w ip (k div BSIZE) \<noteq> 0" if "pos \<le> k" "k < pos + m" for k
      using within_block(1) [OF pos(3) that] st(4) t(1,2) by simp
    moreover have "inodes w = inodes s" if "\<forall>k. pos \<le> k \<and> k < pos + m \<longrightarrow> ptr s ip (k div BSIZE) \<noteq> 0"
      using that [rule_format, of pos] pos(2) t(8) tx_frame_fs [OF fr(1)] by simp
    ultimately show ?thesis
      using st(1,5) kept_trans [OF t(4) st(2)] w(9) t(6) by (simp add: written_def run)
  qed
qed

section \<open>The loop\<close>

lemma chunks_step: "tot < n \<Longrightarrow> chunks tot pos n = (let m = min (n - tot) (BSIZE - pos mod BSIZE) in (tot, pos, m) # chunks (tot + m) (pos + m) n)"
  by (subst chunks.simps) simp

lemma chunks_end: "n \<le> tot \<Longrightarrow> chunks tot pos n = []"
  by (subst chunks.simps) simp

lemma written_none: "file_tx me ip s \<Longrightarrow> slots s c l \<Longrightarrow> written me ip c l 0 pos 0 bs s (Ret () s)"
  using kept_same [of s s ip] by (auto simp: written_def overwrite_def file_tx_def file_ok_def)

lemma written_more:
  assumes a: "written me ip c' l' f pos m bs s (Ret () t)" and b: "written me ip c l f' (pos + m) m' (\<lambda>j. bs (m + j)) t r"
  shows "written me ip c l (f' + f) pos (m + m') bs s r"
proof (cases r)
  case (Ret u v)
  have k: "kept ip s v" using a b Ret kept_trans by (auto simp: written_def)
  have "overwrite (pos + m) m' (\<lambda>j. bs (m + j)) (overwrite pos m bs g) k = overwrite pos (m + m') bs g k" for g k
    by (auto simp: overwrite_def)
  moreover have "ptr v ip (k div BSIZE) \<noteq> 0" if "pos \<le> k" "k < pos + (m + m')" for k
    using a b Ret that by (cases "k < pos + m") (auto simp: written_def kept_def)
  moreover have "inodes v = inodes s" if p: "\<forall>k. pos \<le> k \<and> k < pos + (m + m') \<longrightarrow> ptr s ip (k div BSIZE) \<noteq> 0"
  proof -
    have "inodes t = inodes s" using a p by (auto simp: written_def)
    moreover have "\<forall>k. pos + m \<le> k \<and> k < pos + m + m' \<longrightarrow> ptr t ip (k div BSIZE) \<noteq> 0"
      using a p by (auto simp: written_def kept_def)
    ultimately show ?thesis using b Ret by (simp add: written_def)
  qed
  ultimately show ?thesis using a b Ret k by (simp add: written_def overwrite_def)
next
  case (Stop e v)
  then show ?thesis using a b by (simp add: written_def)
qed

lemma wloop_ok:
  assumes "file_tx me ip s" "holder s = Map.empty" "tot \<le> n" "n < 2 ^ 32" "pos + (n - tot) \<le> MAXFILE * BSIZE"
    and "slots s (6 * length (chunks tot pos n) + c) (6 * length (chunks tot pos n) + l)"
  shows "written me ip c l (2 * length (chunks tot pos n)) pos (n - tot) (\<lambda>j. kbuf s (tot + j)) s (for_each (chunks tot pos n) (wround ip Local) s)"
  using assms
proof (induction tot pos n arbitrary: s rule: chunks.induct)
  case (1 tot pos n)
  show ?case
  proof (cases "tot < n")
    case False
    then show ?thesis using 1 written_none [of me ip s c l pos "\<lambda>j. kbuf s (tot + j)"] by (simp add: chunks_end)
  next
    case True
    define m where "m = min (n - tot) (BSIZE - pos mod BSIZE)"
    let ?cs = "chunks (tot + m) (pos + m) n"
    have cs: "chunks tot pos n = (tot, pos, m) # ?cs" using chunks_step [OF True] by (simp add: m_def Let_def)
    have m: "0 < m" "pos mod BSIZE + m \<le> BSIZE" "tot + m \<le> n" using True by (auto simp: m_def BSIZE_def)
    have "pos < MAXFILE * BSIZE" "tot + m < 2 ^ 32" using 1(5,6) True m(3) by linarith+
    then have p: "pos div BSIZE < MAXFILE" "tot + m < 2 ^ 32" by (simp_all add: less_mult_imp_div_less)
    have sl: "slots s (6 * length ?cs + c + 6) (6 * length ?cs + l + 6)" using 1(7) by (simp add: cs ac_simps)
    note w = wround_ok [OF 1(2,3) p(1) m(1,2) p(2) sl]
    show ?thesis
    proof (cases "wround ip Local (tot, pos, m) s")
      case (Stop e t)
      then show ?thesis using w by (simp add: cs thn_Stop written_def)
    next
      case (Ret x t)
      then have t: "file_tx me ip t" "kept ip s t" "slots t (6 * length ?cs + c) (6 * length ?cs + l)" using w by (simp_all add: written_def)
      have kb: "kbuf t = kbuf s" "holder t = Map.empty" using t(2) file_frame_sel(2) [of ip s t] 1(3) by (auto simp: kept_def)
      have "written me ip c l (2 * length ?cs) (pos + m) (n - (tot + m)) (\<lambda>j. kbuf t (tot + m + j)) t (for_each ?cs (wround ip Local) t)"
        using 1(1) [OF True m_def t(1) kb(2)] 1(5,6) m t(3) by simp
      then have "written me ip c l (2 * length ?cs) (pos + m) (n - (tot + m)) (\<lambda>j. kbuf s (tot + (m + j))) t (for_each ?cs (wround ip Local) t)"
        by (simp add: kb ac_simps)
      moreover have "written me ip (6 * length ?cs + c) (6 * length ?cs + l) 2 pos m (\<lambda>j. kbuf s (tot + j)) s (Ret () t)" using w Ret by simp
      ultimately have
        "written me ip c l (2 * length ?cs + 2) pos (m + (n - (tot + m))) (\<lambda>j. kbuf s (tot + j)) s (for_each ?cs (wround ip Local) t)"
        using written_more [where bs = "\<lambda>j. kbuf s (tot + j)"] by blast
      moreover have "m + (n - (tot + m)) = n - tot" using m by simp
      ultimately show ?thesis by (simp add: cs thn_Ret [where m = "wround ip Local (tot, pos, m)", OF Ret])
    qed
  qed
qed

section \<open>The inode on the disk\<close>

lemma get32_bytes: "get_at ofs 4 d = bytes_of_word 4 w \<Longrightarrow> get32 ofs d = w"
  using word_of_bytes_inverse [of w] by (simp add: get32_def bytes_of_word_def upt_rec numeral_2_eq_2 numeral_3_eq_3)

lemma nth_words: "k < length ws \<Longrightarrow> take 4 (drop (4 * k) (concat (map (bytes_of_word 4) ws) @ rest)) = bytes_of_word 4 (ws ! k)"
proof (induction ws arbitrary: k)
  case (Cons w ws)
  then show ?case by (cases k) simp_all
qed simp

lemma length_words: "length (concat (map (bytes_of_word 4) ws)) = 4 * length ws"
  by (induction ws) simp_all

text \<open>Fields next to the one that is stored.\<close>

lemma get16_other:
  "ofs + length bs \<le> length d \<Longrightarrow> x + 2 \<le> ofs \<or> ofs + length bs \<le> x \<Longrightarrow> x + 2 \<le> length d \<Longrightarrow> get16 x (put_at ofs bs d) = get16 x d"
  "ofs + 2 \<le> length d \<Longrightarrow> x + 2 \<le> ofs \<or> ofs + 2 \<le> x \<Longrightarrow> x + 2 \<le> length d \<Longrightarrow> get16 x (put16 ofs v d) = get16 x d"
  "ofs + 4 \<le> length d \<Longrightarrow> x + 2 \<le> ofs \<or> ofs + 4 \<le> x \<Longrightarrow> x + 2 \<le> length d \<Longrightarrow> get16 x (put32 ofs w d) = get16 x d"
  by (simp_all add: get16_def put16_def put32_def get_put_other)

lemma get32_other:
  "ofs + length bs \<le> length d \<Longrightarrow> x + 4 \<le> ofs \<or> ofs + length bs \<le> x \<Longrightarrow> x + 4 \<le> length d \<Longrightarrow> get32 x (put_at ofs bs d) = get32 x d"
  by (simp add: get32_def get_put_other)

lemma dinode_fits: "dinode_at inum + 64 \<le> BSIZE"
proof -
  have "unat inum mod 8 < 8" by simp
  then show ?thesis unfolding dinode_at_def IPB_def BSIZE_def by simp
qed

lemma dinode_store_load:
  assumes d: "length d = BSIZE" and a: "length (i_addrs i) = NDIRECT + 1"
  shows "length (dinode_store i d) = BSIZE" "i_inum j = i_inum i \<Longrightarrow> dinode_load (dinode_store i d) j =
    j\<lparr>i_type := i_type i, i_major := i_major i, i_minor := i_minor i, i_nlink := i_nlink i, i_size := i_size i, i_addrs := i_addrs i\<rparr>"
proof -
  define p where "p = dinode_at (i_inum i)"
  have p: "p + 64 \<le> length d" using dinode_fits d by (simp add: p_def)
  have len: "length (concat (map (bytes_of_word 4) (i_addrs i))) = 52" using a by (simp add: length_words NDIRECT_def)
  define d1 where "d1 = put16 p (i_type i) d"
  define d2 where "d2 = put16 (p + 2) (i_major i) d1"
  define d3 where "d3 = put16 (p + 4) (i_minor i) d2"
  define d4 where "d4 = put16 (p + 6) (i_nlink i) d3"
  define d5 where "d5 = put32 (p + 8) (i_size i) d4"
  have st: "dinode_store i d = put_at (p + 12) (concat (map (bytes_of_word 4) (i_addrs i))) d5"
    by (simp add: dinode_store_def p_def d1_def d2_def d3_def d4_def d5_def Let_def)
  have ls: "length d1 = length d" "length d2 = length d" "length d3 = length d" "length d4 = length d" "length d5 = length d"
    using p by (simp_all add: d1_def d2_def d3_def d4_def d5_def)
  show l: "length (dinode_store i d) = BSIZE" unfolding st using p len d ls by simp
  have "get16 p d5 = i_type i" "get16 (p + 2) d5 = i_major i" "get16 (p + 4) d5 = i_minor i" "get16 (p + 6) d5 = i_nlink i"
    using p ls by (simp_all add: d5_def d4_def d3_def get16_other) (simp_all add: d2_def d1_def get16_other)
  moreover have "get32 (p + 8) d5 = i_size i" using p ls by (simp add: d5_def)
  ultimately have f: "get16 p (dinode_store i d) = i_type i" "get16 (p + 2) (dinode_store i d) = i_major i" "get16 (p + 4) (dinode_store i d) = i_minor i"
    "get16 (p + 6) (dinode_store i d) = i_nlink i" "get32 (p + 8) (dinode_store i d) = i_size i"
    unfolding st using p len ls by (simp_all add: get16_other get32_other)
  have "get32 (p + 12 + 4 * k) (dinode_store i d) = i_addrs i ! k" if "k < NDIRECT + 1" for k
  proof (rule get32_bytes)
    have "get_at (p + 12 + 4 * k) 4 (put_at (p + 12) (concat (map (bytes_of_word 4) (i_addrs i))) x) = bytes_of_word 4 (i_addrs i ! k)"
      if "p + 64 \<le> length x" for x
      using that nth_words [of k "i_addrs i" "drop (p + 64) x"] \<open>k < NDIRECT + 1\<close> a len by (simp add: get_at_def put_at_def add.commute [of p 64])
    then show "get_at (p + 12 + 4 * k) 4 (dinode_store i d) = bytes_of_word 4 (i_addrs i ! k)"
      unfolding st using p ls by simp
  qed
  then have "map (\<lambda>k. get32 (p + 12 + 4 * k) (dinode_store i d)) [0..<NDIRECT + 1] = i_addrs i" using a by (intro nth_equalityI) (simp_all del: upt_Suc)
  then show "i_inum j = i_inum i \<Longrightarrow> dinode_load (dinode_store i d) j =
    j\<lparr>i_type := i_type i, i_major := i_major i, i_minor := i_minor i, i_nlink := i_nlink i, i_size := i_size i, i_addrs := i_addrs i\<rparr>"
    using f by (simp add: dinode_load_def p_def Let_def del: upt_Suc)
qed

lemma iupdate_ok:
  fixes s :: "'e fsst_scheme"
  assumes tx: "file_tx me ip s" "holder s = Map.empty" and room: "slots s (Suc c) (Suc l)"
    and ib: "IBLOCK (i_inum (inodes s ! ip)) (sb s) = ib" "foreign s ip ib"
  obtains t where "iupdate ip s = Ret () t" "file_tx me ip t" "tx_frame s t" "holder t = holder s"
    "blk t = (blk s)(ib := dinode_store (inodes s ! ip) (blk s ib))" "ptr t ip = ptr s ip" "fbyte t ip = fbyte s ip" "data_block t = data_block s"
    "free_blocks t = free_blocks s" "slots t c l"
proof -
  have ok: "tx_ok me s" "layout_ok s" "held_ok s" "file_ok s ip" "0 < outstanding s" using tx(1) by (simp_all add: file_tx_def)
  have i: "i_dev (inodes s ! ip) = 1" "length (i_addrs (inodes s ! ip)) = NDIRECT + 1" "ip < length (inodes s)" using ok(4) by (simp_all add: file_ok_def)
  have d: "data_block s ib" "\<And>k. ptr s ip k \<noteq> ib" using ib(2) by (simp_all add: foreign_def)
  have h: "holder s ib = None" "\<not> log_area s ib" using tx(2) d(1) by (simp_all add: data_block_def)
  note len = dinode_store_load(1) [OF length_data [OF ok(1,2) d(1)] i(2)]
  obtain t where t: "bnd (bread 1 ib) (\<lambda>bp. thn (upd_buf bp (\<lambda>b. b\<lparr>b_data := dinode_store (inodes s ! ip) (b_data b)\<rparr>)) (thn (log_write bp) (brelse bp))) s = Ret () t"
    "tx_ok me t" "tx_frame s t" "blk t = (blk s)(ib := dinode_store (inodes s ! ip) (blk s ib))" "holder t = holder s" "dirty t = (dirty s)(ib := True)" "slots t c l"
    by (rule tx_change [OF ok(1) data_disk [OF ok(2) d(1)] h(1), where f = "dinode_store (inodes s ! ip)", OF len h(2) ok(5) room]) (rule that)
  note f = tx_frame_fs [OF t(3)] tx_frame_sel [OF t(3)] and c = change_data [OF t(3,4) d(1)]
  have "iupdate ip s = Ret () t" using t(1) by (simp add: iupdate_def i(1) ib(1))
  moreover have "ptr s ip MAXFILE = indirect s ip" by (simp add: ptr_def MAXFILE_def NDIRECT_def)
  then have "indirect s ip \<noteq> ib" using d(2) by metis
  then have p: "ptr t ip = ptr s ip" by (auto simp: ptr_def fun_eq_iff indirect_def f t(4))
  moreover have "fbyte t ip = fbyte s ip" using d(2) by (auto simp: fbyte_def fblock_def fun_eq_iff p t(4))
  moreover have "file_tx me ip t"
  proof -
    have "0 < unat (sb_size (sb s))" using d(1) by (auto simp: data_block_def)
    then have "file_ok t ip" using ok(4) c(1) [of 0] by (simp add: file_ok_def p f c(2))
    then show ?thesis using c(3,4) t(2,5) ok f by (simp add: file_tx_def)
  qed
  ultimately show ?thesis using that t c by blast
qed

section \<open>Files\<close>

text \<open>
  A file that is not a device, as it is between system calls: every block below its size is mapped, and the inode on the disk is the one in
  memory, in a block that is not of the file.
\<close>

definition data_file :: "nat \<Rightarrow> nat \<Rightarrow> 'e fsst_scheme \<Rightarrow> bool" where
  "data_file me ip s \<longleftrightarrow> tx_ok me s \<and> layout_ok s \<and> holder s = Map.empty \<and> file_ok s ip \<and> i_type (inodes s ! ip) \<noteq> T_DEV
     \<and> unat (i_size (inodes s ! ip)) \<le> MAXFILE * BSIZE
     \<and> (\<forall>k < unat (i_size (inodes s ! ip)). ptr s ip (k div BSIZE) \<noteq> 0)
     \<and> foreign s ip (IBLOCK (i_inum (inodes s ! ip)) (sb s))
     \<and> dinode_load (blk s (IBLOCK (i_inum (inodes s ! ip)) (sb s))) (inodes s ! ip) = inodes s ! ip"

definition fsize :: "'e fsst_scheme \<Rightarrow> nat \<Rightarrow> nat" where
  "fsize s ip = unat (i_size (inodes s ! ip))"

lemma set_size:
  fixes s :: "'e fsst_scheme" and z :: uint
  assumes "file_tx me ip s"
  defines "t \<equiv> s\<lparr>inodes := (inodes s)[ip := (inodes s ! ip)\<lparr>i_size := z\<rparr>]\<rparr>"
  shows "file_tx me ip t" "ptr t ip = ptr s ip" "fbyte t ip = fbyte s ip" "foreign t ip = foreign s ip"
proof -
  have ip: "ip < length (inodes s)" using assms by (simp add: file_tx_def file_ok_def)
  show p: "ptr t ip = ptr s ip" using ip by (simp add: ptr_def fun_eq_iff indirect_def t_def)
  show "fbyte t ip = fbyte s ip" by (simp add: fbyte_def fblock_def fun_eq_iff p) (simp add: t_def)
  show "foreign t ip = foreign s ip" by (simp add: foreign_def fun_eq_iff p) (simp add: t_def)
  have "file_ok t ip" using assms(1) ip unfolding file_tx_def file_ok_def p by (simp add: t_def)
  then show "file_tx me ip t" using assms(1) by (simp add: file_tx_def t_def)
qed

lemma data_file_tx: "data_file me ip s \<Longrightarrow> 0 < outstanding s \<Longrightarrow> file_tx me ip s"
  by (simp add: data_file_def file_tx_def held_ok_def)

lemma writei_run:
  assumes "i_type (inodes s ! ip) \<noteq> T_DEV" "i_dev (inodes s ! ip) = 1" "unat ofs \<le> fsize s ip" "unat ofs + unat n \<le> MAXFILE * BSIZE"
    and "for_each (chunks 0 (unat ofs) (unat n)) (wround ip Local) s = Ret () t" "i_size (inodes t ! ip) = i_size (inodes s ! ip)"
  shows "writei ip Local ofs n s =
    (if fsize s ip < unat ofs + unat n then
       thn (thn (upd_inode ip (\<lambda>x. x\<lparr>i_size := ofs + n\<rparr>)) (iupdate ip)) (ret n) t
     else Ret n t)"
proof -
  have mx: "MAXFILE * BSIZE < 2 ^ 32" by (simp add: MAXFILE_def NDIRECT_def NINDIRECT_def BSIZE_def)
  have u: "unat (ofs + n) = unat ofs + unat n"
  proof -
    have "unat ofs + unat n < 2 ^ LENGTH(32)" using assms(4) mx by (simp only: len32)
    then show ?thesis by (simp only: unat_add_lem [THEN iffD1])
  qed
  have c: "\<not> i_size (inodes s ! ip) < ofs" "\<not> ofs + n < ofs" "\<not> of_nat (MAXFILE * BSIZE) < ofs + n"
    using assms(3,4) u unat_small [OF mx] by (simp_all add: word_less_nat_alt fsize_def)
  have z: "0 < n \<and> i_size (inodes t ! ip) < ofs + n \<longleftrightarrow> fsize s ip < unat ofs + unat n"
    using assms(3) u by (auto simp: assms(6) word_less_nat_alt fsize_def)
  have w: "(\<lambda>(tot, pos, m). bnd (bmap ip (of_nat (pos div BSIZE))) (\<lambda>addr. bnd (bread (i_dev (inodes s ! ip)) addr) (\<lambda>bp.
      bnd (get_place Local (of_nat tot) m) (\<lambda>bs. thn (upd_buf bp (\<lambda>b. b\<lparr>b_data := put_at (pos mod BSIZE) bs (b_data b)\<rparr>)) (
      thn (log_write bp) (brelse bp)))))) = wround ip Local"
    by (simp add: wround_def assms(2))
  show ?thesis
    unfolding writei_def bnd_prim w using assms(1) c z
    by (simp add: thn_Ret [where m = "for_each _ _", OF assms(5)] geti_def thn_if)
qed

lemma foreign_kept: "kept ip s t \<Longrightarrow> foreign s ip b \<Longrightarrow> foreign t ip b \<and> blk t b = blk s b"
  by (simp add: kept_def)

text \<open>After the loop, when the file does not grow.\<close>

lemma writei_inside:
  assumes df: "data_file me ip s" and t: "file_tx me ip t" "kept ip s t" "inodes t = inodes s"
  shows "data_file me ip t"
proof -
  have ip: "ip < length (inodes s)" and ff: "file_frame ip s t" using t(2) by (simp_all add: kept_def)
  note f = file_frame_sel [OF ff ip]
  show ?thesis
    using df t foreign_kept [OF t(2)] unfolding data_file_def by (auto simp: kept_def file_tx_def f(1))
qed

lemma writei_grown:
  assumes df: "data_file me ip s" and t: "file_tx me ip t" "kept ip s t" "slots t (Suc c) (Suc l)"
    and sz: "unat z \<le> MAXFILE * BSIZE" "\<forall>k < unat z. ptr t ip (k div BSIZE) \<noteq> 0"
  obtains u where "thn (thn (upd_inode ip (\<lambda>x. x\<lparr>i_size := z\<rparr>)) (iupdate ip)) (ret n) t = Ret n u" "data_file me ip u" "fsize u ip = unat z"
    "fbyte u ip = fbyte t ip" "\<And>b. foreign s ip b \<Longrightarrow> b \<noteq> IBLOCK (i_inum (inodes s ! ip)) (sb s) \<Longrightarrow> blk u b = blk s b"
    "slots u c l"
proof -
  let ?t = "t\<lparr>inodes := (inodes t)[ip := (inodes t ! ip)\<lparr>i_size := z\<rparr>]\<rparr>" and ?ib = "IBLOCK (i_inum (inodes s ! ip)) (sb s)"
  have ip: "ip < length (inodes s)" and ff: "file_frame ip s t" and h: "holder t = Map.empty" using t(2) df by (simp_all add: kept_def data_file_def)
  note f = file_frame_sel [OF ff ip] and z = set_size [OF t(1), of z]
  have it: "inodes ?t ! ip = (inodes t ! ip)\<lparr>i_size := z\<rparr>" "IBLOCK (i_inum (inodes ?t ! ip)) (sb ?t) = ?ib" using ip f by simp_all
  have ib: "foreign s ip ?ib" "foreign ?t ip ?ib" using df foreign_kept [OF t(2)] z(4) by (auto simp: data_file_def)
  have sl: "slots ?t (Suc c) (Suc l)" "holder ?t = Map.empty" using t(3) h by simp_all
  obtain u where u: "iupdate ip ?t = Ret () u" "file_tx me ip u" "tx_frame ?t u" "holder u = holder ?t"
    "blk u = (blk ?t)(?ib := dinode_store (inodes ?t ! ip) (blk ?t ?ib))" "ptr u ip = ptr ?t ip" "fbyte u ip = fbyte ?t ip" "data_block u = data_block ?t"
    "free_blocks u = free_blocks ?t" "slots u c l"
    by (rule iupdate_ok [OF z(1) sl(2,1) it(2) ib(2)]) (rule that)
  note g = tx_frame_fs [OF u(3)]
  have "dinode_load (blk u ?ib) (inodes u ! ip) = inodes u ! ip"
  proof -
    have "length (blk t ?ib) = BSIZE" using length_data [of me ?t ?ib] ib z(1) by (simp add: file_tx_def foreign_def)
    moreover have "length (i_addrs (inodes ?t ! ip)) = NDIRECT + 1" unfolding it(1) using t(1) by (simp add: file_tx_def file_ok_def)
    ultimately show ?thesis using dinode_store_load(2) [of "blk t ?ib" "inodes ?t ! ip" "inodes ?t ! ip"] g(2) u(5) by simp
  qed
  moreover have "foreign u ip ?ib" using ib(2) by (simp add: foreign_def u(6,8))
  moreover have "sb u = sb s" "i_inum (inodes u ! ip) = i_inum (inodes s ! ip)" "i_type (inodes u ! ip) = i_type (inodes s ! ip)" "i_size (inodes u ! ip) = z"
    using g f ip by simp_all
  ultimately have "data_file me ip u" "fsize u ip = unat z"
    using u(2,4) h sz z(2) df unfolding data_file_def fsize_def by (simp_all add: file_tx_def u(6))
  moreover have "thn (thn (upd_inode ip (\<lambda>x. x\<lparr>i_size := z\<rparr>)) (iupdate ip)) (ret n) t = Ret n u"
    by (simp add: upd_inode_def thn_Ret [where m = "iupdate ip", OF u(1)])
  moreover have "blk u b = blk s b" if "foreign s ip b" "b \<noteq> ?ib" for b using u(5) that foreign_kept [OF t(2)] by simp
  ultimately show ?thesis using that u(7,10) z(3) by simp
qed

lemma writei_ok:
  assumes "data_file me ip s" "0 < outstanding s" "unat ofs \<le> fsize s ip" "unat ofs + unat n \<le> MAXFILE * BSIZE"
    and "2 * length (chunks 0 (unat ofs) (unat n)) \<le> free_blocks s"
    and "slots s (6 * length (chunks 0 (unat ofs) (unat n)) + Suc c) (6 * length (chunks 0 (unat ofs) (unat n)) + Suc l)"
  shows "\<exists>t. writei ip Local ofs n s = Ret n t \<and> data_file me ip t \<and> fsize t ip = max (fsize s ip) (unat ofs + unat n)
    \<and> (\<forall>k < fsize t ip. fbyte t ip k = overwrite (unat ofs) (unat n) (kbuf s) (fbyte s ip) k)
    \<and> (\<forall>b. foreign s ip b \<longrightarrow> b \<noteq> IBLOCK (i_inum (inodes s ! ip)) (sb s) \<longrightarrow> blk t b = blk s b) \<and> slots t c l"
proof -
  have tx: "file_tx me ip s" "holder s = Map.empty" "i_type (inodes s ! ip) \<noteq> T_DEV" "i_dev (inodes s ! ip) = 1" "ip < length (inodes s)"
    using data_file_tx [OF assms(1,2)] assms(1) by (simp_all add: data_file_def file_ok_def)
  have n: "unat n < 2 ^ 32" "unat ofs + (unat n - 0) \<le> MAXFILE * BSIZE" using assms(4) by (simp_all add: MAXFILE_def NDIRECT_def NINDIRECT_def BSIZE_def)
  note w = wloop_ok [OF tx(1,2) le0 n assms(6)]
  obtain t where t: "for_each (chunks 0 (unat ofs) (unat n)) (wround ip Local) s = Ret () t"
    using w assms(5) by (cases "for_each (chunks 0 (unat ofs) (unat n)) (wround ip Local) s") (auto simp: written_def)
  then have v: "file_tx me ip t" "kept ip s t" "slots t (Suc c) (Suc l)" "\<And>k. k < MAXFILE * BSIZE \<Longrightarrow> fbyte t ip k = overwrite (unat ofs) (unat n) (kbuf s) (fbyte s ip) k"
    "\<And>k. unat ofs \<le> k \<Longrightarrow> k < unat ofs + unat n \<Longrightarrow> ptr t ip (k div BSIZE) \<noteq> 0"
    "\<forall>k. unat ofs \<le> k \<and> k < unat ofs + unat n \<longrightarrow> ptr s ip (k div BSIZE) \<noteq> 0 \<Longrightarrow> inodes t = inodes s"
    using w by (simp_all add: written_def)
  have sz: "i_size (inodes t ! ip) = i_size (inodes s ! ip)" using file_frame_sel(11) [OF _ tx(5)] v(2) by (auto simp: kept_def)
  note run = writei_run [OF tx(3,4) assms(3,4) t sz]
  have mx: "fsize s ip \<le> MAXFILE * BSIZE" using assms(1) by (simp add: data_file_def fsize_def)
  show ?thesis
  proof (cases "fsize s ip < unat ofs + unat n")
    case True
    have u: "unat (ofs + n) = unat ofs + unat n"
    proof -
      have "unat ofs + unat n < 2 ^ LENGTH(32)" using assms(4) by (simp add: len32 MAXFILE_def NDIRECT_def NINDIRECT_def BSIZE_def)
      then show ?thesis by (simp only: unat_add_lem [THEN iffD1])
    qed
    have "ptr t ip (k div BSIZE) \<noteq> 0" if "k < unat (ofs + n)" for k
    proof (cases "k < fsize s ip")
      case True
      then have "ptr s ip (k div BSIZE) \<noteq> 0" using assms(1) by (simp add: data_file_def fsize_def)
      then show ?thesis using v(2) by (simp add: kept_def)
    qed (use v(5) [of k] assms(3) that u in simp)
    then obtain r where r: "thn (thn (upd_inode ip (\<lambda>x. x\<lparr>i_size := ofs + n\<rparr>)) (iupdate ip)) (ret n) t = Ret n r" "data_file me ip r"
      "fsize r ip = unat (ofs + n)" "fbyte r ip = fbyte t ip" "\<And>b. foreign s ip b \<Longrightarrow> b \<noteq> IBLOCK (i_inum (inodes s ! ip)) (sb s) \<Longrightarrow> blk r b = blk s b"
      "slots r c l"
      using writei_grown [OF assms(1) v(1-3), of "ofs + n" n] assms(4) u by metis
    show ?thesis using True r v(4) assms(4) u by (intro exI [of _ r]) (simp add: run)
  next
    case False
    have "inodes t = inodes s" using assms(1) False by (intro v(6)) (auto simp: data_file_def fsize_def)
    then have "data_file me ip t" "fsize t ip = fsize s ip" using writei_inside [OF assms(1) v(1,2)] by (simp_all add: fsize_def)
    then show ?thesis using False v(4) mx foreign_kept [OF v(2)] slots_mono [OF v(3), of c l] by (intro exI [of _ t]) (simp add: run)
  qed
qed

text \<open>C2: \<^verbatim>\<open>writei\<close> inside a transaction with enough room and enough free blocks stores its bytes in the file: afterwards the file has them in the range
  written and its old bytes elsewhere, its size covers the range, the inode on the disk is the one in memory, and no data block
  that is not of the file has changed, but for the one of the inode.\<close>

theorem writei_contents:
  assumes "data_file me ip s" "0 < outstanding s" "unat ofs \<le> fsize s ip" "unat ofs + unat n \<le> MAXFILE * BSIZE"
    and "2 * length (chunks 0 (unat ofs) (unat n)) \<le> free_blocks s"
    and "slots s (6 * length (chunks 0 (unat ofs) (unat n)) + 1) (6 * length (chunks 0 (unat ofs) (unat n)) + 1)"
  shows "\<exists>t. writei ip Local ofs n s = Ret n t \<and> data_file me ip t \<and> fsize t ip = max (fsize s ip) (unat ofs + unat n)
    \<and> (\<forall>k < fsize t ip. fbyte t ip k = overwrite (unat ofs) (unat n) (kbuf s) (fbyte s ip) k)
    \<and> (\<forall>b. foreign s ip b \<longrightarrow> b \<noteq> IBLOCK (i_inum (inodes s ! ip)) (sb s) \<longrightarrow> blk t b = blk s b)"
  using writei_ok [OF assms(1-5), of 0 0] assms(6) by auto

section \<open>Reading\<close>

definition rround :: "nat \<Rightarrow> nat \<times> nat \<times> nat \<Rightarrow> ('e fsst_scheme, unit) km" where
  "rround ip = (\<lambda>(tot, pos, m).
     bnd (bmap ip (of_nat (pos div BSIZE))) (\<lambda>addr.
     bnd (bread 1 addr) (\<lambda>bp.
     bnd (getb bp (\<lambda>b. get_at (pos mod BSIZE) m (b_data b))) (\<lambda>bs.
     thn (put_place Local (of_nat tot) bs) (
     brelse bp)))))"

lemma kbuf_file [simp]:
  fixes s :: "'e fsst_scheme"
  shows "ptr (s\<lparr>kbuf := y\<rparr>) = ptr s" "fbyte (s\<lparr>kbuf := y\<rparr>) = fbyte s" "file_ok (s\<lparr>kbuf := y\<rparr>) = file_ok s" "foreign (s\<lparr>kbuf := y\<rparr>) = foreign s"
    "data_file me ip (s\<lparr>kbuf := y\<rparr>) = data_file me ip s"
proof -
  show p: "ptr (s\<lparr>kbuf := y\<rparr>) = ptr s" by (simp add: ptr_def indirect_def fun_eq_iff)
  show "fbyte (s\<lparr>kbuf := y\<rparr>) = fbyte s" by (simp add: fbyte_def fblock_def fun_eq_iff p)
  show f: "file_ok (s\<lparr>kbuf := y\<rparr>) = file_ok s" "foreign (s\<lparr>kbuf := y\<rparr>) = foreign s" by (simp_all add: file_ok_def foreign_def fun_eq_iff p)
  show "data_file me ip (s\<lparr>kbuf := y\<rparr>) = data_file me ip s" by (simp add: data_file_def p f)
qed

text \<open>What reading changes: the cache and the buffer read into.\<close>

definition read_frame :: "nat \<Rightarrow> 'e fsst_scheme \<Rightarrow> 'e fsst_scheme \<Rightarrow> bool" where
  "read_frame me s t \<longleftrightarrow> tx_frame s (t\<lparr>kbuf := kbuf s\<rparr>) \<and> blk t = blk s \<and> holder t = holder s \<and> tx_ok me t"

lemma tx_frame_kbuf:
  fixes s :: "'e fsst_scheme"
  assumes "tx_frame s t"
  shows "tx_frame (s\<lparr>kbuf := y\<rparr>) (t\<lparr>kbuf := y\<rparr>)"
proof -
  have e: "erase (u\<lparr>kbuf := y, lh_n := 0, lh_block := []\<rparr>) = (erase (u\<lparr>lh_n := 0, lh_block := []\<rparr>))\<lparr>kbuf := y\<rparr>" for u :: "'e fsst_scheme"
    by (simp add: erase_def)
  show ?thesis using assms by (simp add: tx_frame_def io_frame_def e)
qed

lemma read_frame_trans:
  assumes "read_frame me s t" "read_frame me t u"
  shows "read_frame me s u"
proof -
  have "tx_frame (t\<lparr>kbuf := kbuf s\<rparr>) (u\<lparr>kbuf := kbuf s\<rparr>)"
    using assms(2) tx_frame_kbuf [of t "u\<lparr>kbuf := kbuf t\<rparr>" "kbuf s"] by (simp add: read_frame_def)
  then show ?thesis using assms tx_frame_trans by (auto simp: read_frame_def)
qed

lemma read_frame_sel:
  assumes "read_frame me s t"
  shows "inodes t = inodes s" "ptr t = ptr s" "fbyte t = fbyte s" "data_file me ip s \<Longrightarrow> data_file me ip t"
proof -
  let ?t = "t\<lparr>kbuf := kbuf s\<rparr>"
  have f: "tx_frame s ?t" "blk ?t = blk s" "holder ?t = holder s" using assms by (simp_all add: read_frame_def)
  note g = tx_frame_fs [OF f(1)] same_file [OF f(1,2)] same_view [OF f]
  show i: "inodes t = inodes s" and p: "ptr t = ptr s" using g by simp_all
  show "fbyte t = fbyte s" using g f(2) by (simp add: fbyte_def fblock_def fun_eq_iff)
  have "data_file me ip s \<Longrightarrow> data_file me ip ?t" using g f assms unfolding data_file_def read_frame_def by simp
  then show "data_file me ip s \<Longrightarrow> data_file me ip t" by simp
qed

lemma rround_ok:
  assumes df: "data_file me ip s" and pos: "ptr s ip (pos div BSIZE) \<noteq> 0" "pos div BSIZE < MAXFILE" "pos mod BSIZE + m \<le> BSIZE" "tot + m < 2 ^ 32" and room: "slots s (Suc c) l"
  obtains t where "rround ip (tot, pos, m) s = Ret () t" "read_frame me s t" "slots t (Suc c) l"
    "kbuf t = overwrite tot m (\<lambda>j. fbyte s ip (pos + j)) (kbuf s)"
proof -
  have ok: "tx_ok me s" "layout_ok s" "holder s = Map.empty" "file_ok s ip" using df by (simp_all add: data_file_def)
  define a where "a = ptr s ip (pos div BSIZE)"
  have a: "a \<noteq> 0" "data_block s a" using pos(1) ok(4) unfolding a_def file_ok_def by metis+
  obtain t where t: "bmap ip (of_nat (pos div BSIZE)) s = Ret a t" "tx_ok me t" "tx_frame s t" "blk t = blk s" "holder t = holder s" "slots t (Suc c) l"
    by (rule bmap_hit [OF ok pos(2,1) room]) (rule that, unfold a_def, assumption+)
  note f = tx_frame_fs [OF t(3)] tx_frame_sel [OF t(3)]
  have n: "a < disksize t" "holder t a = None" using data_disk [OF ok(2) a(2)] f ok(3) t(5) by simp_all
  obtain i u where u: "bread 1 a t = Ret i u" "tx_ok me u" "tx_frame t u" "blk u = blk t" "holder u = (holder t)(a := Some i)"
    "dirty u = dirty t" "slots u c l" "b_data (bufs u ! i) = blk t a" "lh_n u = lh_n t"
    by (rule tx_bread [OF t(2) n t(6)]) (rule that)
  let ?bs = "get_at (pos mod BSIZE) m (blk s a)" and ?kb = "overwrite tot m (\<lambda>j. fbyte s ip (pos + j)) (kbuf s)"
  let ?u = "u\<lparr>kbuf := ?kb\<rparr>"
  have cl: "dirty ?u a \<or> blk ?u a = disk ?u (unat a)"
    using t(2) n(2) u(3,4,6) clean_disk [of me t a] by (auto simp: tx_ok_def owned_holder tx_frame_def)
  have h: "holder ?u a = Some i" "tx_ok me ?u" "slots ?u c l" using u(2,5,7) by simp_all
  obtain v where v: "brelse i ?u = Ret () v" "tx_ok me v" "tx_frame ?u v" "blk v = blk ?u" "holder v = (holder ?u)(a := None)" "dirty v = dirty ?u"
    "slots v (if dirty ?u a then c else Suc c) l" "lh_n v = lh_n ?u"
    by (rule tx_brelse [OF h(2,1) cl h(3)]) (rule that)
  have fr: "tx_frame s u" by (rule tx_frame_trans [OF t(3) u(3)])
  have len: "length (blk s a) = BSIZE" by (rule length_data [OF ok(1,2) a(2)])
  have bs: "?bs ! j = fbyte s ip (pos + j)" if "j < m" for j
    using within_block [of pos m "pos + j"] pos that len a(1) by (simp add: fbyte_def fblock_def a_def get_at_def)
  have lb: "length ?bs = m" using pos(3) len by (simp add: get_at_def)
  have "(\<lambda>x. if tot \<le> x \<and> x < tot + m then ?bs ! (x - tot) else kbuf u x) = ?kb"
  proof
    fix x
    show "(if tot \<le> x \<and> x < tot + m then ?bs ! (x - tot) else kbuf u x) = ?kb x"
    proof (cases "tot \<le> x \<and> x < tot + m")
      case True
      then have "x - tot < m" by linarith
      from bs [OF this] show ?thesis by (simp only: overwrite_def True if_True simp_thms)
    next
      case False
      then show ?thesis using tx_frame_fs(3) [OF fr] by (auto simp only: overwrite_def if_False)
    qed
  qed
  moreover have ut: "unat (of_nat tot :: uint) = tot" using pos(4) by (intro unat_small) simp
  ultimately have "put_place Local (of_nat tot) ?bs u = Ret () ?u" by (simp only: put_place_def place.case upd_run lb ut)
  then have run: "rround ip (tot, pos, m) s = Ret () v"
    by (simp add: rround_def bnd_Ret [where m = "bmap ip _", OF t(1)] bnd_Ret [where m = "bread 1 a", OF u(1)] getb_def u(8) t(4) thn_Ret v(1))
  have kv: "kbuf v = ?kb" using tx_frame_fs(3) [OF v(3)] by simp
  have hv: "holder v = holder s" using v(5) u(5) n(2) t(5) by (simp add: fun_upd_idem_iff)
  have "tx_frame u (v\<lparr>kbuf := kbuf u\<rparr>)" using tx_frame_kbuf [OF v(3), of "kbuf u"] by simp
  then have "tx_frame s (v\<lparr>kbuf := kbuf s\<rparr>)" using tx_frame_trans [OF fr] tx_frame_fs(3) [OF fr] by simp
  then have rf: "read_frame me s v" using v(2,4) u(4) t(4) hv by (simp add: read_frame_def)
  have "busy v = busy t" using hv t(5) v(6) u(6) by (simp add: busy_def owned_holder)
  moreover have "log_limit v = log_limit t" using tx_frame_sel(12) [OF u(3)] tx_frame_sel(12) [OF v(3)] by (simp add: log_limit_def)
  ultimately have "slots v (Suc c) l" using t(6) u(9) v(8) by (simp add: slots_def)
  then show ?thesis by (rule that [OF run rf _ kv])
qed

lemma rloop_ok:
  assumes "data_file me ip s" "tot \<le> n" "n < 2 ^ 32" "\<forall>k. pos \<le> k \<and> k < pos + (n - tot) \<longrightarrow> ptr s ip (k div BSIZE) \<noteq> 0"
    and "pos + (n - tot) \<le> MAXFILE * BSIZE" "slots s (Suc c) l"
  shows "\<exists>t. for_each (chunks tot pos n) (rround ip) s = Ret () t \<and> read_frame me s t \<and> slots t (Suc c) l
    \<and> kbuf t = overwrite tot (n - tot) (\<lambda>j. fbyte s ip (pos + j)) (kbuf s)"
  using assms
proof (induction tot pos n arbitrary: s rule: chunks.induct)
  case (1 tot pos n)
  show ?case
  proof (cases "tot < n")
    case False
    then have "read_frame me s s" using 1(2) by (simp add: read_frame_def data_file_def)
    then show ?thesis using False 1(7) by (auto simp: chunks_end overwrite_def fun_eq_iff)
  next
    case True
    define m where "m = min (n - tot) (BSIZE - pos mod BSIZE)"
    let ?cs = "chunks (tot + m) (pos + m) n"
    have cs: "chunks tot pos n = (tot, pos, m) # ?cs" using chunks_step [OF True] by (simp add: m_def Let_def)
    have m: "0 < m" "pos mod BSIZE + m \<le> BSIZE" "tot + m \<le> n" using True by (auto simp: m_def BSIZE_def)
    have "pos < MAXFILE * BSIZE" "tot + m < 2 ^ 32" using 1(4,6) True m(3) by linarith+
    then have p: "pos div BSIZE < MAXFILE" "tot + m < 2 ^ 32" by (simp_all add: less_mult_imp_div_less)
    have pp: "ptr s ip (pos div BSIZE) \<noteq> 0" using 1(5) True by simp
    obtain t where t: "rround ip (tot, pos, m) s = Ret () t" "read_frame me s t" "slots t (Suc c) l"
      "kbuf t = overwrite tot m (\<lambda>j. fbyte s ip (pos + j)) (kbuf s)"
      by (rule rround_ok [OF 1(2) pp p(1) m(2) p(2) 1(7)]) (rule that)
    note f = read_frame_sel [OF t(2)]
    have "\<exists>u. for_each ?cs (rround ip) t = Ret () u \<and> read_frame me t u \<and> slots u (Suc c) l
      \<and> kbuf u = overwrite (tot + m) (n - (tot + m)) (\<lambda>j. fbyte t ip (pos + m + j)) (kbuf t)"
      using 1(4-6) m(3) f(2) t(3) by (intro 1(1) [OF True m_def f(4) [OF 1(2)]]) auto
    then obtain u where u: "for_each ?cs (rround ip) t = Ret () u" "read_frame me t u" "slots u (Suc c) l"
      "kbuf u = overwrite (tot + m) (n - (tot + m)) (\<lambda>j. fbyte t ip (pos + m + j)) (kbuf t)" by blast
    have "kbuf u = overwrite tot (n - tot) (\<lambda>j. fbyte s ip (pos + j)) (kbuf s)"
      using m(3) by (auto simp: u(4) t(4) f(3) overwrite_def fun_eq_iff intro!: arg_cong [where f = "fbyte s ip"])
    then show ?thesis
      using u read_frame_trans [OF t(2) u(2)] by (simp add: cs thn_Ret [where m = "rround ip (tot, pos, m)", OF t(1)])
  qed
qed

lemma readi_run:
  assumes "i_type (inodes s ! ip) \<noteq> T_DEV" "i_dev (inodes s ! ip) = 1" "unat ofs \<le> fsize s ip" "unat ofs + unat n < 2 ^ 32"
  shows "readi ip Local ofs n s = thn (for_each (chunks 0 (unat ofs) (min (unat n) (fsize s ip - unat ofs))) (rround ip)) (
    ret (of_nat (min (unat n) (fsize s ip - unat ofs)))) s"
proof -
  let ?z = "i_size (inodes s ! ip)" and ?m = "min (unat n) (fsize s ip - unat ofs)"
  have u: "unat (ofs + n) = unat ofs + unat n"
  proof -
    have "unat ofs + unat n < 2 ^ LENGTH(32)" using assms(4) by (simp only: len32)
    then show ?thesis by (simp only: unat_add_lem [THEN iffD1])
  qed
  have c: "\<not> ?z < ofs" "\<not> ofs + n < ofs" using assms(3) u by (simp_all add: word_less_nat_alt fsize_def)
  have d: "unat (?z - ofs) = fsize s ip - unat ofs" using assms(3) by (simp add: fsize_def unat_sub word_le_nat_alt)
  have m: "(if ?z < ofs + n then ?z - ofs else n) = of_nat ?m"
  proof (cases "?z < ofs + n")
    case True
    then have "fsize s ip < unat ofs + unat n" using u by (simp add: word_less_nat_alt fsize_def)
    then have "?m = unat (?z - ofs)" using d assms(3) by simp
    then show ?thesis using True by simp
  next
    case False
    then have "unat ofs + unat n \<le> fsize s ip" using u by (simp add: word_less_nat_alt fsize_def)
    then have "?m = unat n" by simp
    then show ?thesis using False by simp
  qed
  have um: "unat (of_nat ?m :: uint) = ?m" using assms(4) by (intro unat_small) simp
  have w: "(\<lambda>(tot, pos, m). bnd (bmap ip (of_nat (pos div BSIZE))) (\<lambda>addr. bnd (bread (i_dev (inodes s ! ip)) addr) (\<lambda>bp.
      bnd (getb bp (\<lambda>b. get_at (pos mod BSIZE) m (b_data b))) (\<lambda>bs. thn (put_place Local (of_nat tot) bs) (brelse bp))))) = rround ip"
    by (simp add: rround_def assms(2))
  show ?thesis unfolding readi_def bnd_prim w m Let_def um using assms(1) c by simp
qed

lemma readi_ok:
  assumes df: "data_file me ip s" and ofs: "unat ofs \<le> fsize s ip" "unat ofs + unat n < 2 ^ 32" and room: "slots s (Suc c) l"
  shows "\<exists>t. readi ip Local ofs n s = Ret (of_nat (min (unat n) (fsize s ip - unat ofs))) t \<and> read_frame me s t \<and> slots t (Suc c) l
    \<and> kbuf t = overwrite 0 (min (unat n) (fsize s ip - unat ofs)) (\<lambda>j. fbyte s ip (unat ofs + j)) (kbuf s)"
proof -
  let ?m = "min (unat n) (fsize s ip - unat ofs)"
  have t: "i_type (inodes s ! ip) \<noteq> T_DEV" "i_dev (inodes s ! ip) = 1" "fsize s ip \<le> MAXFILE * BSIZE" "\<forall>k < fsize s ip. ptr s ip (k div BSIZE) \<noteq> 0"
    using df by (simp_all add: data_file_def file_ok_def fsize_def)
  have m: "?m < 2 ^ 32" "\<forall>k. unat ofs \<le> k \<and> k < unat ofs + (?m - 0) \<longrightarrow> ptr s ip (k div BSIZE) \<noteq> 0" "unat ofs + (?m - 0) \<le> MAXFILE * BSIZE"
    using ofs t(3,4) by auto
  obtain r where r: "for_each (chunks 0 (unat ofs) ?m) (rround ip) s = Ret () r" "read_frame me s r" "slots r (Suc c) l"
    "kbuf r = overwrite 0 (?m - 0) (\<lambda>j. fbyte s ip (unat ofs + j)) (kbuf s)"
    using rloop_ok [OF df le0 m room] by blast
  then show ?thesis
    unfolding readi_run [OF t(1,2) ofs] by (intro exI [of _ r]) (simp add: thn_Ret [where m = "for_each _ _", OF r(1)])
qed

text \<open>C4: \<^verbatim>\<open>readi\<close> copies the bytes of the file from its offset on, up to the end of the file or the count, returns how many
  they are, and changes no block.\<close>

theorem readi_contents:
  assumes "data_file me ip s" "unat ofs \<le> fsize s ip" "unat ofs + unat n < 2 ^ 32" "slots s 1 0"
  shows "\<exists>t. readi ip Local ofs n s = Ret (of_nat (min (unat n) (fsize s ip - unat ofs))) t \<and> data_file me ip t \<and> blk t = blk s
    \<and> (\<forall>i. kbuf t i = (if i < unat n \<and> unat ofs + i < fsize s ip then fbyte s ip (unat ofs + i) else kbuf s i))"
proof -
  have "slots s (Suc 0) 0" using assms(4) by simp
  from readi_ok [OF assms(1-3) this] obtain t where t: "readi ip Local ofs n s = Ret (of_nat (min (unat n) (fsize s ip - unat ofs))) t" "read_frame me s t"
    "kbuf t = overwrite 0 (min (unat n) (fsize s ip - unat ofs)) (\<lambda>j. fbyte s ip (unat ofs + j)) (kbuf s)" by blast
  moreover have "data_file me ip t" "blk t = blk s" using read_frame_sel(4) [OF t(2) assms(1)] t(2) by (simp_all add: read_frame_def)
  moreover have "i < min (unat n) (fsize s ip - unat ofs) \<longleftrightarrow> i < unat n \<and> unat ofs + i < fsize s ip" for i using assms(2) by auto
  ultimately show ?thesis by (simp add: overwrite_def)
qed

text \<open>C3: what was written is read back: \<^verbatim>\<open>readi\<close> after \<^verbatim>\<open>writei\<close>, at the same offset and for the same count, returns the bytes written,
  whatever the buffer had in between.\<close>

theorem readi_writei:
  assumes "data_file me ip s" "0 < outstanding s" "unat ofs \<le> fsize s ip" "unat ofs + unat n \<le> MAXFILE * BSIZE"
    and "2 * length (chunks 0 (unat ofs) (unat n)) \<le> free_blocks s"
    and "slots s (6 * length (chunks 0 (unat ofs) (unat n)) + 2) (6 * length (chunks 0 (unat ofs) (unat n)) + 1)"
  shows "\<exists>t u. writei ip Local ofs n s = Ret n t \<and> readi ip Local ofs n (t\<lparr>kbuf := y\<rparr>) = Ret n u \<and> (\<forall>i < unat n. kbuf u i = kbuf s i)"
proof -
  have "slots s (6 * length (chunks 0 (unat ofs) (unat n)) + Suc 1) (6 * length (chunks 0 (unat ofs) (unat n)) + Suc 0)" using assms(6) by simp
  from writei_ok [OF assms(1-5) this] obtain t where t: "writei ip Local ofs n s = Ret n t" "data_file me ip t" "fsize t ip = max (fsize s ip) (unat ofs + unat n)"
    "\<forall>k < fsize t ip. fbyte t ip k = overwrite (unat ofs) (unat n) (kbuf s) (fbyte s ip) k" "slots t 1 0" by blast
  let ?t = "t\<lparr>kbuf := y\<rparr>"
  have "MAXFILE * BSIZE < 2 ^ 32" by (simp add: MAXFILE_def NDIRECT_def NINDIRECT_def BSIZE_def)
  then have h: "data_file me ip ?t" "unat ofs \<le> fsize ?t ip" "unat ofs + unat n < 2 ^ 32" "slots ?t (Suc 0) 0"
    using t assms(3,4) by (simp_all add: fsize_def)
  have m: "min (unat n) (fsize ?t ip - unat ofs) = unat n" using t(3) by (simp add: fsize_def)
  from readi_ok [OF h] obtain u where u: "readi ip Local ofs n ?t = Ret n u" "kbuf u = overwrite 0 (unat n) (\<lambda>j. fbyte ?t ip (unat ofs + j)) (kbuf ?t)"
    unfolding m by auto
  have "kbuf u i = kbuf s i" if "i < unat n" for i
    using that t(3,4) by (simp add: u(2) overwrite_def)
  with t(1) u(1) show ?thesis by blast
qed

section \<open>An example\<close>

text \<open>An empty file with inode 1, in the file system of the example of the bitmap.\<close>

definition file_inode :: inode where
  "file_inode = \<lparr>i_dev = 1, i_inum = 1, i_ref = 1, i_valid = True, i_type = T_FILE, i_major = 0, i_minor = 0, i_nlink = 1, i_size = 0,
     i_addrs = replicate 13 0\<rparr>"

definition file_example :: fsst where
  "file_example = fs_example\<lparr>disk := fs_disk(32 := dinode_store file_inode (replicate BSIZE 0)), inodes := [file_inode], kbuf := of_nat\<rparr>"

lemma file_example_sel:
  "bufs file_example = bufs fs_example" "slks file_example = slks fs_example" "lru file_example = lru fs_example" "disksize file_example = 100"
  "disk file_example = fs_disk(32 := dinode_store file_inode (replicate BSIZE 0))" "inodes file_example = [file_inode]" "sb file_example = sb fs_example"
  "procs file_example = procs fs_example" "held file_example = held fs_example" "others file_example = others fs_example" "cur file_example = cur fs_example"
  "log_start file_example = 2" "log_size file_example = 30" "log_dev file_example = 1" "lh_n file_example = 0" "lh_block file_example = replicate 30 0"
  "outstanding file_example = 1" "kbuf file_example = of_nat"
  by (simp_all add: file_example_def fs_example_sel)

lemma file_example_view:
  "caches file_example n i = False" "bufat file_example n = None" "blk file_example n = disk file_example (unat n)" "holder file_example = Map.empty"
  "dirty file_example n = False" "busy file_example = {}" "bit_blk file_example = bit_blk fs_example" "log_area file_example = log_area fs_example"
proof -
  show c: "caches file_example n i = False" for n i using fs_example_view(1) [of n i] by (simp add: caches_def file_example_sel)
  show b: "bufat file_example n = None" for n by (simp add: bufat_None c)
  show "blk file_example n = disk file_example (unat n)" by (simp add: blk_def b)
  show h: "holder file_example = Map.empty" by (simp add: holder_def b fun_eq_iff)
  show d: "dirty file_example n = False" for n by (simp add: dirty_def b)
  show "busy file_example = {}" by (simp add: busy_def owned_holder h d)
  show "bit_blk file_example = bit_blk fs_example" "log_area file_example = log_area fs_example"
    by (simp_all add: bit_blk_def log_area_def fun_eq_iff file_example_sel fs_example_sel)
qed

lemma file_example_store: "length (dinode_store file_inode (replicate BSIZE 0)) = BSIZE"
  "dinode_load (dinode_store file_inode (replicate BSIZE 0)) file_inode = file_inode"
  using dinode_store_load(1) [of "replicate BSIZE 0" file_inode] dinode_store_load(2) [of "replicate BSIZE 0" file_inode file_inode]
  by (simp_all add: file_inode_def NDIRECT_def)

lemma file_example_in_use: "b < 100 \<Longrightarrow> in_use file_example b = in_use fs_example b"
  by (simp add: in_use_def file_example_view fs_example_view file_example_sel fs_example_bit_blk)

lemma file_example_tx: "tx_ok 0 file_example" "layout_ok file_example" "slots file_example 29 29"
proof -
  have "cache_ok p file_example" for p
    by (auto simp: cache_ok_def file_example_view(1)) (auto simp: file_example_sel fs_example_sel buf_ok_def fs_disk_def file_example_store(1) [unfolded BSIZE_def] BSIZE_def NBUF_def)
  moreover have "calm 0 file_example" using fs_example_calm by (simp add: calm_def file_example_sel)
  moreover have "get32 0 (fs_disk 2) = 0" by (simp add: fs_disk_def get32_def get_at_def BSIZE_def numeral_eq_Suc)
  ultimately show "tx_ok 0 file_example"
    by (simp add: tx_ok_def io_ok_def file_example_sel file_example_view in_trans_def log_limit_def LOGSIZE_def MAXOPBLOCKS_def)
  show "layout_ok file_example"
    using fs_example_layout(1) fs_example_bit_blk by (auto simp: layout_ok_def file_example_sel file_example_view file_example_in_use fs_example_sel)
  show "slots file_example 29 29" by (simp add: slots_def file_example_sel file_example_view log_limit_def LOGSIZE_def MAXOPBLOCKS_def NBUF_def)
qed

lemma file_example_ok: "data_file 0 0 file_example" "fsize file_example 0 = 0" "free_blocks file_example = 36"
proof -
  have sz: "unat (sb_size (sb file_example)) = 100" by (simp add: file_example_sel fs_example_sel)
  have p: "ptr file_example 0 k = 0" for k
    by (simp add: ptr_def indirect_def file_example_sel file_inode_def NDIRECT_def)
  have ib: "IBLOCK (i_inum (inodes file_example ! 0)) (sb file_example) = 32"
    using fs_example_iblock [of 1] by (simp add: file_example_sel file_inode_def)
  have "\<not> log_area fs_example 32" by (simp add: log_area_def fs_example_sel)
  then have "data_block file_example 32"
    unfolding data_block_def sz by (simp add: file_example_in_use fs_example_in_use file_example_view fs_example_bit_blk)
  then have f: "foreign file_example 0 32" by (simp add: foreign_def p)
  have fo: "file_ok file_example 0"
    unfolding file_ok_def p by (simp add: file_example_in_use fs_example_in_use) (simp add: file_example_sel file_inode_def NDIRECT_def)
  show "data_file 0 0 file_example"
    unfolding data_file_def ib using file_example_tx f fo file_example_view(4) file_example_store(2)
    by (simp add: p file_example_view) (simp add: file_example_sel, simp add: file_inode_def)
  show "fsize file_example 0 = 0" by (simp add: fsize_def file_example_sel file_inode_def)
  have "{b. b < 100 \<and> \<not> in_use file_example b} = {64..<100}" by (auto simp: file_example_in_use fs_example_in_use)
  then show "free_blocks file_example = 36" by (simp only: free_blocks_def sz) simp
qed

lemma chunks_example: "chunks 0 0 5 = [(0, 0, 5)]"
  by (simp add: chunks_step chunks_end BSIZE_def Let_def)

theorem writei_contents_witness:
  "\<exists>t. writei 0 Local 0 5 file_example = Ret 5 t \<and> fsize t 0 = 5 \<and> (\<forall>k < 5. fbyte t 0 k = of_nat k)"
proof -
  have h: "0 < outstanding file_example" "unat (0 :: uint) \<le> fsize file_example 0" "unat (0 :: uint) + unat (5 :: uint) \<le> MAXFILE * BSIZE"
    "2 * length (chunks 0 (unat (0 :: uint)) (unat (5 :: uint))) \<le> free_blocks file_example"
    "slots file_example (6 * length (chunks 0 (unat (0 :: uint)) (unat (5 :: uint))) + 1) (6 * length (chunks 0 (unat (0 :: uint)) (unat (5 :: uint))) + 1)"
    using slots_mono [OF file_example_tx(3)] by (simp_all add: file_example_sel file_example_ok chunks_example MAXFILE_def NDIRECT_def BSIZE_def)
  then show ?thesis using writei_contents [OF file_example_ok(1) h] by (auto simp: file_example_ok(2) overwrite_def file_example_sel)
qed

theorem readi_contents_witness: "\<exists>t. readi 0 Local 0 5 file_example = Ret 0 t \<and> kbuf t = of_nat"
proof -
  have h: "unat (0 :: uint) \<le> fsize file_example 0" "unat (0 :: uint) + unat (5 :: uint) < 2 ^ 32" "slots file_example 1 0"
    using slots_mono [OF file_example_tx(3)] by simp_all
  then show ?thesis using readi_contents [OF file_example_ok(1) h] by (auto simp: file_example_ok(2) file_example_sel fun_eq_iff)
qed

theorem readi_writei_witness:
  "\<exists>t u. writei 0 Local 0 5 file_example = Ret 5 t \<and> readi 0 Local 0 5 (t\<lparr>kbuf := (\<lambda>_. 0)\<rparr>) = Ret 5 u \<and> map (kbuf u) [0, 1, 2, 3, 4] = [0, 1, 2, 3, 4]"
proof -
  have h: "0 < outstanding file_example" "unat (0 :: uint) \<le> fsize file_example 0" "unat (0 :: uint) + unat (5 :: uint) \<le> MAXFILE * BSIZE"
    "2 * length (chunks 0 (unat (0 :: uint)) (unat (5 :: uint))) \<le> free_blocks file_example"
    "slots file_example (6 * length (chunks 0 (unat (0 :: uint)) (unat (5 :: uint))) + 2) (6 * length (chunks 0 (unat (0 :: uint)) (unat (5 :: uint))) + 1)"
    using slots_mono [OF file_example_tx(3)] by (simp_all add: file_example_sel file_example_ok chunks_example MAXFILE_def NDIRECT_def BSIZE_def)
  then show ?thesis using readi_writei [where y = "\<lambda>_. 0", OF file_example_ok(1) h] by (fastforce simp: file_example_sel)
qed

end
