(* ===== verification/Dir.thy ===== *)
theory Dir
  imports Inode
begin

unbundle bit_operations_syntax

text \<open>
  Directories and path names (\<^verbatim>\<open>namecmp\<close> to \<^verbatim>\<open>nameiparent\<close> of \<^verbatim>\<open>fs.c\<close>).

  A path is the list of its bytes before the terminating zero. \<open>name\<close> is the array of \<^verbatim>\<open>DIRSIZ\<close> bytes that
  receives a path element; it starts with zeros here, while in the code it is an uninitialised
  local variable.
\<close>

section \<open>Directories\<close>

definition namecmp :: "uchar list \<Rightarrow> uchar list \<Rightarrow> int option" where
  "namecmp s t = strncmp s t DIRSIZ"

text \<open>A directory entry is a 16-bit inode number and 14 bytes of name.\<close>

definition de_inum :: "uchar list \<Rightarrow> ushort" where
  "de_inum de = get16 0 de"

definition de_name :: "uchar list \<Rightarrow> uchar list" where
  "de_name de = drop 2 de"

definition dirent_offsets :: "nat \<Rightarrow> uint \<Rightarrow> uint list" where
  "dirent_offsets first sz = map (\<lambda>k. of_nat (16 * k)) [first..<(unat sz + 15) div 16]"

text \<open>Reading the entry at \<open>ofs\<close> into \<^verbatim>\<open>de\<close>.\<close>

definition read_dirent :: "string \<Rightarrow> nat \<Rightarrow> uint \<Rightarrow> ('e fsst_scheme, uchar list) km" where
  "read_dirent msg dp ofs =
     bnd (readi dp Local ofs 16) (\<lambda>r.
     if r \<noteq> 16 then panic msg else kbuf_bytes 16)"

fun dirlookup_scan :: "nat \<Rightarrow> uchar list \<Rightarrow> uint list \<Rightarrow> ('e fsst_scheme, (nat \<times> uint) option) km" where
  "dirlookup_scan dp name [] = ret None"
| "dirlookup_scan dp name (ofs # rest) =
     bnd (read_dirent ''dirlookup read'' dp ofs) (\<lambda>de.
     if de_inum de = 0 then dirlookup_scan dp name rest
     else if namecmp name (de_name de) = Some 0 then
       bnd (geti dp i_dev) (\<lambda>dev.
       bnd (iget dev (ucast (de_inum de))) (\<lambda>ip.
       ret (Some (ip, ofs))))
     else dirlookup_scan dp name rest)"

definition dirlookup :: "nat \<Rightarrow> uchar list \<Rightarrow> ('e fsst_scheme, (nat \<times> uint) option) km" where
  "dirlookup dp name =
     bnd (gets (\<lambda>s. inodes s ! dp)) (\<lambda>d.
     if i_type d \<noteq> T_DIR then panic ''dirlookup not DIR''
     else dirlookup_scan dp name (dirent_offsets 0 (i_size d)))"

text \<open>The offset of the first empty entry, or the end of the directory.\<close>

fun dirlink_scan :: "nat \<Rightarrow> uint \<Rightarrow> uint list \<Rightarrow> ('e fsst_scheme, uint) km" where
  "dirlink_scan dp end [] = ret end"
| "dirlink_scan dp end (ofs # rest) =
     bnd (read_dirent ''dirlink read'' dp ofs) (\<lambda>de.
     if de_inum de = 0 then ret ofs else dirlink_scan dp end rest)"

definition dirlink :: "nat \<Rightarrow> uchar list \<Rightarrow> uint \<Rightarrow> ('e fsst_scheme, int) km" where
  "dirlink dp name inum =
     bnd (dirlookup dp name) (\<lambda>f. case f of
       Some (ip, _) \<Rightarrow> thn (iput ip) (ret (-1))
     | None \<Rightarrow>
         bnd (geti dp i_size) (\<lambda>sz.
         bnd (dirlink_scan dp (16 * of_nat ((unat sz + 15) div 16)) (dirent_offsets 0 sz)) (\<lambda>ofs.
         bnd (gets (\<lambda>s. strncpy (map (kbuf s) [2..<16]) name (int DIRSIZ))) (\<lambda>nm. case nm of
           None \<Rightarrow> panic ''undefined: strncpy''
         | Some nm \<Rightarrow>
             thn (put_place Local 2 nm) (
             thn (put_place Local 0 (bytes_of_word 2 (ucast (ucast inum :: ushort)))) (
             bnd (writei dp Local ofs 16) (\<lambda>r.
             if r \<noteq> 16 then panic ''dirlink'' else ret 0)))))))"

section \<open>Paths\<close>

abbreviation slash :: uchar where "slash \<equiv> 47"

definition skipelem :: "uchar list \<Rightarrow> uchar list \<Rightarrow> (uchar list \<times> uchar list) option" where
  "skipelem path name =
     (let path = dropWhile (\<lambda>c. c = slash) path in
      if path = [] then None
      else
        let s = takeWhile (\<lambda>c. c \<noteq> slash) path;
            path = dropWhile (\<lambda>c. c \<noteq> slash) path;
            name = (if DIRSIZ \<le> length s then put_at 0 (take DIRSIZ s) name else put_at 0 (s @ [0]) name);
            path = dropWhile (\<lambda>c. c = slash) path in
        Some (path, name))"

lemma skipelem_shorter:
  assumes "skipelem path name = Some (path', name')"
  shows "length path' < length path"
proof -
  let ?p = "dropWhile (\<lambda>c. c = slash) path"
  from assms have ne: "?p \<noteq> []" and p': "path' = dropWhile (\<lambda>c. c = slash) (dropWhile (\<lambda>c. c \<noteq> slash) ?p)"
    by (auto simp: skipelem_def Let_def split: if_splits)
  obtain c q where q: "?p = c # q" using ne by (cases ?p) auto
  have "c \<noteq> slash" using hd_dropWhile [OF ne] q by simp
  then have "path' = dropWhile (\<lambda>c. c = slash) (dropWhile (\<lambda>c. c \<noteq> slash) q)" using p' q by simp
  then have "length path' \<le> length q"
    using length_dropWhile_le [of "\<lambda>c. c = slash" "dropWhile (\<lambda>c. c \<noteq> slash) q"]
      length_dropWhile_le [of "\<lambda>c. c \<noteq> slash" q] by simp
  moreover have "length (c # q) \<le> length path" using length_dropWhile_le [of "\<lambda>c. c = slash" path] q by simp
  ultimately show ?thesis by simp
qed

text \<open>The loop of \<^verbatim>\<open>namex\<close>; the value is the inode and the name array.\<close>

function namex_loop :: "uchar list \<Rightarrow> bool \<Rightarrow> uchar list \<Rightarrow> nat \<Rightarrow> ('e fsst_scheme, nat option \<times> uchar list) km" where
  "namex_loop path par name ip =
     (case skipelem path name of
        None \<Rightarrow>
          if par then thn (iput ip) (ret (None, name)) else ret (Some ip, name)
      | Some (path', name') \<Rightarrow>
          thn (ilock (Some ip)) (
          bnd (geti ip i_type) (\<lambda>ty.
          if ty \<noteq> T_DIR then thn (iunlockput ip) (ret (None, name'))
          else if par \<and> path' = [] then thn (iunlock (Some ip)) (ret (Some ip, name'))
          else
            bnd (dirlookup ip name') (\<lambda>f. case f of
              None \<Rightarrow> thn (iunlockput ip) (ret (None, name'))
            | Some (nxt, _) \<Rightarrow>
                thn (iunlockput ip) (
                namex_loop path' par name' nxt)))))"
  by pat_completeness auto
termination
  by (relation "measure (\<lambda>(path, _). length path)") (auto dest: skipelem_shorter)

declare namex_loop.simps [simp del]

definition namex :: "uchar list \<Rightarrow> bool \<Rightarrow> uchar list \<Rightarrow> ('e fsst_scheme, nat option \<times> uchar list) km" where
  "namex path par name =
     bnd (if path \<noteq> [] \<and> hd path = slash then iget ROOTDEV ROOTINO
          else with_me (\<lambda>me. bnd (getp me cwd) (\<lambda>c. case c of
            Some ip \<Rightarrow> idup ip
          | None \<Rightarrow> panic ''null inode''))) (\<lambda>ip.
     namex_loop path par name ip)"

definition namei :: "uchar list \<Rightarrow> ('e fsst_scheme, nat option) km" where
  "namei path = bnd (namex path False (replicate DIRSIZ 0)) (\<lambda>(ip, _). ret ip)"

definition nameiparent :: "uchar list \<Rightarrow> ('e fsst_scheme, nat option \<times> uchar list) km" where
  "nameiparent path = namex path True (replicate DIRSIZ 0)"

end
