(* ===== verification/File.thy ===== *)
theory File
  imports Dir
begin

unbundle bit_operations_syntax

text \<open>
  Open files (\<^verbatim>\<open>file.c\<close>, \<^verbatim>\<open>file.h\<close>) and \<^verbatim>\<open>pipealloc\<close> of \<^verbatim>\<open>pipe.c\<close>. A file is named by its index in \<^verbatim>\<open>ftable.file\<close>, a
  pipe by its address.
\<close>

section \<open>State\<close>

datatype ftype = FD_NONE | FD_PIPE | FD_INODE

record kfile =
  f_type :: ftype
  f_ref :: int
  f_readable :: bool
  f_writable :: bool
  f_pipe :: uint
  f_ip :: nat
  f_off :: uint

definition NFILE :: nat where
  "NFILE = 100"

text \<open>\<open>first_run\<close> is the static variable \<^verbatim>\<open>first\<close> of \<^verbatim>\<open>forkret\<close>.\<close>

record filest = fsst +
  files :: "kfile list"
  first_run :: bool

definition getf :: "nat \<Rightarrow> ('e filest_scheme, kfile) km" where
  "getf f = gets (\<lambda>s. files s ! f)"

definition upd_file :: "nat \<Rightarrow> (kfile \<Rightarrow> kfile) \<Rightarrow> ('e filest_scheme, unit) km" where
  "upd_file f g = upd (\<lambda>s. s\<lparr>files := (files s)[f := g (files s ! f)]\<rparr>)"

section \<open>The file table\<close>

definition fileinit :: "('e filest_scheme, unit) km" where
  "fileinit = lock_init FtableLock"

definition filealloc :: "('e filest_scheme, nat option) km" where
  "filealloc =
     thn (lock_acquire FtableLock) (
     bnd (gets (\<lambda>s. first_idx (\<lambda>f. f_ref f = 0) (files s))) (\<lambda>r. case r of
       Some f \<Rightarrow>
         thn (upd_file f (\<lambda>x. x\<lparr>f_ref := 1\<rparr>)) (
         thn (lock_release FtableLock) (
         ret (Some f)))
     | None \<Rightarrow> thn (lock_release FtableLock) (ret None)))"

definition filedup :: "nat \<Rightarrow> ('e filest_scheme, nat) km" where
  "filedup f =
     thn (lock_acquire FtableLock) (
     bnd (getf f) (\<lambda>x.
     if f_ref x < 1 then panic ''filedup''
     else
       thn (upd_file f (\<lambda>x. x\<lparr>f_ref := f_ref x + 1\<rparr>)) (
       thn (lock_release FtableLock) (
       ret f))))"

definition fileclose :: "nat \<Rightarrow> ('e filest_scheme, unit) km" where
  "fileclose f =
     thn (lock_acquire FtableLock) (
     bnd (getf f) (\<lambda>x.
     if f_ref x < 1 then panic ''fileclose''
     else
       thn (upd_file f (\<lambda>x. x\<lparr>f_ref := f_ref x - 1\<rparr>)) (
       bnd (getf f) (\<lambda>ff.
       if 0 < f_ref ff then lock_release FtableLock
       else
         thn (upd_file f (\<lambda>x. x\<lparr>f_ref := 0, f_type := FD_NONE\<rparr>)) (
         thn (lock_release FtableLock) (
         case f_type ff of
           FD_PIPE \<Rightarrow> pipeclose (f_pipe ff) (f_writable ff)
         | FD_INODE \<Rightarrow>
             thn begin_op (
             thn (iput (f_ip ff)) (
             end_op))
         | FD_NONE \<Rightarrow> ret ()))))))"

definition filestat :: "nat \<Rightarrow> place \<Rightarrow> ('e filest_scheme, int) km" where
  "filestat f st =
     bnd (getf f) (\<lambda>x.
     if f_type x = FD_INODE then
       thn (ilock (Some (f_ip x))) (
       thn (stati (f_ip x) st) (
       thn (iunlock (Some (f_ip x))) (
       ret 0)))
     else ret (-1))"

definition fileread :: "nat \<Rightarrow> uint \<Rightarrow> int \<Rightarrow> ('e filest_scheme, int) km" where
  "fileread f addr n =
     bnd (getf f) (\<lambda>x.
     if \<not> f_readable x then ret (-1)
     else case f_type x of
       FD_PIPE \<Rightarrow> piperead (f_pipe x) addr n
     | FD_INODE \<Rightarrow>
         thn (ilock (Some (f_ip x))) (
         bnd (getf f) (\<lambda>y.
         bnd (readi (f_ip x) (User addr) (f_off y) (word_of_int n)) (\<lambda>r.
         thn (if 0 < sint r then upd_file f (\<lambda>z. z\<lparr>f_off := f_off z + r\<rparr>) else ret ()) (
         thn (iunlock (Some (f_ip x))) (
         ret (sint r))))))
     | FD_NONE \<Rightarrow> panic ''fileread'')"

text \<open>A round of the loop of \<^verbatim>\<open>filewrite\<close> writes at most this many bytes.\<close>

definition write_max :: nat where
  "write_max = nat ((MAXOPBLOCKS - 1 - 1 - 2) div 2) * 512"

lemma write_max_pos: "0 < write_max"
  by (simp add: write_max_def MAXOPBLOCKS_def)

function filewrite_loop :: "nat \<Rightarrow> nat \<Rightarrow> uint \<Rightarrow> nat \<Rightarrow> nat \<Rightarrow> ('e filest_scheme, nat) km" where
  "filewrite_loop f ip addr i n =
     (if i < n then
        let n1 = min (n - i) write_max in
        thn begin_op (
        thn (ilock (Some ip)) (
        bnd (getf f) (\<lambda>y.
        bnd (writei ip (User (addr + of_nat i)) (f_off y) (of_nat n1)) (\<lambda>r.
        thn (if 0 < sint r then upd_file f (\<lambda>z. z\<lparr>f_off := f_off z + r\<rparr>) else ret ()) (
        thn (iunlock (Some ip)) (
        thn end_op (
        if sint r < 0 then ret i
        else if r \<noteq> of_nat n1 then panic ''short filewrite''
        else filewrite_loop f ip addr (i + n1) n)))))))
      else ret i)"
  by pat_completeness auto
termination
  by (relation "measure (\<lambda>(f, ip, addr, i, n). n - i)") (use write_max_pos in auto)

declare filewrite_loop.simps [simp del]

definition filewrite :: "nat \<Rightarrow> uint \<Rightarrow> int \<Rightarrow> ('e filest_scheme, int) km" where
  "filewrite f addr n =
     bnd (getf f) (\<lambda>x.
     if \<not> f_writable x then ret (-1)
     else case f_type x of
       FD_PIPE \<Rightarrow> pipewrite (f_pipe x) addr n
     | FD_INODE \<Rightarrow> bnd (filewrite_loop f (f_ip x) addr 0 (nat n)) (\<lambda>i. ret (if int i = n then n else -1))
     | FD_NONE \<Rightarrow> panic ''filewrite'')"

section \<open>Making a pipe\<close>

definition pipe_bad :: "nat option \<Rightarrow> nat option \<Rightarrow> ('e filest_scheme, (nat \<times> nat) option) km" where
  "pipe_bad f0 f1 =
     thn (case f0 of Some f \<Rightarrow> fileclose f | None \<Rightarrow> ret ()) (
     thn (case f1 of Some f \<Rightarrow> fileclose f | None \<Rightarrow> ret ()) (
     ret None))"

definition pipealloc :: "('e filest_scheme, (nat \<times> nat) option) km" where
  "pipealloc =
     bnd filealloc (\<lambda>r0. case r0 of None \<Rightarrow> pipe_bad None None
     | Some f0 \<Rightarrow> bnd filealloc (\<lambda>r1. case r1 of None \<Rightarrow> pipe_bad (Some f0) None
       | Some f1 \<Rightarrow>
           bnd kalloc (\<lambda>p.
           if p = 0 then pipe_bad (Some f0) (Some f1)
           else
             thn (upd_pipe p (\<lambda>q. q\<lparr>readopen := True, writeopen := True, nwrite := 0, nread := 0\<rparr>)) (
             thn (lock_init (plock p)) (
             thn (upd_file f0 (\<lambda>x. x\<lparr>f_type := FD_PIPE, f_readable := True, f_writable := False, f_pipe := p\<rparr>)) (
             thn (upd_file f1 (\<lambda>x. x\<lparr>f_type := FD_PIPE, f_readable := False, f_writable := True, f_pipe := p\<rparr>)) (
             ret (Some (f0, f1)))))))))"

end
