(* ===== verification/Sysfile.thy ===== *)
theory Sysfile
  imports File
begin

unbundle bit_operations_syntax

text \<open>
  The system calls on files (\<^verbatim>\<open>sysfile.c\<close>), except \<^verbatim>\<open>sys_exec\<close>. The result is what the code returns, -1 as a word.
\<close>

section \<open>Descriptors\<close>

definition argfd :: "nat \<Rightarrow> ('e filest_scheme, (nat \<times> nat) option) km" where
  "argfd n =
     bnd (argint n) (\<lambda>r. case r of None \<Rightarrow> ret None
     | Some fd \<Rightarrow>
         if sint fd < 0 \<or> int NOFILE \<le> sint fd then ret None
         else with_me (\<lambda>me. bnd (getp me (\<lambda>p. ofile p ! unat fd)) (\<lambda>f. case f of
           None \<Rightarrow> ret None
         | Some f \<Rightarrow> ret (Some (unat fd, f)))))"

definition set_ofile :: "nat \<Rightarrow> nat option \<Rightarrow> ('e filest_scheme, unit) km" where
  "set_ofile fd f = with_me (\<lambda>me. upd_proc me (\<lambda>p. p\<lparr>ofile := (ofile p)[fd := f]\<rparr>))"

definition fdalloc :: "nat \<Rightarrow> ('e filest_scheme, nat option) km" where
  "fdalloc f = with_me (\<lambda>me.
     bnd (getp me (\<lambda>p. first_idx (\<lambda>x. x = None) (take NOFILE (ofile p)))) (\<lambda>r. case r of
       Some fd \<Rightarrow> thn (set_ofile fd (Some f)) (ret (Some fd))
     | None \<Rightarrow> ret None))"

definition sys_dup :: "('e filest_scheme, uint) km" where
  "sys_dup =
     bnd (argfd 0) (\<lambda>r. case r of None \<Rightarrow> ret (-1)
     | Some (_, f) \<Rightarrow> bnd (fdalloc f) (\<lambda>q. case q of None \<Rightarrow> ret (-1)
       | Some fd \<Rightarrow> thn (filedup f) (ret (of_nat fd))))"

text \<open>The arguments of \<^verbatim>\<open>read\<close> and \<^verbatim>\<open>write\<close>: the file, the count and the buffer.\<close>

definition rw_args :: "('e filest_scheme, (nat \<times> uint \<times> uint) option) km" where
  "rw_args =
     bnd (argfd 0) (\<lambda>r. case r of None \<Rightarrow> ret None
     | Some (_, f) \<Rightarrow> bnd (argint 2) (\<lambda>c. case c of None \<Rightarrow> ret None
       | Some n \<Rightarrow> bnd (argptr 1 n) (\<lambda>a. case a of None \<Rightarrow> ret None
         | Some p \<Rightarrow> ret (Some (f, p, n)))))"

definition sys_read :: "('e filest_scheme, uint) km" where
  "sys_read =
     bnd rw_args (\<lambda>r. case r of None \<Rightarrow> ret (-1)
     | Some (f, p, n) \<Rightarrow> bnd (fileread f p (sint n)) (\<lambda>v. ret (of_int32 v)))"

definition sys_write :: "('e filest_scheme, uint) km" where
  "sys_write =
     bnd rw_args (\<lambda>r. case r of None \<Rightarrow> ret (-1)
     | Some (f, p, n) \<Rightarrow> bnd (filewrite f p (sint n)) (\<lambda>v. ret (of_int32 v)))"

definition sys_close :: "('e filest_scheme, uint) km" where
  "sys_close =
     bnd (argfd 0) (\<lambda>r. case r of None \<Rightarrow> ret (-1)
     | Some (fd, f) \<Rightarrow> thn (set_ofile fd None) (thn (fileclose f) (ret 0)))"

definition sys_fstat :: "('e filest_scheme, uint) km" where
  "sys_fstat =
     bnd (argfd 0) (\<lambda>r. case r of None \<Rightarrow> ret (-1)
     | Some (_, f) \<Rightarrow> bnd (argptr 1 20) (\<lambda>a. case a of None \<Rightarrow> ret (-1)
       | Some st \<Rightarrow> bnd (filestat f (User st)) (\<lambda>v. ret (of_int32 v))))"

section \<open>Links\<close>

definition end_ret :: "uint \<Rightarrow> ('e filest_scheme, uint) km" where
  "end_ret v = thn end_op (ret v)"

definition link_bad :: "nat \<Rightarrow> ('e filest_scheme, uint) km" where
  "link_bad ip =
     thn (ilock (Some ip)) (
     thn (upd_inode ip (\<lambda>i. i\<lparr>i_nlink := i_nlink i - 1\<rparr>)) (
     thn (iupdate ip) (
     thn (iunlockput ip) (
     end_ret (-1)))))"

definition sys_link_body :: "uchar list \<Rightarrow> uchar list \<Rightarrow> ('e filest_scheme, uint) km" where
  "sys_link_body old new =
     thn begin_op (
     bnd (namei old) (\<lambda>r. case r of None \<Rightarrow> end_ret (-1)
     | Some ip \<Rightarrow>
         thn (ilock (Some ip)) (
         bnd (geti ip i_type) (\<lambda>ty.
         if ty = T_DIR then thn (iunlockput ip) (end_ret (-1))
         else
           thn (upd_inode ip (\<lambda>i. i\<lparr>i_nlink := i_nlink i + 1\<rparr>)) (
           thn (iupdate ip) (
           thn (iunlock (Some ip)) (
           bnd (nameiparent new) (\<lambda>(d, name). case d of None \<Rightarrow> link_bad ip
           | Some dp \<Rightarrow>
               thn (ilock (Some dp)) (
               bnd (geti dp i_dev) (\<lambda>ddev.
               bnd (gets (\<lambda>s. inodes s ! ip)) (\<lambda>i.
               bnd (if ddev \<noteq> i_dev i then ret (-1) else dirlink dp name (i_inum i)) (\<lambda>v.
               if v < 0 then thn (iunlockput dp) (link_bad ip)
               else
                 thn (iunlockput dp) (
                 thn (iput ip) (
                 end_ret 0))))))))))))))"

definition sys_link :: "('e filest_scheme, uint) km" where
  "sys_link =
     bnd (argstr 0) (\<lambda>a. case a of None \<Rightarrow> ret (-1)
     | Some old \<Rightarrow> bnd (argstr 1) (\<lambda>b. case b of None \<Rightarrow> ret (-1)
       | Some new \<Rightarrow> sys_link_body old new))"

fun isdirempty_scan :: "nat \<Rightarrow> uint list \<Rightarrow> ('e filest_scheme, bool) km" where
  "isdirempty_scan dp [] = ret True"
| "isdirempty_scan dp (ofs # rest) =
     bnd (read_dirent ''isdirempty: readi'' dp ofs) (\<lambda>de.
     if de_inum de \<noteq> 0 then ret False else isdirempty_scan dp rest)"

definition isdirempty :: "nat \<Rightarrow> ('e filest_scheme, bool) km" where
  "isdirempty dp = bnd (geti dp i_size) (\<lambda>sz. isdirempty_scan dp (dirent_offsets 2 sz))"

definition unlink_bad :: "nat \<Rightarrow> ('e filest_scheme, uint) km" where
  "unlink_bad dp = thn (iunlockput dp) (end_ret (-1))"

definition sys_unlink_body :: "uchar list \<Rightarrow> ('e filest_scheme, uint) km" where
  "sys_unlink_body path =
     thn begin_op (
     bnd (nameiparent path) (\<lambda>(d, name). case d of None \<Rightarrow> end_ret (-1)
     | Some dp \<Rightarrow>
         thn (ilock (Some dp)) (
         if namecmp name [46, 0] = Some 0 \<or> namecmp name [46, 46, 0] = Some 0 then unlink_bad dp
         else
           bnd (dirlookup dp name) (\<lambda>f. case f of None \<Rightarrow> unlink_bad dp
           | Some (ip, ofs) \<Rightarrow>
               thn (ilock (Some ip)) (
               bnd (gets (\<lambda>s. inodes s ! ip)) (\<lambda>i.
               if sint (i_nlink i) < 1 then panic ''unlink: nlink < 1''
               else
                 bnd (if i_type i = T_DIR then isdirempty ip else ret True) (\<lambda>e.
                 if \<not> e then thn (iunlockput ip) (unlink_bad dp)
                 else
                   thn (put_place Local 0 (replicate 16 0)) (
                   bnd (writei dp Local ofs 16) (\<lambda>r.
                   if r \<noteq> 16 then panic ''unlink: writei''
                   else
                     thn (if i_type i = T_DIR then
                            thn (upd_inode dp (\<lambda>x. x\<lparr>i_nlink := i_nlink x - 1\<rparr>)) (iupdate dp)
                          else ret ()) (
                     thn (iunlockput dp) (
                     thn (upd_inode ip (\<lambda>x. x\<lparr>i_nlink := i_nlink x - 1\<rparr>)) (
                     thn (iupdate ip) (
                     thn (iunlockput ip) (
                     end_ret 0))))))))))))))"

definition sys_unlink :: "('e filest_scheme, uint) km" where
  "sys_unlink =
     bnd (argstr 0) (\<lambda>a. case a of None \<Rightarrow> ret (-1) | Some path \<Rightarrow> sys_unlink_body path)"

section \<open>Creating and opening\<close>

definition create_new :: "nat \<Rightarrow> uchar list \<Rightarrow> ushort \<Rightarrow> ushort \<Rightarrow> ushort \<Rightarrow> ('e filest_scheme, nat option) km" where
  "create_new dp name ty major minor =
     bnd (geti dp i_dev) (\<lambda>dev.
     bnd (ialloc dev ty) (\<lambda>ip.
     thn (ilock (Some ip)) (
     thn (upd_inode ip (\<lambda>i. i\<lparr>i_major := major, i_minor := minor, i_nlink := 1\<rparr>)) (
     thn (iupdate ip) (
     bnd (geti ip i_inum) (\<lambda>inum.
     thn (if ty = T_DIR then
            thn (upd_inode dp (\<lambda>x. x\<lparr>i_nlink := i_nlink x + 1\<rparr>)) (
            thn (iupdate dp) (
            bnd (dirlink ip [46, 0] inum) (\<lambda>a.
            if a < 0 then panic ''create dots''
            else
              bnd (geti dp i_inum) (\<lambda>dinum.
              bnd (dirlink ip [46, 46, 0] dinum) (\<lambda>b.
              if b < 0 then panic ''create dots'' else ret ())))))
          else ret ()) (
     bnd (dirlink dp name inum) (\<lambda>v.
     if v < 0 then panic ''create: dirlink''
     else
       thn (iunlockput dp) (
       ret (Some ip))))))))))"

definition create :: "uchar list \<Rightarrow> ushort \<Rightarrow> ushort \<Rightarrow> ushort \<Rightarrow> ('e filest_scheme, nat option) km" where
  "create path ty major minor =
     bnd (nameiparent path) (\<lambda>(d, name). case d of None \<Rightarrow> ret None
     | Some dp \<Rightarrow>
         thn (ilock (Some dp)) (
         bnd (dirlookup dp name) (\<lambda>f. case f of
           Some (ip, _) \<Rightarrow>
             thn (iunlockput dp) (
             thn (ilock (Some ip)) (
             bnd (geti ip i_type) (\<lambda>t.
             if ty = T_FILE \<and> t = T_FILE then ret (Some ip)
             else thn (iunlockput ip) (ret None))))
         | None \<Rightarrow> create_new dp name ty major minor)))"

abbreviation O_WRONLY :: uint where "O_WRONLY \<equiv> 1"
abbreviation O_RDWR :: uint where "O_RDWR \<equiv> 2"
abbreviation O_CREATE :: uint where "O_CREATE \<equiv> 0x200"

text \<open>\<open>open_ip\<close> finds or creates the inode and returns it locked.\<close>

definition open_ip :: "uchar list \<Rightarrow> uint \<Rightarrow> ('e filest_scheme, nat option) km" where
  "open_ip path omode =
     (if omode AND O_CREATE \<noteq> 0 then create path T_FILE 0 0
      else
        bnd (namei path) (\<lambda>r. case r of None \<Rightarrow> ret None
        | Some ip \<Rightarrow>
            thn (ilock (Some ip)) (
            bnd (geti ip i_type) (\<lambda>ty.
            if ty = T_DIR \<and> omode \<noteq> 0 then thn (iunlockput ip) (ret None)
            else ret (Some ip)))))"

definition sys_open_body :: "uchar list \<Rightarrow> uint \<Rightarrow> ('e filest_scheme, uint) km" where
  "sys_open_body path omode =
     thn begin_op (
     bnd (open_ip path omode) (\<lambda>r. case r of None \<Rightarrow> end_ret (-1)
     | Some ip \<Rightarrow>
         bnd filealloc (\<lambda>fo. case fo of None \<Rightarrow> thn (iunlockput ip) (end_ret (-1))
         | Some f \<Rightarrow>
             bnd (fdalloc f) (\<lambda>fdo. case fdo of
               None \<Rightarrow> thn (fileclose f) (thn (iunlockput ip) (end_ret (-1)))
             | Some fd \<Rightarrow>
                 thn (iunlock (Some ip)) (
                 thn end_op (
                 thn (upd_file f (\<lambda>x. x\<lparr>f_type := FD_INODE, f_ip := ip, f_off := 0,
                   f_readable := (omode AND O_WRONLY = 0),
                   f_writable := (omode AND O_WRONLY \<noteq> 0 \<or> omode AND O_RDWR \<noteq> 0)\<rparr>)) (
                 ret (of_nat fd))))))))"

definition sys_open :: "('e filest_scheme, uint) km" where
  "sys_open =
     bnd (argstr 0) (\<lambda>a. case a of None \<Rightarrow> ret (-1)
     | Some path \<Rightarrow> bnd (argint 1) (\<lambda>m. case m of None \<Rightarrow> ret (-1)
       | Some omode \<Rightarrow> sys_open_body path omode))"

definition made :: "nat option \<Rightarrow> ('e filest_scheme, uint) km" where
  "made r = (case r of None \<Rightarrow> end_ret (-1) | Some ip \<Rightarrow> thn (iunlockput ip) (end_ret 0))"

definition sys_mkdir :: "('e filest_scheme, uint) km" where
  "sys_mkdir =
     thn begin_op (
     bnd (argstr 0) (\<lambda>a. case a of None \<Rightarrow> end_ret (-1)
     | Some path \<Rightarrow> bnd (create path T_DIR 0 0) made))"

definition sys_mknod :: "('e filest_scheme, uint) km" where
  "sys_mknod =
     thn begin_op (
     bnd (argstr 0) (\<lambda>a. case a of None \<Rightarrow> end_ret (-1)
     | Some path \<Rightarrow> bnd (argint 1) (\<lambda>b. case b of None \<Rightarrow> end_ret (-1)
       | Some major \<Rightarrow> bnd (argint 2) (\<lambda>c. case c of None \<Rightarrow> end_ret (-1)
         | Some minor \<Rightarrow> bnd (create path T_DEV (ucast major) (ucast minor)) made))))"

section \<open>Directories, pipes, statistics\<close>

definition sys_chdir :: "('e filest_scheme, uint) km" where
  "sys_chdir = with_me (\<lambda>me.
     thn begin_op (
     bnd (argstr 0) (\<lambda>a. case a of None \<Rightarrow> end_ret (-1)
     | Some path \<Rightarrow> bnd (namei path) (\<lambda>r. case r of None \<Rightarrow> end_ret (-1)
       | Some ip \<Rightarrow>
           thn (ilock (Some ip)) (
           bnd (geti ip i_type) (\<lambda>ty.
           if ty \<noteq> T_DIR then thn (iunlockput ip) (end_ret (-1))
           else
             thn (iunlock (Some ip)) (
             bnd (getp me cwd) (\<lambda>c. case c of None \<Rightarrow> panic ''null inode''
             | Some old \<Rightarrow>
                 thn (iput old) (
                 thn end_op (
                 thn (upd_proc me (\<lambda>p. p\<lparr>cwd := Some ip\<rparr>)) (
                 ret 0)))))))))))"

definition pipe_close_both :: "nat \<Rightarrow> nat \<Rightarrow> ('e filest_scheme, uint) km" where
  "pipe_close_both rfl wfl = thn (fileclose rfl) (thn (fileclose wfl) (ret (-1)))"

definition sys_pipe :: "('e filest_scheme, uint) km" where
  "sys_pipe =
     bnd (argptr 0 8) (\<lambda>a. case a of None \<Rightarrow> ret (-1)
     | Some fd \<Rightarrow> bnd pipealloc (\<lambda>r. case r of None \<Rightarrow> ret (-1)
       | Some (rfl, wfl) \<Rightarrow>
           bnd (fdalloc rfl) (\<lambda>a. case a of None \<Rightarrow> pipe_close_both rfl wfl
           | Some fd0 \<Rightarrow> bnd (fdalloc wfl) (\<lambda>b. case b of
               None \<Rightarrow> thn (set_ofile fd0 None) (pipe_close_both rfl wfl)
             | Some fd1 \<Rightarrow>
                 thn (usts fd (bytes_of_word 4 (of_nat fd0))) (
                 thn (usts (fd + 4) (bytes_of_word 4 (of_nat fd1))) (
                 ret 0))))))"

definition sys_getfsinfo :: "('e filest_scheme, uint) km" where
  "sys_getfsinfo =
     bnd (argptr 0 16) (\<lambda>a. case a of None \<Rightarrow> ret (-1)
     | Some fsi \<Rightarrow> thn (get_fs_stats ROOTDEV (User fsi)) (ret 0))"

end
