(* ===== verification/Exec.thy ===== *)
theory Exec
  imports Sysfile
begin

unbundle bit_operations_syntax

text \<open>
  \<^verbatim>\<open>exec\<close> (\<^verbatim>\<open>exec.c\<close>, \<^verbatim>\<open>elf.h\<close>), \<^verbatim>\<open>loaduvm\<close> of \<^verbatim>\<open>vm.c\<close> and \<^verbatim>\<open>sys_exec\<close> of \<^verbatim>\<open>sysfile.c\<close>.

  The two local structures of \<^verbatim>\<open>exec\<close> are read into the local buffer and kept as their bytes. An
  argument string is the list of its bytes before the terminating zero. \<open>w0\<close> is what a read through
  a null page-table pointer gives (see \<^verbatim>\<open>uva2ka\<close> in \<^verbatim>\<open>Vm\<close>).
\<close>

definition MAXARG :: nat where
  "MAXARG = 32"

section \<open>Loading segments\<close>

fun loaduvm_loop :: "uint \<Rightarrow> uint \<Rightarrow> nat \<Rightarrow> uint \<Rightarrow> uint \<Rightarrow> nat list \<Rightarrow> ('e fsst_scheme, int) km" where
  "loaduvm_loop d addr ip ofs sz [] = ret 0"
| "loaduvm_loop d addr ip ofs sz (k # ks) =
     (let i = of_nat (4096 * k) in
      bnd (walkpgdir d (addr + i) False) (\<lambda>pte.
      if pte = 0 then panic ''loaduvm: address should exist''
      else
        bnd (ld32 pte) (\<lambda>e.
        let n = (if sz - i < PGSIZE then sz - i else PGSIZE) in
        bnd (readi ip (KAddr (P2V (PTE_ADDR e))) (ofs + i) n) (\<lambda>r.
        if r \<noteq> n then ret (-1) else loaduvm_loop d addr ip ofs sz ks))))"

definition loaduvm :: "uint \<Rightarrow> uint \<Rightarrow> nat \<Rightarrow> uint \<Rightarrow> uint \<Rightarrow> ('e fsst_scheme, int) km" where
  "loaduvm d addr ip ofs sz =
     (if addr mod PGSIZE \<noteq> 0 then panic ''loaduvm: addr must be page aligned''
      else loaduvm_loop d addr ip ofs sz [0..<(unat sz + 4095) div 4096])"

text \<open>\<^verbatim>\<open>struct elfhdr\<close> is 52 bytes and \<^verbatim>\<open>struct proghdr\<close> 32.\<close>

definition read_struct :: "nat \<Rightarrow> uint \<Rightarrow> nat \<Rightarrow> ('e fsst_scheme, uchar list option) km" where
  "read_struct ip ofs n =
     bnd (readi ip Local ofs (of_nat n)) (\<lambda>r.
     if r \<noteq> of_nat n then ret None else bnd (kbuf_bytes n) (\<lambda>bs. ret (Some bs)))"

definition ELF_MAGIC :: uint where
  "ELF_MAGIC = 0x464C457F"

text \<open>The loop over the program headers; the value is the size of the image, none for \<^verbatim>\<open>goto bad\<close>.\<close>

fun exec_load :: "nat \<Rightarrow> uint \<Rightarrow> uint \<Rightarrow> nat \<Rightarrow> uint \<Rightarrow> ('e fsst_scheme, uint option) km" where
  "exec_load ip d ofs 0 sz = ret (Some sz)"
| "exec_load ip d ofs (Suc k) sz =
     bnd (read_struct ip ofs 32) (\<lambda>r. case r of None \<Rightarrow> ret None
     | Some ph \<Rightarrow>
         let ty = get32 0 ph; poff = get32 4 ph; vaddr = get32 8 ph; filesz = get32 16 ph; memsz = get32 20 ph in
         if ty \<noteq> 1 then exec_load ip d (ofs + 32) k sz
         else if memsz < filesz then ret None
         else if vaddr + memsz < vaddr then ret None
         else
           bnd (allocuvm d sz (vaddr + memsz)) (\<lambda>sz1.
           if sz1 = 0 then ret None
           else if vaddr mod PGSIZE \<noteq> 0 then ret None
           else
             bnd (loaduvm d vaddr ip poff filesz) (\<lambda>v.
             if v < 0 then ret None else exec_load ip d (ofs + 32) k sz1)))"

section \<open>The argument strings\<close>

fun push_args :: "uint \<Rightarrow> uint \<Rightarrow> uchar list list \<Rightarrow> nat \<Rightarrow> uint \<Rightarrow> uint list \<Rightarrow> ('e phys_scheme, (uint \<times> uint list) option) km" where
  "push_args w0 d [] argc sp us = ret (Some (sp, us))"
| "push_args w0 d (a # args) argc sp us =
     (if MAXARG \<le> argc then ret None
      else
        let sp = (sp - (of_nat (length a) + 1)) AND NOT 3 in
        bnd (copyout w0 d sp (a @ [0])) (\<lambda>v.
        if v < 0 then ret None else push_args w0 d args (Suc argc) sp (us @ [sp])))"

definition exec_bad :: "uint \<Rightarrow> nat option \<Rightarrow> ('e filest_scheme, int) km" where
  "exec_bad d p =
     thn (if d \<noteq> 0 then freevm d else ret ()) (
     thn (case p of Some ip \<Rightarrow> thn (iunlockput ip) end_op | None \<Rightarrow> ret ()) (
     ret (-1)))"

section \<open>exec\<close>

text \<open>The second half: the stack, the arguments and the new image.\<close>

definition exec_commit :: "uint \<Rightarrow> uint \<Rightarrow> uchar list \<Rightarrow> uint \<Rightarrow> uint \<Rightarrow> ('e filest_scheme, int) km" where
  "exec_commit d sz path pc sp = with_me (\<lambda>me.
     bnd (getp me (\<lambda>p. safestrcpy (pname p) (rev (takeWhile (\<lambda>c. c \<noteq> slash) (rev path)) @ [0]) 16)) (\<lambda>nm. case nm of
       None \<Rightarrow> panic ''undefined: safestrcpy''
     | Some nm \<Rightarrow>
         thn (upd_proc me (\<lambda>p. p\<lparr>pname := nm\<rparr>)) (
         bnd (getp me pgdir) (\<lambda>oldpgdir.
         thn (upd_proc me (\<lambda>p. p\<lparr>pgdir := d, psz := sz\<rparr>)) (
         thn (tf_set me tf_eip pc) (
         thn (tf_set me tf_esp sp) (
         thn (switchuvm (Some me)) (
         thn (freevm oldpgdir) (
         ret 0)))))))))"

definition exec_stack :: "uint \<Rightarrow> uint \<Rightarrow> uchar list \<Rightarrow> uchar list list \<Rightarrow> uint \<Rightarrow> uint \<Rightarrow> ('e filest_scheme, int) km" where
  "exec_stack d sz0 path argv pc w0 =
     bnd (allocuvm d (PGROUNDUP sz0) (PGROUNDUP sz0 + 2 * PGSIZE)) (\<lambda>sz.
     if sz = 0 then exec_bad d None
     else
       thn (clearpteu d (sz - 2 * PGSIZE)) (
       bnd (push_args w0 d argv 0 sz []) (\<lambda>r. case r of None \<Rightarrow> exec_bad d None
       | Some (sp, us) \<Rightarrow>
           let argc = of_nat (length argv);
               ustack = [0xffffffff, argc, sp - (argc + 1) * 4] @ us @ [0];
               sp1 = sp - (3 + argc + 1) * 4 in
           bnd (copyout w0 d sp1 (concat (map (bytes_of_word 4) ustack))) (\<lambda>v.
           if v < 0 then exec_bad d None
           else exec_commit d sz path pc sp1))))"

definition exec :: "uint \<Rightarrow> uchar list \<Rightarrow> uchar list list \<Rightarrow> ('e filest_scheme, int) km" where
  "exec w0 path argv =
     thn begin_op (
     bnd (namei path) (\<lambda>r. case r of
       None \<Rightarrow> thn end_op (thn (kprintf (bytes_of ''exec: fail\<newline>'') [] []) (ret (-1)))
     | Some ip \<Rightarrow>
         thn (ilock (Some ip)) (
         bnd (read_struct ip 0 52) (\<lambda>e. case e of None \<Rightarrow> exec_bad 0 (Some ip)
         | Some elf \<Rightarrow>
             if get32 0 elf \<noteq> ELF_MAGIC then exec_bad 0 (Some ip)
             else
               bnd setupkvm (\<lambda>d.
               if d = 0 then exec_bad 0 (Some ip)
               else
                 bnd (exec_load ip d (get32 28 elf) (unat (get16 44 elf)) 0) (\<lambda>l. case l of
                   None \<Rightarrow> exec_bad d (Some ip)
                 | Some sz \<Rightarrow>
                     thn (iunlockput ip) (
                     thn end_op (
                     exec_stack d sz path argv (get32 24 elf) w0))))))))"

text \<open>\<^verbatim>\<open>sys_exec\<close> fetches at most \<^verbatim>\<open>MAXARG\<close> pointers, the null pointer included; \<open>k\<close> counts those left.\<close>

fun exec_args :: "nat \<Rightarrow> uint \<Rightarrow> uchar list list \<Rightarrow> ('e ptab_scheme, uchar list list option) km" where
  "exec_args 0 uargv acc = ret None"
| "exec_args (Suc k) uargv acc =
     bnd (fetchint uargv) (\<lambda>r. case r of None \<Rightarrow> ret None
     | Some uarg \<Rightarrow>
         if uarg = 0 then ret (Some acc)
         else bnd (fetchstr uarg) (\<lambda>q. case q of None \<Rightarrow> ret None
           | Some a \<Rightarrow> exec_args k (uargv + 4) (acc @ [a])))"

definition sys_exec :: "uint \<Rightarrow> ('e filest_scheme, uint) km" where
  "sys_exec w0 =
     bnd (argstr 0) (\<lambda>a. case a of None \<Rightarrow> ret (-1)
     | Some path \<Rightarrow> bnd (argint 1) (\<lambda>b. case b of None \<Rightarrow> ret (-1)
       | Some uargv \<Rightarrow> bnd (exec_args MAXARG uargv []) (\<lambda>r. case r of None \<Rightarrow> ret (-1)
         | Some argv \<Rightarrow> bnd (exec w0 path argv) (\<lambda>v. ret (of_int32 v)))))"

end
