(* ===== verification/Process.thy ===== *)
theory Process
  imports Exec
begin

unbundle bit_operations_syntax

text \<open>
  Creating and ending processes (\<^verbatim>\<open>userinit\<close>, \<^verbatim>\<open>fork\<close>, \<^verbatim>\<open>exit\<close>, \<^verbatim>\<open>forkret\<close> of \<^verbatim>\<open>proc.c\<close>), the system call table
  (\<^verbatim>\<open>syscall.c\<close>) and the trap handler (\<^verbatim>\<open>trap.c\<close>).

  \<open>symbols\<close> has what the linker decides: the address of each slot of the process table, of the variable
  \<^verbatim>\<open>ticks\<close>, and of the two routines a new process starts in.
\<close>

record symbols =
  proc_addr :: "nat \<Rightarrow> uint"
  ticks_addr :: uint
  trapret_addr :: uint
  forkret_addr :: uint

section \<open>New processes\<close>

definition set_name :: "nat \<Rightarrow> uchar list \<Rightarrow> ('e ptab_scheme, unit) km" where
  "set_name i nm =
     bnd (getp i (\<lambda>p. safestrcpy (pname p) nm 16)) (\<lambda>r. case r of
       None \<Rightarrow> panic ''undefined: safestrcpy''
     | Some nm \<Rightarrow> upd_proc i (\<lambda>p. p\<lparr>pname := nm\<rparr>))"

text \<open>\<open>initcode\<close> is the program the linker embeds.\<close>

definition userinit :: "symbols \<Rightarrow> uchar list \<Rightarrow> ('e filest_scheme, unit) km" where
  "userinit sy initcode =
     bnd (allocproc (trapret_addr sy) (forkret_addr sy)) (\<lambda>r. case r of None \<Rightarrow> panic ''null process''
     | Some p \<Rightarrow>
         thn (upd (\<lambda>s. s\<lparr>initproc := Some p\<rparr>)) (
         bnd setupkvm (\<lambda>d.
         thn (upd_proc p (\<lambda>x. x\<lparr>pgdir := d\<rparr>)) (
         if d = 0 then panic ''userinit: out of memory?''
         else
           thn (inituvm d initcode) (
           thn (upd_proc p (\<lambda>x. x\<lparr>psz := PGSIZE\<rparr>)) (
           bnd (getp p tf) (\<lambda>t.
           thn (memset_words t 0 76) (
           thn (tf_set p tf_cs 0x1B) (
           thn (tf_set p tf_ds 0x23) (
           thn (tf_set p tf_es 0x23) (
           thn (tf_set p tf_ss 0x23) (
           thn (tf_set p tf_eflags 0x200) (
           thn (tf_set p tf_esp PGSIZE) (
           thn (tf_set p tf_eip 0) (
           thn (set_name p (bytes_of ''initcode'')) (
           bnd (namei [slash]) (\<lambda>c.
           thn (upd_proc p (\<lambda>x. x\<lparr>cwd := c\<rparr>)) (
           make_runnable p))))))))))))))))))"

definition fork :: "symbols \<Rightarrow> ('e filest_scheme, uint) km" where
  "fork sy = with_me (\<lambda>me.
     bnd (allocproc (trapret_addr sy) (forkret_addr sy)) (\<lambda>r. case r of None \<Rightarrow> ret (-1)
     | Some np \<Rightarrow>
         bnd (getp me pgdir) (\<lambda>d.
         bnd (getp me psz) (\<lambda>sz.
         bnd (copyuvm d sz) (\<lambda>d1.
         thn (upd_proc np (\<lambda>x. x\<lparr>pgdir := d1\<rparr>)) (
         if d1 = 0 then
           bnd (getp np kstack) (\<lambda>ks.
           thn (kfree ks) (
           thn (upd_proc np (\<lambda>x. x\<lparr>kstack := 0\<rparr>)) (
           thn (upd_proc np (\<lambda>x. x\<lparr>state := UNUSED\<rparr>)) (
           ret (-1)))))
         else
           thn (upd_proc np (\<lambda>x. x\<lparr>psz := sz\<rparr>)) (
           thn (upd_proc np (\<lambda>x. x\<lparr>parent := Some me\<rparr>)) (
           bnd (getp np tf) (\<lambda>ntf.
           bnd (getp me tf) (\<lambda>ctf.
           thn (memmove_words ntf ctf 76) (
           thn (tf_set np tf_eax 0) (
           thn (for_each [0..<NOFILE] (\<lambda>i.
             bnd (getp me (\<lambda>p. ofile p ! i)) (\<lambda>f. case f of
               None \<Rightarrow> ret ()
             | Some f \<Rightarrow> thn (filedup f) (upd_proc np (\<lambda>x. x\<lparr>ofile := (ofile x)[i := Some f]\<rparr>))))) (
           bnd (getp me cwd) (\<lambda>c. case c of None \<Rightarrow> panic ''null inode''
           | Some ip \<Rightarrow>
               thn (idup ip) (
               thn (upd_proc np (\<lambda>x. x\<lparr>cwd := Some ip\<rparr>)) (
               bnd (getp me pname) (\<lambda>nm.
               thn (set_name np nm) (
               bnd (getp np pid) (\<lambda>n.
               thn (make_runnable np) (
               ret n))))))))))))))))))))"

definition exit :: "symbols \<Rightarrow> ('e filest_scheme, unit) km" where
  "exit sy = with_me (\<lambda>me.
     bnd (gets initproc) (\<lambda>ip.
     if ip = Some me then panic ''init exiting''
     else
       thn (for_each [0..<NOFILE] (\<lambda>fd.
         bnd (getp me (\<lambda>p. ofile p ! fd)) (\<lambda>f. case f of
           None \<Rightarrow> ret ()
         | Some f \<Rightarrow> thn (fileclose f) (upd_proc me (\<lambda>p. p\<lparr>ofile := (ofile p)[fd := None]\<rparr>))))) (
       thn begin_op (
       bnd (getp me cwd) (\<lambda>c. case c of None \<Rightarrow> panic ''null inode''
       | Some c \<Rightarrow>
           thn (iput c) (
           thn end_op (
           thn (upd_proc me (\<lambda>p. p\<lparr>cwd := None\<rparr>)) (
           exit_tail (proc_addr sy) me))))))))"

definition forkret :: "('e filest_scheme, unit) km" where
  "forkret =
     thn (lock_release PtableLock) (
     bnd (gets first_run) (\<lambda>f.
     if f then
       thn (upd (\<lambda>s. s\<lparr>first_run := False\<rparr>)) (
       thn (iinit ROOTDEV) (
       initlog ROOTDEV))
     else ret ()))"

section \<open>System calls\<close>

definition sys_fork :: "symbols \<Rightarrow> ('e filest_scheme, uint) km" where
  "sys_fork sy = fork sy"

definition sys_exit :: "symbols \<Rightarrow> ('e filest_scheme, uint) km" where
  "sys_exit sy = thn (exit sy) (ret 0)"

definition syscalls :: "symbols \<Rightarrow> uint \<Rightarrow> nat \<Rightarrow> ('e filest_scheme, uint) km option" where
  "syscalls sy w0 num =
     (if num = 1 then Some (sys_fork sy)
      else if num = 2 then Some (sys_exit sy)
      else if num = 3 then Some (sys_wait (proc_addr sy))
      else if num = 4 then Some sys_pipe
      else if num = 5 then Some sys_read
      else if num = 6 then Some sys_kill
      else if num = 7 then Some (sys_exec w0)
      else if num = 8 then Some sys_fstat
      else if num = 9 then Some sys_chdir
      else if num = 10 then Some sys_dup
      else if num = 11 then Some sys_getpid
      else if num = 12 then Some sys_sbrk
      else if num = 13 then Some (sys_sleep (ticks_addr sy))
      else if num = 14 then Some sys_uptime
      else if num = 15 then Some sys_open
      else if num = 16 then Some sys_write
      else if num = 17 then Some sys_mknod
      else if num = 18 then Some sys_unlink
      else if num = 19 then Some sys_link
      else if num = 20 then Some sys_mkdir
      else if num = 21 then Some sys_close
      else if num = 22 then Some sys_getmemsize
      else if num = 23 then Some sys_getvpages
      else if num = 24 then Some sys_getptentries
      else if num = 25 then Some sys_setpriority
      else if num = 26 then Some sys_shutdown
      else if num = 27 then Some sys_getfsinfo
      else None)"

definition syscall :: "symbols \<Rightarrow> uint \<Rightarrow> ('e filest_scheme, unit) km" where
  "syscall sy w0 = with_me (\<lambda>me.
     bnd (tf_get me tf_eax) (\<lambda>num.
     case (if 0 < sint num \<and> sint num < 28 then syscalls sy w0 (nat (sint num)) else None) of
       Some f \<Rightarrow> bnd f (\<lambda>v. tf_set me tf_eax v)
     | None \<Rightarrow>
         bnd (gets (\<lambda>s. procs s ! me)) (\<lambda>p.
         thn (kprintf (bytes_of ''%d %s: unknown sys call %d\<newline>'') [pname p] [pid p, 1, num]) (
         tf_set me tf_eax (-1)))))"

section \<open>Traps\<close>

definition T_IRQ0 :: uint where
  "T_IRQ0 = 32"

definition T_SYSCALL :: uint where
  "T_SYSCALL = 64"

definition tick :: "symbols \<Rightarrow> ('e ptab_scheme, unit) km" where
  "tick sy =
     thn (lock_acquire TicksLock) (
     thn (upd (\<lambda>s. s\<lparr>ticks := ticks s + 1\<rparr>)) (
     thn (wakeup (ticks_addr sy)) (
     lock_release TicksLock)))"

text \<open>Leave if the process was killed and the trap came from user space; \<open>cs\<close> is the saved code segment.\<close>

definition exit_if_killed :: "symbols \<Rightarrow> uint \<Rightarrow> ('e filest_scheme, unit) km" where
  "exit_if_killed sy cs =
     bnd myproc (\<lambda>p. case p of None \<Rightarrow> ret ()
     | Some me \<Rightarrow> bnd (getp me killed) (\<lambda>k. if k \<and> cs AND 3 = 3 then exit sy else ret ()))"

text \<open>
  \<open>t\<close> is the address of the trap frame, \<open>cpu\<close> the number of the CPU and \<open>cr2\<close> the fault address register. A process
  that yields on a clock tick continues, once switched back, at \<open>trap_resumed\<close>.
\<close>

definition trap_irq :: "symbols \<Rightarrow> nat \<Rightarrow> uint \<Rightarrow> uint \<Rightarrow> ('e filest_scheme, unit) km" where
  "trap_irq sy cpu cr2 t =
     bnd (ld32 (t + 4 * of_nat tf_trapno)) (\<lambda>no.
     bnd (ld32 (t + 4 * 13)) (\<lambda>er.
     bnd (ld32 (t + 4 * of_nat tf_eip)) (\<lambda>eip.
     bnd (ld32 (t + 4 * of_nat tf_cs)) (\<lambda>csw.
     bnd (gets input_addr) (\<lambda>ch.
     let cs = csw AND 0xFFFF in
     if no = T_IRQ0 then (if cpu = 0 then tick sy else ret ())
     else if no = T_IRQ0 + 14 then ret ()
     else if no = T_IRQ0 + 15 then ret ()
     else if no = T_IRQ0 + 1 then kbdintr ch
     else if no = T_IRQ0 + 4 then uartintr ch
     else if no = T_IRQ0 + 7 \<or> no = T_IRQ0 + 31 then
       kprintf (bytes_of ''cpu%d: spurious interrupt at %x:%x\<newline>'') [] [of_nat cpu, cs, eip]
     else
       bnd myproc (\<lambda>p. case (if cs AND 3 = 0 then None else p) of
         None \<Rightarrow>
           thn (kprintf (bytes_of ''unexpected trap %d from cpu %d eip %x (cr2=0x%x)\<newline>'') [] [no, of_nat cpu, eip, cr2]) (
           panic ''trap'')
       | Some me \<Rightarrow>
           bnd (gets (\<lambda>s. procs s ! me)) (\<lambda>q.
           thn (kprintf (bytes_of ''pid %d %s: trap %d err %d on cpu %d eip 0x%x addr 0x%x--kill proc\<newline>'') [pname q]
                  [pid q, 1, no, er, of_nat cpu, eip, cr2]) (
           upd_proc me (\<lambda>x. x\<lparr>killed := True\<rparr>)))))))))"

definition trap_resumed :: "symbols \<Rightarrow> uint \<Rightarrow> ('e filest_scheme, unit) km" where
  "trap_resumed sy cs = thn yield_resumed (exit_if_killed sy cs)"

definition trap :: "symbols \<Rightarrow> uint \<Rightarrow> nat \<Rightarrow> uint \<Rightarrow> uint \<Rightarrow> ('e filest_scheme, unit) km" where
  "trap sy w0 cpu cr2 t =
     bnd (ld32 (t + 4 * of_nat tf_trapno)) (\<lambda>no.
     bnd (ld32 (t + 4 * of_nat tf_cs)) (\<lambda>cs.
     if no = T_SYSCALL then
       with_me (\<lambda>me.
       bnd (getp me killed) (\<lambda>k.
       thn (if k then exit sy else ret ()) (
       thn (upd_proc me (\<lambda>p. p\<lparr>tf := t\<rparr>)) (
       thn (syscall sy w0) (
       bnd (getp me killed) (\<lambda>k. if k then exit sy else ret ()))))))
     else
       thn (trap_irq sy cpu cr2 t) (
       thn (exit_if_killed sy cs) (
       bnd myproc (\<lambda>p.
       thn (case p of None \<Rightarrow> ret ()
            | Some me \<Rightarrow> bnd (getp me state) (\<lambda>st. if st = RUNNING \<and> no = T_IRQ0 then yield else ret ())) (
       exit_if_killed sy cs))))))"

end
