(* ===== verification/Sh.thy ===== *)
theory Sh
  imports CString
begin

text \<open>
  The shell (\<^verbatim>\<open>sh.c\<close>): the parser, the termination of the strings in the command line, and what the commands do.

  The command line is the list of the bytes before its terminating zero; a pointer into it is an index, and \<^verbatim>\<open>es\<close> is its length,
  where the zero is. The codes of the characters: \<^verbatim>\<open>&\<close> 38, \<^verbatim>\<open>(\<close> 40, \<^verbatim>\<open>)\<close> 41, \<^verbatim>\<open>+\<close> 43, \<^verbatim>\<open>;\<close> 59, \<^verbatim>\<open><\<close> 60, \<^verbatim>\<open>>\<close> 62, \<^verbatim>\<open>a\<close> 97, \<^verbatim>\<open>|\<close> 124.
  \<^verbatim>\<open>panic\<close> prints its message on descriptor 2 and exits: the parser then has the result \<open>Exited\<close> with what was printed. Memory for
  the nodes is taken to be available.
\<close>

section \<open>Commands\<close>

text \<open>
  An argument or a file name is where it begins and where it ends. \<open>REDIR\<close> also has the mode for \<^verbatim>\<open>open\<close> and the descriptor.
\<close>

datatype cmd =
    EXEC "(nat \<times> nat) list"
  | REDIR cmd nat nat int int
  | PIPE cmd cmd
  | LIST cmd cmd
  | BACK cmd

definition MAXARGS :: nat where
  "MAXARGS = 10"

definition O_RDONLY :: int where
  "O_RDONLY = 0"

definition O_WRCREATE :: int where
  "O_WRCREATE = 0x201"

datatype 'a parse = Parsed 'a | Exited "uchar list"

definition message :: "string \<Rightarrow> uchar list" where
  "message s = map of_char s @ [10]"

section \<open>Tokens\<close>

definition whitespace :: "uchar list" where
  "whitespace = [32, 9, 13, 10, 11, 0]"

definition symbols :: "uchar list" where
  "symbols = [60, 124, 62, 38, 59, 40, 41, 0]"

definition found :: "uchar list \<Rightarrow> uchar \<Rightarrow> bool" where
  "found toks c = (case strchr toks c of Some (Some _) \<Rightarrow> True | _ \<Rightarrow> False)"

definition byte_at :: "uchar list \<Rightarrow> nat \<Rightarrow> uchar" where
  "byte_at t s = (if s < length t then t ! s else 0)"

text \<open>\<^verbatim>\<open>while(s < es && p(*s)) s++;\<close>\<close>

definition scan :: "(uchar \<Rightarrow> bool) \<Rightarrow> uchar list \<Rightarrow> nat \<Rightarrow> nat" where
  "scan p t s = s + length (takeWhile p (drop s t))"

definition word_char :: "uchar \<Rightarrow> bool" where
  "word_char c \<longleftrightarrow> \<not> found whitespace c \<and> \<not> found symbols c"

text \<open>The token, where it begins and ends, and where the next one begins.\<close>

definition gettoken :: "uchar list \<Rightarrow> nat \<Rightarrow> uchar \<times> nat \<times> nat \<times> nat" where
  "gettoken t s =
     (let q = scan (found whitespace) t s;
          c = byte_at t q;
          (tok, eq) =
            (if c = 0 then (c, q)
             else if c \<in> {124, 40, 41, 59, 38, 60} then (c, q + 1)
             else if c = 62 then (if byte_at t (q + 1) = 62 then (43, q + 2) else (c, q + 1))
             else (97, scan word_char t q))
      in (tok, q, eq, scan (found whitespace) t eq))"

definition peek :: "uchar list \<Rightarrow> nat \<Rightarrow> uchar list \<Rightarrow> bool \<times> nat" where
  "peek t s toks =
     (let s = scan (found whitespace) t s in (byte_at t s \<noteq> 0 \<and> found toks (byte_at t s), s))"

lemma scan_ge: "s \<le> scan p t s"
  by (simp add: scan_def)

lemma peek_lt: "peek t s toks = (True, s') \<Longrightarrow> s' < length t \<and> s \<le> s'"
  using scan_ge [of s "found whitespace" t] by (auto simp: peek_def Let_def byte_at_def split: if_splits)

lemma gettoken_ge: "gettoken t s = (tok, q, eq, s') \<Longrightarrow> s \<le> q \<and> q \<le> eq \<and> eq \<le> s'"
  using scan_ge [of s "found whitespace" t] scan_ge [of eq "found whitespace" t]
    scan_ge [of "scan (found whitespace) t s" word_char t]
  by (auto simp: gettoken_def Let_def split: if_splits)

lemma found_set: "found toks c \<Longrightarrow> c \<in> set toks \<and> c \<noteq> 0"
  by (induction toks) (auto simp: found_def split: if_splits)

lemma found_simps [simp]:
  "found whitespace c \<longleftrightarrow> c \<in> {32, 9, 13, 10, 11}"
  "found symbols c \<longleftrightarrow> c \<in> {60, 124, 62, 38, 59, 40, 41}"
  by (auto simp: found_def whitespace_def symbols_def)

lemma scan_stop: "\<not> p (byte_at t s) \<Longrightarrow> scan p t s = s"
  by (cases "s < length t") (simp_all add: scan_def byte_at_def Cons_nth_drop_Suc [symmetric])

lemma gettoken_symbol:
  assumes "peek t s toks = (True, s')" and "gettoken t s' = (tok, q, eq, s'')" and "set toks \<subseteq> {124, 40, 41, 59, 38, 60, 62, 0}"
  shows "s' < s''"
proof -
  have c: "byte_at t s' \<in> {124, 40, 41, 59, 38, 60, 62}"
    using assms(1,3) found_set [of toks "byte_at t s'"] by (auto simp: peek_def Let_def)
  then have "scan (found whitespace) t s' = s'" by (intro scan_stop) auto
  with assms(2) c show ?thesis
    using scan_ge [of eq "found whitespace" t] by (auto simp: gettoken_def Let_def split: if_splits)
qed

section \<open>Redirections\<close>

type_synonym redir = "nat \<times> nat \<times> int \<times> int"

definition redircmd :: "cmd \<Rightarrow> redir \<Rightarrow> cmd" where
  "redircmd c = (\<lambda>(file, efile, mode, fd). REDIR c file efile mode fd)"

text \<open>
  \<^verbatim>\<open>parseexec\<close> goes on filling in the node of the command after redirections have been wrapped around it. The model collects the
  redirections, in order, and wraps them when the node is complete.
\<close>

definition wrap :: "redir list \<Rightarrow> cmd \<Rightarrow> cmd" where
  "wrap rs c = foldl redircmd c rs"

lemma redir_step:
  assumes "(True, y) = peek t s [60, 62, 0]" and "(tok, q, e, z) = gettoken t y" and "(tok', q', e', z') = gettoken t z"
  shows "length t - z' < length t - s"
proof -
  have p: "peek t s [60, 62, 0] = (True, y)" and g: "gettoken t y = (tok, q, e, z)" "gettoken t z = (tok', q', e', z')"
    using assms by simp_all
  show ?thesis using peek_lt [OF p] gettoken_symbol [OF p g(1)] gettoken_ge [OF g(2)] by auto
qed

lemma back_step:
  assumes "(True, y) = peek t s [38, 0]" and "(tok, q, e, z) = gettoken t y"
  shows "length t - z < length t - s"
proof -
  have p: "peek t s [38, 0] = (True, y)" and g: "gettoken t y = (tok, q, e, z)" using assms by simp_all
  show ?thesis using peek_lt [OF p] gettoken_symbol [OF p g] by auto
qed

function parseredirs :: "uchar list \<Rightarrow> nat \<Rightarrow> redir list \<Rightarrow> (redir list \<times> nat) parse" where
  "parseredirs t s rs =
     (case peek t s [60, 62, 0] of
        (True, s) \<Rightarrow>
          (case gettoken t s of (tok, _, _, s) \<Rightarrow>
           case gettoken t s of (tok', q, eq, s) \<Rightarrow>
             if tok' \<noteq> 97 then Exited (message ''missing file for redirection'')
             else if tok = 60 then parseredirs t s (rs @ [(q, eq, O_RDONLY, 0)])
             else if tok = 62 then parseredirs t s (rs @ [(q, eq, O_WRCREATE, 1)])
             else if tok = 43 then parseredirs t s (rs @ [(q, eq, O_WRCREATE, 1)])
             else parseredirs t s rs)
      | (False, s) \<Rightarrow> Parsed (rs, s))"
  by pat_completeness auto
termination
  by (relation "measure (\<lambda>(t, s, rs). length t - s)") (auto dest: redir_step)

declare parseredirs.simps [simp del]

lemma parseredirs_stop: "peek t s [60, 62, 0] = (False, y) \<Longrightarrow> parseredirs t s rs = Parsed (rs, y)"
  by (subst parseredirs.simps) simp

lemma parseredirs_step:
  assumes "peek t s [60, 62, 0] = (True, y)" and "gettoken t y = (tok, q, e, z)" and "gettoken t z = (tok', q', e', z')"
  shows "parseredirs t s rs =
    (if tok' \<noteq> 97 then Exited (message ''missing file for redirection'')
     else parseredirs t z' (rs @ (if tok = 60 then [(q', e', O_RDONLY, 0)]
       else if tok = 62 \<or> tok = 43 then [(q', e', O_WRCREATE, 1)] else [])))"
  using assms by (subst parseredirs.simps) simp

lemma peek_ge: "peek t s toks = (b, y) \<Longrightarrow> s \<le> y"
  using scan_ge [of s "found whitespace" t] by (auto simp: peek_def Let_def)

lemma parseredirs_ge: "parseredirs t s rs = Parsed (rs', s') \<Longrightarrow> s \<le> s'"
proof (induction "length t - s" arbitrary: s rs rule: less_induct)
  case less
  obtain b y where p: "peek t s [60, 62, 0] = (b, y)" by fastforce
  show ?case
  proof (cases b)
    case True
    obtain tok q e z where g: "gettoken t y = (tok, q, e, z)" by (cases "gettoken t y")
    obtain tok' q' e' z' where h: "gettoken t z = (tok', q', e', z')" by (cases "gettoken t z")
    have p': "peek t s [60, 62, 0] = (True, y)" using p True by simp
    have l: "length t - z' < length t - s" using redir_step [of y t s tok q e z tok' q' e' z'] p True g h by simp
    have "z' \<le> s'"
      using less(1) [OF l] less(2) parseredirs_step [OF p' g h, of rs] by (auto split: if_splits)
    then show ?thesis using peek_ge [OF p] gettoken_ge [OF g] gettoken_ge [OF h] by simp
  next
    case False
    then show ?thesis using less(2) p peek_ge [OF p] by (simp add: parseredirs_stop)
  qed
qed

section \<open>Arguments\<close>

function parseargs :: "uchar list \<Rightarrow> nat \<Rightarrow> (nat \<times> nat) list \<Rightarrow> redir list \<Rightarrow> ((nat \<times> nat) list \<times> redir list \<times> nat) parse" where
  "parseargs t s args rs =
     (case peek t s [124, 41, 38, 59, 0] of
        (True, s) \<Rightarrow> Parsed (args, rs, s)
      | (False, s) \<Rightarrow>
          (case gettoken t s of (tok, q, eq, s) \<Rightarrow>
             if tok = 0 then Parsed (args, rs, s)
             else if tok \<noteq> 97 then Exited (message ''syntax'')
             else if MAXARGS \<le> Suc (length args) then Exited (message ''too many args'')
             else
               (case parseredirs t s rs of
                  Exited e \<Rightarrow> Exited e
                | Parsed (rs, s) \<Rightarrow> parseargs t s (args @ [(q, eq)]) rs)))"
  by pat_completeness auto
termination
  by (relation "measure (\<lambda>(t, s, args, rs). MAXARGS - length args)") auto

declare parseargs.simps [simp del]

section \<open>The grammar\<close>

function backs :: "uchar list \<Rightarrow> nat \<Rightarrow> cmd \<Rightarrow> cmd \<times> nat" where
  "backs t s c =
     (case peek t s [38, 0] of
        (True, s) \<Rightarrow> (case gettoken t s of (_, _, _, s) \<Rightarrow> backs t s (BACK c))
      | (False, s) \<Rightarrow> (c, s))"
  by pat_completeness auto
termination
  by (relation "measure (\<lambda>(t, s, c). length t - s)") (auto dest: back_step)

declare backs.simps [simp del]

definition andthen :: "'a parse option \<Rightarrow> ('a \<Rightarrow> 'b parse option) \<Rightarrow> 'b parse option" where
  "andthen m f = (case m of None \<Rightarrow> None | Some (Exited e) \<Rightarrow> Some (Exited e) | Some (Parsed x) \<Rightarrow> f x)"

text \<open>
  The functions of the parser call each other; the first argument bounds the depth of the calls, and \<open>None\<close> is the result when it
  is used up.
\<close>

fun parseline :: "nat \<Rightarrow> uchar list \<Rightarrow> nat \<Rightarrow> (cmd \<times> nat) parse option"
  and parsepipe :: "nat \<Rightarrow> uchar list \<Rightarrow> nat \<Rightarrow> (cmd \<times> nat) parse option"
  and parseexec :: "nat \<Rightarrow> uchar list \<Rightarrow> nat \<Rightarrow> (cmd \<times> nat) parse option"
  and parseblock :: "nat \<Rightarrow> uchar list \<Rightarrow> nat \<Rightarrow> (cmd \<times> nat) parse option"
where
  "parseline 0 t s = None"
| "parseline (Suc n) t s =
     andthen (parsepipe n t s) (\<lambda>(c, s).
     case backs t s c of (c, s) \<Rightarrow>
     case peek t s [59, 0] of
       (True, s) \<Rightarrow>
         (case gettoken t s of (_, _, _, s) \<Rightarrow>
          andthen (parseline n t s) (\<lambda>(r, s). Some (Parsed (LIST c r, s))))
     | (False, s) \<Rightarrow> Some (Parsed (c, s)))"
| "parsepipe 0 t s = None"
| "parsepipe (Suc n) t s =
     andthen (parseexec n t s) (\<lambda>(c, s).
     case peek t s [124, 0] of
       (True, s) \<Rightarrow>
         (case gettoken t s of (_, _, _, s) \<Rightarrow>
          andthen (parsepipe n t s) (\<lambda>(r, s). Some (Parsed (PIPE c r, s))))
     | (False, s) \<Rightarrow> Some (Parsed (c, s)))"
| "parseexec 0 t s = None"
| "parseexec (Suc n) t s =
     (case peek t s [40, 0] of
        (True, s) \<Rightarrow> parseblock n t s
      | (False, s) \<Rightarrow>
          (case parseredirs t s [] of
             Exited e \<Rightarrow> Some (Exited e)
           | Parsed (rs, s) \<Rightarrow>
               (case parseargs t s [] rs of
                  Exited e \<Rightarrow> Some (Exited e)
                | Parsed (args, rs, s) \<Rightarrow> Some (Parsed (wrap rs (EXEC args), s)))))"
| "parseblock 0 t s = None"
| "parseblock (Suc n) t s =
     (case peek t s [40, 0] of
        (False, s) \<Rightarrow> Some (Exited (message ''parseblock''))
      | (True, s) \<Rightarrow>
          (case gettoken t s of (_, _, _, s) \<Rightarrow>
           andthen (parseline n t s) (\<lambda>(c, s).
           case peek t s [41, 0] of
             (False, s) \<Rightarrow> Some (Exited (message ''syntax - missing )''))
           | (True, s) \<Rightarrow>
               (case gettoken t s of (_, _, _, s) \<Rightarrow>
                case parseredirs t s [] of
                  Exited e \<Rightarrow> Some (Exited e)
                | Parsed (rs, s) \<Rightarrow> Some (Parsed (wrap rs c, s))))))"

text \<open>The strings of the command are terminated in the command line; its last byte is followed by a zero already.\<close>

primrec nulterminate :: "cmd \<Rightarrow> uchar list \<Rightarrow> uchar list" where
  "nulterminate (EXEC args) t = fold (\<lambda>(q, eq) t. t[eq := 0]) args t"
| "nulterminate (REDIR c file efile mode fd) t = (nulterminate c t)[efile := 0]"
| "nulterminate (PIPE l r) t = nulterminate r (nulterminate l t)"
| "nulterminate (LIST l r) t = nulterminate r (nulterminate l t)"
| "nulterminate (BACK c) t = nulterminate c t"

text \<open>The depth \<open>n\<close> is enough when it is at least four times the length of the line and four.\<close>

definition parsecmd :: "nat \<Rightarrow> uchar list \<Rightarrow> (cmd \<times> uchar list) parse option" where
  "parsecmd n t =
     andthen (parseline n t 0) (\<lambda>(c, s).
     case peek t s [0] of (_, s) \<Rightarrow>
       if s \<noteq> length t then Some (Exited (map of_char ''leftovers: '' @ drop s t @ [10] @ message ''syntax''))
       else Some (Parsed (c, nulterminate c t)))"

section \<open>Running commands\<close>

text \<open>
  What a process of the shell does, as the tree of the system calls it makes; where the shell looks at the result of a call, the rest is
  a function of the result (for \<^verbatim>\<open>pipe\<close>, of the result and the two descriptors). \<open>SExec\<close> has what happens when \<^verbatim>\<open>exec\<close> fails.
\<close>

datatype prog =
    SExit
  | SExec "uchar list" "uchar list list" prog
  | SOpen "uchar list" int "int \<Rightarrow> prog"
  | SClose int prog
  | SDup int "int \<Rightarrow> prog"
  | SPipe "int \<Rightarrow> int \<Rightarrow> int \<Rightarrow> prog"
  | SFork "int \<Rightarrow> prog"
  | SWait prog
  | SChdir "uchar list" "int \<Rightarrow> prog"
  | SPrint "uchar list" prog

text \<open>\<open>panic\<close> and \<open>fork1\<close> of the shell, and the string at \<open>q\<close>.\<close>

definition sh_panic :: "string \<Rightarrow> prog" where
  "sh_panic s = SPrint (message s) SExit"

definition fork1 :: "(int \<Rightarrow> prog) \<Rightarrow> prog" where
  "fork1 k = SFork (\<lambda>pid. if pid = -1 then sh_panic ''fork'' else k pid)"

definition str_at :: "uchar list \<Rightarrow> nat \<Rightarrow> uchar list" where
  "str_at t q = cstr (drop q t)"

definition failed :: "string \<Rightarrow> uchar list \<Rightarrow> uchar list" where
  "failed call f = map of_char call @ [32] @ f @ [32] @ message ''failed''"

primrec runcmd :: "uchar list \<Rightarrow> cmd \<Rightarrow> prog" where
  "runcmd t (EXEC args) =
     (case args of
        [] \<Rightarrow> SExit
      | (q, eq) # _ \<Rightarrow>
          SExec (str_at t q) (map (\<lambda>(q, eq). str_at t q) args) (
          SPrint (failed ''exec'' (str_at t q)) SExit))"
| "runcmd t (REDIR c file efile mode fd) =
     SClose fd (
     SOpen (str_at t file) mode (\<lambda>r.
     if r < 0 then SPrint (failed ''open'' (str_at t file)) SExit
     else runcmd t c))"
| "runcmd t (LIST l r) = fork1 (\<lambda>pid. if pid = 0 then runcmd t l else SWait (runcmd t r))"
| "runcmd t (PIPE l r) =
     SPipe (\<lambda>res p0 p1.
     if res < 0 then sh_panic ''pipe''
     else
       fork1 (\<lambda>pid.
       if pid = 0 then SClose 1 (SDup p1 (\<lambda>_. SClose p0 (SClose p1 (runcmd t l))))
       else
         fork1 (\<lambda>pid.
         if pid = 0 then SClose 0 (SDup p0 (\<lambda>_. SClose p0 (SClose p1 (runcmd t r))))
         else SClose p0 (SClose p1 (SWait (SWait SExit))))))"
| "runcmd t (BACK c) = fork1 (\<lambda>pid. if pid = 0 then runcmd t c else SExit)"

section \<open>The main loop\<close>

text \<open>\<open>inp\<close> is what the reads of \<^verbatim>\<open>gets\<close> return from now on, up to the end of the file; the buffer has 100 bytes.\<close>

definition getcmd :: "uchar list \<Rightarrow> uchar list option \<times> uchar list" where
  "getcmd inp = (case ugets inp 100 of (buf, rest) \<Rightarrow> (if buf ! 0 = 0 then None else Some (cstr buf), rest))"

lemma gets_loop_rest: "length (snd (gets_loop k inp)) \<le> length inp"
  by (induction k inp rule: gets_loop.induct) (auto split: prod.splits)

lemma gets_loop_consumes: "0 < k \<Longrightarrow> length (snd (gets_loop k (c # cs))) \<le> length cs"
  using gets_loop_rest [of "k - 1" cs] by (cases k) (auto split: prod.splits)

lemma getcmd_rest: "getcmd inp = (Some buf, rest) \<Longrightarrow> length rest < length inp"
proof (cases inp)
  case (Cons c cs)
  assume "getcmd inp = (Some buf, rest)"
  then have "rest = snd (gets_loop 99 (c # cs))"
    by (auto simp: getcmd_def ugets_def Cons split: prod.splits if_splits)
  then show ?thesis using gets_loop_consumes [of 99 c cs] Cons by simp
qed (auto simp: getcmd_def ugets_def numeral_eq_Suc)

text \<open>What the child does with a line: it parses and runs it.\<close>

definition run_line :: "uchar list \<Rightarrow> prog" where
  "run_line buf =
     (case parsecmd (4 * length buf + 4) buf of
        Some (Parsed (c, t)) \<Rightarrow> runcmd t c
      | Some (Exited msg) \<Rightarrow> SPrint msg SExit
      | None \<Rightarrow> SExit)"

function main_loop :: "uchar list \<Rightarrow> prog" where
  "main_loop inp =
     SPrint [36, 32] (
     case getcmd inp of
       (None, _) \<Rightarrow> SExit
     | (Some buf, rest) \<Rightarrow>
         if take 3 buf = [99, 100, 32] then
           let dir = drop 3 (butlast buf) in
           SChdir dir (\<lambda>r.
           if r < 0 then SPrint (map of_char ''cannot cd '' @ dir @ [10]) (main_loop rest)
           else main_loop rest)
         else
           fork1 (\<lambda>pid.
           if pid = 0 then run_line buf
           else SWait (main_loop rest)))"
  by pat_completeness auto
termination
  by (relation "measure length") (auto dest: getcmd_rest [OF sym])

declare main_loop.simps [simp del]

end
