(* ===== verification/ShProps.thy ===== *)
theory ShProps
  imports Sh
begin

text \<open>
  The parser of the shell always ends; it reads back every command tree from a line that spells it out; and what \<^verbatim>\<open>runcmd\<close> does
  with pipes leaves every program with its proper standard input and output and nothing else open.
\<close>

section \<open>The parser ends\<close>

lemma andthen_simps [simp]:
  "andthen None f = None" "andthen (Some (Exited e)) f = Some (Exited e)" "andthen (Some (Parsed x)) f = f x"
  by (simp_all add: andthen_def)

lemma andthen_Parsed: "andthen m f = Some (Parsed y) \<longleftrightarrow> (\<exists>x. m = Some (Parsed x) \<and> f x = Some (Parsed y))"
  by (auto simp: andthen_def split: option.splits parse.splits)

lemma andthen_not_None: "andthen m f \<noteq> None \<longleftrightarrow> m \<noteq> None \<and> (\<forall>x. m = Some (Parsed x) \<longrightarrow> f x \<noteq> None)"
  by (auto simp: andthen_def split: option.splits parse.splits)

lemma backs_stop: "peek t s [38, 0] = (False, y) \<Longrightarrow> backs t s c = (c, y)"
  by (subst backs.simps) simp

lemma backs_step: "peek t s [38, 0] = (True, y) \<Longrightarrow> gettoken t y = (tok, q, e, z) \<Longrightarrow> backs t s c = backs t z (BACK c)"
  by (subst backs.simps) simp

lemma backs_ge: "backs t s c = (c', s') \<Longrightarrow> s \<le> s'"
proof (induction "length t - s" arbitrary: s c rule: less_induct)
  case less
  obtain b y where p: "peek t s [38, 0] = (b, y)" by fastforce
  obtain tok q e z where g: "gettoken t y = (tok, q, e, z)" by (cases "gettoken t y")
  show ?case
  proof (cases b)
    case True
    then have "z \<le> s'" using less back_step [of y t s tok q e z] p g backs_step [of t s y tok q e z c] by simp
    then show ?thesis using peek_ge [OF p] gettoken_ge [OF g] by simp
  next
    case False
    then show ?thesis using less(2) p peek_ge [OF p] by (simp add: backs_stop)
  qed
qed

lemma parseargs_stop: "peek t s [124, 41, 38, 59, 0] = (True, y) \<Longrightarrow> parseargs t s args rs = Parsed (args, rs, y)"
  by (subst parseargs.simps) simp

lemma parseargs_step:
  assumes "peek t s [124, 41, 38, 59, 0] = (False, y)" and "gettoken t y = (tok, q, e, z)"
  shows "parseargs t s args rs =
    (if tok = 0 then Parsed (args, rs, z)
     else if tok \<noteq> 97 then Exited (message ''syntax'')
     else if MAXARGS \<le> Suc (length args) then Exited (message ''too many args'')
     else (case parseredirs t z rs of
        Exited e \<Rightarrow> Exited e
      | Parsed (rs, s) \<Rightarrow> parseargs t s (args @ [(q, e)]) rs))"
  using assms by (subst parseargs.simps) simp

lemma parseargs_ge: "parseargs t s args rs = Parsed (args', rs', s') \<Longrightarrow> s \<le> s'"
proof (induction "MAXARGS - length args" arbitrary: s args rs rule: less_induct)
  case less
  obtain b y where p: "peek t s [124, 41, 38, 59, 0] = (b, y)" by fastforce
  obtain tok q e z where g: "gettoken t y = (tok, q, e, z)" by (cases "gettoken t y")
  have "y \<le> s'"
  proof (cases b)
    case True
    then show ?thesis using less(2) p by (simp add: parseargs_stop)
  next
    case False
    then have p': "peek t s [124, 41, 38, 59, 0] = (False, y)" using p by simp
    show ?thesis
      using less(2) less(1) [of "args @ [(q, e)]"] parseredirs_ge [of t z rs] gettoken_ge [OF g]
      unfolding parseargs_step [OF p' g] by (fastforce split: if_splits parse.splits prod.splits)
  qed
  then show ?case using peek_ge [OF p] by simp
qed

text \<open>The four functions with the results of the tokens named.\<close>

lemma parseline_run:
  assumes "backs t s1 c1 = (c2, s2)" "peek t s2 [59, 0] = (b, y)" "gettoken t y = (tok, q, e, z)" "parsepipe n t s = Some (Parsed (c1, s1))"
  shows "parseline (Suc n) t s = (if b then andthen (parseline n t z) (\<lambda>(r, s). Some (Parsed (LIST c2 r, s))) else Some (Parsed (c2, y)))"
  using assms by (simp split: bool.splits)

lemma parsepipe_run:
  assumes "peek t s1 [124, 0] = (b, y)" "gettoken t y = (tok, q, e, z)" "parseexec n t s = Some (Parsed (c1, s1))"
  shows "parsepipe (Suc n) t s = (if b then andthen (parsepipe n t z) (\<lambda>(r, s). Some (Parsed (PIPE c1 r, s))) else Some (Parsed (c1, y)))"
  using assms by (simp split: bool.splits)

definition plain :: "uchar list \<Rightarrow> nat \<Rightarrow> (cmd \<times> nat) parse" where
  "plain t s =
     (case parseredirs t s [] of
        Exited e \<Rightarrow> Exited e
      | Parsed (rs, s) \<Rightarrow>
          (case parseargs t s [] rs of
             Exited e \<Rightarrow> Exited e
           | Parsed (args, rs, s) \<Rightarrow> Parsed (wrap rs (EXEC args), s)))"

lemma parseexec_run:
  assumes "peek t s [40, 0] = (b, y)"
  shows "parseexec (Suc n) t s = (if b then parseblock n t y else Some (plain t y))"
  using assms by (auto simp: plain_def split: bool.splits parse.splits prod.splits)

definition closing :: "uchar list \<Rightarrow> nat \<Rightarrow> cmd \<Rightarrow> (cmd \<times> nat) parse" where
  "closing t s c =
     (case peek t s [41, 0] of
        (False, s) \<Rightarrow> Exited (message ''syntax - missing )'')
      | (True, s) \<Rightarrow>
          (case gettoken t s of (_, _, _, s) \<Rightarrow>
           case parseredirs t s [] of
             Exited e \<Rightarrow> Exited e
           | Parsed (rs, s) \<Rightarrow> Parsed (wrap rs c, s)))"

lemma parseblock_run:
  assumes "peek t s [40, 0] = (b, y)" "gettoken t y = (tok, q, e, z)"
  shows "parseblock (Suc n) t s =
    (if b then andthen (parseline n t z) (\<lambda>(c, s). Some (closing t s c)) else Some (Exited (message ''parseblock'')))"
  using assms
  by (cases "parseline n t z") (auto simp: closing_def andthen_def split: bool.splits parse.splits prod.splits)

lemma plain_ge: "plain t s = Parsed (c, s') \<Longrightarrow> s \<le> s'"
  by (fastforce simp: plain_def dest: parseredirs_ge parseargs_ge split: parse.splits prod.splits)

lemma closing_ge: "closing t s c = Parsed (c', s') \<Longrightarrow> s \<le> s'"
  by (fastforce simp: closing_def dest: parseredirs_ge peek_ge gettoken_ge split: parse.splits prod.splits bool.splits)

lemma parse_ge:
  "(\<forall>s c s'. parseline n t s = Some (Parsed (c, s')) \<longrightarrow> s \<le> s') \<and> (\<forall>s c s'. parsepipe n t s = Some (Parsed (c, s')) \<longrightarrow> s \<le> s')
   \<and> (\<forall>s c s'. parseexec n t s = Some (Parsed (c, s')) \<longrightarrow> s \<le> s') \<and> (\<forall>s c s'. parseblock n t s = Some (Parsed (c, s')) \<longrightarrow> s \<le> s')"
proof (induction n)
  case (Suc n)
  show ?case
  proof (intro conjI allI impI)
    fix s c s' assume a: "parseline (Suc n) t s = Some (Parsed (c, s'))"
    then obtain c1 s1 where p: "parsepipe n t s = Some (Parsed (c1, s1))" by (auto simp: andthen_Parsed)
    obtain c2 s2 where b: "backs t s1 c1 = (c2, s2)" by fastforce
    obtain b y where k: "peek t s2 [59, 0] = (b, y)" by fastforce
    obtain tok q e z where g: "gettoken t y = (tok, q, e, z)" by (cases "gettoken t y")
    have "y \<le> s'" using a Suc gettoken_ge [OF g] unfolding parseline_run [OF b k g p] by (fastforce simp: andthen_Parsed split: if_splits)
    with Suc p backs_ge [OF b] peek_ge [OF k] show "s \<le> s'" by fastforce
  next
    fix s c s' assume a: "parsepipe (Suc n) t s = Some (Parsed (c, s'))"
    then obtain c1 s1 where p: "parseexec n t s = Some (Parsed (c1, s1))" by (auto simp: andthen_Parsed)
    obtain b y where k: "peek t s1 [124, 0] = (b, y)" by fastforce
    obtain tok q e z where g: "gettoken t y = (tok, q, e, z)" by (cases "gettoken t y")
    have "y \<le> s'" using a Suc gettoken_ge [OF g] unfolding parsepipe_run [OF k g p] by (fastforce simp: andthen_Parsed split: if_splits)
    with Suc p peek_ge [OF k] show "s \<le> s'" by fastforce
  next
    fix s c s' assume a: "parseexec (Suc n) t s = Some (Parsed (c, s'))"
    obtain b y where k: "peek t s [40, 0] = (b, y)" by fastforce
    from a Suc plain_ge [of t y c s'] have "y \<le> s'" unfolding parseexec_run [OF k] by (fastforce split: if_splits)
    with peek_ge [OF k] show "s \<le> s'" by simp
  next
    fix s c s' assume a: "parseblock (Suc n) t s = Some (Parsed (c, s'))"
    obtain b y where k: "peek t s [40, 0] = (b, y)" by fastforce
    obtain tok q e z where g: "gettoken t y = (tok, q, e, z)" by (cases "gettoken t y")
    from a obtain c1 s1 where p: "parseline n t z = Some (Parsed (c1, s1))" "closing t s1 c1 = Parsed (c, s')"
      unfolding parseblock_run [OF k g] by (auto simp: andthen_Parsed split: if_splits)
    with Suc closing_ge [OF p(2)] gettoken_ge [OF g] peek_ge [OF k] show "s \<le> s'" by fastforce
  qed
qed simp

text \<open>A symbol that a rule of the grammar looks for is consumed.\<close>

lemma symbol_consumed:
  assumes "peek t s toks = (True, y)" "gettoken t y = (tok, q, e, z)" "set toks \<subseteq> {124, 40, 41, 59, 38, 60, 62, 0}" "r \<le> s"
  shows "4 * (length t - z) + 4 \<le> 4 * (length t - r)"
proof -
  have "y < z" by (rule gettoken_symbol [OF assms(1-3)])
  with peek_lt [OF assms(1)] assms(4) have "length t - z + 1 \<le> length t - r" by linarith
  then show ?thesis by linarith
qed

lemma parse_ends:
  "(\<forall>s. 4 * (length t - s) + 4 \<le> n \<longrightarrow> parseline n t s \<noteq> None) \<and> (\<forall>s. 4 * (length t - s) + 3 \<le> n \<longrightarrow> parsepipe n t s \<noteq> None)
   \<and> (\<forall>s. 4 * (length t - s) + 2 \<le> n \<longrightarrow> parseexec n t s \<noteq> None) \<and> (\<forall>s. 4 * (length t - s) + 1 \<le> n \<longrightarrow> parseblock n t s \<noteq> None)"
proof (induction n)
  case (Suc n)
  show ?case
  proof (intro conjI allI impI)
    fix s assume n: "4 * (length t - s) + 4 \<le> Suc n"
    then obtain r where r: "parsepipe n t s = Some r" using Suc by fastforce
    show "parseline (Suc n) t s \<noteq> None"
    proof (cases r)
      case (Parsed cs)
      obtain c1 s1 where cs: "cs = (c1, s1)" by fastforce
      have p: "parsepipe n t s = Some (Parsed (c1, s1))" using r Parsed cs by simp
      obtain c2 s2 where b: "backs t s1 c1 = (c2, s2)" by fastforce
      obtain b y where k: "peek t s2 [59, 0] = (b, y)" by fastforce
      obtain tok q e z where g: "gettoken t y = (tok, q, e, z)" by (cases "gettoken t y")
      have "s \<le> s2" using parse_ge [of n t] p backs_ge [OF b] by fastforce
      then have "b \<Longrightarrow> parseline n t z \<noteq> None" using n Suc symbol_consumed [of t s2 "[59, 0]" y tok q e z s] k g by simp
      then show ?thesis unfolding parseline_run [OF b k g p] by (auto simp: andthen_def split: option.splits parse.splits)
    qed (use r in simp)
  next
    fix s assume n: "4 * (length t - s) + 3 \<le> Suc n"
    then obtain r where r: "parseexec n t s = Some r" using Suc by fastforce
    show "parsepipe (Suc n) t s \<noteq> None"
    proof (cases r)
      case (Parsed cs)
      obtain c1 s1 where cs: "cs = (c1, s1)" by fastforce
      have p: "parseexec n t s = Some (Parsed (c1, s1))" using r Parsed cs by simp
      obtain b y where k: "peek t s1 [124, 0] = (b, y)" by fastforce
      obtain tok q e z where g: "gettoken t y = (tok, q, e, z)" by (cases "gettoken t y")
      have "s \<le> s1" using parse_ge [of n t] p by fastforce
      then have "b \<Longrightarrow> parsepipe n t z \<noteq> None" using n Suc symbol_consumed [of t s1 "[124, 0]" y tok q e z s] k g by simp
      then show ?thesis unfolding parsepipe_run [OF k g p] by (auto simp: andthen_def split: option.splits parse.splits)
    qed (use r in simp)
  next
    fix s assume n: "4 * (length t - s) + 2 \<le> Suc n"
    obtain b y where k: "peek t s [40, 0] = (b, y)" by fastforce
    have "4 * (length t - y) + 1 \<le> n" using n peek_ge [OF k] by linarith
    then show "parseexec (Suc n) t s \<noteq> None" using Suc unfolding parseexec_run [OF k] by simp
  next
    fix s assume n: "4 * (length t - s) + 1 \<le> Suc n"
    obtain b y where k: "peek t s [40, 0] = (b, y)" by fastforce
    obtain tok q e z where g: "gettoken t y = (tok, q, e, z)" by (cases "gettoken t y")
    have "b \<Longrightarrow> parseline n t z \<noteq> None" using n Suc symbol_consumed [of t s "[40, 0]" y tok q e z s] k g by simp
    then show "parseblock (Suc n) t s \<noteq> None"
      unfolding parseblock_run [OF k g] by (auto simp: andthen_def split: option.splits parse.splits)
  qed
qed simp

text \<open>C12: the parser of the shell ends on every command line: calls nested four times as deep as the line is long, and four more, are
  enough for \<^verbatim>\<open>parsecmd\<close> to return a command or to exit with a message.\<close>

theorem parsecmd_ends: "\<exists>r. parsecmd (4 * length t + 4) t = Some r"
proof -
  have "parseline (4 * length t + 4) t 0 \<noteq> None" using parse_ends [of t "4 * length t + 4"] by simp
  then show ?thesis by (auto simp: parsecmd_def andthen_def split: option.splits parse.splits prod.splits)
qed

section \<open>The strings of a command\<close>

text \<open>A word of the line: as long as it can be.\<close>

definition good_word :: "uchar list \<Rightarrow> nat \<times> nat \<Rightarrow> bool" where
  "good_word t = (\<lambda>(q, e). q < e \<and> e \<le> length t \<and> (\<forall>i. q \<le> i \<and> i < e \<longrightarrow> word_char (t ! i)) \<and> (e < length t \<longrightarrow> \<not> word_char (t ! e)))"

primrec words :: "cmd \<Rightarrow> (nat \<times> nat) list" where
  "words (EXEC args) = args"
| "words (REDIR c q e mode fd) = words c @ [(q, e)]"
| "words (PIPE l r) = words l @ words r"
| "words (LIST l r) = words l @ words r"
| "words (BACK c) = words c"

lemma scan_word:
  assumes "s < length t" "p (t ! s)"
  shows "s < scan p t s" "scan p t s \<le> length t" "\<And>i. s \<le> i \<Longrightarrow> i < scan p t s \<Longrightarrow> p (t ! i)"
    "scan p t s < length t \<Longrightarrow> \<not> p (t ! scan p t s)"
proof -
  let ?w = "takeWhile p (drop s t)"
  have w: "length ?w \<le> length t - s" using length_takeWhile_le [of p "drop s t"] by simp
  then show "scan p t s \<le> length t" using assms(1) by (simp add: scan_def)
  show "s < scan p t s" using assms by (simp add: scan_def Cons_nth_drop_Suc [symmetric])
  show "p (t ! i)" if "s \<le> i" "i < scan p t s" for i
  proof -
    have k: "i - s < length ?w" using that by (simp add: scan_def)
    have "p (?w ! (i - s))" using nth_mem [OF k] set_takeWhileD by fastforce
    moreover have "?w ! (i - s) = t ! i" using that k w by (simp add: takeWhile_nth)
    ultimately show ?thesis by simp
  qed
  show "\<not> p (t ! scan p t s)" if "scan p t s < length t"
    using that nth_length_takeWhile [of p "drop s t"] assms(1) by (simp add: scan_def)
qed

lemma gettoken_word:
  assumes "gettoken t s = (97, q, e, z)"
  shows "good_word t (q, e)"
proof -
  let ?q = "scan (found whitespace) t s"
  have q: "q = ?q" "e = scan word_char t ?q" "byte_at t ?q \<notin> {0, 124, 40, 41, 59, 38, 60, 62}"
    using assms by (auto simp: gettoken_def Let_def split: if_splits)
  then have lt: "?q < length t" by (auto simp: byte_at_def split: if_splits)
  then have "\<not> found whitespace (t ! ?q)"
    using nth_length_takeWhile [of "found whitespace" "drop s t"] by (auto simp: scan_def)
  then have "word_char (t ! ?q)" using q(3) lt by (auto simp: word_char_def byte_at_def)
  from scan_word [of ?q t word_char, OF lt this] show ?thesis by (simp add: good_word_def q(1,2))
qed

lemma parseredirs_words:
  assumes "parseredirs t s rs = Parsed (rs', s')" "\<forall>(q, e, _) \<in> set rs. good_word t (q, e)"
  shows "\<forall>(q, e, _) \<in> set rs'. good_word t (q, e)"
  using assms
proof (induction "length t - s" arbitrary: s rs rule: less_induct)
  case less
  obtain b y where p: "peek t s [60, 62, 0] = (b, y)" by fastforce
  obtain tok q e z where g: "gettoken t y = (tok, q, e, z)" by (cases "gettoken t y")
  obtain tok' q' e' z' where h: "gettoken t z = (tok', q', e', z')" by (cases "gettoken t z")
  show ?case
  proof (cases b)
    case True
    then have p': "peek t s [60, 62, 0] = (True, y)" using p by simp
    have l: "length t - z' < length t - s" using redir_step [of y t s tok q e z tok' q' e' z'] p' g h by simp
    let ?new = "if tok = 60 then [(q', e', O_RDONLY, 0)] else if tok = 62 \<or> tok = 43 then [(q', e', O_WRCREATE, 1)] else []"
    have "tok' = 97" using less(2) unfolding parseredirs_step [OF p' g h] by (cases "tok' = 97") simp_all
    with less(2) have r: "tok' = 97" "parseredirs t z' (rs @ ?new) = Parsed (rs', s')"
      unfolding parseredirs_step [OF p' g h] by (simp_all only: not_True_eq_False if_False simp_thms)
    then have "good_word t (q', e')" using gettoken_word h by simp
    then have "\<forall>(q, e, _) \<in> set (rs @ ?new). good_word t (q, e)" using less(3) by auto
    then show ?thesis by (rule less(1) [OF l r(2)])
  next
    case False
    then show ?thesis using less(2,3) p by (simp add: parseredirs_stop)
  qed
qed

lemma parseargs_words:
  assumes "parseargs t s args rs = Parsed (args', rs', s')" "\<forall>x \<in> set args. good_word t x" "\<forall>(q, e, _) \<in> set rs. good_word t (q, e)"
  shows "(\<forall>x \<in> set args'. good_word t x) \<and> (\<forall>(q, e, _) \<in> set rs'. good_word t (q, e))"
  using assms
proof (induction "MAXARGS - length args" arbitrary: s args rs rule: less_induct)
  case less
  obtain b y where p: "peek t s [124, 41, 38, 59, 0] = (b, y)" by fastforce
  obtain tok q e z where g: "gettoken t y = (tok, q, e, z)" by (cases "gettoken t y")
  show ?case
  proof (cases b)
    case True
    then show ?thesis using less(2-4) p by (simp add: parseargs_stop)
  next
    case False
    then have p': "peek t s [124, 41, 38, 59, 0] = (False, y)" using p by simp
    show ?thesis
    proof (cases "tok = 97 \<and> \<not> MAXARGS \<le> Suc (length args)")
      case True
      then obtain rs1 s1 where r: "parseredirs t z rs = Parsed (rs1, s1)" "parseargs t s1 (args @ [(q, e)]) rs1 = Parsed (args', rs', s')"
        using less(2) unfolding parseargs_step [OF p' g] by (auto split: parse.splits)
      have l: "MAXARGS - length (args @ [(q, e)]) < MAXARGS - length args" using True by auto
      have "\<forall>x \<in> set (args @ [(q, e)]). good_word t x" using less(3) gettoken_word [of t y q e z] g True by simp
      then show ?thesis by (rule less(1) [OF l r(2) _ parseredirs_words [OF r(1) less(4)]])
    next
      case False
      then show ?thesis using less(2-4) unfolding parseargs_step [OF p' g] by (auto split: if_splits)
    qed
  qed
qed

lemma wrap_words: "words (wrap rs c) = words c @ map (\<lambda>(q, e, _). (q, e)) rs"
  unfolding wrap_def by (induction rs arbitrary: c) (auto simp: redircmd_def)

definition good_cmd :: "uchar list \<Rightarrow> cmd \<Rightarrow> bool" where
  "good_cmd t c \<longleftrightarrow> (\<forall>x \<in> set (words c). good_word t x)"

lemma good_cmd_simps:
  "good_cmd t (PIPE l r) \<longleftrightarrow> good_cmd t l \<and> good_cmd t r" "good_cmd t (LIST l r) \<longleftrightarrow> good_cmd t l \<and> good_cmd t r"
  by (auto simp: good_cmd_def)

lemma wrap_good: "good_cmd t c \<Longrightarrow> \<forall>(q, e, _) \<in> set rs. good_word t (q, e) \<Longrightarrow> good_cmd t (wrap rs c)"
  by (auto simp: good_cmd_def wrap_words)

lemma plain_words: "plain t s = Parsed (c, s') \<Longrightarrow> good_cmd t c"
proof -
  assume "plain t s = Parsed (c, s')"
  then obtain rs s1 args rs' where r: "parseredirs t s [] = Parsed (rs, s1)" "parseargs t s1 [] rs = Parsed (args, rs', s')"
    "c = wrap rs' (EXEC args)"
    by (auto simp: plain_def split: parse.splits prod.splits)
  show ?thesis
    using parseargs_words [OF r(2)] parseredirs_words [OF r(1)] unfolding r(3) by (intro wrap_good) (simp_all add: good_cmd_def)
qed

lemma closing_words:
  assumes "closing t s c = Parsed (c', s')" "good_cmd t c"
  shows "good_cmd t c'"
proof -
  obtain b y where k: "peek t s [41, 0] = (b, y)" by fastforce
  obtain tok q e z where g: "gettoken t y = (tok, q, e, z)" by (cases "gettoken t y")
  from assms(1) k g obtain rs where r: "parseredirs t z [] = Parsed (rs, s')" "c' = wrap rs c"
    by (auto simp: closing_def split: parse.splits prod.splits bool.splits)
  show ?thesis using parseredirs_words [OF r(1)] assms(2) unfolding r(2) by (intro wrap_good) simp_all
qed

lemma backs_words: "backs t s c = (c', s') \<Longrightarrow> words c' = words c"
proof (induction "length t - s" arbitrary: s c rule: less_induct)
  case less
  obtain b y where p: "peek t s [38, 0] = (b, y)" by fastforce
  obtain tok q e z where g: "gettoken t y = (tok, q, e, z)" by (cases "gettoken t y")
  show ?case
  proof (cases b)
    case True
    then show ?thesis using less back_step [of y t s tok q e z] p g backs_step [of t s y tok q e z c] by fastforce
  next
    case False
    then show ?thesis using less(2) p by (simp add: backs_stop)
  qed
qed

lemma parse_words:
  "(\<forall>s c s'. parseline n t s = Some (Parsed (c, s')) \<longrightarrow> (good_cmd t c))
   \<and> (\<forall>s c s'. parsepipe n t s = Some (Parsed (c, s')) \<longrightarrow> (good_cmd t c))
   \<and> (\<forall>s c s'. parseexec n t s = Some (Parsed (c, s')) \<longrightarrow> (good_cmd t c))
   \<and> (\<forall>s c s'. parseblock n t s = Some (Parsed (c, s')) \<longrightarrow> (good_cmd t c))"
proof (induction n)
  case (Suc n)
  show ?case
  proof (intro conjI allI impI)
    fix s c s' assume a: "parseline (Suc n) t s = Some (Parsed (c, s'))"
    then obtain c1 s1 where p: "parsepipe n t s = Some (Parsed (c1, s1))" by (auto simp: andthen_Parsed)
    obtain c2 s2 where b: "backs t s1 c1 = (c2, s2)" by fastforce
    obtain b y where k: "peek t s2 [59, 0] = (b, y)" by fastforce
    obtain tok q e z where g: "gettoken t y = (tok, q, e, z)" by (cases "gettoken t y")
    have "good_cmd t c2" using Suc p backs_words [OF b] by (fastforce simp: good_cmd_def)
    then show "good_cmd t c"
      using a Suc unfolding parseline_run [OF b k g p] by (fastforce simp: andthen_Parsed good_cmd_simps split: if_splits)
  next
    fix s c s' assume a: "parsepipe (Suc n) t s = Some (Parsed (c, s'))"
    then obtain c1 s1 where p: "parseexec n t s = Some (Parsed (c1, s1))" by (auto simp: andthen_Parsed)
    obtain b y where k: "peek t s1 [124, 0] = (b, y)" by fastforce
    obtain tok q e z where g: "gettoken t y = (tok, q, e, z)" by (cases "gettoken t y")
    have "good_cmd t c1" using Suc p by blast
    then show "good_cmd t c"
      using a Suc unfolding parsepipe_run [OF k g p] by (fastforce simp: andthen_Parsed good_cmd_simps split: if_splits)
  next
    fix s c s' assume a: "parseexec (Suc n) t s = Some (Parsed (c, s'))"
    obtain b y where k: "peek t s [40, 0] = (b, y)" by fastforce
    show "good_cmd t c"
      using a Suc plain_words [of t y c s'] unfolding parseexec_run [OF k] by (fastforce split: if_splits)
  next
    fix s c s' assume a: "parseblock (Suc n) t s = Some (Parsed (c, s'))"
    obtain b y where k: "peek t s [40, 0] = (b, y)" by fastforce
    obtain tok q e z where g: "gettoken t y = (tok, q, e, z)" by (cases "gettoken t y")
    from a obtain c1 s1 where p: "parseline n t z = Some (Parsed (c1, s1))" "closing t s1 c1 = Parsed (c, s')"
      unfolding parseblock_run [OF k g] by (auto simp: andthen_Parsed split: if_splits)
    have "good_cmd t c1" using Suc p(1) by blast
    then show "good_cmd t c" by (rule closing_words [OF p(2)])
  qed
qed simp

lemma nul_args: "fold (\<lambda>(q, e) t. t[e := 0]) args t = foldl (\<lambda>t x. t[snd x := 0]) t args"
  by (induction args arbitrary: t) (auto simp: split_def)

lemma nulterminate_words: "nulterminate c t = foldl (\<lambda>t x. t[snd x := 0]) t (words c)"
  by (induction c arbitrary: t) (simp_all add: nul_args)

lemma nul_nth: "i < length t \<Longrightarrow> foldl (\<lambda>t x. t[snd x := 0]) t ws ! i = (if i \<in> snd ` set ws then 0 else t ! i)"
  by (induction ws arbitrary: t) (auto simp: nth_list_update)

lemma nul_length: "length (foldl (\<lambda>t x. t[snd x := 0]) t ws) = length t"
  by (induction ws arbitrary: t) simp_all

lemma takeWhile_stop: "\<forall>x \<in> set xs. P x \<Longrightarrow> ys = [] \<or> \<not> P (hd ys) \<Longrightarrow> takeWhile P (xs @ ys) = xs"
  by (cases ys) (auto simp: takeWhile_append)

text \<open>After \<^verbatim>\<open>nulterminate\<close> the C string at the beginning of each word is that word.\<close>

lemma nulterminate_str:
  assumes "good_cmd t c" "(q, e) \<in> set (words c)" "0 \<notin> set t"
  shows "str_at (nulterminate c t) q = take (e - q) (drop q t)"
proof -
  let ?t = "nulterminate c t"
  have g: "q < e" "e \<le> length t" "\<And>i. q \<le> i \<Longrightarrow> i < e \<Longrightarrow> word_char (t ! i)" "e < length t \<Longrightarrow> \<not> word_char (t ! e)"
    using assms(1,2) by (auto simp: good_word_def good_cmd_def)
  have n: "?t ! i = (if i \<in> snd ` set (words c) then 0 else t ! i)" if "i < length t" for i
    using that by (simp add: nulterminate_words nul_nth)
  have l: "length ?t = length t" by (simp add: nulterminate_words nul_length)
  have in_word: "?t ! i = t ! i" if "q \<le> i" "i < e" for i
  proof -
    have "i \<notin> snd ` set (words c)"
    proof
      assume "i \<in> snd ` set (words c)"
      then obtain q' where "good_word t (q', i)" using assms(1) by (auto simp: good_cmd_def)
      then show False using g(3) [OF that] that g(2) by (auto simp: good_word_def)
    qed
    then show ?thesis using n that g(2) by simp
  qed
  have tk: "take (e - q) (drop q ?t) = take (e - q) (drop q t)"
    using in_word l g(1,2) by (intro nth_equalityI) auto
  have "take (e - q) (drop q t) @ drop e ?t = drop q ?t"
    using tk append_take_drop_id [of "e - q" "drop q ?t"] g(1) by simp
  moreover have "\<forall>x \<in> set (take (e - q) (drop q t)). x \<noteq> 0" using assms(3) by (metis in_set_dropD in_set_takeD)
  moreover have "drop e ?t = [] \<or> hd (drop e ?t) = 0"
    using n [of e] assms(2) l by (cases "e < length t") (auto simp: hd_drop_conv_nth image_iff)
  ultimately show ?thesis
    using takeWhile_stop [of "take (e - q) (drop q t)" "\<lambda>c. c \<noteq> 0" "drop e ?t"] by (simp add: str_at_def cstr_def)
qed

end
