(* ===== verification/ShTrip.thy ===== *)
theory ShTrip
  imports ShProps
begin

text \<open>
  Every command tree can be spelled out as a command line, and the parser of the shell reads it back: with parentheses around the parts,
  \<^verbatim>\<open>parsecmd\<close> returns that tree, with the words as the strings of the terminated line.
\<close>

declare parseline.simps [simp del] parsepipe.simps [simp del] parseexec.simps [simp del] parseblock.simps [simp del]

section \<open>Trees and their spelling\<close>

datatype tree =
    TExec "uchar list list"
  | TRedir tree "uchar list" int int
  | TPipe tree tree
  | TList tree tree
  | TBack tree

text \<open>The tree of a command whose strings are in the terminated line \<open>t\<close>.\<close>

primrec tree_of :: "uchar list \<Rightarrow> cmd \<Rightarrow> tree" where
  "tree_of t (EXEC args) = TExec (map (\<lambda>x. str_at t (fst x)) args)"
| "tree_of t (REDIR c q e mode fd) = TRedir (tree_of t c) (str_at t q) mode fd"
| "tree_of t (PIPE l r) = TPipe (tree_of t l) (tree_of t r)"
| "tree_of t (LIST l r) = TList (tree_of t l) (tree_of t r)"
| "tree_of t (BACK c) = TBack (tree_of t c)"

definition proper :: "uchar list \<Rightarrow> bool" where
  "proper w \<longleftrightarrow> w \<noteq> [] \<and> 0 \<notin> set w \<and> (\<forall>c \<in> set w. word_char c)"

text \<open>What a line can say: fewer than \<^verbatim>\<open>MAXARGS\<close> words, and redirections of descriptor 0 for reading or 1 for writing.\<close>

primrec sayable :: "tree \<Rightarrow> bool" where
  "sayable (TExec ws) \<longleftrightarrow> length ws < MAXARGS \<and> (\<forall>w \<in> set ws. proper w)"
| "sayable (TRedir c f mode fd) \<longleftrightarrow> sayable c \<and> proper f \<and> (mode, fd) \<in> {(O_RDONLY, 0), (O_WRCREATE, 1)}"
| "sayable (TPipe a b) \<longleftrightarrow> sayable a \<and> sayable b"
| "sayable (TList a b) \<longleftrightarrow> sayable a \<and> sayable b"
| "sayable (TBack a) \<longleftrightarrow> sayable a"

definition block :: "uchar list \<Rightarrow> uchar list" where
  "block x = 40 # x @ [41]"

definition spell_words :: "uchar list list \<Rightarrow> uchar list" where
  "spell_words ws = concat (map (\<lambda>w. w @ [32]) ws)"

primrec spell :: "tree \<Rightarrow> uchar list" where
  "spell (TExec ws) = spell_words ws"
| "spell (TRedir c f mode fd) = block (spell c) @ (if fd = 0 then 60 else 62) # f @ [32]"
| "spell (TPipe a b) = block (spell a) @ 124 # block (spell b)"
| "spell (TList a b) = block (spell a) @ 59 # block (spell b)"
| "spell (TBack a) = block (spell a) @ [38]"

section \<open>Tokens of a spelled line\<close>

lemma found_toks [simp]:
  "found [60, 62, 0] c \<longleftrightarrow> c \<in> {60, 62}" "found [124, 41, 38, 59, 0] c \<longleftrightarrow> c \<in> {124, 41, 38, 59}" "found [38, 0] c \<longleftrightarrow> c = 38"
  "found [59, 0] c \<longleftrightarrow> c = 59" "found [124, 0] c \<longleftrightarrow> c = 124" "found [40, 0] c \<longleftrightarrow> c = 40" "found [41, 0] c \<longleftrightarrow> c = 41"
  by (auto simp: found_def)

definition starts :: "uchar list \<Rightarrow> bool" where
  "starts xs \<longleftrightarrow> xs = [] \<or> \<not> found whitespace (hd xs)"

lemma scan_none: "drop s t = xs \<Longrightarrow> starts xs \<Longrightarrow> scan (found whitespace) t s = s"
  by (cases xs) (auto simp: scan_def starts_def)

lemma byte_drop: "drop s t = x # xs \<Longrightarrow> byte_at t s = x"
  by (metis byte_at_def drop_all hd_drop_conv_nth leI list.discI list.sel(1))

lemma byte_end: "drop s t = [] \<Longrightarrow> byte_at t s = 0"
  by (simp add: byte_at_def)

lemma drop_more: "drop s t = xs @ ys \<Longrightarrow> drop (s + length xs) t = ys"
  by (metis add.commute append_eq_conv_conj drop_drop)

lemma peek_head: "drop s t = x # xs \<Longrightarrow> \<not> found whitespace x \<Longrightarrow> peek t s toks = (x \<noteq> 0 \<and> found toks x, s)"
  using scan_none [of s t "x # xs"] byte_drop [of s t x xs] by (simp add: peek_def Let_def starts_def)

lemma peek_end: "drop s t = [] \<Longrightarrow> peek t s toks = (False, s)"
  using scan_none [of s t "[]"] byte_end [of s t] by (simp add: peek_def Let_def starts_def)

lemma gettoken_sym:
  assumes "drop s t = x # xs" "x \<in> {124, 40, 41, 59, 38, 60}" "starts xs"
  shows "gettoken t s = (x, s, s + 1, s + 1)"
proof -
  have "scan (found whitespace) t s = s" "scan (found whitespace) t (s + 1) = s + 1"
    using assms scan_none [of s t "x # xs"] scan_none [of "s + 1" t xs] drop_more [of s t "[x]" xs] by (auto simp: starts_def)
  then show ?thesis using assms(2) byte_drop [OF assms(1)] by (auto simp: gettoken_def Let_def)
qed

lemma gettoken_gt:
  assumes "drop s t = 62 # y # xs" "y \<noteq> 62" "\<not> found whitespace y"
  shows "gettoken t s = (62, s, s + 1, s + 1)"
proof -
  have d: "drop (s + 1) t = y # xs" using drop_more [of s t "[62]" "y # xs"] assms(1) by simp
  have "scan (found whitespace) t s = s" "scan (found whitespace) t (s + 1) = s + 1"
    using assms scan_none [of s t "62 # y # xs"] scan_none [OF d] by (auto simp: starts_def)
  then show ?thesis using assms(2) byte_drop [OF assms(1)] byte_drop [OF d] by (auto simp: gettoken_def Let_def)
qed

lemma gettoken_proper:
  assumes "drop s t = w @ 32 # xs" "proper w" "starts xs"
  shows "gettoken t s = (97, s, s + length w, s + length w + 1)"
proof -
  obtain x w' where w: "w = x # w'" "word_char x" "x \<noteq> 0" using assms(2) by (cases w) (auto simp: proper_def)
  have x: "\<not> found whitespace x" "x \<notin> {0, 124, 40, 41, 59, 38, 60, 62}" using w(2,3) by (auto simp: word_char_def)
  have d: "drop s t = x # w' @ 32 # xs" using assms(1) w(1) by simp
  have "\<forall>c \<in> set w. word_char c" "\<not> word_char 32" using assms(2) by (auto simp: proper_def word_char_def)
  then have sc: "scan word_char t s = s + length w" by (simp add: scan_def assms(1) takeWhile_append)
  have d2: "drop (s + length w) t = 32 # xs" "drop (s + length w + 1) t = xs"
    using drop_more [OF assms(1)] drop_more [of "s + length w" t "[32]" xs] by simp_all
  have "scan (found whitespace) t s = s" using scan_none [OF d] x(1) by (simp add: starts_def)
  moreover have "scan (found whitespace) t (s + length w) = s + length w + 1"
    using assms(3) by (cases xs) (auto simp: scan_def d2(1) starts_def)
  ultimately show ?thesis using x byte_drop [OF d] sc by (auto simp: gettoken_def Let_def)
qed

lemma gettoken_end: "drop s t = [] \<Longrightarrow> gettoken t s = (0, s, s, s)"
  using scan_none [of s t "[]"] byte_end [of s t] by (simp add: gettoken_def Let_def starts_def)

section \<open>Reading back a simple command\<close>

text \<open>What may follow: the end of the line or a closing parenthesis.\<close>

definition follow :: "uchar list \<Rightarrow> bool" where
  "follow xs \<longleftrightarrow> xs = [] \<or> hd xs = 41"

lemma follow_starts: "follow xs \<Longrightarrow> starts xs"
  by (auto simp: follow_def starts_def)

lemma redirs_none:
  assumes "drop s t = xs" "starts xs" "xs = [] \<or> hd xs \<notin> {60, 62}"
  shows "parseredirs t s rs = Parsed (rs, s)"
proof (cases xs)
  case Nil
  then show ?thesis using assms(1) by (intro parseredirs_stop) (simp add: peek_end)
next
  case (Cons x ys)
  then have "peek t s [60, 62, 0] = (False, s)"
    using assms peek_head [of s t x ys "[60, 62, 0]"] by (auto simp: starts_def)
  then show ?thesis by (rule parseredirs_stop)
qed

fun ranges :: "nat \<Rightarrow> uchar list list \<Rightarrow> (nat \<times> nat) list" where
  "ranges s [] = []"
| "ranges s (w # ws) = (s, s + length w) # ranges (s + length w + 1) ws"

definition word_at :: "uchar list \<Rightarrow> nat \<times> nat \<Rightarrow> uchar list" where
  "word_at t = (\<lambda>(q, e). take (e - q) (drop q t))"

lemma word_head: "proper w \<Longrightarrow> w = x # v \<Longrightarrow> word_char x \<and> x \<noteq> 0"
  by (auto simp: proper_def)

lemma spell_words_starts: "\<forall>w \<in> set ws. proper w \<Longrightarrow> follow post \<Longrightarrow> starts (spell_words ws @ post) \<and> (spell_words ws @ post = [] \<or> hd (spell_words ws @ post) \<notin> {60, 62, 40})"
proof (cases ws)
  case (Cons w vs)
  assume "\<forall>w \<in> set ws. proper w"
  then obtain x v where "w = x # v" "word_char x" using Cons by (cases w) (auto simp: proper_def)
  then show ?thesis using Cons by (auto simp: spell_words_def starts_def word_char_def)
qed (auto simp: spell_words_def follow_def starts_def)

lemma parseargs_spelled:
  assumes "drop s t = spell_words ws @ post" "\<forall>w \<in> set ws. proper w" "length acc + length ws < MAXARGS" "follow post"
  shows "parseargs t s acc rs = Parsed (acc @ ranges s ws, rs, s + length (spell_words ws)) \<and> map (word_at t) (ranges s ws) = ws"
  using assms
proof (induction ws arbitrary: s acc)
  case Nil
  then have d: "drop s t = post" by (simp add: spell_words_def)
  show ?case
  proof (cases post)
    case Nil
    then show ?thesis
      using d parseargs_step [of t s s 0 s s s acc rs] peek_end [of s t] gettoken_end [of s t] by (simp add: spell_words_def)
  next
    case (Cons x xs)
    then have "x = 41" using Nil.prems(4) by (simp add: follow_def)
    then show ?thesis
      using d Cons peek_head [of s t 41 xs "[124, 41, 38, 59, 0]"] parseargs_stop [of t s s acc rs]
      by (simp add: spell_words_def)
  qed
next
  case (Cons w ws)
  let ?z = "s + length w + 1" and ?xs = "spell_words ws @ post"
  have w: "proper w" and ws: "\<forall>w \<in> set ws. proper w" using Cons.prems(2) by simp_all
  have d: "drop s t = w @ 32 # ?xs" using Cons.prems(1) by (simp add: spell_words_def)
  note st = spell_words_starts [OF ws Cons.prems(4)]
  obtain x v where x: "w = x # v" "word_char x" "x \<noteq> 0" using w by (cases w) (auto simp: proper_def)
  have p: "peek t s [124, 41, 38, 59, 0] = (False, s)"
    using peek_head [of s t x "v @ 32 # ?xs"] d x by (auto simp: word_char_def)
  have g: "gettoken t s = (97, s, s + length w, ?z)" using gettoken_proper [OF d w] st by simp
  have dz: "drop ?z t = ?xs" using drop_more [of s t "w @ [32]" ?xs] d by simp
  have r: "parseredirs t ?z rs = Parsed (rs, ?z)" using redirs_none [OF dz] st by auto
  have "parseargs t s acc rs = parseargs t ?z (acc @ [(s, s + length w)]) rs"
    using Cons.prems(3) parseargs_step [OF p g] r by (simp add: MAXARGS_def)
  with Cons.IH [OF dz ws _ Cons.prems(4), of "acc @ [(s, s + length w)]"] Cons.prems(3) show ?case
    by (simp add: spell_words_def word_at_def d)
qed

section \<open>Reading back a tree\<close>

primrec raw :: "uchar list \<Rightarrow> cmd \<Rightarrow> tree" where
  "raw t (EXEC args) = TExec (map (word_at t) args)"
| "raw t (REDIR c q e mode fd) = TRedir (raw t c) (word_at t (q, e)) mode fd"
| "raw t (PIPE l r) = TPipe (raw t l) (raw t r)"
| "raw t (LIST l r) = TList (raw t l) (raw t r)"
| "raw t (BACK c) = TBack (raw t c)"

lemma spell_starts: "sayable tr \<Longrightarrow> follow post \<Longrightarrow> starts (spell tr @ post)"
  using spell_words_starts [of _ post] by (cases tr) (simp_all, simp_all add: block_def starts_def)

lemma peek_no: "drop s t = xs \<Longrightarrow> starts xs \<Longrightarrow> xs = [] \<or> \<not> found toks (hd xs) \<Longrightarrow> peek t s toks = (False, s)"
  by (cases xs) (auto simp: peek_end peek_head starts_def)

lemma block_run:
  assumes "parseline m t (s + 1) = Some (Parsed (c, s + 1 + length x))" "drop s t = block x @ rest" "starts (x @ 41 # rest)" "starts rest"
    and "parseredirs t (s + length (block x)) [] = Parsed (rs, s')"
  shows "parseexec (Suc (Suc m)) t s = Some (Parsed (wrap rs c, s'))"
proof -
  define u where "u = s + 1 + length x"
  have b: "s + length (block x) = u + 1" by (simp add: u_def block_def)
  have d: "drop s t = 40 # x @ 41 # rest" using assms(2) by (simp add: block_def)
  have d1: "drop u t = 41 # rest" using drop_more [of s t "40 # x" "41 # rest"] d by (simp add: u_def)
  have p: "peek t s [40, 0] = (True, s)" "peek t u [41, 0] = (True, u)"
    using peek_head [OF d] peek_head [OF d1] by simp_all
  have g: "gettoken t s = (40, s, s + 1, s + 1)" "gettoken t u = (41, u, u + 1, u + 1)"
    using gettoken_sym [OF d _ assms(3)] gettoken_sym [OF d1 _ assms(4)] by simp_all
  have "closing t u c = Parsed (wrap rs c, s')" using assms(5) unfolding b by (simp add: closing_def p g)
  moreover have l: "parseline m t (s + 1) = Some (Parsed (c, u))" using assms(1) by (simp add: u_def)
  ultimately show ?thesis
    unfolding parseexec_run [OF p(1)] if_True parseblock_run [OF p(1) g(1)] l by simp
qed

lemma pipe_end:
  assumes "parseexec n t s = Some (Parsed (c, s1))" "drop s1 t = xs" "starts xs" "xs = [] \<or> hd xs \<noteq> 124"
  shows "parsepipe (Suc n) t s = Some (Parsed (c, s1))"
proof -
  obtain tok q e z where g: "gettoken t s1 = (tok, q, e, z)" by (cases "gettoken t s1")
  show ?thesis using parsepipe_run [OF peek_no [OF assms(2,3), of "[124, 0]"] g assms(1)] assms(4) by simp
qed

lemma line_end:
  assumes "parsepipe n t s = Some (Parsed (c, s1))" "drop s1 t = post" "follow post"
  shows "parseline (Suc n) t s = Some (Parsed (c, s1))"
proof -
  obtain tok q e z where g: "gettoken t s1 = (tok, q, e, z)" by (cases "gettoken t s1")
  have k: "peek t s1 [38, 0] = (False, s1)" "peek t s1 [59, 0] = (False, s1)"
    using assms(2,3) peek_no [OF assms(2) follow_starts] by (auto simp: follow_def)
  show ?thesis unfolding parseline_run [OF backs_stop [OF k(1)] k(2) g assms(1)] by simp
qed

lemma block_exec:
  assumes "\<forall>post. drop (s + 1) t = x @ post \<longrightarrow> follow post \<longrightarrow> (\<exists>c. parseline m t (s + 1) = Some (Parsed (c, s + 1 + length x)) \<and> raw t c = tr)"
    and "drop s t = block x @ rest" "\<forall>post. follow post \<longrightarrow> starts (x @ post)" "starts rest" "rest = [] \<or> hd rest \<notin> {60, 62}"
  shows "\<exists>c. parseexec (Suc (Suc m)) t s = Some (Parsed (c, s + length (block x))) \<and> raw t c = tr"
proof -
  have f: "follow (41 # rest)" by (simp add: follow_def)
  have "drop (s + 1) t = x @ 41 # rest" using assms(2) drop_more [of s t "[40]"] by (simp add: block_def)
  then obtain c where c: "parseline m t (s + 1) = Some (Parsed (c, s + 1 + length x))" "raw t c = tr" using assms(1) f by blast
  have "drop (s + length (block x)) t = rest" by (rule drop_more [OF assms(2)])
  then have "parseredirs t (s + length (block x)) [] = Parsed ([], s + length (block x))" using assms(4,5) by (rule redirs_none)
  from block_run [OF c(1) assms(2) assms(3) [rule_format, OF f] assms(4) this] c(2) show ?thesis by (simp add: wrap_def)
qed

lemma block_pipe:
  assumes "\<forall>post. drop (s + 1) t = x @ post \<longrightarrow> follow post \<longrightarrow> (\<exists>c. parseline m t (s + 1) = Some (Parsed (c, s + 1 + length x)) \<and> raw t c = tr)"
    and "drop s t = block x @ rest" "\<forall>post. follow post \<longrightarrow> starts (x @ post)" "follow rest"
  shows "\<exists>c. parsepipe (Suc (Suc (Suc m))) t s = Some (Parsed (c, s + length (block x))) \<and> raw t c = tr"
proof -
  have r: "starts rest" "rest = [] \<or> hd rest \<notin> {60, 62}" "rest = [] \<or> hd rest \<noteq> 124"
    using assms(4) follow_starts by (auto simp: follow_def)
  obtain c where c: "parseexec (Suc (Suc m)) t s = Some (Parsed (c, s + length (block x)))" "raw t c = tr"
    using block_exec [OF assms(1-3) r(1,2)] by blast
  show ?thesis using pipe_end [OF c(1) drop_more [OF assms(2)] r(1,3)] c(2) by blast
qed

primrec depth :: "tree \<Rightarrow> nat" where
  "depth (TExec ws) = 3"
| "depth (TRedir c f mode fd) = 4 + depth c"
| "depth (TPipe a b) = 5 + depth a + depth b"
| "depth (TList a b) = 5 + depth a + depth b"
| "depth (TBack a) = 4 + depth a"

text \<open>The parser reads back \<open>tr\<close>, with calls nested \<open>n\<close> deep, wherever it is spelled out.\<close>

definition reads :: "uchar list \<Rightarrow> tree \<Rightarrow> nat \<Rightarrow> bool" where
  "reads t tr n \<longleftrightarrow> (\<forall>s post. drop s t = spell tr @ post \<longrightarrow> follow post \<longrightarrow>
     (\<exists>c. parseline n t s = Some (Parsed (c, s + length (spell tr))) \<and> raw t c = tr))"

lemma reads_at: "reads t tr n \<Longrightarrow> \<forall>post. drop s t = spell tr @ post \<longrightarrow> follow post \<longrightarrow>
    (\<exists>c. parseline n t s = Some (Parsed (c, s + length (spell tr))) \<and> raw t c = tr)"
  by (simp add: reads_def)

lemma starts_all: "sayable tr \<Longrightarrow> \<forall>post. follow post \<longrightarrow> starts (spell tr @ post)"
  using spell_starts by blast

lemma reads_exec:
  assumes "sayable (TExec ws)"
  shows "reads t (TExec ws) (Suc (Suc (Suc m)))"
  unfolding reads_def
proof (intro allI impI)
  fix s post assume d': "drop s t = spell (TExec ws) @ post" and fo: "follow post"
  then have d: "drop s t = spell_words ws @ post" by simp
  have ws: "\<forall>w \<in> set ws. proper w" "length ws < MAXARGS" using assms by simp_all
  note st = spell_words_starts [OF ws(1) fo]
  have p: "peek t s [40, 0] = (False, s)" using peek_no [OF d] st by auto
  have "parseredirs t s [] = Parsed ([], s)" using redirs_none [OF d] st by auto
  then have "plain t s = Parsed (EXEC (ranges s ws), s + length (spell_words ws))"
    using parseargs_spelled [OF d ws(1) _ fo, of "[]" "[]"] ws(2) by (simp add: plain_def wrap_def)
  then have e: "parseexec (Suc m) t s = Some (Parsed (EXEC (ranges s ws), s + length (spell_words ws)))"
    unfolding parseexec_run [OF p] by simp
  have dp: "drop (s + length (spell_words ws)) t = post" by (rule drop_more [OF d])
  have "parsepipe (Suc (Suc m)) t s = Some (Parsed (EXEC (ranges s ws), s + length (spell_words ws)))"
    using pipe_end [OF e dp follow_starts [OF fo]] fo by (auto simp: follow_def)
  from line_end [OF this dp fo] show "\<exists>c. parseline (Suc (Suc (Suc m))) t s = Some (Parsed (c, s + length (spell (TExec ws)))) \<and> raw t c = TExec ws"
    using parseargs_spelled [OF d ws(1) _ fo, of "[]" "[]"] ws(2) by simp
qed

lemma reads_redir:
  assumes "sayable (TRedir c f mode fd)" "reads t c m"
  shows "reads t (TRedir c f mode fd) (Suc (Suc (Suc (Suc m))))"
  unfolding reads_def
proof (intro allI impI)
  fix s post assume d0: "drop s t = spell (TRedir c f mode fd) @ post" and fo: "follow post"
  let ?x = "spell c" and ?op = "if fd = 0 then 60 else 62 :: uchar"
  have d: "drop s t = block ?x @ ?op # f @ 32 # post" using d0 by simp
  have f: "proper f" "(mode, fd) \<in> {(O_RDONLY, 0), (O_WRCREATE, 1)}" and c: "sayable c" using assms by simp_all
  obtain y g where y: "f = y # g" "word_char y" "y \<noteq> 0" using f(1) by (cases f) (auto simp: proper_def)
  then have y': "\<not> found whitespace y" "y \<noteq> 62" by (auto simp: word_char_def)
  define u where "u = s + length (block ?x)"
  define v where "v = u + 1 + length f + 1"
  have fp: "follow (41 # ?op # f @ 32 # post)" by (simp add: follow_def)
  have "drop (s + 1) t = ?x @ 41 # ?op # f @ 32 # post" using d drop_more [of s t "[40]"] by (simp add: block_def)
  then obtain c' where c': "parseline m t (s + 1) = Some (Parsed (c', s + 1 + length ?x))" "raw t c' = c"
    using reads_at [OF assms(2), of "s + 1"] fp by blast
  have du: "drop u t = ?op # f @ 32 # post" using drop_more [OF d] by (simp add: u_def)
  have du1: "drop (u + 1) t = f @ 32 # post" using drop_more [of u t "[?op]"] du by simp
  have dv: "drop v t = post" using drop_more [of "u + 1" t "f @ [32]" post] du1 by (simp add: v_def)
  have k: "peek t u [60, 62, 0] = (True, u)" using peek_head [OF du] by simp
  have g1: "gettoken t u = (?op, u, u + 1, u + 1)"
    using gettoken_sym [of u t 60 "f @ 32 # post"] gettoken_gt [of u t y "g @ 32 # post"] du y y' by (auto simp: starts_def)
  have g2: "gettoken t (u + 1) = (97, u + 1, u + 1 + length f, v)"
    using gettoken_proper [OF du1 f(1) follow_starts [OF fo]] by (simp add: v_def)
  have st: "starts post" "post = [] \<or> hd post \<notin> {60, 62}" using fo follow_starts by (auto simp: follow_def)
  have r: "parseredirs t u [] = Parsed ([(u + 1, u + 1 + length f, mode, fd)], v)"
    using parseredirs_step [OF k g1 g2, of "[]"] redirs_none [OF dv st] f(2) by auto
  have "starts (?x @ 41 # ?op # f @ 32 # post)" by (rule spell_starts [OF c fp])
  from block_run [OF c'(1) d this _ r [unfolded u_def]]
  have e: "parseexec (Suc (Suc m)) t s = Some (Parsed (REDIR c' (u + 1) (u + 1 + length f) mode fd, v))"
    by (simp add: starts_def wrap_def redircmd_def u_def)
  have pp: "parsepipe (Suc (Suc (Suc m))) t s = Some (Parsed (REDIR c' (u + 1) (u + 1 + length f) mode fd, v))"
    using pipe_end [OF e dv st(1)] fo by (auto simp: follow_def)
  have "word_at t (u + 1, u + 1 + length f) = f" using du1 by (simp add: word_at_def)
  moreover have "v = s + length (spell (TRedir c f mode fd))" by (simp add: v_def u_def)
  ultimately show "\<exists>d. parseline (Suc (Suc (Suc (Suc m)))) t s = Some (Parsed (d, s + length (spell (TRedir c f mode fd))))
      \<and> raw t d = TRedir c f mode fd"
    using line_end [OF pp dv fo] c'(2) by simp
qed

lemma reads_pipe:
  assumes "sayable (TPipe a b)" "reads t a (Suc m)" "reads t b m"
  shows "reads t (TPipe a b) (Suc (Suc (Suc (Suc (Suc m)))))"
  unfolding reads_def
proof (intro allI impI)
  fix s post assume d0: "drop s t = spell (TPipe a b) @ post" and fo: "follow post"
  have ab: "sayable a" "sayable b" and d: "drop s t = block (spell a) @ 124 # block (spell b) @ post" using assms d0 by simp_all
  define u where "u = s + length (block (spell a))"
  have du: "drop u t = 124 # block (spell b) @ post" "drop (u + 1) t = block (spell b) @ post"
    using drop_more [OF d] drop_more [of u t "[124]"] by (simp_all add: u_def)
  note ih = reads_at [OF assms(2), of "s + 1"]
  have sa: "\<forall>post. follow post \<longrightarrow> starts (spell a @ post)" "starts (124 # block (spell b) @ post)"
    by (rule starts_all [OF ab(1)]) (simp add: starts_def)
  from block_exec [OF ih d sa] obtain c1 where c1: "parseexec (Suc (Suc (Suc m))) t s = Some (Parsed (c1, u))" "raw t c1 = a"
    by (auto simp: u_def)
  obtain c2 where c2: "parsepipe (Suc (Suc (Suc m))) t (u + 1) = Some (Parsed (c2, u + 1 + length (block (spell b))))" "raw t c2 = b"
    using block_pipe [OF reads_at [OF assms(3), of "u + 1 + 1"] du(2) starts_all [OF ab(2)] fo] by blast
  have k: "peek t u [124, 0] = (True, u)" and g: "gettoken t u = (124, u, u + 1, u + 1)"
    using peek_head [OF du(1)] gettoken_sym [OF du(1)] by (simp_all add: starts_def block_def)
  have p: "parsepipe (Suc (Suc (Suc (Suc m)))) t s = Some (Parsed (PIPE c1 c2, u + 1 + length (block (spell b))))"
    unfolding parsepipe_run [OF k g c1(1)] c2(1) by simp
  have "drop (u + 1 + length (block (spell b))) t = post" by (rule drop_more [OF du(2)])
  from line_end [OF p this fo] show "\<exists>c. parseline (Suc (Suc (Suc (Suc (Suc m))))) t s = Some (Parsed (c, s + length (spell (TPipe a b)))) \<and> raw t c = TPipe a b"
    using c1(2) c2(2) by (auto simp: u_def)
qed

lemma reads_list:
  assumes "sayable (TList a b)" "reads t a (Suc m)" "reads t b m"
  shows "reads t (TList a b) (Suc (Suc (Suc (Suc (Suc m)))))"
  unfolding reads_def
proof (intro allI impI)
  fix s post assume d0: "drop s t = spell (TList a b) @ post" and fo: "follow post"
  have ab: "sayable a" "sayable b" and d: "drop s t = block (spell a) @ 59 # block (spell b) @ post" using assms d0 by simp_all
  define u where "u = s + length (block (spell a))"
  have du: "drop u t = 59 # block (spell b) @ post" "drop (u + 1) t = block (spell b) @ post"
    using drop_more [OF d] drop_more [of u t "[59]"] by (simp_all add: u_def)
  note ih = reads_at [OF assms(2), of "s + 1"]
  have sa: "\<forall>post. follow post \<longrightarrow> starts (spell a @ post)" "starts (59 # block (spell b) @ post)"
    by (rule starts_all [OF ab(1)]) (simp add: starts_def)
  from block_exec [OF ih d sa] obtain c1 where c1: "parseexec (Suc (Suc (Suc m))) t s = Some (Parsed (c1, u))" "raw t c1 = a"
    by (auto simp: u_def)
  obtain c2 where c2: "parsepipe (Suc (Suc (Suc m))) t (u + 1) = Some (Parsed (c2, u + 1 + length (block (spell b))))" "raw t c2 = b"
    using block_pipe [OF reads_at [OF assms(3), of "u + 1 + 1"] du(2) starts_all [OF ab(2)] fo] by blast
  have st: "starts (59 # block (spell b) @ post)" by (simp add: starts_def)
  have p: "parsepipe (Suc (Suc (Suc (Suc m)))) t s = Some (Parsed (c1, u))" using pipe_end [OF c1(1) du(1) st] by simp
  have k: "peek t u [38, 0] = (False, u)" "peek t u [59, 0] = (True, u)" and g: "gettoken t u = (59, u, u + 1, u + 1)"
    using peek_head [OF du(1)] gettoken_sym [OF du(1)] by (simp_all add: starts_def block_def)
  have "drop (u + 1 + length (block (spell b))) t = post" by (rule drop_more [OF du(2)])
  note l = line_end [OF c2(1) this fo]
  show "\<exists>c. parseline (Suc (Suc (Suc (Suc (Suc m))))) t s = Some (Parsed (c, s + length (spell (TList a b)))) \<and> raw t c = TList a b"
    unfolding parseline_run [OF backs_stop [OF k(1)] k(2) g p] l using c1(2) c2(2) by (auto simp: u_def)
qed

lemma reads_back:
  assumes "sayable (TBack a)" "reads t a m"
  shows "reads t (TBack a) (Suc (Suc (Suc (Suc m))))"
  unfolding reads_def
proof (intro allI impI)
  fix s post assume d0: "drop s t = spell (TBack a) @ post" and fo: "follow post"
  have a: "sayable a" and d: "drop s t = block (spell a) @ 38 # post" using assms d0 by simp_all
  define u where "u = s + length (block (spell a))"
  have du: "drop u t = 38 # post" "drop (u + 1) t = post" using drop_more [OF d] drop_more [of u t "[38]"] by (simp_all add: u_def)
  note ih = reads_at [OF assms(2), of "s + 1"]
  have sa: "\<forall>post. follow post \<longrightarrow> starts (spell a @ post)" "starts (38 # post)"
    by (rule starts_all [OF a]) (simp add: starts_def)
  from block_exec [OF ih d sa] obtain c1 where c1: "parseexec (Suc (Suc m)) t s = Some (Parsed (c1, u))" "raw t c1 = a"
    by (auto simp: u_def)
  have st: "starts (38 # post)" "starts post" using follow_starts [OF fo] by (simp_all add: starts_def)
  have p: "parsepipe (Suc (Suc (Suc m))) t s = Some (Parsed (c1, u))" using pipe_end [OF c1(1) du(1) st(1)] by simp
  have k: "peek t u [38, 0] = (True, u)" and g: "gettoken t u = (38, u, u + 1, u + 1)"
    using peek_head [OF du(1)] gettoken_sym [OF du(1)] st by simp_all
  have k': "peek t (u + 1) [38, 0] = (False, u + 1)" "peek t (u + 1) [59, 0] = (False, u + 1)"
    using peek_no [OF du(2) st(2)] fo by (auto simp: follow_def)
  have b: "backs t u c1 = (BACK c1, u + 1)" using backs_step [OF k g] backs_stop [OF k'(1)] by simp
  obtain tok q e z where g': "gettoken t (u + 1) = (tok, q, e, z)" by (cases "gettoken t (u + 1)")
  show "\<exists>c. parseline (Suc (Suc (Suc (Suc m)))) t s = Some (Parsed (c, s + length (spell (TBack a)))) \<and> raw t c = TBack a" unfolding parseline_run [OF b k'(2) g' p] using c1(2) by (simp add: u_def)
qed

lemma parse_spelled: "sayable tr \<Longrightarrow> depth tr \<le> n \<Longrightarrow> reads t tr n"
proof (induction tr arbitrary: n)
  case (TExec ws)
  obtain m where "n = Suc (Suc (Suc m))" by (rule that [of "n - 3"]) (use TExec.prems(2) in simp)
  then show ?case using reads_exec [OF TExec.prems(1)] by simp
next
  case (TRedir c f mode fd)
  obtain m where "n = Suc (Suc (Suc (Suc m)))" "depth c \<le> m" by (rule that [of "n - 4"]) (use TRedir.prems(2) in simp_all)
  then show ?case using reads_redir [OF TRedir.prems(1)] TRedir.IH [of m] TRedir.prems(1) by simp
next
  case (TPipe a b)
  obtain m where "n = Suc (Suc (Suc (Suc (Suc m))))" "depth a \<le> Suc m" "depth b \<le> m"
    by (rule that [of "n - 5"]) (use TPipe.prems(2) in simp_all)
  then show ?case using reads_pipe [OF TPipe.prems(1)] TPipe.IH(1) [of "Suc m"] TPipe.IH(2) [of m] TPipe.prems(1) by simp
next
  case (TList a b)
  obtain m where "n = Suc (Suc (Suc (Suc (Suc m))))" "depth a \<le> Suc m" "depth b \<le> m"
    by (rule that [of "n - 5"]) (use TList.prems(2) in simp_all)
  then show ?case using reads_list [OF TList.prems(1)] TList.IH(1) [of "Suc m"] TList.IH(2) [of m] TList.prems(1) by simp
next
  case (TBack a)
  obtain m where "n = Suc (Suc (Suc (Suc m)))" "depth a \<le> m" by (rule that [of "n - 4"]) (use TBack.prems(2) in simp_all)
  then show ?case using reads_back [OF TBack.prems(1)] TBack.IH [of m] TBack.prems(1) by simp
qed

section \<open>The round trip\<close>

lemma depth_bound: "depth tr \<le> 4 * length (spell tr) + 4"
  by (induction tr) (simp_all add: block_def)

lemma spell_no_nul: "sayable tr \<Longrightarrow> 0 \<notin> set (spell tr)"
  by (induction tr) (auto simp: block_def spell_words_def proper_def)

lemma raw_tree:
  assumes "good_cmd t c" "0 \<notin> set t" "set (words d) \<subseteq> set (words c)"
  shows "tree_of (nulterminate c t) d = raw t d"
proof -
  have w: "str_at (nulterminate c t) (fst x) = word_at t x" if "x \<in> set (words c)" for x
    using nulterminate_str [OF assms(1) _ assms(2), of "fst x" "snd x"] that by (simp add: word_at_def split: prod.splits)
  show ?thesis using assms(3)
  proof (induction d)
    case (EXEC args)
    then show ?case using w by auto
  next
    case (REDIR d q e mode fd)
    then show ?case using w [of "(q, e)"] by simp
  qed auto
qed

lemma parsecmd_reads:
  assumes "sayable tr"
  shows "\<exists>c t. parsecmd (4 * length (spell tr) + 4) (spell tr) = Some (Parsed (c, t)) \<and> tree_of t c = tr"
proof -
  let ?t = "spell tr" and ?n = "4 * length (spell tr) + 4"
  obtain c where c: "parseline ?n ?t 0 = Some (Parsed (c, length ?t))" "raw ?t c = tr"
    using reads_at [OF parse_spelled [OF assms depth_bound, of ?t], of 0, rule_format, of "[]"] by (auto simp: follow_def)
  have "good_cmd ?t c" using parse_words [of ?n ?t] c(1) by blast
  then have "tree_of (nulterminate c ?t) c = tr" using raw_tree [OF _ spell_no_nul [OF assms]] c(2) by simp
  moreover have "peek ?t (length ?t) [0] = (False, length ?t)" by (simp add: peek_end)
  ultimately show ?thesis using c(1) by (simp add: parsecmd_def)
qed

text \<open>C11: the parser reads back every command: for a tree of commands, pipelines, lists, background commands and redirections whose words are
  proper, \<^verbatim>\<open>parsecmd\<close> on its spelling returns that tree, its words being the strings of the terminated line.\<close>

theorem parsecmd_spell:
  assumes "sayable tr"
  shows "\<exists>c t. parsecmd (4 * length (spell tr) + 4) (spell tr) = Some (Parsed (c, t)) \<and> tree_of t c = tr"
  by (rule parsecmd_reads [OF assms])

text \<open>\<^verbatim>\<open>(ls | wc) > out &\<close>, with parentheses.\<close>

definition tree_example :: tree where
  "tree_example = TBack (TRedir (TPipe (TExec [[108, 115]]) (TExec [[119, 99]])) [111, 117, 116] O_WRCREATE 1)"

theorem parsecmd_spell_witness:
  "sayable tree_example \<and> (\<exists>c t. parsecmd 88 (spell tree_example) = Some (Parsed (c, t)) \<and> tree_of t c = tree_example)"
proof -
  have s: "sayable tree_example" by (simp add: tree_example_def proper_def word_char_def MAXARGS_def)
  moreover have "length (spell tree_example) = 21"
    by (simp add: tree_example_def block_def spell_words_def)
  ultimately show ?thesis using parsecmd_spell [OF s] by simp
qed

end
