(* ===== verification/ShLine.thy ===== *)
theory ShLine
  imports ShTrip
begin

text \<open>
  Command lines as they are typed. \<open>say\<close> writes a command tree with parentheses only where the grammar of the shell needs
  them: \<^verbatim>\<open>|\<close> binds tighter than \<^verbatim>\<open>&\<close>, \<^verbatim>\<open>&\<close> tighter than \<^verbatim>\<open>;\<close>, and redirections follow the words of a command or a block. The
  parser reads such a line back as the tree.
\<close>

section \<open>Saying a tree\<close>

text \<open>The level of the place: 0 for a line, 1 before \<^verbatim>\<open>&\<close> and \<^verbatim>\<open>;\<close>, 2 for the end of a pipeline, 3 before \<^verbatim>\<open>|\<close> and redirections.\<close>

definition paren :: "bool \<Rightarrow> uchar list \<Rightarrow> uchar list" where
  "paren b x = (if b then block x else x)"

definition spell_redir :: "uchar list \<times> int \<times> int \<Rightarrow> uchar list" where
  "spell_redir = (\<lambda>(f, mode, fd). (if fd = 0 then 60 else 62) # f @ [32])"

primrec say :: "tree \<Rightarrow> nat \<Rightarrow> uchar list" where
  "say (TExec ws) n = spell_words ws"
| "say (TRedir c f mode fd) n = say c 3 @ spell_redir (f, mode, fd)"
| "say (TPipe a b) n = paren (2 < n) (say a 3 @ 124 # say b 2)"
| "say (TList a b) n = paren (0 < n) (say a 1 @ 59 # say b 0)"
| "say (TBack a) n = paren (1 < n) (say a 1 @ [38])"

section \<open>Redirections and words\<close>

definition okr :: "uchar list \<times> int \<times> int \<Rightarrow> bool" where
  "okr = (\<lambda>(f, mode, fd). proper f \<and> (mode, fd) \<in> {(O_RDONLY, 0), (O_WRCREATE, 1)})"

definition spell_redirs :: "(uchar list \<times> int \<times> int) list \<Rightarrow> uchar list" where
  "spell_redirs rs = concat (map spell_redir rs)"

fun rranges :: "nat \<Rightarrow> (uchar list \<times> int \<times> int) list \<Rightarrow> redir list" where
  "rranges s [] = []"
| "rranges s ((f, mode, fd) # rs) = (s + 1, s + 1 + length f, mode, fd) # rranges (s + length f + 2) rs"

definition redir_all :: "tree \<Rightarrow> (uchar list \<times> int \<times> int) list \<Rightarrow> tree" where
  "redir_all = foldl (\<lambda>tr (f, mode, fd). TRedir tr f mode fd)"

text \<open>What may follow a command, and a pipeline.\<close>

definition followE :: "uchar list \<Rightarrow> bool" where
  "followE xs \<longleftrightarrow> xs = [] \<or> hd xs \<in> {41, 124, 38, 59}"

definition followP :: "uchar list \<Rightarrow> bool" where
  "followP xs \<longleftrightarrow> xs = [] \<or> hd xs \<in> {41, 38, 59}"

lemma follow_levels: "follow xs \<Longrightarrow> followP xs" "followP xs \<Longrightarrow> followE xs" "followE xs \<Longrightarrow> starts xs"
  "followE xs \<Longrightarrow> xs = [] \<or> hd xs \<notin> {60, 62}"
  by (auto simp: follow_def followP_def followE_def starts_def)

lemma redirs_start:
  assumes "\<forall>r \<in> set rs. okr r" "followE post"
  shows "starts (spell_redirs rs @ post)" "spell_redirs rs @ post = [] \<or> hd (spell_redirs rs @ post) \<in> {60, 62, 41, 124, 38, 59}"
  using assms follow_levels(3) [OF assms(2)]
  by (cases rs; auto simp: spell_redirs_def spell_redir_def starts_def followE_def split: prod.splits if_splits)+

lemma redirs_spelled:
  assumes "drop s t = spell_redirs rs @ post" "\<forall>r \<in> set rs. okr r" "followE post"
  shows "parseredirs t s acc = Parsed (acc @ rranges s rs, s + length (spell_redirs rs))
    \<and> raw t (wrap (rranges s rs) c) = redir_all (raw t c) rs"
  using assms
proof (induction rs arbitrary: s acc c)
  case Nil
  then have d: "drop s t = post" by (simp add: spell_redirs_def)
  show ?case using redirs_none [OF d follow_levels(3,4) [OF Nil.prems(3)]] by (simp add: spell_redirs_def wrap_def redir_all_def)
next
  case (Cons r rs)
  obtain f mode fd where r: "r = (f, mode, fd)" by (cases r)
  let ?op = "if fd = 0 then 60 else 62 :: uchar" and ?post = "spell_redirs rs @ post"
  have f: "proper f" "(mode, fd) \<in> {(O_RDONLY, 0), (O_WRCREATE, 1)}" and rs: "\<forall>r \<in> set rs. okr r"
    using Cons.prems(2) r by (auto simp: okr_def)
  obtain y g where y: "f = y # g" "word_char y" "y \<noteq> 0" using f(1) by (cases f) (auto simp: proper_def)
  then have y': "\<not> found whitespace y" "y \<noteq> 62" by (auto simp: word_char_def)
  have d: "drop s t = ?op # f @ 32 # ?post" using Cons.prems(1) r by (simp add: spell_redirs_def spell_redir_def)
  have d1: "drop (s + 1) t = f @ 32 # ?post" using drop_more [of s t "[?op]"] d by simp
  define v where "v = s + length f + 2"
  have dv: "drop v t = ?post" using drop_more [of "s + 1" t "f @ [32]" ?post] d1 by (simp add: v_def)
  have k: "peek t s [60, 62, 0] = (True, s)" using peek_head [OF d] by simp
  have g1: "gettoken t s = (?op, s, s + 1, s + 1)"
    using gettoken_sym [of s t 60 "f @ 32 # ?post"] gettoken_gt [of s t y "g @ 32 # ?post"] d y y' by (auto simp: starts_def)
  have g2: "gettoken t (s + 1) = (97, s + 1, s + 1 + length f, v)"
    using gettoken_proper [OF d1 f(1) redirs_start(1) [OF rs Cons.prems(3)]] by (simp add: v_def)
  have "parseredirs t s acc = parseredirs t v (acc @ [(s + 1, s + 1 + length f, mode, fd)])"
    using parseredirs_step [OF k g1 g2] f(2) by auto
  moreover have "word_at t (s + 1, s + 1 + length f) = f" using d1 by (simp add: word_at_def)
  ultimately show ?case
    using Cons.IH [OF dv rs Cons.prems(3), of "acc @ [(s + 1, s + 1 + length f, mode, fd)]" "REDIR c (s + 1) (s + 1 + length f) mode fd"]
    by (simp add: r spell_redirs_def spell_redir_def v_def wrap_def redircmd_def redir_all_def)
qed

lemma args_end:
  assumes "drop s t = post" "followE post"
  shows "parseargs t s acc rs = Parsed (acc, rs, s)"
proof (cases post)
  case Nil
  then show ?thesis
    using assms parseargs_step [of t s s 0 s s s acc rs] peek_end [of s t] gettoken_end [of s t] by simp
next
  case (Cons x xs)
  then have "x \<in> {124, 41, 38, 59}" using assms(2) by (auto simp: followE_def)
  then have "peek t s [124, 41, 38, 59, 0] = (True, s)" using assms(1) Cons peek_head [of s t x xs] by auto
  then show ?thesis by (rule parseargs_stop)
qed

lemma args_spelled:
  assumes "drop s t = spell_words ws @ spell_redirs rs @ post" "\<forall>w \<in> set ws. proper w" "length acc + length ws < MAXARGS"
    "ws \<noteq> []" "\<forall>r \<in> set rs. okr r" "followE post"
  shows "parseargs t s acc ac2 = Parsed (acc @ ranges s ws, ac2 @ rranges (s + length (spell_words ws)) rs,
      s + length (spell_words ws) + length (spell_redirs rs)) \<and> map (word_at t) (ranges s ws) = ws"
  using assms
proof (induction ws arbitrary: s acc)
  case (Cons w ws)
  let ?z = "s + length w + 1" and ?xs = "spell_words ws @ spell_redirs rs @ post"
  have w: "proper w" and ws: "\<forall>w \<in> set ws. proper w" using Cons.prems(2) by simp_all
  have d: "drop s t = w @ 32 # ?xs" using Cons.prems(1) by (simp add: spell_words_def)
  have st: "starts ?xs \<and> (ws \<noteq> [] \<longrightarrow> hd ?xs \<notin> {60, 62})"
  proof (cases ws)
    case Nil
    then show ?thesis using redirs_start(1) [OF Cons.prems(5,6)] by (simp add: spell_words_def)
  next
    case (Cons u us)
    then obtain x v where "u = x # v" "word_char x" using ws by (cases u) (auto simp: proper_def)
    then show ?thesis using Cons by (auto simp: spell_words_def starts_def word_char_def)
  qed
  obtain x v where x: "w = x # v" "word_char x" "x \<noteq> 0" using w by (cases w) (auto simp: proper_def)
  have p: "peek t s [124, 41, 38, 59, 0] = (False, s)"
    using peek_head [of s t x "v @ 32 # ?xs"] d x by (auto simp: word_char_def)
  have g: "gettoken t s = (97, s, s + length w, ?z)" using gettoken_proper [OF d w] st by simp
  have dz: "drop ?z t = ?xs" using drop_more [of s t "w @ [32]" ?xs] d by simp
  note step = parseargs_step [OF p g, of acc ac2]
  show ?case
  proof (cases "ws = []")
    case True
    then have dr: "drop ?z t = spell_redirs rs @ post" using dz by (simp add: spell_words_def)
    have de: "drop (?z + length (spell_redirs rs)) t = post" by (rule drop_more [OF dr])
    show ?thesis
      using step redirs_spelled [OF dr Cons.prems(5,6), of ac2] args_end [OF de Cons.prems(6)] Cons.prems(3) True
      by (simp add: spell_words_def word_at_def d MAXARGS_def)
  next
    case False
    then have "parseredirs t ?z ac2 = Parsed (ac2, ?z)" using redirs_none [OF dz] st by auto
    then have "parseargs t s acc ac2 = parseargs t ?z (acc @ [(s, s + length w)]) ac2"
      using Cons.prems(3) step by (simp add: MAXARGS_def)
    with Cons.IH [OF dz ws _ False Cons.prems(5,6), of "acc @ [(s, s + length w)]"] Cons.prems(3) show ?thesis
      by (simp add: spell_words_def word_at_def d add.assoc)
  qed
qed simp

section \<open>The levels of the grammar\<close>

text \<open>The parser reads the tree at a place of the level, with calls nested \<open>m\<close> deep or deeper.\<close>

definition reads_exec_at :: "uchar list \<Rightarrow> tree \<Rightarrow> nat \<Rightarrow> bool" where
  "reads_exec_at t tr m \<longleftrightarrow> (\<forall>n \<ge> m. \<forall>s rs post. (\<forall>r \<in> set rs. okr r) \<longrightarrow> drop s t = say tr 3 @ spell_redirs rs @ post \<longrightarrow> followE post \<longrightarrow>
     (\<exists>c. parseexec n t s = Some (Parsed (c, s + length (say tr 3) + length (spell_redirs rs))) \<and> raw t c = redir_all tr rs))"

definition reads_pipe_at :: "uchar list \<Rightarrow> tree \<Rightarrow> nat \<Rightarrow> bool" where
  "reads_pipe_at t tr m \<longleftrightarrow> (\<forall>n \<ge> m. \<forall>s post. drop s t = say tr 2 @ post \<longrightarrow> followP post \<longrightarrow>
     (\<exists>c. parsepipe n t s = Some (Parsed (c, s + length (say tr 2))) \<and> raw t c = tr))"

definition reads_back_at :: "uchar list \<Rightarrow> tree \<Rightarrow> nat \<Rightarrow> bool" where
  "reads_back_at t tr m \<longleftrightarrow> (\<forall>n \<ge> m. \<forall>s post. drop s t = say tr 1 @ post \<longrightarrow> followP post \<longrightarrow>
     (\<exists>c0 s0 c. parsepipe n t s = Some (Parsed (c0, s0)) \<and> backs t s0 c0 = backs t (s + length (say tr 1)) c \<and> raw t c = tr))"

definition reads_line_at :: "uchar list \<Rightarrow> tree \<Rightarrow> nat \<Rightarrow> bool" where
  "reads_line_at t tr m \<longleftrightarrow> (\<forall>n \<ge> m. \<forall>s post. drop s t = say tr 0 @ post \<longrightarrow> follow post \<longrightarrow>
     (\<exists>c. parseline n t s = Some (Parsed (c, s + length (say tr 0))) \<and> raw t c = tr))"

lemmas reads_at_defs = reads_exec_at_def reads_pipe_at_def reads_back_at_def reads_line_at_def

lemma reads_mono:
  "reads_exec_at t tr m \<Longrightarrow> m \<le> k \<Longrightarrow> reads_exec_at t tr k" "reads_pipe_at t tr m \<Longrightarrow> m \<le> k \<Longrightarrow> reads_pipe_at t tr k"
  "reads_back_at t tr m \<Longrightarrow> m \<le> k \<Longrightarrow> reads_back_at t tr k" "reads_line_at t tr m \<Longrightarrow> m \<le> k \<Longrightarrow> reads_line_at t tr k"
  unfolding reads_at_defs by (meson le_trans)+

lemma starts_cons: "starts (x # xs) \<longleftrightarrow> \<not> found whitespace x"
  by (simp add: starts_def)

lemma say_start:
  assumes "sayable tr" "starts post"
  shows "starts (say tr n @ post)"
  using assms
proof (induction tr arbitrary: n post)
  case (TExec ws)
  then show ?case
  proof (cases ws)
    case (Cons w vs)
    then obtain x v where "w = x # v" "word_char x" using TExec.prems(1) by (cases w) (auto simp: proper_def)
    then show ?thesis using Cons by (auto simp: spell_words_def starts_def word_char_def)
  qed (simp add: spell_words_def)
next
  case (TRedir c f mode fd)
  then show ?case using TRedir.IH [of "spell_redir (f, mode, fd) @ post" 3] by (simp add: spell_redir_def starts_cons)
next
  case (TPipe a b)
  then show ?case using TPipe.IH(1) [of "124 # say b 2 @ post" 3] by (simp add: paren_def block_def starts_cons)
next
  case (TList a b)
  then show ?case using TList.IH(1) [of "59 # say b 0 @ post" 1] by (simp add: paren_def block_def starts_cons)
next
  case (TBack a)
  then show ?case using TBack.IH [of "38 # post" 1] by (simp add: paren_def block_def starts_cons)
qed

lemma exec_pipe:
  assumes "reads_exec_at t tr m" "say tr 2 = say tr 3"
  shows "reads_pipe_at t tr (Suc m)"
  unfolding reads_pipe_at_def
proof (intro allI impI)
  fix n s post assume n: "Suc m \<le> n" and d: "drop s t = say tr 2 @ post" and f: "followP post"
  obtain k where k: "n = Suc k" "m \<le> k" using n by (cases n) auto
  have "drop s t = say tr 3 @ spell_redirs [] @ post" using d assms(2) by (simp add: spell_redirs_def)
  from assms(1) [unfolded reads_exec_at_def, rule_format, OF k(2) _ this follow_levels(2) [OF f]] assms(2)
  obtain c where c: "parseexec k t s = Some (Parsed (c, s + length (say tr 2)))" "raw t c = tr"
    by (auto simp: spell_redirs_def redir_all_def)
  have "post = [] \<or> hd post \<noteq> 124" using f by (auto simp: followP_def)
  from pipe_end [OF c(1) drop_more [OF d] follow_levels(3) [OF follow_levels(2) [OF f]] this] c(2) k(1)
  show "\<exists>c. parsepipe n t s = Some (Parsed (c, s + length (say tr 2))) \<and> raw t c = tr" by simp
qed

lemma pipe_back: "reads_pipe_at t tr m \<Longrightarrow> say tr 1 = say tr 2 \<Longrightarrow> reads_back_at t tr m"
  unfolding reads_pipe_at_def reads_back_at_def by metis

lemma back_line:
  assumes "reads_back_at t tr m" "say tr 0 = say tr 1"
  shows "reads_line_at t tr (Suc m)"
  unfolding reads_line_at_def
proof (intro allI impI)
  fix n s post assume n: "Suc m \<le> n" and d: "drop s t = say tr 0 @ post" and f: "follow post"
  obtain k where k: "n = Suc k" "m \<le> k" using n by (cases n) auto
  let ?u = "s + length (say tr 0)"
  obtain c0 s0 c where c: "parsepipe k t s = Some (Parsed (c0, s0))" "backs t s0 c0 = backs t ?u c" "raw t c = tr"
    using assms k(2) d follow_levels(1) [OF f] unfolding reads_back_at_def by metis
  have du: "drop ?u t = post" by (rule drop_more [OF d])
  have p: "peek t ?u [38, 0] = (False, ?u)" "peek t ?u [59, 0] = (False, ?u)"
    using peek_no [OF du follow_starts [OF f]] f by (auto simp: follow_def)
  obtain tok q e z where g: "gettoken t ?u = (tok, q, e, z)" by (cases "gettoken t ?u")
  have "backs t s0 c0 = (c, ?u)" using c(2) backs_stop [OF p(1)] by simp
  from parseline_run [OF this p(2) g c(1)] c(3) k(1)
  show "\<exists>c. parseline n t s = Some (Parsed (c, ?u)) \<and> raw t c = tr" by simp
qed

lemma line_exec:
  assumes "reads_line_at t tr m" "say tr 3 = block (say tr 0)" "sayable tr"
  shows "reads_exec_at t tr (Suc (Suc m))"
  unfolding reads_exec_at_def
proof (intro allI impI)
  fix n s rs post assume n: "Suc (Suc m) \<le> n" and rs: "\<forall>r \<in> set rs. okr r"
    and d: "drop s t = say tr 3 @ spell_redirs rs @ post" and f: "followE post"
  obtain k where k: "n = Suc (Suc k)" "m \<le> k" using n by (metis Suc_le_D Suc_le_mono)
  let ?x = "say tr 0" and ?rest = "spell_redirs rs @ post"
  have d0: "drop s t = block ?x @ ?rest" using d assms(2) by simp
  have "drop (s + 1) t = ?x @ 41 # ?rest" using d0 drop_more [of s t "[40]"] by (simp add: block_def)
  moreover have "follow (41 # ?rest)" by (simp add: follow_def)
  ultimately obtain c where c: "parseline k t (s + 1) = Some (Parsed (c, s + 1 + length ?x))" "raw t c = tr"
    using assms(1) k(2) unfolding reads_line_at_def by blast
  note r = redirs_spelled [OF drop_more [OF d0] rs f, of "[]" c]
  have "starts (?x @ 41 # ?rest)" by (rule say_start [OF assms(3)]) (simp add: starts_def)
  from block_run [OF c(1) d0 this redirs_start(1) [OF rs f], of "rranges (s + length (block ?x)) rs"] r c(2) k(1) assms(2)
  show "\<exists>c. parseexec n t s = Some (Parsed (c, s + length (say tr 3) + length (spell_redirs rs))) \<and> raw t c = redir_all tr rs" by auto
qed

lemma exec_words:
  assumes "sayable (TExec ws)"
  shows "reads_exec_at t (TExec ws) 1"
  unfolding reads_exec_at_def
proof (intro allI impI)
  fix n :: nat and s rs post assume n: "1 \<le> n" and rs: "\<forall>r \<in> set rs. okr r"
    and d0: "drop s t = say (TExec ws) 3 @ spell_redirs rs @ post" and f: "followE post"
  obtain k where k: "n = Suc k" using n by (cases n) auto
  have d: "drop s t = spell_words ws @ spell_redirs rs @ post" using d0 by simp
  have ws: "\<forall>w \<in> set ws. proper w" "length ws < MAXARGS" using assms by simp_all
  show "\<exists>c. parseexec n t s = Some (Parsed (c, s + length (say (TExec ws) 3) + length (spell_redirs rs)))
      \<and> raw t c = redir_all (TExec ws) rs"
  proof (cases "ws = []")
    case True
    then have dr: "drop s t = spell_redirs rs @ post" using d by (simp add: spell_words_def)
    note r = redirs_spelled [OF dr rs f, of "[]" "EXEC []"]
    have "peek t s [40, 0] = (False, s)" using peek_no [OF dr redirs_start(1) [OF rs f], of "[40, 0]"] redirs_start(2) [OF rs f] by auto
    from parseexec_run [OF this, of k] r args_end [OF drop_more [OF dr] f, of "[]" "rranges s rs"] k True show ?thesis
      by (simp add: plain_def spell_words_def)
  next
    case False
    then obtain w us where w: "ws = w # us" by (cases ws) auto
    then obtain x v where x: "w = x # v" "word_char x" using ws(1) by (cases w) (auto simp: proper_def)
    have dx: "drop s t = x # v @ 32 # spell_words us @ spell_redirs rs @ post" using d w x by (simp add: spell_words_def)
    have st: "\<not> found whitespace x" "x \<notin> {60, 62, 40}" using x(2) by (auto simp: word_char_def)
    have p: "peek t s [40, 0] = (False, s)" using peek_head [OF dx st(1)] st(2) by auto
    have r: "parseredirs t s [] = Parsed ([], s)" using redirs_none [OF dx] st by (auto simp: starts_def)
    note a = args_spelled [OF d ws(1) _ False rs f, of "[]" "[]"]
    have "raw t (wrap (rranges (s + length (spell_words ws)) rs) (EXEC (ranges s ws))) = redir_all (raw t (EXEC (ranges s ws))) rs"
      using redirs_spelled [OF drop_more [OF d] rs f] by blast
    with parseexec_run [OF p, of k] r a ws(2) k show ?thesis by (simp add: plain_def)
  qed
qed

lemma exec_redir:
  assumes "reads_exec_at t c m" "okr (f, mode, fd)"
  shows "reads_exec_at t (TRedir c f mode fd) m"
  unfolding reads_exec_at_def
proof (intro allI impI)
  fix n s rs post assume n: "m \<le> n" and rs: "\<forall>r \<in> set rs. okr r"
    and d: "drop s t = say (TRedir c f mode fd) 3 @ spell_redirs rs @ post" and fo: "followE post"
  have "drop s t = say c 3 @ spell_redirs ((f, mode, fd) # rs) @ post" using d by (simp add: spell_redirs_def)
  moreover have "\<forall>r \<in> set ((f, mode, fd) # rs). okr r" using rs assms(2) by simp
  ultimately obtain x where "parseexec n t s = Some (Parsed (x, s + length (say c 3) + length (spell_redirs ((f, mode, fd) # rs))))"
    "raw t x = redir_all c ((f, mode, fd) # rs)"
    using assms(1) n fo unfolding reads_exec_at_def by blast
  then show "\<exists>x. parseexec n t s = Some (Parsed (x, s + length (say (TRedir c f mode fd) 3) + length (spell_redirs rs)))
      \<and> raw t x = redir_all (TRedir c f mode fd) rs"
    by (simp add: spell_redirs_def redir_all_def add.assoc)
qed

lemma pipe_pipe:
  assumes "reads_exec_at t a m" "reads_pipe_at t b m" "sayable b"
  shows "reads_pipe_at t (TPipe a b) (Suc m)"
  unfolding reads_pipe_at_def
proof (intro allI impI)
  fix n s post assume n: "Suc m \<le> n" and d0: "drop s t = say (TPipe a b) 2 @ post" and f: "followP post"
  obtain k where k: "n = Suc k" "m \<le> k" using n by (cases n) auto
  have d: "drop s t = say a 3 @ spell_redirs [] @ 124 # say b 2 @ post" using d0 by (simp add: paren_def spell_redirs_def)
  define u where "u = s + length (say a 3)"
  have "followE (124 # say b 2 @ post)" by (simp add: followE_def)
  from assms(1) [unfolded reads_exec_at_def, rule_format, OF k(2) _ d this] obtain c1 where
    c1: "parseexec k t s = Some (Parsed (c1, u))" "raw t c1 = a" by (auto simp: spell_redirs_def redir_all_def u_def)
  have du: "drop u t = 124 # say b 2 @ post" "drop (u + 1) t = say b 2 @ post"
    using drop_more [of s t "say a 3"] drop_more [of u t "[124]"] d by (simp_all add: u_def spell_redirs_def)
  obtain c2 where c2: "parsepipe k t (u + 1) = Some (Parsed (c2, u + 1 + length (say b 2)))" "raw t c2 = b"
    using assms(2) k(2) du(2) f unfolding reads_pipe_at_def by blast
  have "starts (say b 2 @ post)" by (rule say_start [OF assms(3) follow_levels(3) [OF follow_levels(2) [OF f]]])
  then have p: "peek t u [124, 0] = (True, u)" "gettoken t u = (124, u, u + 1, u + 1)"
    using peek_head [OF du(1)] gettoken_sym [OF du(1)] by simp_all
  show "\<exists>c. parsepipe n t s = Some (Parsed (c, s + length (say (TPipe a b) 2))) \<and> raw t c = TPipe a b"
    unfolding k(1) parsepipe_run [OF p c1(1)] c2(1) using c1(2) c2(2) by (simp add: u_def paren_def)
qed

lemma back_back:
  assumes "reads_back_at t a m"
  shows "reads_back_at t (TBack a) m"
  unfolding reads_back_at_def
proof (intro allI impI)
  fix n s post assume n: "m \<le> n" and d0: "drop s t = say (TBack a) 1 @ post" and f: "followP post"
  have d: "drop s t = say a 1 @ 38 # post" using d0 by (simp add: paren_def)
  define u where "u = s + length (say a 1)"
  have "followP (38 # post)" by (simp add: followP_def)
  with assms n d obtain c0 s0 c where c: "parsepipe n t s = Some (Parsed (c0, s0))" "backs t s0 c0 = backs t u c" "raw t c = a"
    unfolding reads_back_at_def u_def by metis
  have du: "drop u t = 38 # post" using drop_more [OF d] by (simp add: u_def)
  have "peek t u [38, 0] = (True, u)" "gettoken t u = (38, u, u + 1, u + 1)"
    using peek_head [OF du] gettoken_sym [OF du] follow_levels(3) [OF follow_levels(2) [OF f]] by simp_all
  then have "backs t u c = backs t (u + 1) (BACK c)" by (rule backs_step)
  with c show "\<exists>c0 s0 c. parsepipe n t s = Some (Parsed (c0, s0)) \<and> backs t s0 c0 = backs t (s + length (say (TBack a) 1)) c \<and> raw t c = TBack a"
    by (intro exI [of _ c0] exI [of _ s0] exI [of _ "BACK c"]) (simp add: u_def paren_def)
qed

lemma line_list:
  assumes "reads_back_at t a m" "reads_line_at t b m" "sayable b"
  shows "reads_line_at t (TList a b) (Suc m)"
  unfolding reads_line_at_def
proof (intro allI impI)
  fix n s post assume n: "Suc m \<le> n" and d0: "drop s t = say (TList a b) 0 @ post" and f: "follow post"
  obtain k where k: "n = Suc k" "m \<le> k" using n by (cases n) auto
  have d: "drop s t = say a 1 @ 59 # say b 0 @ post" using d0 by (simp add: paren_def)
  define u where "u = s + length (say a 1)"
  have "followP (59 # say b 0 @ post)" by (simp add: followP_def)
  with assms(1) k(2) d obtain c0 s0 c where c: "parsepipe k t s = Some (Parsed (c0, s0))" "backs t s0 c0 = backs t u c" "raw t c = a"
    unfolding reads_back_at_def u_def by metis
  have du: "drop u t = 59 # say b 0 @ post" "drop (u + 1) t = say b 0 @ post"
    using drop_more [OF d] drop_more [of u t "[59]"] by (simp_all add: u_def)
  obtain c2 where c2: "parseline k t (u + 1) = Some (Parsed (c2, u + 1 + length (say b 0)))" "raw t c2 = b"
    using assms(2) k(2) du(2) f unfolding reads_line_at_def by blast
  have "starts (say b 0 @ post)" by (rule say_start [OF assms(3) follow_starts [OF f]])
  then have p: "peek t u [38, 0] = (False, u)" "peek t u [59, 0] = (True, u)" "gettoken t u = (59, u, u + 1, u + 1)"
    using peek_head [OF du(1)] gettoken_sym [OF du(1)] by simp_all
  have b: "backs t s0 c0 = (c, u)" using c(2) backs_stop [OF p(1)] by simp
  show "\<exists>c. parseline n t s = Some (Parsed (c, s + length (say (TList a b) 0))) \<and> raw t c = TList a b"
    unfolding k(1) parseline_run [OF b p(2,3) c(1)] c2(1) using c(3) c2(2) by (simp add: u_def paren_def)
qed

primrec nest :: "tree \<Rightarrow> nat" where
  "nest (TExec ws) = 4"
| "nest (TRedir c f mode fd) = 2 + nest c"
| "nest (TPipe a b) = 4 + max (nest a) (nest b)"
| "nest (TList a b) = 4 + max (nest a) (nest b)"
| "nest (TBack a) = 4 + nest a"

text \<open>A tree is read at every level.\<close>

definition reads_all :: "uchar list \<Rightarrow> tree \<Rightarrow> nat \<Rightarrow> bool" where
  "reads_all t tr m \<longleftrightarrow> reads_exec_at t tr m \<and> reads_pipe_at t tr m \<and> reads_back_at t tr m \<and> reads_line_at t tr m"

lemma reads_all_mono: "reads_all t tr m \<Longrightarrow> m \<le> k \<Longrightarrow> reads_all t tr k"
  using reads_mono by (auto simp: reads_all_def)

lemma reads_allI:
  assumes "reads_exec_at t tr i" "reads_pipe_at t tr j" "reads_back_at t tr k" "reads_line_at t tr l" "i \<le> m" "j \<le> m" "k \<le> m" "l \<le> m"
  shows "reads_all t tr m"
  unfolding reads_all_def using assms by (blast intro: reads_mono)

lemma say_read: "sayable tr \<Longrightarrow> reads_all t tr (nest tr)"
proof (induction tr)
  case (TExec ws)
  have x: "reads_exec_at t (TExec ws) 1" by (rule exec_words [OF TExec])
  have p: "reads_pipe_at t (TExec ws) (Suc 1)" by (rule exec_pipe [OF x]) simp
  have b: "reads_back_at t (TExec ws) (Suc 1)" by (rule pipe_back [OF p]) simp
  have l: "reads_line_at t (TExec ws) (Suc (Suc 1))" by (rule back_line [OF b]) simp
  show ?case by (rule reads_allI [OF x p b l]; unfold nest.simps; linarith)
next
  case (TRedir c f mode fd)
  let ?tr = "TRedir c f mode fd" and ?m = "nest c"
  have "okr (f, mode, fd)" using TRedir.prems by (auto simp: okr_def)
  then have x: "reads_exec_at t ?tr ?m" using TRedir by (intro exec_redir) (auto simp: reads_all_def)
  have p: "reads_pipe_at t ?tr (Suc ?m)" by (rule exec_pipe [OF x]) simp
  have b: "reads_back_at t ?tr (Suc ?m)" by (rule pipe_back [OF p]) simp
  have l: "reads_line_at t ?tr (Suc (Suc ?m))" by (rule back_line [OF b]) simp
  show ?case by (rule reads_allI [OF x p b l]; unfold nest.simps; linarith)
next
  case (TPipe a b)
  let ?tr = "TPipe a b" and ?m = "max (nest a) (nest b)"
  have "reads_all t a ?m" "reads_all t b ?m" using TPipe reads_all_mono by auto
  then have p: "reads_pipe_at t ?tr (Suc ?m)" using TPipe.prems by (intro pipe_pipe) (auto simp: reads_all_def)
  have b: "reads_back_at t ?tr (Suc ?m)" by (rule pipe_back [OF p]) (simp add: paren_def)
  have l: "reads_line_at t ?tr (Suc (Suc ?m))" by (rule back_line [OF b]) (simp add: paren_def)
  have x: "reads_exec_at t ?tr (Suc (Suc (Suc (Suc ?m))))" by (rule line_exec [OF l _ TPipe.prems]) (simp add: paren_def)
  show ?case by (rule reads_allI [OF x p b l]; unfold nest.simps; linarith)
next
  case (TList a b)
  let ?tr = "TList a b" and ?m = "max (nest a) (nest b)"
  have "reads_all t a ?m" "reads_all t b ?m" using TList reads_all_mono by auto
  then have l: "reads_line_at t ?tr (Suc ?m)" using TList.prems by (intro line_list) (auto simp: reads_all_def)
  have x: "reads_exec_at t ?tr (Suc (Suc (Suc ?m)))" by (rule line_exec [OF l _ TList.prems]) (simp add: paren_def)
  have p: "reads_pipe_at t ?tr (Suc (Suc (Suc (Suc ?m))))" by (rule exec_pipe [OF x]) (simp add: paren_def)
  have b: "reads_back_at t ?tr (Suc (Suc (Suc (Suc ?m))))" by (rule pipe_back [OF p]) (simp add: paren_def)
  show ?case by (rule reads_allI [OF x p b l]; unfold nest.simps; linarith)
next
  case (TBack a)
  let ?tr = "TBack a" and ?m = "nest a"
  have b: "reads_back_at t ?tr ?m" using TBack by (intro back_back) (auto simp: reads_all_def)
  have l: "reads_line_at t ?tr (Suc ?m)" by (rule back_line [OF b]) (simp add: paren_def)
  have x: "reads_exec_at t ?tr (Suc (Suc (Suc ?m)))" by (rule line_exec [OF l _ TBack.prems]) (simp add: paren_def)
  have p: "reads_pipe_at t ?tr (Suc (Suc (Suc (Suc ?m))))" by (rule exec_pipe [OF x]) (simp add: paren_def)
  show ?case by (rule reads_allI [OF x p b l]; unfold nest.simps; linarith)
qed

section \<open>Reading a line\<close>

lemma nest_bound: "nest tr \<le> 4 * length (say tr n) + 4"
proof (induction tr arbitrary: n)
  case (TRedir c f mode fd)
  show ?case using TRedir [of 3] by (simp add: spell_redir_def)
next
  case (TPipe a b)
  show ?case using TPipe.IH(1) [of 3] TPipe.IH(2) [of 2] by (simp add: paren_def block_def)
next
  case (TList a b)
  show ?case using TList.IH(1) [of 1] TList.IH(2) [of 0] by (simp add: paren_def block_def)
next
  case (TBack a)
  show ?case using TBack.IH [of 1] by (simp add: paren_def block_def)
qed simp

lemma say_no_nul: "sayable tr \<Longrightarrow> 0 \<notin> set (say tr n)"
  by (induction tr arbitrary: n) (auto simp: paren_def block_def spell_words_def spell_redir_def proper_def)

text \<open>The depth \<open>run_line\<close> allows is enough, and the words are the strings of the terminated line.\<close>

lemma parsecmd_says:
  assumes "sayable tr"
  shows "\<exists>c t. parsecmd (4 * length (say tr 0) + 4) (say tr 0) = Some (Parsed (c, t)) \<and> tree_of t c = tr"
proof -
  let ?t = "say tr 0" and ?n = "4 * length (say tr 0) + 4"
  have "reads_line_at ?t tr ?n"
    using reads_all_mono [OF say_read [OF assms] nest_bound, of ?t 0] by (simp add: reads_all_def)
  from this [unfolded reads_line_at_def, rule_format, of ?n 0 "[]"]
  obtain c where c: "parseline ?n ?t 0 = Some (Parsed (c, length ?t))" "raw ?t c = tr" by (auto simp: follow_def)
  have "good_cmd ?t c" using parse_words [of ?n ?t] c(1) by blast
  then have "tree_of (nulterminate c ?t) c = tr" using raw_tree [OF _ say_no_nul [OF assms]] c(2) by simp
  moreover have "peek ?t (length ?t) [0] = (False, length ?t)" by (simp add: peek_end)
  ultimately show ?thesis using c(1) by (simp add: parsecmd_def)
qed

end
