(* ===== verification/ShRun.thy ===== *)
theory ShRun
  imports ShLine
begin

text \<open>
  What \<^verbatim>\<open>runcmd\<close> does with descriptors and errors. The tree of system calls is run on a table of descriptors, \<^verbatim>\<open>open\<close>, \<^verbatim>\<open>dup\<close> and \<^verbatim>\<open>pipe\<close>
  taking the lowest free ones as \<^verbatim>\<open>fdalloc\<close> does; the result is the list of the programs started, each with its descriptors, and
  of the messages printed. Any \<^verbatim>\<open>open\<close>, \<^verbatim>\<open>fork\<close>, \<^verbatim>\<open>pipe\<close>, \<^verbatim>\<open>exec\<close> or \<^verbatim>\<open>chdir\<close> may fail. The specification says directly what is connected to what,
  and what is given up after a failure, for the tree a command line says.
\<close>

section \<open>Running the system calls\<close>

text \<open>
  A file opened by the shell, the ends of a pipe, or a file that was open before. A pipe is named by the place in the run where it was
  made. Places are lists: a child goes on at \<open>0 # w\<close> and its parent at \<open>1 # w\<close> after a \<^verbatim>\<open>fork\<close> at \<open>w\<close>, and a process at \<open>2 # w\<close> after one
  of the other calls that may fail, so that different calls are at different places.
\<close>

datatype obj = Opened "uchar list" int | PipeR "nat list" | PipeW "nat list" | Given nat

type_synonym fds = "nat \<rightharpoonup> obj"

datatype event = Starts "uchar list" "uchar list list" fds | Says "uchar list"

definition lowest :: "fds \<Rightarrow> nat option" where
  "lowest f = find (\<lambda>n. f n = None) [0..<16]"

definition install :: "fds \<Rightarrow> obj \<Rightarrow> int \<times> fds" where
  "install f x = (case lowest f of None \<Rightarrow> (-1, f) | Some n \<Rightarrow> (int n, f(n := Some x)))"

text \<open>
  \<open>ok w\<close> says whether the call at place \<open>w\<close> gets what it needs of the rest of the system: for \<^verbatim>\<open>open\<close> and \<^verbatim>\<open>chdir\<close> the file, for \<^verbatim>\<open>exec\<close> the program,
  for \<^verbatim>\<open>fork\<close> and \<^verbatim>\<open>pipe\<close> a free slot and memory. The events of a child are listed before those of its parent.
\<close>

primrec runs :: "(nat list \<Rightarrow> bool) \<Rightarrow> prog \<Rightarrow> nat list \<Rightarrow> fds \<Rightarrow> event list" where
  "runs ok SExit w f = []"
| "runs ok (SExec path argv k) w f = (if ok w then [Starts path argv f] else runs ok k (2 # w) f)"
| "runs ok (SOpen path mode k) w f =
     (if ok w then (case install f (Opened path mode) of (r, f) \<Rightarrow> runs ok (k r) (2 # w) f)
      else runs ok (k (-1)) (2 # w) f)"
| "runs ok (SClose d k) w f = runs ok k w (f(nat d := None))"
| "runs ok (SDup d k) w f =
     (case f (nat d) of
        None \<Rightarrow> runs ok (k (-1)) w f
      | Some x \<Rightarrow> (case install f x of (r, f) \<Rightarrow> runs ok (k r) w f))"
| "runs ok (SPipe k) w f =
     (case install f (PipeR w) of (r0, f1) \<Rightarrow>
      case install f1 (PipeW w) of (r1, f2) \<Rightarrow>
      if \<not> ok w \<or> r0 < 0 \<or> r1 < 0 then runs ok (k (-1) 0 0) (2 # w) f else runs ok (k 0 r0 r1) (2 # w) f2)"
| "runs ok (SFork k) w f = (if ok w then runs ok (k 0) (0 # w) f @ runs ok (k 1) (1 # w) f else runs ok (k (-1)) (2 # w) f)"
| "runs ok (SWait k) w f = runs ok k w f"
| "runs ok (SChdir path k) w f = runs ok (k (if ok w then 0 else -1)) (2 # w) f"
| "runs ok (SPrint msg k) w f = Says msg # runs ok k w f"

section \<open>The specification\<close>

text \<open>
  A command is started with the descriptors of its place, or a message says that it was not found. A file that cannot be opened ends
  what it was opened for. A pipe connects its two sides, which run in processes of their own; without the pipe or the first process
  neither side is run, and without the second process only the left one.
\<close>

primrec wired :: "(nat list \<Rightarrow> bool) \<Rightarrow> tree \<Rightarrow> nat list \<Rightarrow> fds \<Rightarrow> event list" where
  "wired ok (TExec ws) w f =
     (if ws = [] then [] else if ok w then [Starts (hd ws) ws f] else [Says (failed ''exec'' (hd ws))])"
| "wired ok (TRedir c file mode fd) w f =
     (if ok w then wired ok c (2 # w) (f(nat fd := Some (Opened file mode))) else [Says (failed ''open'' file)])"
| "wired ok (TPipe a b) w f =
     (if \<not> ok w then [Says (message ''pipe'')]
      else if \<not> ok (2 # w) then [Says (message ''fork'')]
      else wired ok a (0 # 2 # w) (f(1 := Some (PipeW w)))
        @ (if ok (1 # 2 # w) then wired ok b (0 # 1 # 2 # w) (f(0 := Some (PipeR w))) else [Says (message ''fork'')]))"
| "wired ok (TList a b) w f = (if ok w then wired ok a (0 # w) f @ wired ok b (1 # w) f else [Says (message ''fork'')])"
| "wired ok (TBack a) w f = (if ok w then wired ok a (0 # w) f else [Says (message ''fork'')])"

section \<open>The shell implements it\<close>

lemma find_upt: "n < k \<Longrightarrow> P n \<Longrightarrow> (\<And>m. m < n \<Longrightarrow> \<not> P m) \<Longrightarrow> find P [0..<k] = Some n"
  unfolding find_Some_iff by (rule exI [of _ n]) simp

lemma install_lowest: "n < 16 \<Longrightarrow> f n = None \<Longrightarrow> (\<And>m. m < n \<Longrightarrow> f m \<noteq> None) \<Longrightarrow> install f x = (int n, f(n := Some x))"
  apply (subgoal_tac "find (\<lambda>n. f n = None) [0..<16] = Some n")
   apply (simp only: install_def lowest_def option.case)
  apply (rule find_upt; simp)
  done

lemma below: "m < (1 :: nat) \<longleftrightarrow> m = 0" "m < (3 :: nat) \<longleftrightarrow> m \<in> {0, 1, 2}" "m < (4 :: nat) \<longleftrightarrow> m \<in> {0, 1, 2, 3}"
  by auto

text \<open>With exactly the standard descriptors open, \<^verbatim>\<open>pipe\<close> takes 3 and 4, and a standard descriptor just closed is the next one taken.\<close>

lemma std_open:
  fixes f :: fds
  assumes "dom f = {0, 1, 2}"
  shows "f 0 \<noteq> None" "f (Suc 0) \<noteq> None" "f 2 \<noteq> None" "f 3 = None" "f 4 = None"
proof -
  have "f n \<noteq> None \<longleftrightarrow> n \<in> {0, 1, 2}" for n using assms domIff [of n f] by simp
  from this [of 0] this [of 1] this [of 2] this [of 3] this [of 4]
  show "f 0 \<noteq> None" "f (Suc 0) \<noteq> None" "f 2 \<noteq> None" "f 3 = None" "f 4 = None" by simp_all
qed

lemma dom_std:
  fixes f :: fds
  assumes "dom f = {0, 1, 2}" "d < 3"
  shows "dom (f(d := Some v)) = {0, 1, 2}"
proof -
  have "insert d (dom f) = dom f" using assms by (auto simp: below)
  then show ?thesis using assms(1) by simp
qed

lemma install_pipe:
  assumes "dom f = {0, 1, 2}"
  shows "install f x = (3, f(3 := Some x))" "install (f(3 := Some x)) y = (4, f(3 := Some x, 4 := Some y))"
proof -
  note o = std_open [OF assms]
  show "install f x = (3, f(3 := Some x))"
    using install_lowest [of 3 f x] o by (fastforce simp: below)
  have "(f(3 := Some x)) m \<noteq> None" if "m < 4" for m using that o by (auto simp: below)
  then show "install (f(3 := Some x)) y = (4, f(3 := Some x, 4 := Some y))"
    using install_lowest [of 4 "f(3 := Some x)" y] o(5) by simp
qed

lemma install_std:
  assumes "f 0 \<noteq> None"
  shows "install (f(0 := None)) x = (0, f(0 := Some x))" "install (f(Suc 0 := None)) x = (1, f(Suc 0 := Some x))"
  using install_lowest [of 0 "f(0 := None)" x] install_lowest [of 1 "f(Suc 0 := None)" x] assms by (auto simp: below)

text \<open>The ends of the pipe are gone once one of them is a standard descriptor.\<close>

lemma pipe_gone:
  fixes f :: fds
  shows "f 3 = None \<Longrightarrow> f 4 = None \<Longrightarrow> d < 3 \<Longrightarrow> f(d := z, 3 := None, 4 := None) = f(d := z)"
  by (auto simp: fun_eq_iff)

text \<open>Every program that is started has exactly the standard descriptors open.\<close>

definition std_only :: "event \<Rightarrow> bool" where
  "std_only ev = (case ev of Starts p ws g \<Rightarrow> dom g = {0, 1, 2} | Says m \<Rightarrow> True)"

lemma std_only_simps: "std_only (Says m)" "std_only (Starts p ws g) \<longleftrightarrow> dom g = {0, 1, 2}"
  by (simp_all add: std_only_def)

lemma wired_std: "sayable tr \<Longrightarrow> dom f = {0, 1, 2} \<Longrightarrow> list_all std_only (wired ok tr w f)"
proof (induction tr arbitrary: w f)
  case (TRedir c q mode fd)
  have s: "nat fd < 3" "sayable c" using TRedir.prems(1) by auto
  have "list_all std_only (wired ok c (2 # w) (f(nat fd := Some (Opened q mode))))"
    by (rule TRedir.IH [OF s(2) dom_std [OF TRedir.prems(2) s(1)]])
  then show ?case by (simp add: std_only_simps)
next
  case (TPipe a b)
  have s: "sayable a" "sayable b" "0 < (3 :: nat)" "1 < (3 :: nat)" using TPipe.prems(1) by auto
  have "list_all std_only (wired ok a (0 # 2 # w) (f(1 := Some (PipeW w))))"
    "list_all std_only (wired ok b (0 # 1 # 2 # w) (f(0 := Some (PipeR w))))"
    by (rule TPipe.IH(1) [OF s(1) dom_std [OF TPipe.prems(2) s(4)]], rule TPipe.IH(2) [OF s(2) dom_std [OF TPipe.prems(2) s(3)]])
  then show ?case by (simp add: std_only_simps)
qed (simp_all add: std_only_simps)

lemma runs_panic: "runs ok (sh_panic m) w f = [Says (message m)]"
  by (simp add: sh_panic_def)

lemma runs_fork1: "runs ok (fork1 k) w f = (if ok w then runs ok (k 0) (0 # w) f @ runs ok (k 1) (1 # w) f else [Says (message ''fork'')])"
  by (simp add: fork1_def runs_panic)

lemma runs_runcmd: "dom f = {0, 1, 2} \<Longrightarrow> sayable (tree_of t c) \<Longrightarrow> runs ok (runcmd t c) w f = wired ok (tree_of t c) w f"
proof (induction c arbitrary: w f)
  case (EXEC args)
  then show ?case by (auto simp: comp_def split: list.splits)
next
  case (REDIR c q e mode fd)
  let ?f = "f(nat fd := Some (Opened (str_at t q) mode))"
  have fd: "nat fd = 0 \<and> fd = 0 \<or> nat fd = Suc 0 \<and> fd = 1" using REDIR.prems(2) by auto
  then have d: "dom ?f = {0, 1, 2}" by (intro dom_std [OF REDIR.prems(1)]) auto
  have "install (f(nat fd := None)) (Opened (str_at t q) mode) = (fd, ?f)"
    using fd install_std [where f = f, OF std_open(1) [OF REDIR.prems(1)], of "Opened (str_at t q) mode"] by (elim disjE conjE) simp_all
  moreover have "\<not> fd < 0" using fd by (elim disjE conjE) simp_all
  moreover have "runs ok (runcmd t c) (2 # w) ?f = wired ok (tree_of t c) (2 # w) ?f" using REDIR.prems(2) by (intro REDIR.IH [OF d]) simp
  ultimately show ?case by simp
next
  case (PIPE l r)
  let ?f = "f(3 := Some (PipeR w), 4 := Some (PipeW w))" and ?v = "2 # w"
  have d: "dom (f(1 := Some (PipeW w))) = {0, 1, 2}" "dom (f(0 := Some (PipeR w))) = {0, 1, 2}" by (rule dom_std [OF PIPE.prems(1)], simp)+
  have o: "?f 0 \<noteq> None" "f 3 = None" "f 4 = None" using std_open [OF PIPE.prems(1)] by auto
  have l: "runs ok (SClose 1 (SDup 4 (\<lambda>_. SClose 3 (SClose 4 (runcmd t l))))) (0 # ?v) ?f = runs ok (runcmd t l) (0 # ?v) (f(1 := Some (PipeW w)))"
    by (simp add: install_std [where f = ?f, OF o(1)] pipe_gone [where f = f, OF o(2,3)])
  have r: "runs ok (SClose 0 (SDup 3 (\<lambda>_. SClose 3 (SClose 4 (runcmd t r))))) (0 # 1 # ?v) ?f = runs ok (runcmd t r) (0 # 1 # ?v) (f(0 := Some (PipeR w)))"
    by (simp add: install_std [where f = ?f, OF o(1)] pipe_gone [where f = f, OF o(2,3)])
  have ih: "runs ok (runcmd t l) (0 # ?v) (f(1 := Some (PipeW w))) = wired ok (tree_of t l) (0 # ?v) (f(1 := Some (PipeW w)))"
    "runs ok (runcmd t r) (0 # 1 # ?v) (f(0 := Some (PipeR w))) = wired ok (tree_of t r) (0 # 1 # ?v) (f(0 := Some (PipeR w)))"
    using PIPE.prems(2) by (intro PIPE.IH(1) [OF d(1)] PIPE.IH(2) [OF d(2)]; simp)+
  have "runs ok (runcmd t (PIPE l r)) w f =
     (if \<not> ok w then [Says (message ''pipe'')]
      else if \<not> ok ?v then [Says (message ''fork'')]
      else runs ok (SClose 1 (SDup 4 (\<lambda>_. SClose 3 (SClose 4 (runcmd t l))))) (0 # ?v) ?f
        @ (if ok (1 # ?v) then runs ok (SClose 0 (SDup 3 (\<lambda>_. SClose 3 (SClose 4 (runcmd t r))))) (0 # 1 # ?v) ?f
           else [Says (message ''fork'')]))"
    by (simp add: install_pipe [OF PIPE.prems(1)] runs_fork1 runs_panic)
  then show ?case by (simp only: l r ih wired.simps tree_of.simps)
next
  case (LIST l r)
  then show ?case by (simp add: runs_fork1)
next
  case (BACK c)
  then show ?case by (simp add: runs_fork1)
qed

text \<open>C10: the shell does with a command line what the line says. The line of a command tree, written with parentheses only where the
  grammar needs them, read and run by \<^verbatim>\<open>run_line\<close> with the standard descriptors open, starts the programs of the tree, each with its
  words, with standard input and output connected through the pipes and the files of the tree, and with no other descriptor
  open. Whatever \<^verbatim>\<open>open\<close>, \<^verbatim>\<open>fork\<close>, \<^verbatim>\<open>pipe\<close> and \<^verbatim>\<open>exec\<close> fail, it prints the message for the failure and gives up what depends on
  the call, and nothing else.\<close>

theorem run_line_wired:
  assumes "sayable tr" "dom f = {0, 1, 2}"
  shows "runs ok (run_line (say tr 0)) w f = wired ok tr w f \<and> list_all std_only (wired ok tr w f)"
proof -
  obtain c t where c: "parsecmd (4 * length (say tr 0) + 4) (say tr 0) = Some (Parsed (c, t))" "tree_of t c = tr"
    using parsecmd_says [OF assms(1)] by blast
  then show ?thesis using runs_runcmd [of f t c ok w] wired_std [OF assms] assms by (simp add: run_line_def)
qed

text \<open>\<^verbatim>\<open>ls |wc >out ;(a ;b )|c &\<close>\<close>

definition line_example :: tree where
  "line_example = TList (TPipe (TExec [[108, 115]]) (TRedir (TExec [[119, 99]]) [111, 117, 116] O_WRCREATE 1))
     (TBack (TPipe (TList (TExec [[97]]) (TExec [[98]])) (TExec [[99]])))"

text \<open>It is run twice: once with nothing failing, and once when \<^verbatim>\<open>out\<close> cannot be opened.\<close>

theorem run_line_wired_witness:
  "say line_example 0 = map of_char ''ls |wc >out ;(a ;b )|c &''
   \<and> runs (\<lambda>_. True) (run_line (say line_example 0)) [] [0 \<mapsto> Given 0, 1 \<mapsto> Given 1, 2 \<mapsto> Given 2] =
     [Starts [108, 115] [[108, 115]] [0 \<mapsto> Given 0, 1 \<mapsto> PipeW [0], 2 \<mapsto> Given 2],
      Starts [119, 99] [[119, 99]] [0 \<mapsto> PipeR [0], 1 \<mapsto> Opened [111, 117, 116] O_WRCREATE, 2 \<mapsto> Given 2],
      Starts [97] [[97]] [0 \<mapsto> Given 0, 1 \<mapsto> PipeW [0, 1], 2 \<mapsto> Given 2],
      Starts [98] [[98]] [0 \<mapsto> Given 0, 1 \<mapsto> PipeW [0, 1], 2 \<mapsto> Given 2],
      Starts [99] [[99]] [0 \<mapsto> PipeR [0, 1], 1 \<mapsto> Given 1, 2 \<mapsto> Given 2]]
   \<and> runs (\<lambda>w. w \<noteq> [0, 1, 2, 0]) (run_line (say line_example 0)) [] [0 \<mapsto> Given 0, 1 \<mapsto> Given 1, 2 \<mapsto> Given 2] =
     [Starts [108, 115] [[108, 115]] [0 \<mapsto> Given 0, 1 \<mapsto> PipeW [0], 2 \<mapsto> Given 2],
      Says (map of_char ''open out failed'' @ [10]),
      Starts [97] [[97]] [0 \<mapsto> Given 0, 1 \<mapsto> PipeW [0, 1], 2 \<mapsto> Given 2],
      Starts [98] [[98]] [0 \<mapsto> Given 0, 1 \<mapsto> PipeW [0, 1], 2 \<mapsto> Given 2],
      Starts [99] [[99]] [0 \<mapsto> PipeR [0, 1], 1 \<mapsto> Given 1, 2 \<mapsto> Given 2]]"
proof -
  have s: "sayable line_example" by (simp add: line_example_def proper_def word_char_def MAXARGS_def)
  have d: "dom [0 \<mapsto> Given 0, 1 \<mapsto> Given 1, 2 \<mapsto> Given 2] = {0, 1, 2 :: nat}" by auto
  note r = run_line_wired [OF s d, where w = "[]", THEN conjunct1]
  have "say line_example 0 = map of_char ''ls |wc >out ;(a ;b )|c &''"
    by (simp add: line_example_def paren_def block_def spell_words_def spell_redir_def)
  then show ?thesis
    unfolding r by (simp add: line_example_def fun_upd_twist failed_def message_def)
qed

end
