(* ===== verification/ShFds.thy ===== *)
theory ShFds
  imports ShRun Sysfile
begin

text \<open>
  The descriptors of the shell's programs and those of the kernel: what \<open>runs\<close> does when a call takes a descriptor is what
  \<^verbatim>\<open>fdalloc\<close> does to the table of open files of the process.
\<close>

text \<open>The open files of a process, with \<open>g\<close> saying what a slot of the file table is.\<close>

definition fds_of :: "(nat \<Rightarrow> obj) \<Rightarrow> nat option list \<Rightarrow> fds" where
  "fds_of g fs = (\<lambda>n. if n < length fs then map_option g (fs ! n) else None)"

lemma find_first_idx: "find (\<lambda>n. P (xs ! n)) [0..<length xs] = first_idx P xs"
proof (cases "first_idx P xs")
  case None
  then have "\<forall>n < length xs. \<not> P (xs ! n)" by (auto simp: first_idx_None)
  then show ?thesis using None by (auto simp: find_None_iff)
next
  case (Some i)
  then have "i < length xs" "P (xs ! i)" "\<And>j. j < i \<Longrightarrow> \<not> P (xs ! j)" by (auto simp: first_idx_Some)
  then have "find (\<lambda>n. P (xs ! n)) [0..<length xs] = Some i" by (intro find_upt)
  with Some show ?thesis by simp
qed

lemma lowest_first:
  assumes "length fs = NOFILE"
  shows "lowest (fds_of g fs) = first_idx (\<lambda>x. x = None) fs"
proof -
  have "find (\<lambda>n. fds_of g fs n = None) [0..<16] = find (\<lambda>n. fs ! n = None) [0..<length fs]"
    using assms by (intro find_cong) (auto simp: fds_of_def NOFILE_def)
  then show ?thesis by (simp add: lowest_def find_first_idx [where P = "\<lambda>x. x = None"])
qed

lemma fds_of_upd: "n < length fs \<Longrightarrow> fds_of g (fs[n := Some x]) = (fds_of g fs)(n := Some (g x))"
  by (auto simp: fds_of_def fun_eq_iff nth_list_update)

lemma fdalloc_installs:
  assumes "cur s = Some me" "me < length (procs s)" "length (ofile (procs s ! me)) = NOFILE"
  shows "\<exists>r s'. fdalloc x s = Ret r s'
    \<and> install (fds_of g (ofile (procs s ! me))) (g x)
      = ((case r of Some fd \<Rightarrow> int fd | None \<Rightarrow> -1), fds_of g (ofile (procs s' ! me)))"
proof (cases "first_idx (\<lambda>x. x = None) (ofile (procs s ! me))")
  case None
  then show ?thesis using assms by (simp add: fdalloc_def install_def lowest_first)
next
  case (Some n)
  then have "n < length (ofile (procs s ! me))" by (rule first_idx_bound)
  then show ?thesis using assms Some by (simp add: fdalloc_def install_def lowest_first set_ofile_def fds_of_upd thn_Ret)
qed

end
