(* ===== verification/Spec2Isabelle.thy ===== *)
theory Spec2Isabelle
  imports VmProps Printf Grep Pids Wakeup Sysproc Pipe ConsoleProps LogProps LogSpace ReadWrite Process ShFds
begin

text \<open>
  A verification development for the xv6 kernel and its shell, the C code under \<^verbatim>\<open>src/xv6-public\<close> (file names below are relative to it).

  \<^bold>\<open>The program.\<close> Processes enter the kernel through traps (\<^verbatim>\<open>trap.c\<close>), which dispatch system calls (\<^verbatim>\<open>syscall.c\<close>, \<^verbatim>\<open>sysproc.c\<close>, \<^verbatim>\<open>sysfile.c\<close>)
  and interrupts. Below them are processes and the priority scheduler (\<^verbatim>\<open>proc.c\<close>), page tables (\<^verbatim>\<open>vm.c\<close>) over a page allocator (\<^verbatim>\<open>kalloc.c\<close>), pipes
  (\<^verbatim>\<open>pipe.c\<close>), the console (\<^verbatim>\<open>console.c\<close>, \<^verbatim>\<open>kbd.c\<close>, \<^verbatim>\<open>uart.c\<close>), and the file system, in layers: the disk (\<^verbatim>\<open>memide.c\<close>), the buffer cache
  (\<^verbatim>\<open>bio.c\<close>), the log (\<^verbatim>\<open>log.c\<close>), blocks, inodes, directories and paths (\<^verbatim>\<open>fs.c\<close>), and open files (\<^verbatim>\<open>file.c\<close>). Spin locks (\<^verbatim>\<open>spinlock.c\<close>) and sleep locks (\<^verbatim>\<open>sleeplock.c\<close>)
  protect them. User programs use the library (\<^verbatim>\<open>ulib.c\<close>, \<^verbatim>\<open>printf.c\<close>); the shell (\<^verbatim>\<open>sh.c\<close>), \<^verbatim>\<open>grep.c\<close> and \<^verbatim>\<open>wc.c\<close> are modelled as well. This
  tree adds priorities with \<^verbatim>\<open>setpriority\<close>, the calls \<^verbatim>\<open>getmemsize\<close>, \<^verbatim>\<open>getvpages\<close>, \<^verbatim>\<open>getptentries\<close>, \<^verbatim>\<open>getfsinfo\<close> and \<^verbatim>\<open>shutdown\<close>.

  \<^bold>\<open>How it is modelled.\<close> Kernel code is a function from the kernel state to a result (\<^verbatim>\<open>Prelude\<close>): it returns a value with a new state, or stops, with
  \<^verbatim>\<open>Panic\<close>, with \<^verbatim>\<open>Spin\<close> when it waits for a lock of another processor, or with \<^verbatim>\<open>Sleeping\<close> when the process gives up the processor. What a process
  does after it was switched back is a definition of its own (\<^verbatim>\<open>sleep_woken\<close>, \<^verbatim>\<open>acquiresleep_loop\<close>, \<^verbatim>\<open>begin_op_loop\<close>, \<^verbatim>\<open>pipewrite_loop\<close>, \<^verbatim>\<open>piperead_loop\<close>, \<^verbatim>\<open>trap_resumed\<close>). The state is a chain of
  extensible records, \<^verbatim>\<open>mach\<close>, \<^verbatim>\<open>phys\<close>, \<^verbatim>\<open>ptab\<close>, \<^verbatim>\<open>pipest\<close>, \<^verbatim>\<open>consst\<close>, \<^verbatim>\<open>biost\<close>, \<^verbatim>\<open>logst\<close>, \<^verbatim>\<open>fsst\<close>, \<^verbatim>\<open>filest\<close>, in the order in which the components build on each other, so each definition
  works on every larger state. C integers are words of their width, and \<^verbatim>\<open>int\<close> where the code stays within its range. Pointers into an array are
  indices; pointers to pages and to user memory are addresses, and user memory is read through the page tables.

  \<^bold>\<open>Theories.\<close>
  \<^item> \<^verbatim>\<open>Prelude\<close>: results, combinators, the collections \<^verbatim>\<open>exec\<close> (running code) and \<^verbatim>\<open>pres\<close> (what code keeps).
  \<^item> \<^verbatim>\<open>Spinlock\<close> (\<^verbatim>\<open>spinlock.c\<close>): the lock code of one processor, shown to implement an abstract lock, which all other components use; the contract is the locale
    \<^verbatim>\<open>spin_contract\<close>, interpreted on both. The interleaving of many processors is the step relation \<^verbatim>\<open>spin_step\<close>, with mutual exclusion.
  \<^item> \<^verbatim>\<open>Phys\<close>, \<^verbatim>\<open>Kalloc\<close> (\<^verbatim>\<open>mmu.h\<close>, \<^verbatim>\<open>memlayout.h\<close>, \<^verbatim>\<open>kalloc.c\<close>): memory as words; the free list in the free pages is a stack (locale \<^verbatim>\<open>page_allocator\<close>).
  \<^item> \<^verbatim>\<open>Vm\<close>, \<^verbatim>\<open>Uvm\<close>, \<^verbatim>\<open>UvmAlloc\<close>, \<^verbatim>\<open>VmProps\<close> (\<^verbatim>\<open>vm.c\<close>): page tables as partial maps from pages to frames and permissions; mapping, growing, shrinking and freeing.
  \<^item> \<^verbatim>\<open>CString\<close>, \<^verbatim>\<open>Printf\<close>, \<^verbatim>\<open>Grep\<close> (\<^verbatim>\<open>string.c\<close>, \<^verbatim>\<open>ulib.c\<close>, \<^verbatim>\<open>printf.c\<close>, \<^verbatim>\<open>grep.c\<close>, \<^verbatim>\<open>wc.c\<close>): strings, formatted output, matching and counting.
  \<^item> \<^verbatim>\<open>Proc\<close>, \<^verbatim>\<open>ProcInv\<close>, \<^verbatim>\<open>ProcProps\<close>, \<^verbatim>\<open>Pids\<close>, \<^verbatim>\<open>Wakeup\<close> (\<^verbatim>\<open>proc.c\<close>): the process table, the scheduler with priorities, sleeping and waking. The operations on the table are the steps of
    \<^verbatim>\<open>ptab_step\<close>, with an invariant of all tables they reach (\<^verbatim>\<open>Pids\<close>); \<^verbatim>\<open>Wakeup\<close> interleaves the statements of \<^verbatim>\<open>sleep\<close> and \<^verbatim>\<open>wakeup\<close> (\<^verbatim>\<open>sleep_code\<close>, \<^verbatim>\<open>wakeup_code\<close>) on many processors.
  \<^item> \<^verbatim>\<open>Sysproc\<close> (\<^verbatim>\<open>syscall.c\<close>, \<^verbatim>\<open>sysproc.c\<close>): arguments of system calls, and those about processes.
  \<^item> \<^verbatim>\<open>Ring\<close>, \<^verbatim>\<open>Pipe\<close>, \<^verbatim>\<open>Kbd\<close>, \<^verbatim>\<open>Console\<close>, \<^verbatim>\<open>ConsoleProps\<close> (\<^verbatim>\<open>pipe.c\<close>, \<^verbatim>\<open>kbd.c\<close>, \<^verbatim>\<open>uart.c\<close>, \<^verbatim>\<open>console.c\<close>): ring buffers (locale \<^verbatim>\<open>ring_size\<close>, interpreted for pipes and for the console input) as
    queues, pipes and the line editor.
  \<^item> \<^verbatim>\<open>Bytes\<close>, \<^verbatim>\<open>Bio\<close>, \<^verbatim>\<open>BioProps\<close> (\<^verbatim>\<open>sleeplock.c\<close>, \<^verbatim>\<open>memide.c\<close>, \<^verbatim>\<open>bio.c\<close>): the cache is transparent; \<^verbatim>\<open>blk\<close> is the contents of a block as seen through it.
  \<^item> \<^verbatim>\<open>Log\<close>, \<^verbatim>\<open>LogProps\<close>, \<^verbatim>\<open>LogSpace\<close> (\<^verbatim>\<open>log.c\<close>): a commit is atomic under crashes; the reservation of log space, where it is enough and where it is not.
  \<^item> \<^verbatim>\<open>Trans\<close>: the contract of a transaction for the code above it (\<^verbatim>\<open>tx_ok\<close>, \<^verbatim>\<open>tx_frame\<close>, and lemmas for reading and for changing a block).
  \<^item> \<^verbatim>\<open>Fs\<close>, \<^verbatim>\<open>Inode\<close>, \<^verbatim>\<open>Dir\<close>, \<^verbatim>\<open>Bitmap\<close>, \<^verbatim>\<open>Contents\<close>, \<^verbatim>\<open>ReadWrite\<close> (\<^verbatim>\<open>fs.c\<close>): the file system, with theorems about allocating, freeing and counting blocks (\<^verbatim>\<open>Bitmap\<close>), about
    the blocks of a file (\<^verbatim>\<open>Contents\<close>: the pointers as a function, and what \<^verbatim>\<open>bmap\<close> adds to it) and about its bytes (\<^verbatim>\<open>ReadWrite\<close>: \<^verbatim>\<open>writei\<close>, \<^verbatim>\<open>readi\<close>, and the inode on the disk).
  \<^item> \<^verbatim>\<open>File\<close>, \<^verbatim>\<open>Sysfile\<close>, \<^verbatim>\<open>Exec\<close>, \<^verbatim>\<open>Process\<close> (\<^verbatim>\<open>file.c\<close>, \<^verbatim>\<open>sysfile.c\<close>, \<^verbatim>\<open>exec.c\<close>, the rest of \<^verbatim>\<open>proc.c\<close> and \<^verbatim>\<open>syscall.c\<close>, \<^verbatim>\<open>trap.c\<close>): open files, the file system calls, loading programs, \<^verbatim>\<open>fork\<close>, \<^verbatim>\<open>exit\<close>, the table of
    system calls and the trap handler, as definitions on the whole kernel state.
  \<^item> \<^verbatim>\<open>Sh\<close>, \<^verbatim>\<open>ShProps\<close>, \<^verbatim>\<open>ShTrip\<close>, \<^verbatim>\<open>ShLine\<close>, \<^verbatim>\<open>ShRun\<close>, \<^verbatim>\<open>ShFds\<close> (\<^verbatim>\<open>sh.c\<close>): tokens, the parser and what a command does, as a tree of system calls; the parser ends, it reads back every
    command, with parentheses around all parts (\<^verbatim>\<open>ShTrip\<close>) or only where the grammar needs them (\<^verbatim>\<open>ShLine\<close>), and running a line connects its programs as the line says, whichever
    calls fail (\<^verbatim>\<open>ShRun\<close>). \<^verbatim>\<open>ShFds\<close> relates the descriptors to \<^verbatim>\<open>fdalloc\<close>.

  \<^bold>\<open>What is shown.\<close> Refinements: locks, the page allocator, page tables, pipes and the console editor implement abstract objects, and the shell implements its
  language. Contents: files have the bytes that were written to them. Safety: mutual exclusion, distinct pages, unique process ids, strict priority, atomic commits, bounds of user pointers. Liveness: no
  wakeup is lost, and processes of the best priority take turns. Errors: the panics and failures of each operation are part of its theorem, and
  \<^verbatim>\<open>log_space_short\<close> and \<^verbatim>\<open>kill_zero_marks_next\<close> show two defects: the log that \<^verbatim>\<open>mkfs.c\<close> makes is one block smaller than \<^verbatim>\<open>begin_op\<close> assumes, and \<^verbatim>\<open>kill(0)\<close> marks
  a free slot of the process table.

  \<^bold>\<open>Bounds.\<close> Loops over addresses have fuel \<open>2 ^ 20\<close>, the number of pages of the address space, and the theorems show that the
  code returns. The loop of the console interrupt has the number of waiting bytes as fuel. The parser of the shell has the depth of its calls, and \<^verbatim>\<open>parsecmd_ends\<close>
  shows that four times the length of the line and four are enough. The scheduler runs a given number of rounds. The theorems about files count
  room in the cache and in the log: six blocks for each block written, and one for the inode.

  \<^bold>\<open>Assumed.\<close> Addresses that the linker chooses, the size of the disk image and what a process does while it runs (\<^verbatim>\<open>swtch\<close>) are parameters. A crash keeps the blocks written so
  far, in the order of the writes, and no partial block. The theorems about the file system are about one processor that runs one
  system call at a time between its sleeps. In \<^verbatim>\<open>ShRun\<close> an argument of the model says which system calls of the shell fail.

  \<^bold>\<open>Not modelled.\<close> Boot code and \<^verbatim>\<open>main.c\<close>, the assembly files, the interrupt controllers, the timer and the tables of the firmware (\<^verbatim>\<open>lapic.c\<close>, \<^verbatim>\<open>ioapic.c\<close>, \<^verbatim>\<open>picirq.c\<close>,
  \<^verbatim>\<open>mp.c\<close>) work on device registers and on the machine before the kernel state exists. \<^verbatim>\<open>ide.c\<close> is replaced by \<^verbatim>\<open>memide.c\<close>, the other driver of the tree with the same
  interface. \<^verbatim>\<open>seginit\<close> and \<^verbatim>\<open>kvmalloc\<close> of \<^verbatim>\<open>vm.c\<close>, \<^verbatim>\<open>uartinit\<close> and \<^verbatim>\<open>idtinit\<close> program the processor and a chip. \<^verbatim>\<open>mkfs.c\<close> is a program of the build host; its layout enters as
  examples. The two messages of \<^verbatim>\<open>allocuvm\<close> are not printed, since the page tables come before the console in the state, and \<^verbatim>\<open>get_fs_stats\<close> stores its counters when it is done. \<^verbatim>\<open>umalloc.c\<close> and the loop of the shell that opens the console are left out, and so are the small commands and the test programs, which call the modelled system
  calls and keep no state.
\<close>

end
